(* ===== verification/Prelude.thy ===== *)
theory Prelude
  imports Main "HOL-Library.Word" "HOL-Library.List_Lexorder" "HOL-Library.Monad_Syntax"
begin

text \<open>
  What every theory of the development shares: the names of the C integer types (the program is
  compiled for a 64-bit little-endian machine, so \<open>unsigned long\<close> is 64 bits wide), the lemma
  collections, and generic lemmas on options and lists.

  A computation that the C program does not survive (a \<open>BUG_ON\<close> that fires, an access through a
  bad pointer or outside an object, a loop that never ends) is the value \<^term>\<open>None\<close>; a computation
  that comes back is \<open>Some\<close> of what it returns and the new state.
\<close>

type_synonym u8 = "8 word"
type_synonym u16 = "16 word"
type_synonym u32 = "32 word"
type_synonym u64 = "64 word"
type_synonym ulong = "64 word"

text \<open>
  \<open>slot_simps\<close>: how the accessors of a tree node act on its slots.
  \<open>put_simps\<close>: how a store into one node is seen from the same and from another node.
\<close>

named_theorems slot_simps
named_theorems put_simps

section \<open>Lists\<close>

lemma nth_append_pad:
  "i < length xs \<Longrightarrow> (xs @ ys) ! i = xs ! i"
  by (simp add: nth_append)

lemma list_update_append_right:
  "length xs \<le> i \<Longrightarrow> (xs @ ys)[i := y] = xs @ ys[i - length xs := y]"
  by (simp add: list_update_append)

lemma take_Suc_upd:
  "i < length xs \<Longrightarrow> take (Suc i) (xs[i := x]) = take i xs @ [x]"
  by (simp add: take_Suc_conv_app_nth)

lemma length_takeWhile_eq:
  assumes "i \<le> length xs" "\<forall>j<i. P (xs ! j)" "i < length xs \<Longrightarrow> \<not> P (xs ! i)"
  shows "length (takeWhile P xs) = i"
proof (cases "i < length xs")
  case True
  with assms have "takeWhile P xs = take i xs"
    by (intro takeWhile_eq_take_P_nth) auto
  with True show ?thesis by simp
next
  case False
  with assms have "i = length xs" by simp
  with assms(2) have "takeWhile P xs = xs"
    by (metis in_set_conv_nth takeWhile_eq_all_conv)
  with \<open>i = length xs\<close> show ?thesis by metis
qed

lemma takeWhile_nth_P: "i < length (takeWhile P xs) \<Longrightarrow> P (xs ! i)"
  by (metis nth_mem set_takeWhileD takeWhile_nth)

lemma sorted_wrt_nthD:
  "sorted_wrt R xs \<Longrightarrow> i < j \<Longrightarrow> j < length xs \<Longrightarrow> R (xs ! i) (xs ! j)"
  by (simp add: sorted_wrt_iff_nth_less)

lemma split_at: "i < length xs \<Longrightarrow> xs = take i xs @ xs ! i # drop (Suc i) xs"
  by (simp add: id_take_nth_drop)

section \<open>Options\<close>

lemma bind_SomeI: "m = Some x \<Longrightarrow> f x = Some y \<Longrightarrow> Option.bind m f = Some y"
  by simp

lemma bind_bind_Some: "Option.bind m f = Some x \<Longrightarrow> Option.bind m (\<lambda>y. Option.bind (f y) g) = g x"
  by (cases m) auto

end
