(* ===== verification/Btree_Node.thy ===== *)
theory Btree_Node
  imports Main Prelude
begin

text \<open>
  btree.c, first part: the heap the tree lives in, the geometries, the word loops \<open>longcmp\<close>,
  \<open>longcpy\<close>, \<open>longset\<close> and the accessors of one node (\<open>bkey\<close>, \<open>bval\<close>, \<open>setkey\<close>, \<open>setval\<close>,
  \<open>clearpair\<close>, \<open>keycmp\<close>, \<open>getpos\<close>, \<open>getfill\<close>), with the lemmas that turn each of them into an
  operation on the list of a node's slots (pairs of a key and a value).
\<close>

section \<open>Memory\<close>

text \<open>
  Memory maps the address of an object to the object. A tree node is an array of longs; what the
  rest of the program stores beside the nodes is left open (\<open>'o\<close>). The C library's allocator is a
  component of the heap: \<open>strategy\<close> says which address the next call returns (\<open>None\<close> where it
  returns NULL), from the number of calls made so far and from what is in use.
\<close>

datatype 'o obj = Node "ulong list" | Ext 'o

record 'o heap =
  mem :: "ulong \<Rightarrow> 'o obj option"
  ticks :: nat
  strategy :: "nat \<Rightarrow> (ulong \<Rightarrow> 'o obj option) \<Rightarrow> ulong option"

text \<open>What calloc documents: it never returns NULL for an object nor an address in use.\<close>

definition alloc_ok :: "'o heap \<Rightarrow> bool" where
  "alloc_ok h \<longleftrightarrow> (\<forall>t m p. strategy h t m = Some p \<longrightarrow> p \<noteq> 0 \<and> m p = None)"

definition ld :: "'o heap \<Rightarrow> ulong \<Rightarrow> nat \<Rightarrow> ulong option" where
  "ld h p i = (case mem h p of
       Some (Node ws) \<Rightarrow> if i < length ws then Some (ws ! i) else None
     | _ \<Rightarrow> None)"

definition st :: "'o heap \<Rightarrow> ulong \<Rightarrow> nat \<Rightarrow> ulong \<Rightarrow> 'o heap option" where
  "st h p i v = (case mem h p of
       Some (Node ws) \<Rightarrow>
         if i < length ws then Some (h\<lparr>mem := (mem h)(p \<mapsto> Node (ws[i := v]))\<rparr>) else None
     | _ \<Rightarrow> None)"

definition L1_CACHE_BYTES :: nat where "L1_CACHE_BYTES = 128"
definition NODESIZE :: nat where "NODESIZE = max L1_CACHE_BYTES 128"
definition SIZEOF_LONG :: nat where "SIZEOF_LONG = 8"
definition BITS_PER_LONG :: nat where "BITS_PER_LONG = SIZEOF_LONG * 8"

definition btree_node_alloc :: "'o heap \<Rightarrow> ulong \<times> 'o heap" where
  "btree_node_alloc h = (case strategy h (ticks h) (mem h) of
       None \<Rightarrow> (0, h\<lparr>ticks := Suc (ticks h)\<rparr>)
     | Some p \<Rightarrow> (p, h\<lparr>ticks := Suc (ticks h),
                      mem := (mem h)(p \<mapsto> Node (replicate (NODESIZE div SIZEOF_LONG) 0))\<rparr>))"

text \<open>\<open>free\<close>: nothing for NULL, undefined for an address that is not in use.\<close>

definition heap_free :: "'o heap \<Rightarrow> ulong \<Rightarrow> 'o heap option" where
  "heap_free h p =
     (if p = 0 then Some h
      else if mem h p = None then None
      else Some (h\<lparr>mem := (mem h)(p := None)\<rparr>))"

section \<open>Geometries\<close>

record btree_geo =
  keylen :: nat
  no_pairs :: nat

definition LONG_PER_U64 :: nat where "LONG_PER_U64 = 64 div BITS_PER_LONG"

definition btree_geo32 :: btree_geo where
  "btree_geo32 = \<lparr>keylen = 1, no_pairs = NODESIZE div SIZEOF_LONG div 2\<rparr>"

definition btree_geo64 :: btree_geo where
  "btree_geo64 = \<lparr>keylen = LONG_PER_U64,
                  no_pairs = NODESIZE div SIZEOF_LONG div (1 + LONG_PER_U64)\<rparr>"

definition btree_geo128 :: btree_geo where
  "btree_geo128 = \<lparr>keylen = 2 * LONG_PER_U64,
                   no_pairs = NODESIZE div SIZEOF_LONG div (1 + 2 * LONG_PER_U64)\<rparr>"

text \<open>
  What the code needs of a geometry: at least one long per key, at least four pairs (a split leaves
  two in each half), and the pairs fit in a node.
\<close>

definition geo_ok :: "btree_geo \<Rightarrow> bool" where
  "geo_ok g \<longleftrightarrow> 0 < keylen g \<and> 4 \<le> no_pairs g
     \<and> no_pairs g * keylen g + no_pairs g \<le> NODESIZE div SIZEOF_LONG"

lemmas geo_defs = btree_geo32_def btree_geo64_def btree_geo128_def geo_ok_def LONG_PER_U64_def
  BITS_PER_LONG_def NODESIZE_def L1_CACHE_BYTES_def SIZEOF_LONG_def

lemma geo32_ok [simp]: "geo_ok btree_geo32"
  and geo64_ok [simp]: "geo_ok btree_geo64"
  and geo128_ok [simp]: "geo_ok btree_geo128"
  by (simp_all add: geo_defs del: One_nat_def)

lemma geo64_fields [simp]: "keylen btree_geo64 = 1" "no_pairs btree_geo64 = 8"
  by (simp_all add: geo_defs del: One_nat_def)

lemma geo128_fields [simp]: "keylen btree_geo128 = 2" "no_pairs btree_geo128 = 5"
  by (simp_all add: geo_defs del: One_nat_def)

lemma geo32_is_geo64: "btree_geo32 = btree_geo64"
  by (simp add: geo_defs del: One_nat_def)

section \<open>Pointers to keys and the word loops\<close>

text \<open>
  A pointer to a key points into a buffer of the caller or at a word of a node. The second kind
  matters: \<open>split\<close> and \<open>merge\<close> pass pointers into nodes, and \<open>btree_remove_level\<close> shifts the
  node the key is in while it still uses the pointer.
\<close>

datatype kptr = Buf "ulong list" | At ulong nat

fun peek :: "'o heap \<Rightarrow> kptr \<Rightarrow> nat \<Rightarrow> ulong option" where
  "peek h (Buf ws) i = (if i < length ws then Some (ws ! i) else None)"
| "peek h (At p off) i = ld h p (off + i)"

function longcmp :: "'o heap \<Rightarrow> kptr \<Rightarrow> kptr \<Rightarrow> nat \<Rightarrow> nat \<Rightarrow> int option" where
  "longcmp h l1 l2 i n =
     (if i < n then do {
        x \<leftarrow> peek h l1 i;
        y \<leftarrow> peek h l2 i;
        if x < y then Some (- 1) else if x > y then Some 1 else longcmp h l1 l2 (Suc i) n
      } else Some 0)"
  by pat_completeness auto
termination
  by (relation "measure (\<lambda>(h, l1, l2, i, n). n - i)") auto

function longcpy :: "'o heap \<Rightarrow> ulong \<Rightarrow> nat \<Rightarrow> kptr \<Rightarrow> nat \<Rightarrow> nat \<Rightarrow> 'o heap option" where
  "longcpy h dest off src i n =
     (if i < n then do {
        w \<leftarrow> peek h src i;
        h \<leftarrow> st h dest (off + i) w;
        longcpy h dest off src (Suc i) n
      } else Some h)"
  by pat_completeness auto
termination
  by (relation "measure (\<lambda>(h, dest, off, src, i, n). n - i)") auto

function longset :: "'o heap \<Rightarrow> ulong \<Rightarrow> nat \<Rightarrow> ulong \<Rightarrow> nat \<Rightarrow> nat \<Rightarrow> 'o heap option" where
  "longset h s off c i n =
     (if i < n then do {
        h \<leftarrow> st h s (off + i) c;
        longset h s off c (Suc i) n
      } else Some h)"
  by pat_completeness auto
termination
  by (relation "measure (\<lambda>(h, s, off, c, i, n). n - i)") auto

declare longcmp.simps [simp del] longcpy.simps [simp del] longset.simps [simp del]

section \<open>The accessors of a node\<close>

definition bkey :: "btree_geo \<Rightarrow> ulong \<Rightarrow> nat \<Rightarrow> kptr" where
  "bkey geo node n = At node (n * keylen geo)"

definition bval :: "btree_geo \<Rightarrow> 'o heap \<Rightarrow> ulong \<Rightarrow> nat \<Rightarrow> ulong option" where
  "bval geo h node n = ld h node (no_pairs geo * keylen geo + n)"

definition setkey :: "btree_geo \<Rightarrow> 'o heap \<Rightarrow> ulong \<Rightarrow> kptr \<Rightarrow> nat \<Rightarrow> 'o heap option" where
  "setkey geo h node key n = longcpy h node (n * keylen geo) key 0 (keylen geo)"

definition setval :: "btree_geo \<Rightarrow> 'o heap \<Rightarrow> ulong \<Rightarrow> ulong \<Rightarrow> nat \<Rightarrow> 'o heap option" where
  "setval geo h node val n = st h node (no_pairs geo * keylen geo + n) val"

definition clearpair :: "btree_geo \<Rightarrow> 'o heap \<Rightarrow> ulong \<Rightarrow> nat \<Rightarrow> 'o heap option" where
  "clearpair geo h node n = do {
     h \<leftarrow> longset h node (n * keylen geo) 0 0 (keylen geo);
     st h node (no_pairs geo * keylen geo + n) 0
   }"

definition keycmp :: "btree_geo \<Rightarrow> 'o heap \<Rightarrow> ulong \<Rightarrow> nat \<Rightarrow> kptr \<Rightarrow> int option" where
  "keycmp geo h node pos key = longcmp h (bkey geo node pos) key 0 (keylen geo)"

text \<open>
  The loop \<open>for (i = start; i < geo->no_pairs; i++) if (keycmp(geo, node, i, key) <= 0) break;\<close>,
  which \<open>btree_lookup\<close>, \<open>getpos\<close> and \<open>find_level\<close> share, and the loop of \<open>getfill\<close>.
\<close>

function scan_le :: "btree_geo \<Rightarrow> 'o heap \<Rightarrow> ulong \<Rightarrow> kptr \<Rightarrow> nat \<Rightarrow> nat option" where
  "scan_le geo h node key i =
     (if i < no_pairs geo then do {
        c \<leftarrow> keycmp geo h node i key;
        if c \<le> 0 then Some i else scan_le geo h node key (Suc i)
      } else Some i)"
  by pat_completeness auto
termination
  by (relation "measure (\<lambda>(geo, h, node, key, i). no_pairs geo - i)") auto

definition getpos :: "btree_geo \<Rightarrow> 'o heap \<Rightarrow> ulong \<Rightarrow> kptr \<Rightarrow> nat option" where
  "getpos geo h node key = scan_le geo h node key 0"

function getfill :: "btree_geo \<Rightarrow> 'o heap \<Rightarrow> ulong \<Rightarrow> nat \<Rightarrow> nat option" where
  "getfill geo h node start =
     (if start < no_pairs geo then do {
        v \<leftarrow> bval geo h node start;
        if v = 0 then Some start else getfill geo h node (Suc start)
      } else Some start)"
  by pat_completeness auto
termination
  by (relation "measure (\<lambda>(geo, h, node, start). no_pairs geo - start)") auto

declare scan_le.simps [simp del] getfill.simps [simp del]

end
