(* ===== verification/Btree.thy ===== *)
theory Btree
  imports Main Btree_Node
begin

text \<open>
  btree.c, second part: the operations on a tree, translated function by function. A tree is a
  \<open>btree_head\<close> (the root and the height) and the nodes in the heap; every operation takes both and
  returns both where it can change them. \<open>head\<close>, \<open>geo\<close>, \<open>level\<close> arguments that a C function takes
  and never reads are left out.

  Errors are the C values: \<open>0\<close>, or \<open>- ENOMEM\<close> where the allocator returned NULL.
\<close>

record btree_head =
  bh_node :: ulong
  bh_height :: nat

definition ENOMEM :: int where "ENOMEM = 12"

definition btree_init :: btree_head where
  "btree_init = \<lparr>bh_node = 0, bh_height = 0\<rparr>"

section \<open>Loops that move pairs\<close>

text \<open>
  The two statements \<open>setkey(geo, dst, bkey(geo, src, i), j); setval(geo, dst, bval(geo, src, i), j)\<close>,
  and the loops over them: upwards, downwards, and the clearing loop.
\<close>

definition copypair :: "btree_geo \<Rightarrow> 'o heap \<Rightarrow> ulong \<Rightarrow> nat \<Rightarrow> ulong \<Rightarrow> nat \<Rightarrow> 'o heap option" where
  "copypair geo h src i dst j = do {
     h \<leftarrow> setkey geo h dst (bkey geo src i) j;
     v \<leftarrow> bval geo h src i;
     setval geo h dst v j
   }"

primrec copy_up :: "btree_geo \<Rightarrow> ulong \<Rightarrow> nat \<Rightarrow> ulong \<Rightarrow> nat \<Rightarrow> nat \<Rightarrow> 'o heap \<Rightarrow> 'o heap option" where
  "copy_up geo src i dst j 0 h = Some h"
| "copy_up geo src i dst j (Suc n) h = do {
     h \<leftarrow> copy_up geo src i dst j n h;
     copypair geo h src (i + n) dst (j + n)
   }"

primrec copy_down :: "btree_geo \<Rightarrow> ulong \<Rightarrow> nat \<Rightarrow> nat \<Rightarrow> nat \<Rightarrow> 'o heap \<Rightarrow> 'o heap option" where
  "copy_down geo node i j 0 h = Some h"
| "copy_down geo node i j (Suc n) h = do {
     h \<leftarrow> copypair geo h node (i + n) node (j + n);
     copy_down geo node i j n h
   }"

primrec clear_up :: "btree_geo \<Rightarrow> ulong \<Rightarrow> nat \<Rightarrow> nat \<Rightarrow> 'o heap \<Rightarrow> 'o heap option" where
  "clear_up geo node i 0 h = Some h"
| "clear_up geo node i (Suc n) h = do {
     h \<leftarrow> clear_up geo node i n h;
     clearpair geo h node (i + n)
   }"

section \<open>Lookup\<close>

primrec last_loop :: "btree_geo \<Rightarrow> 'o heap \<Rightarrow> nat \<Rightarrow> ulong \<Rightarrow> ulong option" where
  "last_loop geo h 0 node = Some node"
| "last_loop geo h (Suc n) node = do {
     child \<leftarrow> bval geo h node 0;
     last_loop geo h n child
   }"

text \<open>The result is a pointer: \<open>Some None\<close> is the NULL the code returns for an empty tree.\<close>

definition btree_last :: "btree_geo \<Rightarrow> 'o heap \<Rightarrow> btree_head \<Rightarrow> kptr option option" where
  "btree_last geo h head =
     (if bh_height head = 0 then Some None
      else do {
        node \<leftarrow> last_loop geo h (bh_height head - 1) (bh_node head);
        Some (Some (bkey geo node 0))
      })"

text \<open>Descent to the leaf; the result NULL (0) is also what an early \<open>return NULL\<close> gives.\<close>

primrec lookup_loop :: "btree_geo \<Rightarrow> 'o heap \<Rightarrow> kptr \<Rightarrow> nat \<Rightarrow> ulong \<Rightarrow> ulong option" where
  "lookup_loop geo h key 0 node = Some node"
| "lookup_loop geo h key (Suc n) node = do {
     i \<leftarrow> scan_le geo h node key 0;
     if i = no_pairs geo then Some 0
     else do {
       child \<leftarrow> bval geo h node i;
       if child = 0 then Some 0 else lookup_loop geo h key n child
     }
   }"

function lookup_leaf :: "btree_geo \<Rightarrow> 'o heap \<Rightarrow> kptr \<Rightarrow> ulong \<Rightarrow> nat \<Rightarrow> ulong option" where
  "lookup_leaf geo h key node i =
     (if i < no_pairs geo then do {
        c \<leftarrow> keycmp geo h node i key;
        if c = 0 then bval geo h node i else lookup_leaf geo h key node (Suc i)
      } else Some 0)"
  by pat_completeness auto
termination
  by (relation "measure (\<lambda>(geo, h, key, node, i). no_pairs geo - i)") auto

declare lookup_leaf.simps [simp del]

definition btree_lookup :: "btree_geo \<Rightarrow> 'o heap \<Rightarrow> btree_head \<Rightarrow> kptr \<Rightarrow> ulong option" where
  "btree_lookup geo h head key =
     (if bh_height head = 0 then Some 0
      else do {
        node \<leftarrow> lookup_loop geo h key (bh_height head - 1) (bh_node head);
        if node = 0 then Some 0 else lookup_leaf geo h key node 0
      })"

section \<open>Descent with update, growing and shrinking\<close>

text \<open>
  One turn of the loop of \<open>find_level\<close>. Where the key is smaller than every key of the node, the
  right-most key is lowered to it; with no entry at all \<open>i--\<close> leaves the array.
\<close>

definition find_step :: "btree_geo \<Rightarrow> kptr \<Rightarrow> ulong \<Rightarrow> 'o heap \<Rightarrow> (ulong \<times> 'o heap) option" where
  "find_step geo key node h = do {
     i \<leftarrow> scan_le geo h node key 0;
     v \<leftarrow> (if i = no_pairs geo then Some 0 else bval geo h node i);
     if v = 0 then
       (if i = 0 then None
        else do {
          h \<leftarrow> setkey geo h node key (i - 1);
          child \<leftarrow> bval geo h node (i - 1);
          Some (child, h)
        })
     else do {
       child \<leftarrow> bval geo h node i;
       Some (child, h)
     }
   }"

primrec find_loop :: "btree_geo \<Rightarrow> kptr \<Rightarrow> nat \<Rightarrow> ulong \<Rightarrow> 'o heap \<Rightarrow> (ulong \<times> 'o heap) option" where
  "find_loop geo key 0 node h = Some (node, h)"
| "find_loop geo key (Suc n) node h = do {
     (child, h) \<leftarrow> find_step geo key node h;
     find_loop geo key n child h
   }"

definition find_level :: "btree_geo \<Rightarrow> btree_head \<Rightarrow> 'o heap \<Rightarrow> kptr \<Rightarrow> nat \<Rightarrow> (ulong \<times> 'o heap) option" where
  "find_level geo head h key level = do {
     (node, h) \<leftarrow> find_loop geo key (bh_height head - level) (bh_node head) h;
     if node = 0 then None else Some (node, h)
   }"

definition btree_grow :: "btree_geo \<Rightarrow> btree_head \<Rightarrow> 'o heap \<Rightarrow> (int \<times> btree_head \<times> 'o heap) option" where
  "btree_grow geo head h =
     (let (node, h) = btree_node_alloc h in
      if node = 0 then Some (- ENOMEM, head, h)
      else do {
        h \<leftarrow> (if bh_node head \<noteq> 0 then do {
                fill \<leftarrow> getfill geo h (bh_node head) 0;
                if fill = 0 then None
                else do {
                  h \<leftarrow> setkey geo h node (bkey geo (bh_node head) (fill - 1)) 0;
                  setval geo h node (bh_node head) 0
                }
              } else Some h);
        Some (0, head\<lparr>bh_node := node, bh_height := Suc (bh_height head)\<rparr>, h)
      })"

definition btree_shrink :: "btree_geo \<Rightarrow> btree_head \<Rightarrow> 'o heap \<Rightarrow> nat \<Rightarrow> (btree_head \<times> 'o heap) option" where
  "btree_shrink geo head h fill =
     (if fill = 0 \<or> (fill = 1 \<and> bh_height head > 1) then do {
        child \<leftarrow> bval geo h (bh_node head) 0;
        h \<leftarrow> heap_free h (bh_node head);
        Some (head\<lparr>bh_node := child, bh_height := bh_height head - 1\<rparr>, h)
      } else Some (head, h))"

section \<open>Moving entries between neighbours\<close>

definition steal_l :: "btree_geo \<Rightarrow> 'o heap \<Rightarrow> ulong \<Rightarrow> nat \<Rightarrow> ulong \<Rightarrow> nat \<Rightarrow> ulong \<Rightarrow> nat \<Rightarrow> nat \<Rightarrow> 'o heap option" where
  "steal_l geo h left lfill right rfill parent lpos no_entries =
     (if lfill < no_entries + 1 then None
      else do {
        h \<leftarrow> copy_down geo right 0 no_entries rfill h;
        h \<leftarrow> copy_up geo left (lfill - no_entries) right 0 no_entries h;
        h \<leftarrow> setkey geo h parent (bkey geo left (lfill - no_entries - 1)) lpos;
        clear_up geo left (lfill - no_entries) no_entries h
      })"

definition steal_r :: "btree_geo \<Rightarrow> 'o heap \<Rightarrow> ulong \<Rightarrow> nat \<Rightarrow> ulong \<Rightarrow> nat \<Rightarrow> ulong \<Rightarrow> nat \<Rightarrow> nat \<Rightarrow> 'o heap option" where
  "steal_r geo h left lfill right rfill parent lpos no_entries =
     (if no_entries = 0 \<or> rfill < no_entries then None
      else do {
        h \<leftarrow> copy_up geo right 0 left lfill no_entries h;
        h \<leftarrow> setkey geo h parent (bkey geo right (no_entries - 1)) lpos;
        h \<leftarrow> copy_up geo right no_entries right 0 (rfill - no_entries) h;
        clear_up geo right (rfill - no_entries) no_entries h
      })"

section \<open>Insertion\<close>

text \<open>The loop of \<open>split\<close>: the first half of the node moves to \<open>new\<close>, the second half down.\<close>

primrec split_loop :: "btree_geo \<Rightarrow> ulong \<Rightarrow> ulong \<Rightarrow> nat \<Rightarrow> nat \<Rightarrow> 'o heap \<Rightarrow> 'o heap option" where
  "split_loop geo new node half 0 h = Some h"
| "split_loop geo new node half (Suc i) h = do {
     h \<leftarrow> split_loop geo new node half i h;
     h \<leftarrow> copypair geo h node i new i;
     h \<leftarrow> copypair geo h node (i + half) node i;
     clearpair geo h node (i + half)
   }"

text \<open>
  The recursion of the C code is bounded by fuel: one unit per entry of \<open>btree_insert_level\<close> after
  its \<open>retry\<close> label. \<open>btree_insert\<close> starts it with enough (proved, not assumed). \<open>split\<close> and its
  wrapper \<open>rebalance_insert\<close> (compiled without AGGRESSIVE_COMPACTION) are the recursive branch.
\<close>

function (sequential) btree_insert_level :: "nat \<Rightarrow> btree_geo \<Rightarrow> btree_head \<Rightarrow> 'o heap \<Rightarrow> kptr \<Rightarrow> ulong \<Rightarrow> nat \<Rightarrow>
    (int \<times> btree_head \<times> 'o heap) option"
  and insert_retry :: "nat \<Rightarrow> btree_geo \<Rightarrow> btree_head \<Rightarrow> 'o heap \<Rightarrow> kptr \<Rightarrow> ulong \<Rightarrow> nat \<Rightarrow>
    (int \<times> btree_head \<times> 'o heap) option"
  and btree_split :: "nat \<Rightarrow> btree_geo \<Rightarrow> btree_head \<Rightarrow> 'o heap \<Rightarrow> ulong \<Rightarrow> nat \<Rightarrow>
    (int \<times> btree_head \<times> 'o heap) option"
where
  "btree_insert_level 0 geo head h key val level = None"
| "btree_insert_level (Suc fuel) geo head h key val level =
     (if val = 0 then None
      else do {
        (err, head, h) \<leftarrow> (if bh_height head < level then btree_grow geo head h
                          else Some (0, head, h));
        if err \<noteq> 0 then Some (err, head, h)
        else insert_retry fuel geo head h key val level
      })"
| "insert_retry 0 geo head h key val level = None"
| "insert_retry (Suc fuel) geo head h key val level = do {
     (node, h) \<leftarrow> find_level geo head h key level;
     pos \<leftarrow> getpos geo h node key;
     fill \<leftarrow> getfill geo h node pos;
     c \<leftarrow> (if pos < fill then keycmp geo h node pos key else Some 1);
     if c = 0 then None
     else if fill = no_pairs geo then do {
       (err, head, h) \<leftarrow> btree_split fuel geo head h node level;
       if err \<noteq> 0 then Some (err, head, h)
       else insert_retry fuel geo head h key val level
     }
     else if fill > no_pairs geo then None
     else do {
       h \<leftarrow> copy_down geo node pos (Suc pos) (fill - pos) h;
       h \<leftarrow> setkey geo h node key pos;
       h \<leftarrow> setval geo h node val pos;
       Some (0, head, h)
     }
   }"
| "btree_split 0 geo head h node level = None"
| "btree_split (Suc fuel) geo head h node level =
     (let fill = no_pairs geo; (new, h) = btree_node_alloc h in
      if new = 0 then Some (- ENOMEM, head, h)
      else do {
        (err, head, h) \<leftarrow> btree_insert_level fuel geo head h
                            (bkey geo node (fill div 2 - 1)) new (Suc level);
        if err \<noteq> 0 then do {
          h \<leftarrow> heap_free h new;
          Some (err, head, h)
        } else do {
          h \<leftarrow> split_loop geo new node (fill div 2) (fill div 2) h;
          h \<leftarrow> (if odd fill then do {
                  h \<leftarrow> copypair geo h node (fill - 1) node (fill div 2);
                  clearpair geo h node (fill - 1)
                } else Some h);
          Some (0, head, h)
        }
      })"
  by pat_completeness auto
termination
  by (relation "measure (\<lambda>x. case x of
        Inl (fuel, _) \<Rightarrow> fuel | Inr (Inl (fuel, _)) \<Rightarrow> fuel | Inr (Inr (fuel, _)) \<Rightarrow> fuel)") auto

definition btree_insert :: "btree_geo \<Rightarrow> btree_head \<Rightarrow> 'o heap \<Rightarrow> kptr \<Rightarrow> ulong \<Rightarrow>
    (int \<times> btree_head \<times> 'o heap) option" where
  "btree_insert geo head h key val =
     btree_insert_level (3 * bh_height head + 3) geo head h key val 1"

section \<open>Removal\<close>

text \<open>
  \<open>btree_remove_level\<close>, \<open>rebalance\<close> and \<open>merge\<close> call each other with a growing level, and stop at
  the height of the tree. The key is a pointer throughout: \<open>merge\<close> passes a pointer into the very
  node that \<open>btree_remove_level\<close> then shifts.
\<close>

function btree_remove_level :: "btree_geo \<Rightarrow> btree_head \<Rightarrow> 'o heap \<Rightarrow> kptr \<Rightarrow> nat \<Rightarrow>
    (ulong \<times> btree_head \<times> 'o heap) option"
  and rebalance :: "btree_geo \<Rightarrow> btree_head \<Rightarrow> 'o heap \<Rightarrow> kptr \<Rightarrow> nat \<Rightarrow> ulong \<Rightarrow> nat \<Rightarrow>
    (btree_head \<times> 'o heap) option"
  and btree_merge_nodes :: "btree_geo \<Rightarrow> btree_head \<Rightarrow> 'o heap \<Rightarrow> nat \<Rightarrow> ulong \<Rightarrow> nat \<Rightarrow> ulong \<Rightarrow> nat \<Rightarrow>
    ulong \<Rightarrow> nat \<Rightarrow> (btree_head \<times> 'o heap) option"
where
  "btree_remove_level geo head h key level =
     (if level > bh_height head then Some (0, head\<lparr>bh_node := 0, bh_height := 0\<rparr>, h)
      else do {
        (node, h) \<leftarrow> find_level geo head h key level;
        pos \<leftarrow> getpos geo h node key;
        fill \<leftarrow> getfill geo h node pos;
        c \<leftarrow> (if level = 1 then keycmp geo h node pos key else Some 0);
        if c \<noteq> 0 then Some (0, head, h)
        else do {
          ret \<leftarrow> bval geo h node pos;
          if fill = 0 then None
          else do {
            h \<leftarrow> copy_up geo node (Suc pos) node pos (fill - 1 - pos) h;
            h \<leftarrow> clearpair geo h node (fill - 1);
            (head, h) \<leftarrow> (if fill - 1 < no_pairs geo div 2 then
                            (if level < bh_height head
                             then rebalance geo head h key level node (fill - 1)
                             else btree_shrink geo head h (fill - 1))
                          else Some (head, h));
            Some (ret, head, h)
          }
        }
      })"
| "rebalance geo head h key level child fill =
     do {
        (parent, h) \<leftarrow> find_level geo head h key (Suc level);
        child_no \<leftarrow> getpos geo h parent key;
        c \<leftarrow> bval geo h parent child_no;
        if c \<noteq> child then None
        else do {
          (left, no_left) \<leftarrow>
            (if child_no > 0 then do {
               left \<leftarrow> bval geo h parent (child_no - 1);
               no_left \<leftarrow> getfill geo h left 0;
               Some (left, no_left)
             } else Some (0, 0));
          if child_no > 0 \<and> fill + no_left \<le> no_pairs geo
          then btree_merge_nodes geo head h level left no_left child fill parent (child_no - 1)
          else do {
            pfill \<leftarrow> getfill geo h parent child_no;
            (right, no_right) \<leftarrow>
              (if child_no + 1 < pfill then do {
                 right \<leftarrow> bval geo h parent (child_no + 1);
                 no_right \<leftarrow> getfill geo h right 0;
                 Some (right, no_right)
               } else Some (0, 0));
            if child_no + 1 < pfill \<and> fill + no_right \<le> no_pairs geo
            then btree_merge_nodes geo head h level child fill right no_right parent child_no
            else if fill > 1 then Some (head, h)
            else if left \<noteq> 0 then
              (if (no_left - fill) div 2 < 1 then None
               else do {
                 h \<leftarrow> steal_l geo h left no_left child fill parent (child_no - 1)
                        ((no_left - fill) div 2);
                 Some (head, h)
               })
            else if right \<noteq> 0 then
              (if (no_right - fill) div 2 < 1 then None
               else do {
                 h \<leftarrow> steal_r geo h child fill right no_right parent child_no
                        ((no_right - fill) div 2);
                 Some (head, h)
               })
            else None
          }
        }
      }"
| "btree_merge_nodes geo head h level left lfill right rfill parent lpos =
     do {
        h \<leftarrow> copy_up geo right 0 left lfill rfill h;
        h \<leftarrow> setval geo h parent right lpos;
        h \<leftarrow> setval geo h parent left (lpos + 1);
        (ret, head, h) \<leftarrow> btree_remove_level geo head h (bkey geo parent lpos) (Suc level);
        h \<leftarrow> heap_free h right;
        Some (head, h)
      }"
  by pat_completeness auto

termination
  by (relation "measure (\<lambda>x. case x of
        Inl (geo, head, h, key, level) \<Rightarrow> 3 * (bh_height head + 1 - level)
      | Inr (Inl (geo, head, h, key, level, child, fill)) \<Rightarrow> 3 * (bh_height head - level) + 2
      | Inr (Inr (geo, head, h, level, left, lfill, right, rfill, parent, lpos)) \<Rightarrow>
          3 * (bh_height head - level) + 1)") auto

declare btree_remove_level.simps [simp del] rebalance.simps [simp del]
  btree_merge_nodes.simps [simp del]

definition btree_remove :: "btree_geo \<Rightarrow> btree_head \<Rightarrow> 'o heap \<Rightarrow> kptr \<Rightarrow> (ulong \<times> btree_head \<times> 'o heap) option" where
  "btree_remove geo head h key =
     (if bh_height head = 0 then Some (0, head, h) else btree_remove_level geo head h key 1)"

section \<open>Merging two trees\<close>

text \<open>
  \<open>read_words\<close> is \<open>longcpy\<close> into the caller's buffer \<open>duplicate\<close>. The \<open>for (;;)\<close> loop is a
  \<open>partial_function\<close>: a run that never returned would be \<^term>\<open>None\<close>.
\<close>

primrec read_words :: "'o heap \<Rightarrow> kptr \<Rightarrow> nat \<Rightarrow> ulong list option" where
  "read_words h kp 0 = Some []"
| "read_words h kp (Suc n) = do {
     ws \<leftarrow> read_words h kp n;
     w \<leftarrow> peek h kp n;
     Some (ws @ [w])
   }"

partial_function (option) merge_loop :: "btree_geo \<Rightarrow> btree_head \<Rightarrow> btree_head \<Rightarrow> 'o heap \<Rightarrow>
    (int \<times> btree_head \<times> btree_head \<times> 'o heap) option" where
  "merge_loop geo target victim h = do {
     key \<leftarrow> btree_last geo h victim;
     (case key of
        None \<Rightarrow> Some (0, target, victim, h)
      | Some key \<Rightarrow> do {
          val \<leftarrow> btree_lookup geo h victim key;
          (err, target, h) \<leftarrow> btree_insert geo target h key val;
          if err \<noteq> 0 then Some (err, target, victim, h)
          else do {
            duplicate \<leftarrow> read_words h key (keylen geo);
            (ret, victim, h) \<leftarrow> btree_remove geo victim h (Buf duplicate);
            merge_loop geo target victim h
          }
        })
   }"

text \<open>\<open>same\<close>: whether the two arguments are the same tree head (\<open>BUG_ON(target == victim)\<close>).\<close>

definition btree_merge :: "btree_geo \<Rightarrow> bool \<Rightarrow> btree_head \<Rightarrow> btree_head \<Rightarrow> 'o heap \<Rightarrow>
    (int \<times> btree_head \<times> btree_head \<times> 'o heap) option" where
  "btree_merge geo same target victim h =
     (if same then None
      else if bh_node target = 0
      then Some (0, target\<lparr>bh_node := bh_node victim, bh_height := bh_height victim\<rparr>, btree_init, h)
      else merge_loop geo target victim h)"

section \<open>Visitors\<close>

text \<open>
  A callback gets the heap (to read the key through the pointer it is passed), the element, the
  opaque word, the key pointer and the index, and acts on a state of the caller.
\<close>

type_synonym ('o, 's) visitor =
  "'o heap \<Rightarrow> ulong \<Rightarrow> ulong \<Rightarrow> kptr \<Rightarrow> nat \<Rightarrow> 's \<Rightarrow> 's option"

function btree_for_each :: "btree_geo \<Rightarrow> ulong \<Rightarrow> ('o, 's) visitor \<Rightarrow> bool \<Rightarrow> 'o heap \<Rightarrow> ulong \<Rightarrow> nat \<Rightarrow>
    nat \<Rightarrow> 's \<Rightarrow> (nat \<times> 's \<times> 'o heap) option"
  and for_each_loop :: "btree_geo \<Rightarrow> ulong \<Rightarrow> ('o, 's) visitor \<Rightarrow> bool \<Rightarrow> 'o heap \<Rightarrow> ulong \<Rightarrow> nat \<Rightarrow>
    nat \<Rightarrow> nat \<Rightarrow> 's \<Rightarrow> (nat \<times> 's \<times> 'o heap) option"
where
  "btree_for_each geo opaque func reap h node height count s = do {
     (count, s, h) \<leftarrow> for_each_loop geo opaque func reap h node height 0 count s;
     if reap then do {
       h \<leftarrow> heap_free h node;
       Some (count, s, h)
     } else Some (count, s, h)
   }"
| "for_each_loop geo opaque func reap h node height i count s =
     (if i < no_pairs geo then do {
        child \<leftarrow> bval geo h node i;
        if child = 0 then Some (count, s, h)
        else if height > 1 then do {
          (count, s, h) \<leftarrow> btree_for_each geo opaque func reap h child (height - 1) count s;
          for_each_loop geo opaque func reap h node height (Suc i) count s
        } else do {
          s \<leftarrow> func h child opaque (bkey geo node i) count s;
          for_each_loop geo opaque func reap h node height (Suc i) (count + 1) s
        }
      } else Some (count, s, h))"
  by pat_completeness auto
termination
  by (relation "measures [
        \<lambda>x. case x of Inl (geo, opaque, func, reap, h, node, height, count, s) \<Rightarrow> height
          | Inr (geo, opaque, func, reap, h, node, height, i, count, s) \<Rightarrow> height,
        \<lambda>x. case x of Inl (geo, opaque, func, reap, h, node, height, count, s) \<Rightarrow> no_pairs geo + 1
          | Inr (geo, opaque, func, reap, h, node, height, i, count, s) \<Rightarrow> no_pairs geo - i]") auto

declare btree_for_each.simps [simp del] for_each_loop.simps [simp del]

definition empty_visitor :: "('o, 's) visitor" where
  "empty_visitor h elem opaque key index s = Some s"

text \<open>\<open>func2\<close> is the user's callback, handed to \<open>func\<close>; a NULL \<open>func2\<close> selects \<open>empty\<close>.\<close>

definition btree_visitor :: "btree_geo \<Rightarrow> btree_head \<Rightarrow> 'o heap \<Rightarrow> ulong \<Rightarrow> ('f \<Rightarrow> ('o, 's) visitor) \<Rightarrow>
    'f option \<Rightarrow> 's \<Rightarrow> (nat \<times> 's \<times> 'o heap) option" where
  "btree_visitor geo head h opaque func func2 s =
     (if bh_node head \<noteq> 0
      then btree_for_each geo opaque (case func2 of None \<Rightarrow> empty_visitor | Some f \<Rightarrow> func f) False
             h (bh_node head) (bh_height head) 0 s
      else Some (0, s, h))"

definition btree_grim_visitor :: "btree_geo \<Rightarrow> btree_head \<Rightarrow> 'o heap \<Rightarrow> ulong \<Rightarrow> ('f \<Rightarrow> ('o, 's) visitor) \<Rightarrow>
    'f option \<Rightarrow> 's \<Rightarrow> (nat \<times> 's \<times> btree_head \<times> 'o heap) option" where
  "btree_grim_visitor geo head h opaque func func2 s = do {
     (count, s, h) \<leftarrow>
       (if bh_node head \<noteq> 0
        then btree_for_each geo opaque (case func2 of None \<Rightarrow> empty_visitor | Some f \<Rightarrow> func f) True
               h (bh_node head) (bh_height head) 0 s
        else Some (0, s, h));
     Some (count, s, btree_init, h)
   }"

definition visitor64 :: "(ulong \<Rightarrow> ulong \<Rightarrow> u64 \<Rightarrow> nat \<Rightarrow> 's \<Rightarrow> 's) \<Rightarrow> ('o, 's) visitor" where
  "visitor64 func h elem opaque key index s = do {
     k \<leftarrow> peek h key 0;
     Some (func elem opaque k index s)
   }"

definition visitor128 :: "(ulong \<Rightarrow> ulong \<Rightarrow> u64 \<Rightarrow> u64 \<Rightarrow> nat \<Rightarrow> 's \<Rightarrow> 's) \<Rightarrow> ('o, 's) visitor" where
  "visitor128 func h elem opaque key index s = do {
     k1 \<leftarrow> peek h key 0;
     k2 \<leftarrow> peek h key 1;
     Some (func elem opaque k1 k2 index s)
   }"

end
