(* ===== verification/Btree_Slots.thy ===== *)
theory Btree_Slots
  imports Main Btree_Node
begin

text \<open>
  A node seen as the list of its \<open>no_pairs\<close> slots. \<open>nd\<close> reads the slots of a node, \<open>put\<close> stores
  a list of slots into a node; each accessor of the code is one of the two (the collection
  \<open>slot_simps\<close>), so that the loops over words never appear in the proofs about the tree.
\<close>

type_synonym key = "ulong list"
type_synonym entry = "key \<times> ulong"

abbreviation node_longs :: nat where
  "node_longs \<equiv> NODESIZE div SIZEOF_LONG"

definition slots :: "btree_geo \<Rightarrow> ulong list \<Rightarrow> entry list" where
  "slots g ws = map (\<lambda>i. (take (keylen g) (drop (i * keylen g) ws),
                          ws ! (no_pairs g * keylen g + i))) [0..<no_pairs g]"

definition unslots :: "btree_geo \<Rightarrow> entry list \<Rightarrow> ulong list \<Rightarrow> ulong list" where
  "unslots g S ws = concat (map fst S) @ map snd S
      @ drop (no_pairs g * keylen g + no_pairs g) ws"

definition nd :: "btree_geo \<Rightarrow> 'o heap \<Rightarrow> ulong \<Rightarrow> entry list option" where
  "nd g h p = (case mem h p of
       Some (Node ws) \<Rightarrow> if length ws = node_longs then Some (slots g ws) else None
     | _ \<Rightarrow> None)"

definition put :: "btree_geo \<Rightarrow> 'o heap \<Rightarrow> ulong \<Rightarrow> entry list \<Rightarrow> 'o heap" where
  "put g h p S = (case mem h p of
       Some (Node ws) \<Rightarrow> h\<lparr>mem := (mem h)(p \<mapsto> Node (unslots g S ws))\<rparr>
     | _ \<Rightarrow> h)"

definition valid :: "btree_geo \<Rightarrow> entry list \<Rightarrow> bool" where
  "valid g S \<longleftrightarrow> length S = no_pairs g \<and> (\<forall>e \<in> set S. length (fst e) = keylen g)"

section \<open>Slots of an array of longs\<close>

lemma slot_bounds:
  assumes "geo_ok g" "i < no_pairs g"
  shows "i * keylen g + keylen g \<le> no_pairs g * keylen g"
    "no_pairs g * keylen g + i < node_longs"
    "i * keylen g + keylen g \<le> node_longs"
proof -
  from assms have "Suc i * keylen g \<le> no_pairs g * keylen g"
    by (intro mult_le_mono1) simp
  with assms show "i * keylen g + keylen g \<le> no_pairs g * keylen g"
    "no_pairs g * keylen g + i < node_longs" "i * keylen g + keylen g \<le> node_longs"
    by (auto simp: geo_ok_def)
qed

lemma slot_apart:
  assumes "i < (j::nat)"
  shows "i * k + k \<le> j * k"
proof -
  from assms have "Suc i * k \<le> j * k" by (intro mult_le_mono1) simp
  then show ?thesis by simp
qed

lemma length_slots [simp]: "length (slots g ws) = no_pairs g"
  by (simp add: slots_def)

lemma slots_nth:
  "i < no_pairs g \<Longrightarrow> slots g ws ! i =
     (take (keylen g) (drop (i * keylen g) ws), ws ! (no_pairs g * keylen g + i))"
  by (simp add: slots_def)

lemma valid_slots:
  assumes "geo_ok g" "length ws = node_longs"
  shows "valid g (slots g ws)"
  using assms slot_bounds(3) [OF assms(1)]
  by (fastforce simp: valid_def slots_def)

lemma concat_slots:
  assumes "n * k \<le> length ws"
  shows "concat (map (\<lambda>i. take k (drop (i * k) ws)) [0..<n]) = take (n * k) ws"
  using assms
proof (induction n)
  case 0
  then show ?case by simp
next
  case (Suc n)
  then have "concat (map (\<lambda>i. take k (drop (i * k) ws)) [0..<n]) = take (n * k) ws"
    by simp
  then show ?case
    by (simp add: take_add add.commute [of k])
qed

lemma unslots_slots:
  assumes "geo_ok g" "length ws = node_longs"
  shows "unslots g (slots g ws) ws = ws"
proof -
  let ?u = "no_pairs g * keylen g" and ?n = "no_pairs g"
  have len: "?u + ?n \<le> length ws" using assms by (simp add: geo_ok_def)
  have "map fst (slots g ws) = map (\<lambda>i. take (keylen g) (drop (i * keylen g) ws)) [0..<?n]"
    by (simp add: slots_def comp_def)
  then have 1: "concat (map fst (slots g ws)) = take ?u ws"
    using concat_slots [of ?n "keylen g" ws] len by simp
  have 2: "map snd (slots g ws) = take ?n (drop ?u ws)"
    using len by (intro nth_equalityI) (auto simp: slots_def)
  have "take ?u ws @ take ?n (drop ?u ws) @ drop (?u + ?n) ws = ws"
    by (metis add.commute append_take_drop_id drop_drop)
  with 1 2 show ?thesis by (simp add: unslots_def)
qed

lemma length_concat_keys:
  "\<forall>e \<in> set S. length (fst e) = k \<Longrightarrow> length (concat (map fst S)) = length S * k"
  by (induction S) auto

lemma take_drop_concat_keys:
  assumes "\<forall>e \<in> set S. length (fst e) = k" "i < length S"
  shows "take k (drop (i * k) (concat (map fst S) @ zs)) = fst (S ! i)"
  using assms
proof (induction S arbitrary: i)
  case Nil
  then show ?case by simp
next
  case (Cons e S)
  show ?case
  proof (cases i)
    case 0
    with Cons.prems show ?thesis by simp
  next
    case (Suc j)
    with Cons show ?thesis by simp
  qed
qed

lemma length_unslots:
  assumes "valid g S" "geo_ok g" "length ws = node_longs"
  shows "length (unslots g S ws) = node_longs"
  using assms length_concat_keys [of S "keylen g"]
  by (simp add: unslots_def valid_def geo_ok_def)

lemma slots_unslots:
  assumes "valid g S"
  shows "slots g (unslots g S ws) = S"
proof (rule nth_equalityI)
  show "length (slots g (unslots g S ws)) = length S" using assms by (simp add: valid_def)
next
  fix i assume "i < length (slots g (unslots g S ws))"
  then have i: "i < no_pairs g" by simp
  have keys: "\<forall>e \<in> set S. length (fst e) = keylen g" and len: "length S = no_pairs g"
    using assms by (auto simp: valid_def)
  have "length (concat (map fst S)) = no_pairs g * keylen g"
    using length_concat_keys [OF keys] len by simp
  then have "unslots g S ws ! (no_pairs g * keylen g + i) = snd (S ! i)"
    using i len by (simp add: unslots_def nth_append)
  moreover have "take (keylen g) (drop (i * keylen g) (unslots g S ws)) = fst (S ! i)"
    unfolding unslots_def by (rule take_drop_concat_keys [OF keys]) (simp add: i len)
  ultimately show "slots g (unslots g S ws) ! i = S ! i"
    using i by (simp add: slots_nth)
qed

lemma unslots_unslots:
  assumes "valid g S" "valid g T"
  shows "unslots g T (unslots g S ws) = unslots g T ws"
  using assms length_concat_keys [of S "keylen g"]
  by (simp add: unslots_def valid_def)

text \<open>An array that agrees with \<open>ws\<close> behind the pairs is determined by its slots.\<close>

lemma eq_unslotsI:
  assumes "geo_ok g" "length ws' = node_longs" "slots g ws' = S"
    and "drop (no_pairs g * keylen g + no_pairs g) ws'
       = drop (no_pairs g * keylen g + no_pairs g) ws"
  shows "ws' = unslots g S ws"
  using unslots_slots [OF assms(1,2)] assms(3,4) by (simp add: unslots_def)

section \<open>nd and put\<close>

lemma nd_Node:
  "nd g h p = Some S \<longleftrightarrow> (\<exists>ws. mem h p = Some (Node ws) \<and> length ws = node_longs \<and> S = slots g ws)"
  by (auto simp: nd_def split: option.splits obj.splits)

lemma nd_valid: "geo_ok g \<Longrightarrow> nd g h p = Some S \<Longrightarrow> valid g S"
  by (auto simp: nd_Node valid_slots)

lemma nd_length: "nd g h p = Some S \<Longrightarrow> length S = no_pairs g"
  by (auto simp: nd_Node)

lemma nd_mem: "mem h p = mem h' p \<Longrightarrow> nd g h p = nd g h' p"
  by (simp add: nd_def)

lemma valid_upd:
  "valid g S \<Longrightarrow> length k = keylen g \<Longrightarrow> valid g (S[i := (k, v)])"
  using set_update_subset_insert by (fastforce simp: valid_def)

lemma valid_length: "valid g S \<Longrightarrow> length S = no_pairs g"
  by (simp add: valid_def)

lemma valid_key: "valid g S \<Longrightarrow> i < no_pairs g \<Longrightarrow> length (fst (S ! i)) = keylen g"
  by (simp add: valid_def)

lemma mem_put [put_simps]: "q \<noteq> p \<Longrightarrow> mem (put g h p S) q = mem h q"
  by (auto simp: put_def split: option.splits obj.splits)

lemma mem_put_None [put_simps]: "mem (put g h p S) q = None \<longleftrightarrow> mem h q = None"
  by (auto simp: put_def split: option.splits obj.splits)

lemma heap_put [put_simps]:
  "ticks (put g h p S) = ticks h" "strategy (put g h p S) = strategy h"
  "alloc_ok (put g h p S) = alloc_ok h"
  by (auto simp: put_def alloc_ok_def split: option.splits obj.splits)

lemma nd_put_other [put_simps]: "q \<noteq> p \<Longrightarrow> nd g' (put g h p S) q = nd g' h q"
  by (simp add: nd_def mem_put)

lemma nd_put_same [put_simps]:
  "geo_ok g \<Longrightarrow> nd g h p = Some T \<Longrightarrow> valid g S \<Longrightarrow> nd g (put g h p S) p = Some S"
  by (auto simp: nd_Node put_def length_unslots slots_unslots)

lemma put_put [put_simps]:
  "geo_ok g \<Longrightarrow> valid g S \<Longrightarrow> valid g T \<Longrightarrow> put g (put g h p S) p T = put g h p T"
  by (auto simp: put_def unslots_unslots split: option.splits obj.splits)

lemma put_nd: "geo_ok g \<Longrightarrow> nd g h p = Some S \<Longrightarrow> put g h p S = h"
  by (auto simp: nd_Node put_def unslots_slots fun_upd_idem)

lemma put_comm:
  "p \<noteq> q \<Longrightarrow> put g (put g h p S) q T = put g (put g h q T) p S"
  by (auto simp: put_def fun_upd_twist split: option.splits obj.splits)

section \<open>The value of a key pointer\<close>

definition kval :: "btree_geo \<Rightarrow> 'o heap \<Rightarrow> kptr \<Rightarrow> key option" where
  "kval g h kp = (case kp of
       Buf ws \<Rightarrow> if keylen g \<le> length ws then Some (take (keylen g) ws) else None
     | At p off \<Rightarrow> (case mem h p of
           Some (Node ws) \<Rightarrow>
             if off + keylen g \<le> length ws then Some (take (keylen g) (drop off ws)) else None
         | _ \<Rightarrow> None))"

lemma kval_length: "kval g h kp = Some k \<Longrightarrow> length k = keylen g"
  by (auto simp: kval_def split: kptr.splits option.splits obj.splits if_splits)

lemma kval_Buf [simp]: "length ws = keylen g \<Longrightarrow> kval g h (Buf ws) = Some ws"
  by (simp add: kval_def)

lemma kval_peek: "kval g h kp = Some k \<Longrightarrow> i < keylen g \<Longrightarrow> peek h kp i = Some (k ! i)"
  by (cases kp) (auto simp: kval_def ld_def split: option.splits obj.splits if_splits)

lemma kval_bkey [slot_simps]:
  "geo_ok g \<Longrightarrow> nd g h p = Some S \<Longrightarrow> n < no_pairs g \<Longrightarrow> kval g h (bkey g p n) = Some (fst (S ! n))"
  using slot_bounds(3) [of g n]
  by (auto simp: kval_def bkey_def nd_Node slots_nth)

text \<open>The value of a pointer depends only on the node it points into.\<close>

definition kaddr :: "kptr \<Rightarrow> ulong set" where
  "kaddr kp = (case kp of Buf _ \<Rightarrow> {} | At p _ \<Rightarrow> {p})"

lemma kaddr_simps [simp]: "kaddr (Buf ws) = {}" "kaddr (At p off) = {p}" "kaddr (bkey g p n) = {p}"
  by (simp_all add: kaddr_def bkey_def)

lemma kval_mem: "(\<And>p. p \<in> kaddr kp \<Longrightarrow> mem h' p = mem h p) \<Longrightarrow> kval g h' kp = kval g h kp"
  by (cases kp) (auto simp: kval_def)

lemma kval_put [put_simps]: "p \<notin> kaddr kp \<Longrightarrow> kval g' (put g h p S) kp = kval g' h kp"
  by (rule kval_mem) (metis mem_put)

section \<open>The accessors on slots\<close>

lemma bval_slot [slot_simps]:
  "geo_ok g \<Longrightarrow> nd g h p = Some S \<Longrightarrow> n < no_pairs g \<Longrightarrow> bval g h p n = Some (snd (S ! n))"
  using slot_bounds(2) [of g n] by (auto simp: bval_def ld_def nd_Node slots_nth)

lemma longcmp_prefix:
  assumes "\<And>i. i < n \<Longrightarrow> peek h a i = Some (ka ! i)" "\<And>i. i < n \<Longrightarrow> peek h b i = Some (kb ! i)"
    and "length ka = n" "length kb = n" "i \<le> n"
  shows "longcmp h a b i n = Some (if drop i ka < drop i kb then - 1
                                   else if drop i kb < drop i ka then 1 else 0)"
  using assms(5)
proof (induction "n - i" arbitrary: i)
  case 0
  with assms(3,4) show ?case by (simp add: longcmp.simps)
next
  case (Suc m)
  then have i: "i < n" by simp
  then have "drop i ka = ka ! i # drop (Suc i) ka" "drop i kb = kb ! i # drop (Suc i) kb"
    using assms(3,4) by (simp_all add: Cons_nth_drop_Suc)
  with Suc.hyps(1) [of "Suc i"] Suc.hyps(2) i assms(1,2) show ?case
    by (subst longcmp.simps) (auto simp: not_less_iff_gr_or_eq)
qed

definition cmp3 :: "key \<Rightarrow> key \<Rightarrow> int" where
  "cmp3 a b = (if a < b then - 1 else if b < a then 1 else 0)"

lemma cmp3_iff [simp]: "cmp3 a b \<le> 0 \<longleftrightarrow> a \<le> b" "cmp3 a b = 0 \<longleftrightarrow> a = b"
  by (auto simp: cmp3_def)

lemma keycmp_slot [slot_simps]:
  assumes "geo_ok g" "nd g h p = Some S" "n < no_pairs g" "kval g h kp = Some k"
  shows "keycmp g h p n kp = Some (cmp3 (fst (S ! n)) k)"
proof -
  have b: "kval g h (bkey g p n) = Some (fst (S ! n))"
    using assms by (simp add: slot_simps)
  have "longcmp h (bkey g p n) kp 0 (keylen g)
      = Some (if drop 0 (fst (S ! n)) < drop 0 k then - 1
              else if drop 0 k < drop 0 (fst (S ! n)) then 1 else 0)"
    by (rule longcmp_prefix) (use kval_peek [OF b] kval_peek [OF assms(4)] kval_length [OF b]
        kval_length [OF assms(4)] in auto)
  then show ?thesis by (simp add: keycmp_def cmp3_def)
qed

text \<open>A key pointer into the node written to has to point at a slot of it.\<close>

definition kslot :: "btree_geo \<Rightarrow> kptr \<Rightarrow> ulong \<Rightarrow> bool" where
  "kslot g kp p \<longleftrightarrow> (case kp of Buf _ \<Rightarrow> True | At q off \<Rightarrow> q = p \<longrightarrow> (\<exists>m. off = m * keylen g))"

lemma kslot_simps [simp]: "kslot g (Buf ws) p" "kslot g (bkey g q n) p"
  by (auto simp: kslot_def bkey_def)

lemma kslot_other: "p \<notin> kaddr kp \<Longrightarrow> kslot g kp p"
  by (auto simp: kslot_def kaddr_def split: kptr.splits)

definition patch :: "ulong list \<Rightarrow> nat \<Rightarrow> ulong list \<Rightarrow> nat \<Rightarrow> ulong list" where
  "patch ws a k i = take a ws @ take i k @ drop (a + i) ws"

lemma patch_0 [simp]: "patch ws a k 0 = ws"
  by (simp add: patch_def)

lemma length_patch [simp]:
  "a + i \<le> length ws \<Longrightarrow> i \<le> length k \<Longrightarrow> length (patch ws a k i) = length ws"
  by (simp add: patch_def)

lemma nth_patch:
  "a + i \<le> length ws \<Longrightarrow> i \<le> length k \<Longrightarrow> j < length ws \<Longrightarrow>
     patch ws a k i ! j = (if a \<le> j \<and> j < a + i then k ! (j - a) else ws ! j)"
  by (auto simp: patch_def nth_append)

lemma patch_Suc:
  "a + i < length ws \<Longrightarrow> i < length k \<Longrightarrow>
     (patch ws a k i)[a + i := k ! i] = patch ws a k (Suc i)"
  by (intro nth_equalityI) (auto simp: nth_patch nth_list_update)

lemma st_Node:
  "mem h p = Some (Node ws) \<Longrightarrow> i < length ws \<Longrightarrow>
     st h p i v = Some (h\<lparr>mem := (mem h)(p \<mapsto> Node (ws[i := v]))\<rparr>)"
  by (simp add: st_def)

lemma longcpy_patch:
  assumes "mem h p = Some (Node ws)" "a + n \<le> length ws" "length k = n" "i \<le> n"
    and src: "\<And>i. i < n \<Longrightarrow> peek h src i = Some (k ! i)"
    and apart: "\<And>off. src = At p off \<Longrightarrow> off = a \<or> off + n \<le> a \<or> a + n \<le> off"
  shows "longcpy (h\<lparr>mem := (mem h)(p \<mapsto> Node (patch ws a k i))\<rparr>) p a src i n
       = Some (h\<lparr>mem := (mem h)(p \<mapsto> Node (patch ws a k n))\<rparr>)"
  using assms(4)
proof (induction "n - i" arbitrary: i)
  case 0
  then show ?case by (simp add: longcpy.simps)
next
  case (Suc m)
  then have i: "i < n" by simp
  let ?H = "\<lambda>i. h\<lparr>mem := (mem h)(p \<mapsto> Node (patch ws a k i))\<rparr>"
  have "peek (?H i) src i = Some (k ! i)"
  proof (cases src)
    case (Buf x1)
    with src [OF i] show ?thesis by simp
  next
    case (At q off)
    show ?thesis
    proof (cases "q = p")
      case True
      with src [OF i] At assms(1) have "off + i < length ws" "ws ! (off + i) = k ! i"
        by (auto simp: ld_def split: if_splits)
      with True At apart [of off] i assms(2,3) show ?thesis
        by (auto simp: ld_def nth_patch)
    next
      case False
      with src [OF i] At show ?thesis by (simp add: ld_def)
    qed
  qed
  moreover have "st (?H i) p (a + i) (k ! i) = Some (?H (Suc i))"
    using i assms(2,3) by (subst st_Node) (auto simp: patch_Suc)
  ultimately show ?case
    using Suc.hyps(1) [of "Suc i"] Suc.hyps(2) i by (subst longcpy.simps) simp
qed

lemma longset_longcpy:
  "i \<le> n \<Longrightarrow> longset h s off c i n = longcpy h s off (Buf (replicate n c)) i n"
proof (induction "n - i" arbitrary: i h)
  case 0
  then show ?case by (simp add: longset.simps longcpy.simps)
next
  case (Suc m)
  then have i: "i < n" by simp
  with Suc.hyps(1) [of "Suc i"] Suc.hyps(2) show ?case
    by (subst longset.simps, subst longcpy.simps) (auto intro!: Option.bind_cong)
qed

lemma slots_patch_key:
  assumes "geo_ok g" "length ws = node_longs" "n < no_pairs g" "length k = keylen g"
  shows "slots g (patch ws (n * keylen g) k (keylen g))
       = (slots g ws)[n := (k, snd (slots g ws ! n))]"
proof (rule nth_equalityI)
  fix i assume "i < length (slots g (patch ws (n * keylen g) k (keylen g)))"
  then have i: "i < no_pairs g" by simp
  let ?k = "keylen g"
  have b: "n * ?k + ?k \<le> length ws" "i * ?k + ?k \<le> length ws"
      "n * ?k + ?k \<le> no_pairs g * ?k" "no_pairs g * ?k + i < length ws"
    using slot_bounds [OF assms(1,3)] slot_bounds [OF assms(1) i] assms(2) by auto
  have "take ?k (drop (i * ?k) (patch ws (n * ?k) k ?k)) =
      (if i = n then k else take ?k (drop (i * ?k) ws))"
    using b assms(4) slot_apart [of i n ?k] slot_apart [of n i ?k]
    by (intro nth_equalityI) (auto simp: nth_patch linorder_neq_iff)
  moreover have "patch ws (n * ?k) k ?k ! (no_pairs g * ?k + i) = ws ! (no_pairs g * ?k + i)"
    using b assms(4) by (simp add: nth_patch)
  ultimately show "slots g (patch ws (n * ?k) k ?k) ! i
      = (slots g ws)[n := (k, snd (slots g ws ! n))] ! i"
    using i assms(3) by (auto simp: slots_nth nth_list_update)
qed simp

lemma drop_patch:
  "a + i \<le> m \<Longrightarrow> m \<le> length ws \<Longrightarrow> i \<le> length k \<Longrightarrow> drop m (patch ws a k i) = drop m ws"
  by (intro nth_equalityI) (auto simp: nth_patch)

lemma heap_put_Node:
  assumes "geo_ok g" "mem h p = Some (Node ws)" "length ws' = node_longs"
    and "drop (no_pairs g * keylen g + no_pairs g) ws'
       = drop (no_pairs g * keylen g + no_pairs g) ws"
  shows "h\<lparr>mem := (mem h)(p \<mapsto> Node ws')\<rparr> = put g h p (slots g ws')"
  using eq_unslotsI [OF assms(1,3) refl assms(4)] assms(2) by (simp add: put_def)

lemma setkey_slot [slot_simps]:
  assumes "geo_ok g" "nd g h p = Some S" "n < no_pairs g" "kval g h kp = Some k" "kslot g kp p"
  shows "setkey g h p kp n = Some (put g h p (S[n := (k, snd (S ! n))]))"
proof -
  obtain ws where ws: "mem h p = Some (Node ws)" "length ws = node_longs" "S = slots g ws"
    using assms(2) by (auto simp: nd_Node)
  let ?a = "n * keylen g" and ?k = "keylen g"
  have lk: "length k = ?k" using assms(4) by (rule kval_length)
  have b: "?a + ?k \<le> length ws" "?a + ?k \<le> no_pairs g * ?k + no_pairs g"
      "no_pairs g * ?k + no_pairs g \<le> length ws"
    using slot_bounds [OF assms(1,3)] ws(2) assms(1) by (auto simp: geo_ok_def)
  have apart: "off = ?a \<or> off + ?k \<le> ?a \<or> ?a + ?k \<le> off" if "kp = At p off" for off
  proof -
    from that assms(5) obtain m where "off = m * ?k" by (auto simp: kslot_def)
    then show ?thesis using slot_apart [of m n ?k] slot_apart [of n m ?k]
      by (cases m n rule: linorder_cases) auto
  qed
  have same: "h\<lparr>mem := (mem h)(p \<mapsto> Node (patch ws ?a k 0))\<rparr> = h"
    using ws(1) by (simp add: fun_upd_idem)
  have "longcpy h p ?a kp 0 ?k = Some (h\<lparr>mem := (mem h)(p \<mapsto> Node (patch ws ?a k ?k))\<rparr>)"
    using longcpy_patch [OF ws(1) b(1) lk le0 kval_peek [OF assms(4)] apart] same by simp
  also have "h\<lparr>mem := (mem h)(p \<mapsto> Node (patch ws ?a k ?k))\<rparr>
      = put g h p (slots g (patch ws ?a k ?k))"
    by (rule heap_put_Node [OF assms(1) ws(1)]) (use b lk ws(2) in \<open>auto simp: drop_patch\<close>)
  finally show ?thesis
    using slots_patch_key [OF assms(1) ws(2) assms(3) lk] ws(3) by (simp add: setkey_def)
qed

lemma slots_upd_val:
  assumes "geo_ok g" "length ws = node_longs" "n < no_pairs g"
  shows "slots g (ws[no_pairs g * keylen g + n := v])
       = (slots g ws)[n := (fst (slots g ws ! n), v)]"
proof (rule nth_equalityI)
  fix i assume "i < length (slots g (ws[no_pairs g * keylen g + n := v]))"
  then have i: "i < no_pairs g" by simp
  have "take (keylen g) (drop (i * keylen g) (ws[no_pairs g * keylen g + n := v]))
      = take (keylen g) (drop (i * keylen g) ws)"
    using slot_bounds(1) [OF assms(1) i] slot_bounds [OF assms(1,3)] assms(2)
    by (intro nth_equalityI) auto
  then show "slots g (ws[no_pairs g * keylen g + n := v]) ! i
      = (slots g ws)[n := (fst (slots g ws ! n), v)] ! i"
    using i assms slot_bounds(2) [OF assms(1) i] by (auto simp: slots_nth nth_list_update)
qed simp

lemma st_val:
  assumes "geo_ok g" "nd g h p = Some S" "n < no_pairs g"
  shows "st h p (no_pairs g * keylen g + n) v = Some (put g h p (S[n := (fst (S ! n), v)]))"
proof -
  obtain ws where ws: "mem h p = Some (Node ws)" "length ws = node_longs" "S = slots g ws"
    using assms(2) by (auto simp: nd_Node)
  have i: "no_pairs g * keylen g + n < length ws"
    using slot_bounds(2) [OF assms(1,3)] ws(2) by simp
  have "st h p (no_pairs g * keylen g + n) v
      = Some (put g h p (slots g (ws[no_pairs g * keylen g + n := v])))"
    using st_Node [OF ws(1) i] heap_put_Node [OF assms(1) ws(1), of "ws[no_pairs g * keylen g + n := v]"]
      assms(3) ws(2) by simp
  then show ?thesis using slots_upd_val [OF assms(1) ws(2) assms(3)] ws(3) by simp
qed

lemma setval_slot [slot_simps]:
  "geo_ok g \<Longrightarrow> nd g h p = Some S \<Longrightarrow> n < no_pairs g \<Longrightarrow>
     setval g h p v n = Some (put g h p (S[n := (fst (S ! n), v)]))"
  by (simp add: setval_def st_val)

definition zslot :: "btree_geo \<Rightarrow> entry" where
  "zslot g = (replicate (keylen g) 0, 0)"

lemma zslot_simps [simp]: "snd (zslot g) = 0" "length (fst (zslot g)) = keylen g"
  by (simp_all add: zslot_def)

lemma clearpair_slot [slot_simps]:
  assumes "geo_ok g" "nd g h p = Some S" "n < no_pairs g"
  shows "clearpair g h p n = Some (put g h p (S[n := zslot g]))"
proof -
  have v: "valid g S" using assms by (simp add: nd_valid)
  let ?Z = "replicate (keylen g) (0 :: ulong)"
  have "longset h p (n * keylen g) 0 0 (keylen g) = setkey g h p (Buf ?Z) n"
    by (simp add: setkey_def longset_longcpy)
  also have "\<dots> = Some (put g h p (S[n := (?Z, snd (S ! n))]))"
    by (rule setkey_slot) (use assms in auto)
  finally have 1: "longset h p (n * keylen g) 0 0 (keylen g)
      = Some (put g h p (S[n := (?Z, snd (S ! n))]))" .
  have "st (put g h p (S[n := (?Z, snd (S ! n))])) p (no_pairs g * keylen g + n) 0
      = Some (put g h p (S[n := zslot g]))"
    using assms v nd_length [OF assms(2)]
    by (subst st_val) (auto simp: put_simps valid_upd zslot_def)
  with 1 show ?thesis by (simp add: clearpair_def)
qed

end
