(* ===== verification/Btree_Loops.thy ===== *)
theory Btree_Loops
  imports Main Btree Btree_Slots
begin

text \<open>
  Nodes in use hold a list of entries on the left and cleared slots behind it (\<open>pad\<close>). Each search
  and each loop of btree.c is computed here once on such nodes: what it returns, and the entries
  it leaves.
\<close>

definition pad :: "btree_geo \<Rightarrow> entry list \<Rightarrow> entry list" where
  "pad g es = es @ replicate (no_pairs g - length es) (zslot g)"

definition entries_ok :: "btree_geo \<Rightarrow> entry list \<Rightarrow> bool" where
  "entries_ok g es \<longleftrightarrow> length es \<le> no_pairs g \<and> (\<forall>e \<in> set es. length (fst e) = keylen g \<and> snd e \<noteq> 0)"

lemma entries_ok_length: "entries_ok g es \<Longrightarrow> length es \<le> no_pairs g"
  by (simp add: entries_ok_def)

lemma entries_ok_subset:
  "entries_ok g es \<Longrightarrow> set es' \<subseteq> set es \<Longrightarrow> length es' \<le> no_pairs g \<Longrightarrow> entries_ok g es'"
  by (auto simp: entries_ok_def)

lemma length_pad: "length es \<le> no_pairs g \<Longrightarrow> length (pad g es) = no_pairs g"
  by (simp add: pad_def)

lemma nth_pad:
  "i < no_pairs g \<Longrightarrow> length es \<le> no_pairs g \<Longrightarrow>
     pad g es ! i = (if i < length es then es ! i else zslot g)"
  by (simp add: pad_def nth_append)

lemma valid_pad: "entries_ok g es \<Longrightarrow> valid g (pad g es)"
  by (auto simp: entries_ok_def valid_def length_pad pad_def)

lemma zeros_le: "length k = n \<Longrightarrow> replicate n (0 :: ulong) \<le> k"
proof (induction k arbitrary: n)
  case Nil
  then show ?case by simp
next
  case (Cons a k)
  then show ?case by (cases n) (auto simp: word_gt_0)
qed

section \<open>Searching a node\<close>

lemma scan_le_slots:
  assumes "geo_ok g" "nd g h p = Some S" "kval g h kp = Some k" "i \<le> no_pairs g"
  shows "scan_le g h p kp i = Some (i + length (takeWhile (\<lambda>e. k < fst e) (drop i S)))"
  using assms(4)
proof (induction "no_pairs g - i" arbitrary: i)
  case 0
  with nd_length [OF assms(2)] show ?case by (simp add: scan_le.simps)
next
  case (Suc m)
  then have i: "i < no_pairs g" by simp
  then have "drop i S = S ! i # drop (Suc i) S"
    using nd_length [OF assms(2)] by (simp add: Cons_nth_drop_Suc)
  with Suc.hyps(1) [of "Suc i"] Suc.hyps(2) i assms(1,2,3) show ?case
    by (subst scan_le.simps) (auto simp: slot_simps)
qed

definition posn :: "key \<Rightarrow> entry list \<Rightarrow> nat" where
  "posn k es = length (takeWhile (\<lambda>e. k < fst e) es)"

lemma posn_le: "posn k es \<le> length es"
  by (simp add: posn_def length_takeWhile_le)

lemma posn_pad:
  assumes "length k = keylen g"
  shows "length (takeWhile (\<lambda>e. k < fst e) (pad g es)) = posn k es"
proof -
  have "\<not> k < fst (zslot g)" using zeros_le [OF assms] by (simp add: zslot_def not_less)
  then show ?thesis
    unfolding pad_def posn_def
    by (cases "no_pairs g - length es") (auto simp: takeWhile_append takeWhile_eq_all_conv [THEN iffD2])
qed

lemma scan_le_pad:
  assumes "geo_ok g" "nd g h p = Some (pad g es)" "kval g h kp = Some k"
  shows "scan_le g h p kp 0 = Some (posn k es)"
  using scan_le_slots [OF assms(1-3)] posn_pad [OF kval_length [OF assms(3)]] by simp

lemma getpos_pad:
  "geo_ok g \<Longrightarrow> nd g h p = Some (pad g es) \<Longrightarrow> kval g h kp = Some k \<Longrightarrow>
     getpos g h p kp = Some (posn k es)"
  by (simp add: getpos_def scan_le_pad)

lemma getfill_slots:
  assumes "geo_ok g" "nd g h p = Some S" "i \<le> no_pairs g"
  shows "getfill g h p i = Some (i + length (takeWhile (\<lambda>e. snd e \<noteq> 0) (drop i S)))"
  using assms(3)
proof (induction "no_pairs g - i" arbitrary: i)
  case 0
  with nd_length [OF assms(2)] show ?case by (simp add: getfill.simps)
next
  case (Suc m)
  then have i: "i < no_pairs g" by simp
  then have "drop i S = S ! i # drop (Suc i) S"
    using nd_length [OF assms(2)] by (simp add: Cons_nth_drop_Suc)
  with Suc.hyps(1) [of "Suc i"] Suc.hyps(2) i assms(1,2) show ?case
    by (subst getfill.simps) (auto simp: slot_simps)
qed

lemma getfill_pad:
  assumes "geo_ok g" "nd g h p = Some (pad g es)" "entries_ok g es" "i \<le> length es"
  shows "getfill g h p i = Some (length es)"
proof -
  have "takeWhile (\<lambda>e. snd e \<noteq> 0) (drop i es) = drop i es"
    using assms(3) in_set_dropD by (fastforce simp: entries_ok_def takeWhile_eq_all_conv)
  then have "takeWhile (\<lambda>e. snd e \<noteq> 0) (drop i (pad g es)) = drop i es"
    using assms(4) by (cases "no_pairs g - length es") (auto simp: pad_def takeWhile_append)
  moreover have "i \<le> no_pairs g" using assms(3,4) by (simp add: entries_ok_def)
  ultimately show ?thesis
    using getfill_slots [OF assms(1,2), of i] assms(4) by simp
qed

lemma bval_pad:
  "geo_ok g \<Longrightarrow> nd g h p = Some (pad g es) \<Longrightarrow> entries_ok g es \<Longrightarrow> i < no_pairs g \<Longrightarrow>
     bval g h p i = Some (if i < length es then snd (es ! i) else 0)"
  by (simp add: bval_slot nth_pad entries_ok_length)

lemma kval_bkey_pad:
  "geo_ok g \<Longrightarrow> nd g h p = Some (pad g es) \<Longrightarrow> entries_ok g es \<Longrightarrow> i < length es \<Longrightarrow>
     kval g h (bkey g p i) = Some (fst (es ! i))"
  using entries_ok_length [of g es] by (simp add: kval_bkey nth_pad)

section \<open>The copying loops\<close>

definition blit :: "'a list \<Rightarrow> nat \<Rightarrow> 'a list \<Rightarrow> 'a list" where
  "blit T j xs = take j T @ xs @ drop (j + length xs) T"

lemma blit_Nil [simp]: "blit T j [] = T"
  by (simp add: blit_def)

lemma length_blit [simp]: "j + length xs \<le> length T \<Longrightarrow> length (blit T j xs) = length T"
  by (simp add: blit_def)

lemma nth_blit:
  "j + length xs \<le> length T \<Longrightarrow> m < length T \<Longrightarrow>
     blit T j xs ! m = (if j \<le> m \<and> m < j + length xs then xs ! (m - j) else T ! m)"
  by (auto simp: blit_def nth_append)

lemma set_blit: "set (blit T j xs) \<subseteq> set T \<union> set xs"
  by (auto simp: blit_def dest: in_set_takeD in_set_dropD)

lemma valid_blit:
  assumes "valid g T" "valid g S" "set xs \<subseteq> set S" "j + length xs \<le> no_pairs g"
  shows "valid g (blit T j xs)"
  using assms set_blit [of T j xs] by (auto simp: valid_def)

lemma valid_upd_nth:
  "valid g T \<Longrightarrow> valid g S \<Longrightarrow> i < no_pairs g \<Longrightarrow> valid g (T[j := S ! i])"
  using valid_upd [of g T "fst (S ! i)" j "snd (S ! i)"] by (simp add: valid_key)

lemma valid_upd_zslot: "valid g T \<Longrightarrow> valid g (T[j := zslot g])"
  using valid_upd [of g T "fst (zslot g)" j "snd (zslot g)"] by (simp add: zslot_def)

lemma copypair_slots [slot_simps]:
  assumes "geo_ok g" "nd g h src = Some S" "nd g h dst = Some T" "i < no_pairs g" "j < no_pairs g"
  shows "copypair g h src i dst j = Some (put g h dst (T[j := S ! i]))"
proof -
  note v = nd_valid [OF assms(1,2)] nd_valid [OF assms(1,3)]
  note l = nd_length [OF assms(2)] nd_length [OF assms(3)]
  let ?h = "put g h dst (T[j := (fst (S ! i), snd (T ! j))])"
  have 1: "setkey g h dst (bkey g src i) j = Some ?h"
    using assms by (simp add: slot_simps)
  have vT: "valid g (T[j := (fst (S ! i), snd (T ! j))])"
    using v assms(4) by (simp add: valid_upd valid_key)
  have dst: "nd g ?h dst = Some (T[j := (fst (S ! i), snd (T ! j))])"
    using assms vT by (simp add: put_simps)
  have 2: "bval g ?h src i = Some (snd (S ! i))"
  proof (cases "src = dst")
    case True
    then have "S = T" using assms by simp
    with True dst assms l show ?thesis by (auto simp: bval_slot nth_list_update)
  next
    case False
    with assms show ?thesis by (simp add: bval_slot put_simps)
  qed
  have "setval g ?h dst (snd (S ! i)) j = Some (put g h dst (T[j := S ! i]))"
    using assms dst l v vT by (simp add: setval_slot put_put valid_upd_nth)
  with 1 2 show ?thesis by (simp add: copypair_def)
qed

lemma copy_up_slots:
  assumes "geo_ok g" "nd g h src = Some S" "nd g h dst = Some T"
    and "i + n \<le> no_pairs g" "j + n \<le> no_pairs g" "src = dst \<Longrightarrow> j \<le> i"
  shows "copy_up g src i dst j n h = Some (put g h dst (blit T j (take n (drop i S))))"
  using assms(4,5)
proof (induction n)
  case 0
  with assms show ?case by (simp add: put_nd)
next
  case (Suc n)
  note l = nd_length [OF assms(2)] nd_length [OF assms(3)]
  note v = nd_valid [OF assms(1,2)] nd_valid [OF assms(1,3)]
  let ?T = "blit T j (take n (drop i S))" and ?h = "put g h dst (blit T j (take n (drop i S)))"
  have vT: "valid g ?T"
    using v Suc.prems by (intro valid_blit [of g T S]) (auto dest: in_set_takeD in_set_dropD)
  have dst: "nd g ?h dst = Some ?T" using assms vT by (simp add: put_simps)
  obtain S' where src: "nd g ?h src = Some S'" and read: "S' ! (i + n) = S ! (i + n)"
  proof (cases "src = dst")
    case True
    then have "S = T" using assms by simp
    with True dst that [of ?T] l Suc.prems assms(6) show ?thesis by (auto simp: nth_blit)
  next
    case False
    with that [of S] assms show ?thesis by (simp add: put_simps)
  qed
  have "copypair g ?h src (i + n) dst (j + n) = Some (put g ?h dst (?T[j + n := S' ! (i + n)]))"
    using assms(1) src dst Suc.prems by (intro copypair_slots) auto
  also have "put g ?h dst (?T[j + n := S' ! (i + n)]) = put g h dst (?T[j + n := S ! (i + n)])"
    using assms(1) vT v Suc.prems read by (simp add: put_put valid_upd_nth)
  also have "?T[j + n := S ! (i + n)] = blit T j (take (Suc n) (drop i S))"
    using l Suc.prems
    by (intro nth_equalityI) (auto simp: nth_blit nth_list_update nth_append)
  finally show ?case using Suc by simp
qed

lemma copy_down_slots:
  assumes "geo_ok g" "nd g h p = Some S" "i + n \<le> no_pairs g" "j + n \<le> no_pairs g" "i \<le> j"
  shows "copy_down g p i j n h = Some (put g h p (blit S j (take n (drop i S))))"
  using assms(2-)
proof (induction n arbitrary: h S)
  case 0
  with assms(1) show ?case by (simp add: put_nd)
next
  case (Suc n)
  note l = nd_length [OF Suc.prems(1)]
  note v = nd_valid [OF assms(1) Suc.prems(1)]
  let ?S = "S[j + n := S ! (i + n)]"
  have vS: "valid g ?S" using v Suc.prems by (simp add: valid_upd_nth)
  have 1: "copypair g h p (i + n) p (j + n) = Some (put g h p ?S)"
    using assms(1) Suc.prems by (intro copypair_slots) auto
  have "nd g (put g h p ?S) p = Some ?S" using assms(1) Suc.prems vS by (simp add: put_simps)
  then have "copy_down g p i j n (put g h p ?S)
      = Some (put g (put g h p ?S) p (blit ?S j (take n (drop i ?S))))"
    using Suc.prems by (intro Suc.IH) auto
  moreover have "blit ?S j (take n (drop i ?S)) = blit S j (take (Suc n) (drop i S))"
    using l Suc.prems
    by (intro nth_equalityI) (auto simp: nth_blit nth_list_update)
  moreover have "valid g (blit S j (take (Suc n) (drop i S)))"
    using v Suc.prems by (intro valid_blit [of g S S]) (auto dest: in_set_takeD in_set_dropD)
  ultimately show ?case using 1 vS assms(1) by (simp add: put_put)
qed

lemma valid_zslot: "geo_ok g \<Longrightarrow> valid g (replicate (no_pairs g) (zslot g))"
  by (simp add: valid_def)

lemma clear_up_slots:
  assumes "geo_ok g" "nd g h p = Some S" "i + n \<le> no_pairs g"
  shows "clear_up g p i n h = Some (put g h p (blit S i (replicate n (zslot g))))"
  using assms(3)
proof (induction n)
  case 0
  with assms show ?case by (simp add: put_nd)
next
  case (Suc n)
  note l = nd_length [OF assms(2)]
  let ?S = "blit S i (replicate n (zslot g))"
  have vS: "valid g ?S"
    using Suc.prems assms by (intro valid_blit [OF nd_valid valid_zslot]) auto
  have "clearpair g (put g h p ?S) p (i + n) = Some (put g (put g h p ?S) p (?S[i + n := zslot g]))"
    using assms Suc.prems vS by (intro clearpair_slot) (auto simp: put_simps)
  also have "put g (put g h p ?S) p (?S[i + n := zslot g]) = put g h p (?S[i + n := zslot g])"
    using assms(1) vS by (simp add: put_put valid_upd_zslot)
  also have "?S[i + n := zslot g] = blit S i (replicate (Suc n) (zslot g))"
    using l Suc.prems
    by (intro nth_equalityI) (auto simp: nth_blit nth_list_update nth_append
        simp del: replicate_Suc)
  finally show ?case using Suc by simp
qed

section \<open>What the code does with the entries of a node\<close>

definition ins_at :: "nat \<Rightarrow> 'a \<Rightarrow> 'a list \<Rightarrow> 'a list" where
  "ins_at i x xs = take i xs @ x # drop i xs"

definition del_at :: "nat \<Rightarrow> 'a list \<Rightarrow> 'a list" where
  "del_at i xs = take i xs @ drop (Suc i) xs"

lemma length_ins_at [simp]: "i \<le> length xs \<Longrightarrow> length (ins_at i x xs) = Suc (length xs)"
  by (simp add: ins_at_def)

lemma length_del_at [simp]: "i < length xs \<Longrightarrow> length (del_at i xs) = length xs - 1"
  by (simp add: del_at_def)

lemma nth_ins_at:
  "i \<le> length xs \<Longrightarrow> m \<le> length xs \<Longrightarrow>
     ins_at i x xs ! m = (if m < i then xs ! m else if m = i then x else xs ! (m - 1))"
  by (auto simp: ins_at_def nth_append nth_Cons')

lemma nth_del_at:
  "i < length xs \<Longrightarrow> m < length xs - 1 \<Longrightarrow> del_at i xs ! m = (if m < i then xs ! m else xs ! Suc m)"
  by (auto simp: del_at_def nth_append)

lemma set_ins_at: "set (ins_at i x xs) = insert x (set xs)"
proof -
  have "set xs = set (take i xs) \<union> set (drop i xs)"
    by (metis append_take_drop_id set_append)
  then show ?thesis by (simp add: ins_at_def)
qed

lemma set_del_at: "set (del_at i xs) \<subseteq> set xs"
  by (auto simp: del_at_def dest: in_set_takeD in_set_dropD)

lemma entries_ok_ins_at:
  "entries_ok g es \<Longrightarrow> length es < no_pairs g \<Longrightarrow> i \<le> length es \<Longrightarrow> length k = keylen g \<Longrightarrow> v \<noteq> 0 \<Longrightarrow>
     entries_ok g (ins_at i (k, v) es)"
  by (auto simp: entries_ok_def set_ins_at)

lemma entries_ok_del_at: "entries_ok g es \<Longrightarrow> i < length es \<Longrightarrow> entries_ok g (del_at i es)"
  using set_del_at [of i es] by (auto simp: entries_ok_def)

lemma insert_slots:
  assumes "geo_ok g" "nd g h p = Some (pad g es)" "entries_ok g es" "length es < no_pairs g"
    and "i \<le> length es" "kval g h kp = Some k" "p \<notin> kaddr kp" "v \<noteq> 0"
  shows "do { h \<leftarrow> copy_down g p i (Suc i) (length es - i) h;
              h \<leftarrow> setkey g h p kp i;
              setval g h p v i } = Some (put g h p (pad g (ins_at i (k, v) es)))"
proof -
  let ?S = "blit (pad g es) (Suc i) (take (length es - i) (drop i (pad g es)))"
  note lp = length_pad [OF entries_ok_length [OF assms(3)]]
  have vS: "valid g ?S" using assms lp valid_pad [OF assms(3)]
    by (intro valid_blit [OF valid_pad valid_pad]) (auto dest: in_set_takeD in_set_dropD)
  have 1: "copy_down g p i (Suc i) (length es - i) h = Some (put g h p ?S)"
    using assms by (intro copy_down_slots) auto
  let ?T = "?S[i := (k, snd (?S ! i))]"
  have vT: "valid g ?T" using vS kval_length [OF assms(6)] by (simp add: valid_upd)
  have lS: "length ?S = no_pairs g" using vS by (simp add: valid_def)
  have 2: "setkey g (put g h p ?S) p kp i = Some (put g h p ?T)"
  proof -
    have "setkey g (put g h p ?S) p kp i = Some (put g (put g h p ?S) p ?T)"
      using assms vS by (intro setkey_slot) (auto simp: put_simps kslot_other)
    then show ?thesis using assms vS vT by (simp add: put_put)
  qed
  have 3: "setval g (put g h p ?T) p v i = Some (put g h p (?S[i := (k, v)]))"
  proof -
    have "setval g (put g h p ?T) p v i = Some (put g (put g h p ?T) p (?T[i := (fst (?T ! i), v)]))"
      using assms vT by (intro setval_slot) (auto simp: put_simps)
    moreover have "?T[i := (fst (?T ! i), v)] = ?S[i := (k, v)]"
      using assms(4,5) lS by simp
    moreover have "valid g (?S[i := (k, v)])"
      using vS kval_length [OF assms(6)] by (simp add: valid_upd)
    ultimately show ?thesis using assms vT by (simp add: put_put)
  qed
  have "?S[i := (k, v)] = pad g (ins_at i (k, v) es)"
  proof (rule nth_equalityI)
    show "length (?S[i := (k, v)]) = length (pad g (ins_at i (k, v) es))"
      using lS assms by (simp add: length_pad)
  next
    fix m assume "m < length (?S[i := (k, v)])"
    then show "?S[i := (k, v)] ! m = pad g (ins_at i (k, v) es) ! m"
      using lS lp assms by (auto simp: nth_blit nth_list_update nth_pad nth_ins_at)
  qed
  with 1 2 3 show ?thesis by simp
qed

lemma remove_slots:
  assumes "geo_ok g" "nd g h p = Some (pad g es)" "entries_ok g es" "i < length es"
  shows "do { h \<leftarrow> copy_up g p (Suc i) p i (length es - 1 - i) h;
              clearpair g h p (length es - 1) } = Some (put g h p (pad g (del_at i es)))"
proof -
  let ?S = "blit (pad g es) i (take (length es - 1 - i) (drop (Suc i) (pad g es)))"
  have le: "length es \<le> no_pairs g" using assms(3) by (simp add: entries_ok_def)
  note lp = length_pad [OF this]
  have vS: "valid g ?S" using assms lp le valid_pad [OF assms(3)]
    by (intro valid_blit [OF valid_pad valid_pad]) (auto dest: in_set_takeD in_set_dropD)
  have lS: "length ?S = no_pairs g" using vS by (simp add: valid_def)
  have 1: "copy_up g p (Suc i) p i (length es - 1 - i) h = Some (put g h p ?S)"
    using assms le by (intro copy_up_slots) auto
  have "clearpair g (put g h p ?S) p (length es - 1)
      = Some (put g (put g h p ?S) p (?S[length es - 1 := zslot g]))"
    using assms vS le by (intro clearpair_slot) (auto simp: put_simps)
  also have "put g (put g h p ?S) p (?S[length es - 1 := zslot g])
      = put g h p (?S[length es - 1 := zslot g])"
    using assms(1) vS by (simp add: put_put valid_upd_zslot)
  also have "?S[length es - 1 := zslot g] = pad g (del_at i es)"
  proof (rule nth_equalityI)
    show "length (?S[length es - 1 := zslot g]) = length (pad g (del_at i es))"
      using lS le assms(4) by (simp add: length_pad)
  next
    fix m assume "m < length (?S[length es - 1 := zslot g])"
    then show "?S[length es - 1 := zslot g] ! m = pad g (del_at i es) ! m"
      using lS lp le assms(4) by (auto simp: nth_blit nth_list_update nth_pad nth_del_at)
  qed
  finally show ?thesis using 1 by simp
qed

lemma append_slots:
  assumes "geo_ok g" "nd g h l = Some (pad g ls)" "nd g h r = Some (pad g rs)" "l \<noteq> r"
    and "length ls + length rs \<le> no_pairs g"
  shows "copy_up g r 0 l (length ls) (length rs) h = Some (put g h l (pad g (ls @ rs)))"
proof -
  have "copy_up g r 0 l (length ls) (length rs) h
      = Some (put g h l (blit (pad g ls) (length ls) (take (length rs) (drop 0 (pad g rs)))))"
    using assms by (intro copy_up_slots) auto
  moreover have "blit (pad g ls) (length ls) (take (length rs) (drop 0 (pad g rs))) = pad g (ls @ rs)"
    using assms(5) by (simp add: pad_def blit_def)
  ultimately show ?thesis by simp
qed

lemma pad_upd: "i < length es \<Longrightarrow> (pad g es)[i := e] = pad g (es[i := e])"
  by (simp add: pad_def list_update_append)

lemma pad_full: "length es = no_pairs g \<Longrightarrow> pad g es = es"
  by (simp add: pad_def)

lemma setkey_pad:
  assumes "geo_ok g" "nd g h p = Some (pad g es)" "entries_ok g es" "i < length es"
    "kval g h kp = Some k" "kslot g kp p"
  shows "setkey g h p kp i = Some (put g h p (pad g (es[i := (k, snd (es ! i))])))"
  using assms entries_ok_length [OF assms(3)] setkey_slot [OF assms(1,2) _ assms(5,6), of i]
  by (simp add: nth_pad pad_upd)

lemma setval_pad:
  assumes "geo_ok g" "nd g h p = Some (pad g es)" "entries_ok g es" "i < length es"
  shows "setval g h p v i = Some (put g h p (pad g (es[i := (fst (es ! i), v)])))"
  using assms entries_ok_length [OF assms(3)] setval_slot [OF assms(1,2), of i v]
  by (simp add: nth_pad pad_upd)

lemma entries_ok_upd:
  assumes "entries_ok g es" "i < length es" "length k = keylen g" "v \<noteq> 0"
  shows "entries_ok g (es[i := (k, v)])"
  using assms set_update_subset_insert [of es i "(k, v)"] by (auto simp: entries_ok_def)

lemma entries_ok_snd: "entries_ok g es \<Longrightarrow> i < length es \<Longrightarrow> snd (es ! i) \<noteq> 0"
  and entries_ok_fst: "entries_ok g es \<Longrightarrow> i < length es \<Longrightarrow> length (fst (es ! i)) = keylen g"
  by (auto simp: entries_ok_def)

lemma entries_ok_append:
  "length (es @ es') \<le> no_pairs g \<Longrightarrow> entries_ok g (es @ es') \<longleftrightarrow> entries_ok g es \<and> entries_ok g es'"
  by (auto simp: entries_ok_def)

lemma entries_ok_take: "entries_ok g es \<Longrightarrow> entries_ok g (take n es)"
  and entries_ok_drop: "entries_ok g es \<Longrightarrow> entries_ok g (drop n es)"
  by (auto simp: entries_ok_def dest: in_set_takeD in_set_dropD)

lemma clear_tail_slots:
  assumes "geo_ok g" "nd g h p = Some (pad g es)" "entries_ok g es" "n \<le> length es"
  shows "clear_up g p (length es - n) n h = Some (put g h p (pad g (take (length es - n) es)))"
proof -
  have le: "length es \<le> no_pairs g" using assms(3) by (simp add: entries_ok_def)
  have "blit (pad g es) (length es - n) (replicate n (zslot g)) = pad g (take (length es - n) es)"
    using le assms(4) by (intro nth_equalityI) (auto simp: nth_blit nth_pad length_pad)
  then show ?thesis using clear_up_slots [OF assms(1,2), of "length es - n" n] le assms(4) by simp
qed

lemma steal_l_slots:
  assumes g: "geo_ok g" and l: "nd g h l = Some (pad g ls)" "entries_ok g ls"
    and r: "nd g h r = Some (pad g rs)" "entries_ok g rs"
    and q: "nd g h q = Some (pad g ps)" "entries_ok g ps"
    and d: "l \<noteq> r" "l \<noteq> q" "r \<noteq> q"
    and n: "n < length ls" "n + length rs \<le> no_pairs g" "i < length ps"
  shows "steal_l g h l (length ls) r (length rs) q i n
       = Some (put g (put g (put g h r (pad g (drop (length ls - n) ls @ rs)))
                            q (pad g (ps[i := (fst (ls ! (length ls - n - 1)), snd (ps ! i))])))
                  l (pad g (take (length ls - n) ls)))"
proof -
  have le: "length ls \<le> no_pairs g" "length rs \<le> no_pairs g"
    using l r by (simp_all add: entries_ok_def)
  let ?a = "length ls - n"
  let ?R = "blit (pad g rs) n rs" and ?R' = "pad g (drop ?a ls @ rs)"
  have vR: "valid g ?R" using n le valid_pad [OF r(2)]
    by (intro valid_blit [OF valid_pad [OF r(2)] valid_pad [OF r(2)]]) (auto simp: pad_def)
  have vR': "valid g ?R'" using n le l r
    by (intro valid_pad) (simp add: entries_ok_append entries_ok_drop)
  have 1: "copy_down g r 0 n (length rs) h = Some (put g h r ?R)"
    using copy_down_slots [OF g r(1), of 0 "length rs" n] n le by (simp add: pad_def)
  have 2: "copy_up g l ?a r 0 n (put g h r ?R) = Some (put g h r ?R')"
  proof -
    have "copy_up g l ?a r 0 n (put g h r ?R)
        = Some (put g (put g h r ?R) r (blit ?R 0 (take n (drop ?a (pad g ls)))))"
      by (rule copy_up_slots [OF g]) (use l r d n le vR g in \<open>auto simp: put_simps\<close>)
    moreover have "blit ?R 0 (take n (drop ?a (pad g ls))) = ?R'"
      using n le by (intro nth_equalityI) (auto simp: nth_blit nth_pad length_pad nth_append)
    ultimately show ?thesis using vR vR' g by (simp add: put_put)
  qed
  let ?h = "put g h r ?R'"
  have 3: "setkey g ?h q (bkey g l (?a - 1)) i
      = Some (put g ?h q (pad g (ps[i := (fst (ls ! (?a - 1)), snd (ps ! i))])))"
    by (rule setkey_pad [OF g])
      (use l q d n g in \<open>auto simp: put_simps kslot_other intro!: kval_bkey_pad\<close>)
  have 4: "clear_up g l ?a n (put g ?h q X) = Some (put g (put g ?h q X) l (pad g (take ?a ls)))" for X
    by (rule clear_tail_slots [OF g]) (use l d n in \<open>auto simp: put_simps\<close>)
  show ?thesis using 1 2 3 4 n by (simp add: steal_l_def)
qed

lemma steal_r_slots:
  assumes g: "geo_ok g" and l: "nd g h l = Some (pad g ls)" "entries_ok g ls"
    and r: "nd g h r = Some (pad g rs)" "entries_ok g rs"
    and q: "nd g h q = Some (pad g ps)" "entries_ok g ps"
    and d: "l \<noteq> r" "l \<noteq> q" "r \<noteq> q"
    and n: "0 < n" "n \<le> length rs" "length ls + n \<le> no_pairs g" "i < length ps"
  shows "steal_r g h l (length ls) r (length rs) q i n
       = Some (put g (put g (put g h l (pad g (ls @ take n rs)))
                            q (pad g (ps[i := (fst (rs ! (n - 1)), snd (ps ! i))])))
                  r (pad g (drop n rs)))"
proof -
  have le: "length ls \<le> no_pairs g" "length rs \<le> no_pairs g"
    using l r by (simp_all add: entries_ok_def)
  let ?L = "pad g (ls @ take n rs)" and ?b = "length rs - n"
  let ?R = "blit (pad g rs) 0 (drop n rs)"
  have 1: "copy_up g r 0 l (length ls) n h = Some (put g h l ?L)"
  proof -
    have "copy_up g r 0 l (length ls) n h
        = Some (put g h l (blit (pad g ls) (length ls) (take n (drop 0 (pad g rs)))))"
      by (rule copy_up_slots [OF g]) (use l r d n le in auto)
    moreover have "blit (pad g ls) (length ls) (take n (drop 0 (pad g rs))) = ?L"
      using n le by (intro nth_equalityI) (auto simp: nth_blit nth_pad length_pad nth_append)
    ultimately show ?thesis by simp
  qed
  let ?h = "put g h l ?L"
  have 2: "setkey g ?h q (bkey g r (n - 1)) i
      = Some (put g ?h q (pad g (ps[i := (fst (rs ! (n - 1)), snd (ps ! i))])))"
    by (rule setkey_pad [OF g])
      (use r q d n g in \<open>auto simp: put_simps kslot_other intro!: kval_bkey_pad\<close>)
  let ?h2 = "put g ?h q (pad g (ps[i := (fst (rs ! (n - 1)), snd (ps ! i))]))"
  have r2: "nd g ?h2 r = Some (pad g rs)" using r d by (simp add: put_simps)
  have vR: "valid g ?R" using n le
    by (intro valid_blit [OF valid_pad [OF r(2)] valid_pad [OF r(2)]])
      (auto simp: pad_def dest: in_set_dropD)
  have 3: "copy_up g r n r 0 ?b ?h2 = Some (put g ?h2 r ?R)"
  proof -
    have "copy_up g r n r 0 ?b ?h2 = Some (put g ?h2 r (blit (pad g rs) 0 (take ?b (drop n (pad g rs)))))"
      by (rule copy_up_slots [OF g r2 r2]) (use n le in auto)
    then show ?thesis using n by (simp add: pad_def)
  qed
  have 4: "clear_up g r ?b n (put g ?h2 r ?R) = Some (put g ?h2 r (pad g (drop n rs)))"
  proof -
    have "clear_up g r ?b n (put g ?h2 r ?R)
        = Some (put g (put g ?h2 r ?R) r (blit ?R ?b (replicate n (zslot g))))"
      by (rule clear_up_slots [OF g]) (use r2 vR g n le in \<open>auto simp: put_simps\<close>)
    moreover have "blit ?R ?b (replicate n (zslot g)) = pad g (drop n rs)"
      using n le by (intro nth_equalityI) (auto simp: nth_blit nth_pad length_pad nth_append)
    moreover have "valid g (pad g (drop n rs))" using r by (intro valid_pad entries_ok_drop)
    ultimately show ?thesis using g vR by (simp add: put_put)
  qed
  show ?thesis using 1 2 3 4 n by (simp add: steal_r_def)
qed

text \<open>The node after \<open>i\<close> turns of the loop of \<open>split\<close>.\<close>

definition split_node :: "btree_geo \<Rightarrow> entry list \<Rightarrow> nat \<Rightarrow> nat \<Rightarrow> entry list" where
  "split_node g es m i = blit (blit es 0 (take i (drop m es))) m (replicate i (zslot g))"

lemma split_node_nth:
  assumes "i \<le> m" "m + i \<le> length es" "j < length es"
  shows "split_node g es m i ! j =
     (if j < i then es ! (j + m) else if m \<le> j \<and> j < m + i then zslot g else es ! j)"
  using assms by (auto simp: split_node_def nth_blit add.commute)

lemma split_node_length:
  "i \<le> m \<Longrightarrow> m + i \<le> length es \<Longrightarrow> length (split_node g es m i) = length es"
  by (simp add: split_node_def)

lemma valid_split_node:
  assumes "valid g es" "i \<le> m" "m + i \<le> no_pairs g" "geo_ok g"
  shows "valid g (split_node g es m i)"
  unfolding split_node_def
  by (rule valid_blit [OF valid_blit [OF assms(1) assms(1)] valid_zslot [OF assms(4)]])
    (use assms in \<open>auto simp: valid_def dest: in_set_takeD in_set_dropD\<close>)

lemma split_loop_slots:
  assumes g: "geo_ok g" and p: "nd g h p = Some es" and q: "nd g h q = Some Z" and d: "p \<noteq> q"
    and m: "i \<le> m" "2 * m \<le> no_pairs g"
  shows "split_loop g q p m i h
       = Some (put g (put g h q (blit Z 0 (take i es))) p (split_node g es m i))"
  using m(1)
proof (induction i)
  case 0
  have "put g h p es = h" "put g h q Z = h" using put_nd [OF g] p q by auto
  then show ?case by (simp add: split_node_def)
next
  case (Suc i)
  note l = nd_length [OF p] nd_length [OF q]
  note v = nd_valid [OF g p] nd_valid [OF g q]
  let ?Q = "\<lambda>i. blit Z 0 (take i es)" and ?P = "split_node g es m"
  have vQ: "valid g (?Q j)" if "j \<le> m" for j
    using v m that l by (intro valid_blit [OF v(2) v(1)]) (auto dest: in_set_takeD)
  have vP: "valid g (?P j)" if "j \<le> m" for j
    using v m that by (intro valid_split_node [OF v(1) _ _ g]) auto
  let ?h = "put g (put g h q (?Q i)) p (?P i)"
  have hp: "nd g ?h p = Some (?P i)" and hq: "nd g ?h q = Some (?Q i)"
    using p q d g vP vQ Suc.prems by (simp_all add: put_simps)
  have e1: "(?Q i)[i := ?P i ! i] = ?Q (Suc i)"
    using Suc.prems l m
    by (intro nth_equalityI) (auto simp: nth_blit nth_list_update split_node_nth)
  have 1: "copypair g ?h p i q i = Some (put g (put g h q (?Q (Suc i))) p (?P i))"
    using copypair_slots [OF g hp hq, of i i] Suc.prems m e1 d g vQ
    by (simp add: put_comm [of p q] put_put)
  let ?h1 = "put g (put g h q (?Q (Suc i))) p (?P i)"
  have h1: "nd g ?h1 p = Some (?P i)"
    using p q d g vP vQ Suc.prems by (simp_all add: put_simps)
  let ?S = "(?P i)[i := ?P i ! (i + m)]"
  have vS: "valid g ?S" using vP Suc.prems m by (simp add: valid_upd_nth)
  have 2: "copypair g ?h1 p (i + m) p i = Some (put g (put g h q (?Q (Suc i))) p ?S)"
    using copypair_slots [OF g h1 h1, of "i + m" i] Suc.prems m vS vP g by (simp add: put_put)
  have e3: "?S[i + m := zslot g] = ?P (Suc i)"
    using Suc.prems l m
    by (intro nth_equalityI) (auto simp: nth_list_update split_node_nth split_node_length)
  let ?h2 = "put g (put g h q (?Q (Suc i))) p ?S"
  have "nd g ?h2 p = Some ?S" using p q d g vS vQ Suc.prems by (simp_all add: put_simps)
  then have 3: "clearpair g ?h2 p (i + m) = Some (put g (put g h q (?Q (Suc i))) p (?P (Suc i)))"
    using clearpair_slot [OF g, of ?h2 p ?S "i + m"] Suc.prems m e3 vS vP g by (simp add: put_put)
  show ?case using Suc 1 2 3 by simp
qed

lemma split_slots:
  assumes g: "geo_ok g" and p: "nd g h p = Some (pad g es)" "length es = no_pairs g" "entries_ok g es"
    and q: "nd g h q = Some (pad g [])" and d: "p \<noteq> q"
  defines "m \<equiv> no_pairs g div 2"
  shows "do { h \<leftarrow> split_loop g q p m m h;
              if odd (no_pairs g) then do {
                h \<leftarrow> copypair g h p (no_pairs g - 1) p m;
                clearpair g h p (no_pairs g - 1)
              } else Some h }
       = Some (put g (put g h q (pad g (take m es))) p (pad g (drop m es)))"
proof -
  have pe: "pad g es = es" using p(2) by (rule pad_full)
  note l = p(2)
  have ve: "valid g es" using valid_pad [OF p(3)] pe by simp
  have m: "2 * m \<le> no_pairs g" by (simp add: m_def)
  let ?P = "split_node g es m m" and ?h0 = "put g h q (pad g (take m es))"
  have Q: "blit (pad g []) 0 (take m es) = pad g (take m es)"
    using l m by (simp add: blit_def pad_def)
  have vP: "valid g ?P" using ve m by (intro valid_split_node [OF ve _ _ g]) auto
  have 1: "split_loop g q p m m h = Some (put g ?h0 p ?P)"
    using split_loop_slots [OF g _ q d _ m, of es m] p(1) pe Q by simp
  have h1: "nd g (put g ?h0 p ?P) p = Some ?P"
    using p d g vP by (simp add: put_simps)
  show ?thesis
  proof (cases "odd (no_pairs g)")
    case False
    then have "no_pairs g = 2 * m" by (simp add: m_def)
    then have "?P = pad g (drop m es)"
      using l by (intro nth_equalityI) (auto simp: split_node_nth split_node_length nth_pad length_pad add.commute)
    with 1 False show ?thesis by simp
  next
    case True
    then have n: "no_pairs g = 2 * m + 1" unfolding m_def by presburger
    let ?S = "?P[m := ?P ! (2 * m)]"
    have vS: "valid g ?S" using vP n by (simp add: valid_upd_nth)
    have 2: "copypair g (put g ?h0 p ?P) p (2 * m) p m = Some (put g ?h0 p ?S)"
      using copypair_slots [OF g h1 h1, of "2 * m" m] n vS vP g by (simp add: put_put)
    have "nd g (put g ?h0 p ?S) p = Some ?S" using p d g vS by (simp add: put_simps)
    then have 3: "clearpair g (put g ?h0 p ?S) p (2 * m) = Some (put g ?h0 p (?S[2 * m := zslot g]))"
      using clearpair_slot [OF g, of "put g ?h0 p ?S" p ?S "2 * m"] n vS g
      by (simp add: put_put valid_upd_zslot)
    have "0 < m" using n g by (simp add: geo_ok_def)
    then have "?S[2 * m := zslot g] = pad g (drop m es)"
      using l n by (intro nth_equalityI)
        (auto simp: nth_list_update split_node_nth split_node_length nth_pad length_pad mult_2 add.commute)
    with 1 2 3 True n show ?thesis by simp
  qed
qed

end
