(* ===== verification/Btree_Tower.thy ===== *)
theory Btree_Tower
  imports Main Btree_Loops
begin

text \<open>
  The tree as a tower of levels, from the level an operation works on up to the root. A level is
  the list of its nodes (address and entries) from left to right, so its entries in order are
  one descending list (\<open>flat\<close>). \<open>tower_ok\<close> is the invariant of the data structure, \<open>tower_in\<close>
  says that the heap holds it, and \<open>find_level\<close> is proved to reach the node whose interval
  contains the key.
\<close>

type_synonym lnode = "ulong \<times> entry list"
type_synonym level = "lnode list"

definition flat :: "level \<Rightarrow> entry list" where
  "flat lv = concat (map snd lv)"

lemma flat_simps [simp]:
  "flat [] = []" "flat (n # lv) = snd n @ flat lv" "flat (l @ r) = flat l @ flat r"
  by (simp_all add: flat_def)

lemma set_flat: "x \<in> set (flat lv) \<longleftrightarrow> (\<exists>n \<in> set lv. x \<in> set (snd n))"
  by (auto simp: flat_def)

definition desc :: "entry list \<Rightarrow> bool" where
  "desc es \<longleftrightarrow> sorted_wrt (\<lambda>a b. fst b < fst a) es"

lemma desc_simps [simp]:
  "desc []" "desc (e # es) \<longleftrightarrow> (\<forall>x \<in> set es. fst x < fst e) \<and> desc es"
  by (simp_all add: desc_def)

lemma desc_append:
  "desc (xs @ ys) \<longleftrightarrow> desc xs \<and> desc ys \<and> (\<forall>x \<in> set xs. \<forall>y \<in> set ys. fst y < fst x)"
  by (simp add: desc_def sorted_wrt_append)

lemma desc_nth: "desc es \<Longrightarrow> i < j \<Longrightarrow> j < length es \<Longrightarrow> fst (es ! j) < fst (es ! i)"
  using sorted_wrt_nthD [of "\<lambda>a b. fst b < fst a" es i j] by (simp add: desc_def)

lemma desc_distinct: "desc es \<Longrightarrow> distinct (map fst es)"
  by (induction es) auto

section \<open>Positions in a descending list\<close>

lemma posn_lt: "i < posn k es \<Longrightarrow> k < fst (es ! i)"
  unfolding posn_def by (rule takeWhile_nth_P)

lemma posn_nth: "posn k es < length es \<Longrightarrow> fst (es ! posn k es) \<le> k"
  unfolding posn_def using nth_length_takeWhile [of "\<lambda>e. k < fst e" es] by (simp add: not_less)

lemma posn_append:
  "posn k (xs @ ys) = (if \<forall>x \<in> set xs. k < fst x then length xs + posn k ys else posn k xs)"
  by (auto simp: posn_def takeWhile_append takeWhile_eq_all_conv [THEN iffD2])

lemma posn_0: "(\<And>x. x \<in> set xs \<Longrightarrow> fst x \<le> k) \<Longrightarrow> posn k xs = 0"
  by (cases xs) (auto simp: posn_def not_less)

lemma posn_eqI:
  "i \<le> length es \<Longrightarrow> (\<And>j. j < i \<Longrightarrow> k < fst (es ! j)) \<Longrightarrow> (i < length es \<Longrightarrow> fst (es ! i) \<le> k) \<Longrightarrow>
     posn k es = i"
  unfolding posn_def by (rule length_takeWhile_eq) (auto simp: not_less)

lemma posn_length: "posn k es = length es \<Longrightarrow> x \<in> set es \<Longrightarrow> k < fst x"
  by (metis in_set_conv_nth posn_lt)

lemma posn_all: "\<forall>x \<in> set es. k < fst x \<Longrightarrow> posn k es = length es"
  by (rule posn_eqI) auto

lemma posn_after:
  assumes "desc es" "posn k es \<le> i" "i < length es"
  shows "fst (es ! i) \<le> k"
  using posn_nth [of k es] desc_nth [OF assms(1), of "posn k es" i] assms(2,3)
  by (cases "posn k es = i") auto

section \<open>The lower ends of the intervals\<close>

text \<open>
  The interval of a node ends above at the lower end of its left neighbour. Its lower end is the
  key its parent holds for it, but for the last child of a node it is the lower end of the parent
  itself: \<open>find_level\<close> sends smaller keys there too, and lowers the parent's key on the way.
\<close>

fun seps :: "key list \<Rightarrow> level \<Rightarrow> key list" where
  "seps (E # Es) (n # lv) = map fst (butlast (snd n)) @ E # seps Es lv"
| "seps _ _ = []"

fun lows_of :: "level list \<Rightarrow> key list" where
  "lows_of [] = [[]]"
| "lows_of (lv # T) = seps (lows_of T) lv"

definition below :: "key option \<Rightarrow> key \<Rightarrow> bool" where
  "below U x \<longleftrightarrow> (case U of None \<Rightarrow> True | Some u \<Rightarrow> x < u)"

lemma below_simps [simp]: "below None x" "below (Some u) x \<longleftrightarrow> x < u"
  by (simp_all add: below_def)

fun uppers :: "key option \<Rightarrow> key list \<Rightarrow> level \<Rightarrow> bool" where
  "uppers U [] [] \<longleftrightarrow> True"
| "uppers U (E # Es) (n # lv) \<longleftrightarrow> (\<forall>x \<in> set (snd n). below U (fst x)) \<and> uppers (Some E) Es lv"
| "uppers U _ _ \<longleftrightarrow> False"

definition endb :: "key option \<Rightarrow> key list \<Rightarrow> key option" where
  "endb U Es = (if Es = [] then U else Some (last Es))"

lemma endb_simps [simp]: "endb U [] = U" "endb U (E # Es) = endb (Some E) Es"
  by (simp_all add: endb_def)

lemma seps_append:
  "length El = length l \<Longrightarrow> seps (El @ Er) (l @ r) = seps El l @ seps Er r"
  by (induction El l rule: list_induct2) simp_all

lemma uppers_append:
  "length El = length l \<Longrightarrow>
     uppers U (El @ Er) (l @ r) \<longleftrightarrow> uppers U El l \<and> uppers (endb U El) Er r"
  by (induction El l arbitrary: U rule: list_induct2) auto

lemma uppers_length: "uppers U Es lv \<Longrightarrow> length Es = length lv"
  by (induction U Es lv rule: uppers.induct) auto

lemma uppers_mono:
  assumes "uppers U Es lv" "list_all2 (\<le>) Es Es'" "\<And>x. below U x \<Longrightarrow> below U' x"
  shows "uppers U' Es' lv"
  using assms
proof (induction U Es lv arbitrary: U' Es' rule: uppers.induct)
  case (2 U E Es n lv)
  then obtain E' Es'' where "Es' = E' # Es''" "E \<le> E'" "list_all2 (\<le>) Es Es''"
    by (auto simp: list_all2_Cons1)
  with 2 show ?case by auto
qed auto

section \<open>The invariant\<close>

definition child_ok :: "entry \<Rightarrow> lnode \<Rightarrow> bool" where
  "child_ok e n \<longleftrightarrow> snd e = fst n \<and> (\<forall>x \<in> set (snd n). fst e \<le> fst x)"

definition children :: "level list \<Rightarrow> level \<Rightarrow> bool" where
  "children rest lv \<longleftrightarrow>
     (case rest of [] \<Rightarrow> length lv = 1 | lv' # _ \<Rightarrow> list_all2 child_ok (flat lv') lv)"

lemma children_Cons [simp]:
  "children [] lv \<longleftrightarrow> length lv = 1"
  "children (lv' # T) lv \<longleftrightarrow> list_all2 child_ok (flat lv') lv"
  by (simp_all add: children_def)

definition descs :: "level \<Rightarrow> bool" where
  "descs lv \<longleftrightarrow> (\<forall>n \<in> set lv. desc (snd n))"

definition fill :: "nat \<Rightarrow> level \<Rightarrow> bool" where
  "fill m lv \<longleftrightarrow> (\<forall>n \<in> set lv. m \<le> length (snd n))"

definition fills :: "nat \<Rightarrow> level list \<Rightarrow> bool" where
  "fills m T \<longleftrightarrow> (\<forall>lv \<in> set T. fill m lv)"

lemma descs_simps [simp]:
  "descs []" "descs (n # lv) \<longleftrightarrow> desc (snd n) \<and> descs lv" "descs (l @ r) \<longleftrightarrow> descs l \<and> descs r"
  by (auto simp: descs_def)

lemma fill_simps [simp]:
  "fill m []" "fill m (n # lv) \<longleftrightarrow> m \<le> length (snd n) \<and> fill m lv"
  "fill m (l @ r) \<longleftrightarrow> fill m l \<and> fill m r"
  by (auto simp: fill_def)

lemma fills_simps [simp]: "fills m []" "fills m (lv # T) \<longleftrightarrow> fill m lv \<and> fills m T"
  by (auto simp: fills_def)

lemma fill_mono: "fill m lv \<Longrightarrow> n \<le> m \<Longrightarrow> fill n lv"
  by (auto simp: fill_def)

lemma fills_mono: "fills m T \<Longrightarrow> n \<le> m \<Longrightarrow> fills n T"
  by (auto simp: fills_def fill_mono)

lemma length_seps:
  "length Es = length lv \<Longrightarrow> fill 1 lv \<Longrightarrow> length (seps Es lv) = length (flat lv)"
  by (induction Es lv rule: list_induct2) auto

fun tower_ok :: "level list \<Rightarrow> bool" where
  "tower_ok [] \<longleftrightarrow> True"
| "tower_ok (lv # rest) \<longleftrightarrow>
     descs lv \<and> children rest lv \<and> uppers None (lows_of rest) lv \<and> fills 1 rest \<and> tower_ok rest"

definition addrs :: "level list \<Rightarrow> ulong list" where
  "addrs T = map fst (concat T)"

lemma addrs_simps [simp]: "addrs [] = []" "addrs (lv # T) = map fst lv @ addrs T"
  by (simp_all add: addrs_def)

definition lnode_in :: "btree_geo \<Rightarrow> 'o heap \<Rightarrow> lnode \<Rightarrow> bool" where
  "lnode_in g h n \<longleftrightarrow> fst n \<noteq> 0 \<and> nd g h (fst n) = Some (pad g (snd n)) \<and> entries_ok g (snd n)"

definition level_in :: "btree_geo \<Rightarrow> 'o heap \<Rightarrow> level \<Rightarrow> bool" where
  "level_in g h lv \<longleftrightarrow> (\<forall>n \<in> set lv. lnode_in g h n)"

definition tower_in :: "btree_geo \<Rightarrow> 'o heap \<Rightarrow> level list \<Rightarrow> bool" where
  "tower_in g h T \<longleftrightarrow> (\<forall>lv \<in> set T. level_in g h lv) \<and> distinct (addrs T)"

definition head_ok :: "btree_head \<Rightarrow> nat \<Rightarrow> level list \<Rightarrow> bool" where
  "head_ok head L T \<longleftrightarrow> (\<exists>es. last T = [(bh_node head, es)]) \<and> bh_height head + 1 = L + length T"

text \<open>What an operation that only writes the nodes in \<open>A\<close> leaves alone.\<close>

definition frame :: "ulong set \<Rightarrow> 'o heap \<Rightarrow> 'o heap \<Rightarrow> bool" where
  "frame A h h' \<longleftrightarrow> (\<forall>p. p \<notin> A \<longrightarrow> mem h' p = mem h p)
     \<and> (\<forall>p. mem h' p = None \<longleftrightarrow> mem h p = None)
     \<and> ticks h' = ticks h \<and> strategy h' = strategy h"

lemma frame_refl [simp]: "frame A h h"
  by (simp add: frame_def)

lemma frame_trans: "frame A h h' \<Longrightarrow> frame A h' h'' \<Longrightarrow> frame A h h''"
  by (simp add: frame_def)

lemma frame_mono: "frame A h h' \<Longrightarrow> A \<subseteq> B \<Longrightarrow> frame B h h'"
  by (auto simp: frame_def)

lemma frame_put: "frame A h h' \<Longrightarrow> p \<in> A \<Longrightarrow> frame A h (put g h' p S)"
  unfolding frame_def by (metis mem_put mem_put_None heap_put(1,2))

lemma frame_alloc_ok: "frame A h h' \<Longrightarrow> alloc_ok h' = alloc_ok h"
  by (simp add: frame_def alloc_ok_def)

lemma frame_nd: "frame A h h' \<Longrightarrow> p \<notin> A \<Longrightarrow> nd g h' p = nd g h p"
  by (rule nd_mem) (simp add: frame_def)

lemma frame_kval: "frame A h h' \<Longrightarrow> kaddr kp \<inter> A = {} \<Longrightarrow> kval g h' kp = kval g h kp"
  by (rule kval_mem) (auto simp: frame_def)

lemma lnode_in_frame:
  "frame A h h' \<Longrightarrow> fst n \<notin> A \<Longrightarrow> lnode_in g h' n \<longleftrightarrow> lnode_in g h n"
  by (simp add: lnode_in_def frame_nd)

lemma level_in_frame:
  assumes "frame A h h'" "level_in g h lv" "fst ` set lv \<inter> A = {}"
  shows "level_in g h' lv"
  unfolding level_in_def
proof
  fix n assume "n \<in> set lv"
  with assms(2,3) have "lnode_in g h n" "fst n \<notin> A" by (auto simp: level_in_def)
  then show "lnode_in g h' n" using lnode_in_frame [OF assms(1)] by blast
qed

lemma tower_in_Cons:
  "tower_in g h (lv # T) \<longleftrightarrow> level_in g h lv \<and> distinct (map fst lv)
     \<and> fst ` set lv \<inter> set (addrs T) = {} \<and> tower_in g h T"
  by (auto simp: tower_in_def)

lemma level_in_simps [simp]:
  "level_in g h []" "level_in g h (n # lv) \<longleftrightarrow> lnode_in g h n \<and> level_in g h lv"
  "level_in g h (l @ r) \<longleftrightarrow> level_in g h l \<and> level_in g h r"
  by (auto simp: level_in_def)

lemma addrs_fst: "lv \<in> set T \<Longrightarrow> fst ` set lv \<subseteq> set (addrs T)"
  by (auto simp: addrs_def)

lemma tower_in_frame:
  assumes "frame A h h'" "tower_in g h T" "set (addrs T) \<inter> A = {}"
  shows "tower_in g h' T"
proof -
  have "level_in g h' lv" if "lv \<in> set T" for lv
    using level_in_frame [OF assms(1), of g lv] that assms(2,3) addrs_fst [OF that]
    by (auto simp: tower_in_def)
  with assms(2) show ?thesis by (auto simp: tower_in_def)
qed

section \<open>Order facts\<close>

lemma tower_ok_tl: "tower_ok T \<Longrightarrow> tower_ok (tl T)"
  by (cases T) auto

text \<open>Lower ends descend, and are at most the keys the parents hold.\<close>

definition falls :: "key option \<Rightarrow> key list \<Rightarrow> bool" where
  "falls U Es \<longleftrightarrow> (\<forall>E \<in> set Es. case U of None \<Rightarrow> True | Some u \<Rightarrow> E \<le> u)
     \<and> sorted_wrt (\<lambda>a b. b \<le> a) Es"

lemma map_fst_butlast_last: "es \<noteq> [] \<Longrightarrow> map fst es = map fst (butlast es) @ [fst (last es)]"
  by (metis append_butlast_last_id list.simps(8,9) map_append)

lemma seps_le:
  assumes "length Es = length lv" "list_all2 (\<lambda>E n. \<forall>x \<in> set (snd n). E \<le> fst x) Es lv"
    "fill 1 lv"
  shows "list_all2 (\<le>) (seps Es lv) (map fst (flat lv))"
  using assms
proof (induction Es lv rule: list_induct2)
  case (Cons E Es n lv)
  then have ne: "snd n \<noteq> []" by auto
  then have "E \<le> fst (last (snd n))" using Cons.prems by simp
  moreover have "list_all2 (\<le>) (map fst (butlast (snd n))) (map fst (butlast (snd n)))"
    by (simp add: list.rel_refl)
  ultimately have "list_all2 (\<le>) (map fst (butlast (snd n)) @ [E]) (map fst (snd n))"
    using ne by (subst map_fst_butlast_last) (auto intro!: list_all2_appendI)
  with Cons show ?case
    using list_all2_appendI [of "(\<le>)" "map fst (butlast (snd n)) @ [E]"] by fastforce
qed simp

lemma children_low:
  assumes "list_all2 (\<le>) Es (map fst fs)" "list_all2 child_ok fs lv"
  shows "list_all2 (\<lambda>E n. \<forall>x \<in> set (snd n). E \<le> fst x) Es lv"
proof (rule list_all2_all_nthI)
  show len: "length Es = length lv" using assms by (simp add: list_all2_conv_all_nth)
  fix i assume i: "i < length Es"
  have "length fs = length Es" using list_all2_lengthD [OF assms(1)] by simp
  then have "Es ! i \<le> fst (fs ! i)" using list_all2_nthD [OF assms(1) i] i by simp
  moreover from assms(2) i len have "\<forall>x \<in> set (snd (lv ! i)). fst (fs ! i) \<le> fst x"
    by (simp add: list_all2_conv_all_nth child_ok_def)
  ultimately show "\<forall>x \<in> set (snd (lv ! i)). Es ! i \<le> fst x" by (meson order_trans)
qed

lemma children_lows:
  assumes "children rest lv" "rest \<noteq> [] \<Longrightarrow> list_all2 (\<le>) (lows_of rest) (map fst (flat (hd rest)))"
  shows "list_all2 (\<lambda>E n. \<forall>x \<in> set (snd n). E \<le> fst x) (lows_of rest) lv"
proof (cases rest)
  case Nil
  with assms(1) show ?thesis by (auto simp: length_Suc_conv)
next
  case (Cons lv' T)
  with assms have "list_all2 (\<le>) (lows_of rest) (map fst (flat lv'))" "list_all2 child_ok (flat lv') lv"
    by auto
  then show ?thesis by (rule children_low)
qed

text \<open>The lower ends of a level below \<open>T\<close>, against the keys of \<open>T\<close>'s first level.\<close>

lemma lows_le_keys:
  assumes "tower_ok T" "T \<noteq> []" "fills 1 T"
  shows "list_all2 (\<le>) (lows_of T) (map fst (flat (hd T)))"
  using assms
proof (induction T)
  case (Cons lv T)
  have "list_all2 (\<lambda>E n. \<forall>x \<in> set (snd n). E \<le> fst x) (lows_of T) lv"
    using Cons by (intro children_lows) auto
  with Cons.prems show ?case using seps_le [of "lows_of T" lv] uppers_length by fastforce
qed simp

lemma tower_lows:
  assumes "tower_ok (lv # rest)"
  shows "list_all2 (\<lambda>E n. \<forall>x \<in> set (snd n). E \<le> fst x) (lows_of rest) lv"
  using assms lows_le_keys [of rest] by (intro children_lows) auto

lemma tower_lows_length: "tower_ok (lv # rest) \<Longrightarrow> length (lows_of rest) = length lv"
  using uppers_length by auto

lemma falls_Cons:
  "falls U (E # Es) \<longleftrightarrow> (case U of None \<Rightarrow> True | Some u \<Rightarrow> E \<le> u) \<and> falls (Some E) Es"
  by (auto simp: falls_def split: option.splits)

lemma falls_append:
  assumes "falls U xs" "falls (Some E) ys" "falls U [E]" "\<forall>x \<in> set xs. E \<le> x"
  shows "falls U (xs @ ys)"
  using assms by (fastforce simp: falls_def sorted_wrt_append split: option.splits)

lemma falls_seps:
  assumes "length Es = length lv" "falls U Es" "uppers U Es lv" "descs lv"
    "list_all2 (\<lambda>E n. \<forall>x \<in> set (snd n). E \<le> fst x) Es lv"
  shows "falls U (seps Es lv)"
  using assms
proof (induction Es lv arbitrary: U rule: list_induct2)
  case Nil
  then show ?case by (simp add: falls_def)
next
  case (Cons E Es n lv)
  let ?ks = "map fst (butlast (snd n))"
  have E: "falls U [E]" and IH: "falls (Some E) (seps Es lv)"
    using Cons by (auto simp: falls_Cons) (simp add: falls_def)
  have "falls (Some E) (E # seps Es lv)" using IH by (simp add: falls_Cons)
  moreover have "\<forall>x \<in> set ?ks. E \<le> x" using Cons.prems(4) by (auto dest: in_set_butlastD)
  moreover have "falls U ?ks"
  proof -
    have "sorted_wrt (\<lambda>a b. fst b < fst a) (butlast (snd n))"
      using Cons.prems(3) by (simp add: desc_def butlast_conv_take sorted_wrt_take)
    then have "sorted_wrt (\<lambda>a b. b \<le> a) ?ks"
      by (simp add: sorted_wrt_map) (metis (mono_tags, lifting) less_imp_le sorted_wrt_mono_rel)
    moreover have "\<forall>x \<in> set ?ks. below U x"
      using Cons.prems(2) by (auto dest: in_set_butlastD)
    ultimately show ?thesis by (auto simp: falls_def below_def split: option.splits)
  qed
  ultimately show ?case using E falls_append [of U ?ks E "E # seps Es lv"] by simp
qed

lemma tower_falls:
  assumes "tower_ok T" "fills 1 T"
  shows "falls None (lows_of T)"
  using assms
proof (induction T)
  case Nil
  then show ?case by (simp add: falls_def)
next
  case (Cons lv T)
  then show ?case
    using falls_seps [of "lows_of T" lv None] tower_lows [of lv T] uppers_length by auto
qed

lemma tower_falls_tl: "tower_ok (lv # rest) \<Longrightarrow> falls None (lows_of rest)"
  by (rule tower_falls) auto

section \<open>The node responsible for a key\<close>

definition interval :: "key \<Rightarrow> key list \<Rightarrow> nat \<Rightarrow> bool" where
  "interval k Es i \<longleftrightarrow> i < length Es \<and> Es ! i \<le> k \<and> (0 < i \<longrightarrow> k < Es ! (i - 1))"

definition located :: "key \<Rightarrow> level list \<Rightarrow> level \<Rightarrow> lnode \<Rightarrow> level \<Rightarrow> bool" where
  "located k rest l n r \<longleftrightarrow> interval k (lows_of rest) (length l)
     \<and> (rest \<noteq> [] \<longrightarrow> fst (flat (hd rest) ! length l) \<le> k)"

lemma interval_split:
  assumes "interval k Es i"
  obtains El E Er where "Es = El @ E # Er" "length El = i" "E \<le> k" "El \<noteq> [] \<longrightarrow> k < last El"
proof
  from assms have i: "i < length Es" by (simp add: interval_def)
  then show "Es = take i Es @ Es ! i # drop (Suc i) Es" by (rule split_at)
  show "length (take i Es) = i" "Es ! i \<le> k" using assms by (auto simp: interval_def)
  show "take i Es \<noteq> [] \<longrightarrow> k < last (take i Es)"
    using assms by (auto simp: interval_def last_conv_nth min_def)
qed

lemma interval_append:
  "length El = i \<Longrightarrow> interval k (El @ E # Er) i \<longleftrightarrow> E \<le> k \<and> (El \<noteq> [] \<longrightarrow> k < last El)"
  by (auto simp: interval_def nth_append last_conv_nth)

lemma interval_unique:
  assumes "falls U Es" "interval k Es i" "interval k Es j"
  shows "i = j"
proof -
  have *: False if "interval k Es i" "interval k Es j" "i < j" for i j
  proof -
    have "Es ! (j - 1) \<le> Es ! i"
      using assms(1) that by (cases "i = j - 1")
        (auto simp: falls_def interval_def sorted_wrt_iff_nth_less)
    with that show False by (auto simp: interval_def)
  qed
  show ?thesis using * [of i j] * [of j i] assms(2,3) by (cases i j rule: linorder_cases) auto
qed

lemma uppers_le:
  assumes "uppers (Some E) Es lv" "falls (Some E) Es" "n \<in> set lv" "x \<in> set (snd n)"
  shows "fst x < E"
  using assms
proof (induction Es lv arbitrary: E rule: list_induct2')
  case (4 E' Es n' lv)
  then have E': "E' \<le> E" "falls (Some E') Es" "uppers (Some E') Es lv"
    by (simp_all add: falls_Cons)
  show ?case
  proof (cases "n = n'")
    case True
    with 4 show ?thesis by auto
  next
    case False
    then have "n \<in> set lv" using 4 by simp
    then have "fst x < E'" by (rule 4(1) [OF E'(3,2) _ 4(5)])
    with E'(1) show ?thesis by order
  qed
qed auto

lemma interval_sides:
  assumes "tower_ok ((l @ n # r) # rest)" "interval k (lows_of rest) (length l)"
  shows "\<forall>x \<in> set (flat l). k < fst x" "\<forall>x \<in> set (flat r). fst x < k"
proof -
  obtain El E Er where E: "lows_of rest = El @ E # Er" "length El = length l" "E \<le> k"
      "El \<noteq> [] \<longrightarrow> k < last El"
    using assms(2) by (rule interval_split) blast
  have f: "falls None (El @ E # Er)" using tower_falls_tl [OF assms(1)] E(1) by simp
  have lo: "list_all2 (\<lambda>E n. \<forall>x \<in> set (snd n). E \<le> fst x) (El @ E # Er) (l @ n # r)"
    using tower_lows [OF assms(1)] E(1) by simp
  then have lol: "list_all2 (\<lambda>E n. \<forall>x \<in> set (snd n). E \<le> fst x) El l"
    using E(2) by (simp add: list_all2_append)
  show "\<forall>x \<in> set (flat l). k < fst x"
  proof
    fix x assume "x \<in> set (flat l)"
    then obtain m where "m \<in> set l" "x \<in> set (snd m)" by (auto simp: set_flat)
    then obtain i where i: "i < length l" "x \<in> set (snd (l ! i))"
      by (auto simp: in_set_conv_nth [of m])
    with lol E(2) have "El ! i \<le> fst x" by (auto simp: list_all2_conv_all_nth)
    moreover have "last El \<le> El ! i"
    proof -
      have "sorted_wrt (\<lambda>a b. b \<le> a) El" using f by (simp add: falls_def sorted_wrt_append)
      moreover have "last El = El ! (length l - 1)" using i E(2) by (subst last_conv_nth) auto
      ultimately show ?thesis using i E(2)
        by (cases "i = length l - 1") (auto simp: sorted_wrt_iff_nth_less)
    qed
    moreover have "k < last El" using E i by auto
    ultimately show "k < fst x" by order
  qed
  have "uppers (Some E) Er r" using assms(1) E uppers_append [of El l None "E # Er" "n # r"] by auto
  moreover have "falls (Some E) Er" using f by (auto simp: falls_def sorted_wrt_append)
  ultimately show "\<forall>x \<in> set (flat r). fst x < k"
    using uppers_le E(3) by (fastforce simp: set_flat)
qed

lemma located_sides:
  assumes "tower_ok ((l @ n # r) # rest)" "located k rest l n r"
  shows "\<forall>x \<in> set (flat l). k < fst x" "\<forall>x \<in> set (flat r). fst x < k"
  using interval_sides [OF assms(1)] assms(2) by (auto simp: located_def)

lemma posn_located:
  assumes "tower_ok ((l @ n # r) # rest)" "located k rest l n r"
  shows "posn k (flat (l @ n # r)) = length (flat l) + posn k (snd n)"
proof -
  have "posn k (flat r) = 0" using located_sides(2) [OF assms] by (intro posn_0) auto
  then have "posn k (snd n @ flat r) = posn k (snd n)"
    using posn_append [of k "snd n" "flat r"] posn_all [of "snd n" k] by auto
  then show ?thesis using located_sides(1) [OF assms] by (simp add: posn_append)
qed

text \<open>All entries of a level descend.\<close>

lemma flat_desc:
  assumes "tower_ok (lv # rest)"
  shows "desc (flat lv)"
proof -
  have "desc (flat lv)" if "uppers U Es lv" "falls U Es" "descs lv"
    "list_all2 (\<lambda>E n. \<forall>x \<in> set (snd n). E \<le> fst x) Es lv" for U Es
    using that
  proof (induction Es lv arbitrary: U rule: list_induct2')
    case (4 E Es n lv)
    then have "uppers (Some E) Es lv" "falls (Some E) Es" by (simp_all add: falls_Cons)
    with 4 have d: "desc (flat lv)" "\<forall>y \<in> set (flat lv). fst y < E"
      using uppers_le [of E Es lv] by (auto simp: set_flat)
    from 4 have "desc (snd n)" "\<forall>x \<in> set (snd n). E \<le> fst x" by auto
    with d show ?case by (auto simp: desc_append intro: order_less_le_trans)
  qed auto
  then show ?thesis using assms tower_falls_tl [OF assms] tower_lows [OF assms] by auto
qed

section \<open>Descending the tower\<close>

lemma find_step_down:
  assumes "geo_ok g" "nd g h p = Some (pad g es)" "entries_ok g es" "kval g h kp = Some k"
    "posn k es < length es"
  shows "find_step g kp p h = Some (snd (es ! posn k es), h)"
proof -
  have "posn k es < no_pairs g" using assms(3,5) by (simp add: entries_ok_def)
  then show ?thesis
    using assms entries_ok_snd [OF assms(3,5)]
    by (simp add: find_step_def scan_le_pad bval_pad)
qed

lemma find_step_lower:
  assumes "geo_ok g" "nd g h p = Some (pad g es)" "entries_ok g es" "kval g h kp = Some k"
    "posn k es = length es" "es \<noteq> []" "p \<notin> kaddr kp"
  shows "find_step g kp p h
       = Some (snd (last es), put g h p (pad g (es[length es - 1 := (k, snd (last es))])))"
proof -
  let ?es = "es[length es - 1 := (k, snd (last es))]"
  have le: "length es \<le> no_pairs g" "0 < length es" using assms(3,6) by (auto simp: entries_ok_def)
  have last: "es ! (length es - 1) = last es" using assms(6) by (simp add: last_conv_nth)
  have ok: "entries_ok g ?es"
    using assms(3) le kval_length [OF assms(4)] entries_ok_snd [OF assms(3), of "length es - 1"] last
    by (intro entries_ok_upd) auto
  have 1: "scan_le g h p kp 0 = Some (length es)" using scan_le_pad [OF assms(1,2,4)] assms(5) by simp
  have 2: "(if length es = no_pairs g then Some 0 else bval g h p (length es)) = Some 0"
    using assms(1-3) le by (auto simp: bval_pad)
  have 3: "setkey g h p kp (length es - 1) = Some (put g h p (pad g ?es))"
    using setkey_pad [OF assms(1-3) _ assms(4), of "length es - 1"] assms(7) le last
    by (simp add: kslot_other)
  have 4: "bval g (put g h p (pad g ?es)) p (length es - 1) = Some (snd (last es))"
  proof -
    have "length es - 1 < no_pairs g" using le by linarith
    then show ?thesis
      using assms(1,2,6) le ok valid_pad [OF ok] by (subst bval_pad) (auto simp: put_simps)
  qed
  show ?thesis using 1 2 3 4 le unfolding find_step_def by simp
qed

lemma find_loop_Suc:
  "find_loop g kp (Suc n) node h = do {
     (node, h) \<leftarrow> find_loop g kp n node h;
     find_step g kp node h
   }"
proof (induction n arbitrary: node h)
  case 0
  show ?case by (cases "find_step g kp node h") auto
next
  case (Suc n)
  show ?case
  proof (cases "find_step g kp node h")
    case None
    then show ?thesis by simp
  next
    case (Some ch)
    then obtain child h' where s: "find_step g kp node h = Some (child, h')" by (cases ch) auto
    then have "find_loop g kp (Suc (Suc n)) node h = find_loop g kp (Suc n) child h'" by simp
    also have "\<dots> = do { (node, h) \<leftarrow> find_loop g kp n child h'; find_step g kp node h }"
      by (rule Suc)
    also have "find_loop g kp n child h' = find_loop g kp (Suc n) node h" using s by simp
    finally show ?thesis .
  qed
qed

lemma last_seps: "length Es = length lv \<Longrightarrow> Es \<noteq> [] \<Longrightarrow> last (seps Es lv) = last Es"
proof (induction Es lv rule: list_induct2)
  case (Cons E Es n lv)
  then show ?case by (cases Es; cases lv) auto
qed simp

lemma nth_flat:
  "i < length (snd n) \<Longrightarrow> flat (l @ n # r) ! (length (flat l) + i) = snd n ! i"
  by (simp add: nth_append)

lemma nth_mid: "m < length ys \<Longrightarrow> (xs @ ys @ zs) ! (length xs + m) = ys ! m"
  by (simp add: nth_append)

lemma interval_child:
  assumes "fills 1 ((pl @ (pa, pes) # pr) # T)" "interval k (lows_of T) (length pl)"
    and "length (lows_of T) = length (pl @ (pa, pes) # pr)"
  shows "interval k (lows_of ((pl @ (pa, pes) # pr) # T))
     (length (flat pl) + min (posn k pes) (length pes - 1))"
proof -
  let ?j = "min (posn k pes) (length pes - 1)"
  obtain El E Er where E: "lows_of T = El @ E # Er" "length El = length pl" "E \<le> k"
      "El \<noteq> [] \<longrightarrow> k < last El"
    using assms(2) by (rule interval_split)
  have pes: "0 < length pes" and j: "?j < length pes" using assms(1) by auto
  have lsep: "length (seps El pl) = length (flat pl)"
    using assms(1) E(2) by (intro length_seps) auto
  define M where "M = map fst (butlast pes) @ [E]"
  have lM: "length M = length pes" using pes by (simp add: M_def)
  have lows: "lows_of ((pl @ (pa, pes) # pr) # T) = seps El pl @ M @ seps Er pr"
    using E(1,2) by (simp add: seps_append M_def)
  have nthM: "M ! i = (if i < length pes - 1 then fst (pes ! i) else E)" if "i < length pes" for i
    using that pes by (auto simp: M_def nth_append nth_butlast)
  have low: "M ! ?j \<le> k"
    using E(3) posn_nth [of k pes] j nthM [of ?j] by (auto simp: min_def split: if_splits)
  have up: "k < (seps El pl @ M @ seps Er pr) ! (length (flat pl) + ?j - 1)"
    if pos: "0 < length (flat pl) + ?j"
  proof (cases "?j = 0")
    case True
    with pos lsep have "seps El pl \<noteq> []" by auto
    then have ne: "El \<noteq> []" using E(2) by auto
    have "(seps El pl @ M @ seps Er pr) ! (length (flat pl) + ?j - 1) = last (seps El pl)"
      using True pos lsep \<open>seps El pl \<noteq> []\<close> by (simp add: nth_append last_conv_nth)
    with ne E show ?thesis by (simp add: last_seps)
  next
    case False
    then have "length (flat pl) + ?j - 1 = length (seps El pl) + (?j - 1)" using lsep by arith
    then have "(seps El pl @ M @ seps Er pr) ! (length (flat pl) + ?j - 1) = M ! (?j - 1)"
      using nth_mid [OF less_imp_diff_less [OF j, folded lM]] lM by simp
    also have "\<dots> = fst (pes ! (?j - 1))" using nthM [of "?j - 1"] False j by auto
    also have "k < \<dots>" using posn_lt [of "?j - 1" k pes] False by auto
    finally show ?thesis .
  qed
  show ?thesis
    unfolding interval_def lows using low up lsep lM j by (auto simp: nth_append)
qed

lemma locate_child:
  assumes "tower_ok (lv # (pl @ (pa, pes) # pr) # T)" "located k T pl (pa, pes) pr"
    and "j = posn k pes" "j < length pes"
  shows "\<exists>l es r. lv = l @ (snd (pes ! j), es) # r \<and> length l = length (flat pl) + j
     \<and> located k ((pl @ (pa, pes) # pr) # T) l (snd (pes ! j), es) r"
proof -
  let ?lv' = "pl @ (pa, pes) # pr" and ?ix = "length (flat pl) + j"
  have lv: "list_all2 child_ok (flat ?lv') lv" using assms(1) by auto
  have ix: "?ix < length (flat ?lv')" "?ix < length lv"
    using assms(4) list_all2_lengthD [OF lv] by auto
  have flt: "flat ?lv' ! ?ix = pes ! j" using assms(4) nth_flat [of j "(pa, pes)" pl pr] by simp
  have child: "fst (lv ! ?ix) = snd (pes ! j)"
    using list_all2_nthD [OF lv ix(1)] flt by (simp add: child_ok_def)
  have "interval k (lows_of (?lv' # T)) ?ix"
  proof -
    have "tower_ok (?lv' # T)" using assms(1) by simp
    then have "interval k (lows_of (?lv' # T)) (length (flat pl) + min (posn k pes) (length pes - 1))"
      using assms(1,2) tower_lows_length [of ?lv' T]
      by (intro interval_child) (auto simp: located_def)
    then show ?thesis using assms(3,4) by (simp add: min_def split: if_splits)
  qed
  moreover have "fst (flat ?lv' ! ?ix) \<le> k" using flt posn_nth [of k pes] assms(3,4) by simp
  moreover have "length (take ?ix lv) = ?ix" using ix by simp
  ultimately have "located k (?lv' # T) (take ?ix lv) (lv ! ?ix) (drop (Suc ?ix) lv)"
    unfolding located_def by (simp only: list.sel(1) simp_thms implies_True_equals)
  moreover have "lv = take ?ix lv @ lv ! ?ix # drop (Suc ?ix) lv" using ix(2) by (rule split_at)
  moreover obtain es where "lv ! ?ix = (snd (pes ! j), es)" using child by (cases "lv ! ?ix") auto
  ultimately show ?thesis
    using ix(2) by (intro exI [of _ "take ?ix lv"] exI [of _ es] exI [of _ "drop (Suc ?ix) lv"]) simp
qed

text \<open>Lowering the last key of the located node keeps the tower and its lower ends.\<close>

definition lowered :: "key \<Rightarrow> entry list \<Rightarrow> entry list" where
  "lowered k es = es[length es - 1 := (k, snd (last es))]"

lemma lowered_snoc: "es \<noteq> [] \<Longrightarrow> lowered k es = butlast es @ [(k, snd (last es))]"
  by (cases es rule: rev_cases) (auto simp: lowered_def)

lemma child_ok_lower:
  "child_ok (k', v) n \<Longrightarrow> k \<le> k' \<Longrightarrow> child_ok (k, v) n"
  by (auto simp: child_ok_def intro: order_trans)

lemma tower_ok_lower:
  assumes "tower_ok (lv # (pl @ (pa, pes) # pr) # T)" "located k T pl (pa, pes) pr"
    and "posn k pes = length pes"
  defines "lv'' \<equiv> pl @ (pa, lowered k pes) # pr"
  shows "tower_ok (lv # lv'' # T)" "lows_of (lv'' # T) = lows_of ((pl @ (pa, pes) # pr) # T)"
    "located k T pl (pa, lowered k pes) pr"
proof -
  let ?lv' = "pl @ (pa, pes) # pr"
  have ne: "pes \<noteq> []" using assms(1) by auto
  note snoc = lowered_snoc [OF ne]
  have gt: "\<forall>x \<in> set pes. k < fst x" using posn_length [OF assms(3)] by blast
  obtain El E Er where E: "lows_of T = El @ E # Er" "length El = length pl" "E \<le> k"
      "El \<noteq> [] \<longrightarrow> k < last El"
    using assms(2) unfolding located_def by (metis interval_split)
  have bl: "butlast (lowered k pes) = butlast pes" using snoc by simp
  show lows: "lows_of (lv'' # T) = lows_of (?lv' # T)"
    using E(1,2) bl by (simp add: lv''_def seps_append)
  show "located k T pl (pa, lowered k pes) pr" using assms(2) by (simp add: located_def)
  have "desc pes" using assms(1) by auto
  then have "desc (butlast pes)" using ne by (metis append_butlast_last_id desc_append)
  then have d: "desc (lowered k pes)" using gt snoc by (auto simp: desc_append dest: in_set_butlastD)
  have set: "\<forall>x \<in> set (lowered k pes). x = (k, snd (last pes)) \<or> x \<in> set pes"
    using snoc by (auto dest: in_set_butlastD)
  have ch: "children T lv''"
  proof (cases T)
    case Nil
    with assms(1) show ?thesis by (simp add: lv''_def)
  next
    case (Cons lv2 T2)
    then have "list_all2 child_ok (flat lv2) ?lv'" using assms(1) by auto
    then obtain fl e fr where f: "flat lv2 = fl @ e # fr" "list_all2 child_ok fl pl"
        "child_ok e (pa, pes)" "list_all2 child_ok fr pr"
      by (auto simp: list_all2_append2 list_all2_Cons2)
    then have "length fl = length pl" by (simp add: list_all2_lengthD)
    then have "fst e \<le> k" using assms(2) Cons f(1) by (auto simp: located_def nth_append)
    then have "child_ok e (pa, lowered k pes)" using f(3) set by (auto simp: child_ok_def)
    with f Cons show ?thesis by (auto simp: lv''_def intro!: list_all2_appendI)
  qed
  have up: "uppers None (lows_of T) lv''"
  proof -
    have "uppers None (lows_of T) ?lv'" using assms(1) by simp
    moreover have "\<forall>x \<in> set (lowered k pes). below (endb None El) (fst x)"
      if "\<forall>x \<in> set pes. below (endb None El) (fst x)"
    proof
      fix x assume "x \<in> set (lowered k pes)"
      with set consider "fst x = k" | "x \<in> set pes" by force
      then show "below (endb None El) (fst x)"
        using that E(4) by cases (auto simp: endb_def)
    qed
    ultimately show ?thesis using E(1,2) by (auto simp: lv''_def uppers_append)
  qed
  have cl: "list_all2 child_ok (flat lv'') lv"
  proof -
    have eq: "flat ?lv' = flat pl @ butlast pes @ last pes # flat pr"
      using append_butlast_last_id [OF ne] by (metis append.assoc append_Cons append_Nil
          flat_simps(2,3) snd_conv)
    have "list_all2 child_ok (flat ?lv') lv" using assms(1) by simp
    then have "list_all2 child_ok (flat pl @ butlast pes @ last pes # flat pr) lv"
      by (simp only: eq)
    then obtain l1 n r1 where "lv = l1 @ n # r1" "list_all2 child_ok (flat pl @ butlast pes) l1"
        "child_ok (last pes) n" "list_all2 child_ok (flat pr) r1"
      by (auto simp: list_all2_append1 list_all2_Cons1) (metis append.assoc list_all2_appendI)
    moreover from this have "child_ok (k, snd (last pes)) n"
      using gt [THEN bspec, OF last_in_set [OF ne]]
        child_ok_lower [of "fst (last pes)" "snd (last pes)" n k] by simp
    ultimately show ?thesis
      using snoc list_all2_appendI [of child_ok "flat pl @ butlast pes" l1] by (simp add: lv''_def)
  qed
  show "tower_ok (lv # lv'' # T)"
    using assms(1) lows d ch up cl snoc by (auto simp: lv''_def)
qed

text \<open>What a descent leaves unchanged above: the addresses and the values of every node.\<close>

definition shape :: "level list \<Rightarrow> (ulong \<times> ulong list) list list" where
  "shape T = map (map (\<lambda>(a, es). (a, map snd es))) T"

lemma shape_simps [simp]:
  "shape [] = []" "shape (lv # T) = map (\<lambda>(a, es). (a, map snd es)) lv # shape T"
  by (simp_all add: shape_def)

lemma shape_length: "shape T = shape T' \<Longrightarrow> length T = length T'"
  by (metis length_map shape_def)

lemma shape_addrs: "shape T = shape T' \<Longrightarrow> addrs T = addrs T'"
proof -
  have "addrs T = map fst (concat (shape T))" for T
    by (induction T) (auto simp: case_prod_unfold)
  then show "shape T = shape T' \<Longrightarrow> addrs T = addrs T'" by simp
qed

lemma shape_fills: "shape T = shape T' \<Longrightarrow> fills m T = fills m T'"
proof -
  have "fills m T \<longleftrightarrow> (\<forall>lv \<in> set (shape T). \<forall>n \<in> set lv. m \<le> length (snd n))" for T
    by (auto simp: shape_def fills_def fill_def case_prod_unfold)
  then show "shape T = shape T' \<Longrightarrow> fills m T = fills m T'" by simp
qed

lemma lowered_snd: "es \<noteq> [] \<Longrightarrow> map snd (lowered k es) = map snd es"
  by (cases es rule: rev_cases) (auto simp: lowered_def)

lemma entries_ok_lowered:
  "entries_ok g es \<Longrightarrow> es \<noteq> [] \<Longrightarrow> length k = keylen g \<Longrightarrow> entries_ok g (lowered k es)"
  unfolding lowered_def using entries_ok_snd [of g es "length es - 1"]
  by (intro entries_ok_upd) (auto simp: last_conv_nth)

lemma posn_lowered:
  assumes "posn k es = length es" "es \<noteq> []"
  shows "posn k (lowered k es) = length es - 1"
  using assms posn_lt [of _ k es]
  by (intro posn_eqI) (auto simp: lowered_def nth_list_update)

lemma find_loop_ok:
  assumes "tower_ok T" "tower_in g h T" "T \<noteq> []" "last T = [(root, res)]" "geo_ok g"
    "kval g h kp = Some k" "kaddr kp \<inter> set (addrs (tl T)) = {}"
  shows "\<exists>l a es r rest' h'. find_loop g kp (length T - 1) root h = Some (a, h')
     \<and> hd T = l @ (a, es) # r \<and> located k rest' l (a, es) r \<and> tower_ok (hd T # rest')
     \<and> tower_in g h' (hd T # rest') \<and> lows_of rest' = lows_of (tl T) \<and> shape rest' = shape (tl T)
     \<and> frame (set (addrs (tl T))) h h'"
  using assms
proof (induction T)
  case Nil
  then show ?case by simp
next
  case (Cons lv T)
  show ?case
  proof (cases T)
    case Nil
    have "located k [] [] (root, res) []" by (simp add: located_def interval_def)
    with Nil Cons.prems show ?thesis
      by (intro exI [of _ "[]"] exI [of _ root] exI [of _ res] exI [of _ h]) simp
  next
    case T: (Cons lv' T')
    have inT: "tower_in g h T" and disj: "fst ` set lv \<inter> set (addrs T) = {}" "distinct (map fst lv)"
        "level_in g h lv"
      using Cons.prems(2) by (auto simp: tower_in_Cons)
    obtain l pa pes r T1 h1 where 1: "find_loop g kp (length T - 1) root h = Some (pa, h1)"
        "lv' = l @ (pa, pes) # r" "located k T1 l (pa, pes) r" "tower_ok (lv' # T1)"
        "tower_in g h1 (lv' # T1)" "lows_of T1 = lows_of T'" "shape T1 = shape T'"
        "frame (set (addrs T')) h h1"
      using Cons.IH [OF _ inT] Cons.prems T by (auto simp: Int_Un_distrib)
    have ad: "addrs T1 = addrs T'" using 1(7) by (rule shape_addrs)
    have sub: "set (addrs T') \<subseteq> set (addrs T)" and pa: "pa \<in> set (addrs T)" "pa \<notin> set (addrs T')"
      using T 1(2,5) ad by (auto simp: tower_in_Cons)
    have ok1: "tower_ok (lv # lv' # T1)"
      using Cons.prems(1) T 1(4,6) shape_fills [OF 1(7)] by simp
    have fr1: "frame (set (addrs T)) h h1" using 1(8) sub by (rule frame_mono)
    have lv1: "level_in g h1 lv" by (rule level_in_frame [OF fr1 disj(3,1)])
    have nd1: "nd g h1 pa = Some (pad g pes)" "entries_ok g pes" "pa \<noteq> 0"
      using 1(2,5) by (auto simp: tower_in_Cons lnode_in_def)
    have kv: "kval g h1 kp = Some k"
      using frame_kval [OF fr1] Cons.prems(6,7) T by simp
    have step: "find_loop g kp (length (lv # T) - 1) root h = find_step g kp pa h1"
      using 1(1) T find_loop_Suc [of g kp "length T - 1" root h] by simp
    have ne: "pes \<noteq> []" using ok1 1(2) by auto
    show ?thesis
    proof (cases "posn k pes < length pes")
      case True
      then have s: "find_step g kp pa h1 = Some (snd (pes ! posn k pes), h1)"
        using find_step_down [OF Cons.prems(5) nd1(1,2) kv] by simp
      obtain l2 es r2 where "lv = l2 @ (snd (pes ! posn k pes), es) # r2"
          "located k (lv' # T1) l2 (snd (pes ! posn k pes), es) r2"
        using locate_child [OF ok1 [unfolded 1(2)] 1(3) refl True] 1(2) by auto
      moreover have "tower_in g h1 (lv # lv' # T1)"
        using 1(5) lv1 disj ad T by (simp add: tower_in_Cons)
      ultimately show ?thesis
        using step s ok1 1(6,7) fr1 T
        by (intro exI [of _ l2] exI [of _ "snd (pes ! posn k pes)"] exI [of _ es] exI [of _ r2]
            exI [of _ "lv' # T1"] exI [of _ h1]) simp
    next
      case False
      then have pos: "posn k pes = length pes" using posn_le [of k pes] by simp
      let ?lv2 = "l @ (pa, lowered k pes) # r" and ?h2 = "put g h1 pa (pad g (lowered k pes))"
      let ?j = "posn k (lowered k pes)"
      have j: "?j = length pes - 1" "?j < length (lowered k pes)" "snd (lowered k pes ! ?j) = snd (last pes)"
        using posn_lowered [OF pos ne] ne by (auto simp: lowered_def)
      have s: "find_step g kp pa h1 = Some (snd (last pes), ?h2)"
        using find_step_lower [OF Cons.prems(5) nd1(1,2) kv pos ne] Cons.prems(7) pa(1)
        by (auto simp: lowered_def)
      note low = tower_ok_lower [OF ok1 [unfolded 1(2)] 1(3) pos]
      obtain l2 es r2 where lv: "lv = l2 @ (snd (last pes), es) # r2"
          "located k (?lv2 # T1) l2 (snd (last pes), es) r2"
        using locate_child [OF low(1) low(3) refl j(2)] unfolding j(3) by auto
      have ek: "entries_ok g (lowered k pes)"
        using nd1(2) ne kval_length [OF kv] by (rule entries_ok_lowered)
      have fr2: "frame {pa} h1 ?h2" by (intro frame_put) auto
      have in2: "tower_in g ?h2 (lv # ?lv2 # T1)"
      proof -
        have d: "pa \<notin> fst ` set l" "pa \<notin> fst ` set r" "pa \<notin> set (addrs T1)" "pa \<notin> fst ` set lv"
          using 1(2,5) disj(1) pa by (auto simp: tower_in_Cons)
        then have "level_in g ?h2 lv" "level_in g ?h2 l" "level_in g ?h2 r" "tower_in g ?h2 T1"
          using lv1 1(2,5) level_in_frame [OF fr2] tower_in_frame [OF fr2]
          by (auto simp: tower_in_Cons)
        moreover have "lnode_in g ?h2 (pa, lowered k pes)"
          using nd1 ek Cons.prems(5) valid_pad [OF ek] by (simp add: lnode_in_def put_simps)
        ultimately show ?thesis using 1(2,5) disj ad T by (auto simp: tower_in_Cons)
      qed
      have "frame (set (addrs T)) h ?h2" using fr1 pa(1) by (intro frame_put) auto
      with lv s step in2 low(1,2) 1(2,6,7) T show ?thesis
        using lowered_snd [OF ne]
        by (intro exI [of _ l2] exI [of _ "snd (last pes)"] exI [of _ es] exI [of _ r2]
            exI [of _ "?lv2 # T1"] exI [of _ ?h2]) simp
    qed
  qed
qed

section \<open>A tree in memory\<close>

text \<open>\<open>rep\<close>: the levels \<open>L\<close> and up of the tree with the given head are the tower \<open>T\<close>.\<close>

definition rep :: "btree_geo \<Rightarrow> 'o heap \<Rightarrow> btree_head \<Rightarrow> nat \<Rightarrow> level list \<Rightarrow> bool" where
  "rep g h head L T \<longleftrightarrow> T \<noteq> [] \<and> tower_ok T \<and> tower_in g h T \<and> head_ok head L T"

lemma repD:
  assumes "rep g h head L T"
  shows "T \<noteq> []" "tower_ok T" "tower_in g h T" "head_ok head L T" "bh_height head + 1 = L + length T"
  using assms by (auto simp: rep_def head_ok_def)

lemma shape_last:
  assumes "shape T' = shape T" "T \<noteq> []" "last T = [(a, es)]"
  obtains es' where "last T' = [(a, es')]"
proof -
  let ?f = "\<lambda>(a, es). (a, map snd es)"
  have ne: "T' \<noteq> []" using shape_length [OF assms(1)] assms(2) by auto
  have "map ?f (last T') = last (shape T')" using ne by (simp add: shape_def last_map)
  also have "\<dots> = map ?f (last T)" unfolding assms(1) using assms(2) by (simp add: shape_def last_map)
  finally have "map ?f (last T') = [(a, map snd es)]" using assms(3) by simp
  then obtain n where "last T' = [n]" "?f n = (a, map snd es)" by (auto simp: map_eq_Cons_conv)
  then show thesis using that by (cases n) auto
qed

lemma head_ok_shape:
  assumes "head_ok head L (lv # T)" "shape T' = shape T"
  shows "head_ok head L (lv # T')"
proof -
  obtain es where l: "last (lv # T) = [(bh_node head, es)]" using assms(1) by (auto simp: head_ok_def)
  have sh: "shape (lv # T') = shape (lv # T)" using assms(2) by simp
  obtain es' where "last (lv # T') = [(bh_node head, es')]" by (rule shape_last [OF sh _ l]) simp
  then show ?thesis using assms(1) shape_length [OF assms(2)] unfolding head_ok_def by auto
qed

lemma find_level_rep:
  assumes "rep g h head L (lv # rest)" "geo_ok g" "kval g h kp = Some k"
    "kaddr kp \<inter> set (addrs rest) = {}"
  obtains l a es r rest' h' where
    "find_level g head h kp L = Some (a, h')" "lv = l @ (a, es) # r" "located k rest' l (a, es) r"
    "rep g h' head L (lv # rest')" "lows_of rest' = lows_of rest" "shape rest' = shape rest"
    "frame (set (addrs rest)) h h'" "nd g h' a = Some (pad g es)" "entries_ok g es" "a \<noteq> 0"
proof -
  note r = repD [OF assms(1)]
  obtain res where root: "last (lv # rest) = [(bh_node head, res)]"
    using r(4) by (auto simp: head_ok_def)
  have steps: "bh_height head - L = length (lv # rest) - 1" using r(5) by simp
  obtain l a es r2 rest' h' where 1:
    "find_loop g kp (length (lv # rest) - 1) (bh_node head) h = Some (a, h')"
    "lv = l @ (a, es) # r2" "located k rest' l (a, es) r2" "tower_ok (lv # rest')"
    "tower_in g h' (lv # rest')" "lows_of rest' = lows_of rest" "shape rest' = shape rest"
    "frame (set (addrs rest)) h h'"
  proof -
    have "kaddr kp \<inter> set (addrs (tl (lv # rest))) = {}" using assms(4) by simp
    from find_loop_ok [OF r(2,3,1) root assms(2,3) this]
    show thesis using that unfolding list.sel by blast
  qed
  have a: "nd g h' a = Some (pad g es)" "entries_ok g es" "a \<noteq> 0"
    using 1(2,5) by (auto simp: tower_in_Cons lnode_in_def)
  have "find_level g head h kp L = Some (a, h')"
    using 1(1) a(3) steps by (simp add: find_level_def)
  moreover have "rep g h' head L (lv # rest')"
    using 1(4,5) head_ok_shape [OF r(4) 1(7)] by (simp add: rep_def)
  ultimately show ?thesis by (rule that [OF _ 1(2,3) _ 1(6-8) a])
qed

text \<open>
  \<open>changes F F' h h'\<close>: an operation that owns the objects in \<open>F\<close> ends up owning those in \<open>F'\<close>.
  Everything else in use is as before, and nothing else is in use: no node is lost.
\<close>

definition changes :: "ulong set \<Rightarrow> ulong set \<Rightarrow> 'o heap \<Rightarrow> 'o heap \<Rightarrow> bool" where
  "changes F F' h h' \<longleftrightarrow>
     (\<forall>p. p \<notin> F \<and> mem h p \<noteq> None \<longrightarrow> p \<notin> F' \<and> mem h' p = mem h p)
   \<and> (\<forall>p. p \<notin> F \<and> mem h p = None \<and> p \<notin> F' \<longrightarrow> mem h' p = None)
   \<and> (\<forall>p \<in> F'. mem h' p \<noteq> None) \<and> (\<forall>p \<in> F. p \<notin> F' \<longrightarrow> mem h' p = None)
   \<and> strategy h' = strategy h"

lemma changes_trans: "changes F F' h h' \<Longrightarrow> changes F' F'' h' h'' \<Longrightarrow> changes F F'' h h''"
  unfolding changes_def by (smt (verit))

lemma changes_frame:
  "frame A h h' \<Longrightarrow> A \<subseteq> F \<Longrightarrow> (\<forall>p \<in> F. mem h p \<noteq> None) \<Longrightarrow> changes F F h h'"
  by (auto simp: changes_def frame_def)

lemma changes_grow:
  assumes "changes F F' h h'" "\<forall>p \<in> A. mem h p \<noteq> None" "A \<inter> F = {}"
  shows "changes (A \<union> F) (A \<union> F') h h'"
  using assms unfolding changes_def by (smt (verit) Un_iff disjoint_iff)

lemma changes_outside:
  "changes F F' h h' \<Longrightarrow> p \<notin> F \<Longrightarrow> mem h p \<noteq> None \<Longrightarrow> mem h' p = mem h p \<and> p \<notin> F'"
  by (simp add: changes_def)

lemma changes_alloc_ok: "changes F F' h h' \<Longrightarrow> alloc_ok h' = alloc_ok h"
  by (simp add: changes_def alloc_ok_def)

lemma level_in_mem: "level_in g h lv \<Longrightarrow> n \<in> set lv \<Longrightarrow> mem h (fst n) \<noteq> None"
  by (auto simp: level_in_def lnode_in_def nd_Node)

lemma tower_in_mem: "tower_in g h T \<Longrightarrow> p \<in> set (addrs T) \<Longrightarrow> mem h p \<noteq> None"
  unfolding tower_in_def addrs_def using level_in_mem by fastforce

lemma kval_mem_None: "kval g h kp = Some k \<Longrightarrow> p \<in> kaddr kp \<Longrightarrow> mem h p \<noteq> None"
  by (cases kp) (auto simp: kval_def split: option.splits obj.splits if_splits)

lemma changes_kval:
  "changes F F' h h' \<Longrightarrow> kval g h kp = Some k \<Longrightarrow> kaddr kp \<inter> F = {} \<Longrightarrow>
     kval g h' kp = Some k \<and> kaddr kp \<inter> F' = {}"
  using kval_mem [of kp h' h g] kval_mem_None [of g h kp k] by (auto simp: changes_def)

lemma changes_level:
  assumes "changes F F' h h'" "level_in g h lv" "fst ` set lv \<inter> F = {}"
  shows "level_in g h' lv" "fst ` set lv \<inter> F' = {}"
proof -
  have *: "mem h' (fst n) = mem h (fst n) \<and> fst n \<notin> F'" if "n \<in> set lv" for n
    using changes_outside [OF assms(1)] level_in_mem [OF assms(2) that] assms(3) that by blast
  then show "fst ` set lv \<inter> F' = {}" by auto
  show "level_in g h' lv"
    unfolding level_in_def
  proof
    fix n assume n: "n \<in> set lv"
    then show "lnode_in g h' n"
      using assms(2) nd_mem [OF conjunct1 [OF * [OF n]], of g]
      by (auto simp: level_in_def lnode_in_def)
  qed
qed

end
