(* ===== verification/Btree_Insert.thy ===== *)
theory Btree_Insert
  imports Main Btree_Tower
begin

text \<open>
  Insertion is correct. A full node is split by inserting a separator one level up, and the code
  then starts over: the proof follows it level by level. \<open>inserted\<close> is the contract of one level:
  on success the entries of the level are the old ones with the new entry at its place and the
  lower ends gain the key; when memory runs out, the level is as it was.
\<close>

section \<open>Inserting into a list\<close>

lemma ins_at_mid: "i \<le> length ys \<Longrightarrow> ins_at (length xs + i) x (xs @ ys @ zs) = xs @ ins_at i x ys @ zs"
  by (simp add: ins_at_def)

lemma ins_at_length: "ins_at (length xs) x (xs @ ys) = xs @ x # ys"
  by (simp add: ins_at_def)

lemma map_ins_at: "map f (ins_at i x xs) = ins_at i (f x) (map f xs)"
  by (simp add: ins_at_def take_map drop_map)

lemma desc_ins_at:
  assumes "desc es" "k \<notin> fst ` set es"
  shows "desc (ins_at (posn k es) (k, v) es)"
proof -
  let ?p = "posn k es"
  have a: "\<forall>x \<in> set (take ?p es). k < fst x"
    using posn_lt [of _ k es] by (fastforce simp: in_set_conv_nth)
  have "fst x \<le> k" if x: "x \<in> set (drop ?p es)" for x
  proof -
    obtain i where "i < length (drop ?p es)" "x = drop ?p es ! i"
      using x unfolding in_set_conv_nth by blast
    with posn_after [OF assms(1), of k "?p + i"] posn_le [of k es] show ?thesis by simp
  qed
  moreover have "fst x \<noteq> k" if "x \<in> set (drop ?p es)" for x
    using that assms(2) by (auto dest: in_set_dropD)
  ultimately have b: "\<forall>x \<in> set (drop ?p es). fst x < k" by (auto simp: order_less_le)
  have "desc (take ?p es)" "desc (drop ?p es)"
    using assms(1) by (simp_all add: desc_def sorted_wrt_take sorted_wrt_drop)
  moreover have "fst y < fst x" if "x \<in> set (take ?p es)" "y \<in> set (drop ?p es)" for x y
    using a b that by (meson order_less_trans)
  ultimately show ?thesis using a b by (simp add: ins_at_def desc_append)
qed

lemma butlast_ins_at:
  "i < length xs \<Longrightarrow> butlast (ins_at i x xs) = ins_at i x (butlast xs)"
  by (simp add: ins_at_def butlast_append take_butlast butlast_drop)

section \<open>Putting a new entry into the node responsible for it\<close>

lemma located_below:
  assumes "located k rest l n r" "lows_of rest = El @ E # Er" "length El = length l"
  shows "E \<le> k" "below (endb None El) k"
  using assms interval_append [of El "length l" k E Er]
  by (auto simp: located_def endb_def)

lemma tower_ok_put:
  assumes ok: "tower_ok ((l @ (a, es) # r) # rest)" and loc: "located k rest l (a, es) r"
    and d: "desc es'" and sub: "fst ` set es' \<subseteq> insert k (fst ` set es)"
  shows "tower_ok ((l @ (a, es') # r) # rest)"
proof -
  obtain El E Er where E: "lows_of rest = El @ E # Er" "length El = length l"
    using loc unfolding located_def by (metis interval_split)
  have mem: "fst x = k \<or> fst x \<in> fst ` set es" if "x \<in> set es'" for x
    using sub that by auto
  have ch: "children rest (l @ (a, es') # r)"
  proof (cases rest)
    case Nil
    with ok show ?thesis by simp
  next
    case (Cons lv2 T2)
    then have "list_all2 child_ok (flat lv2) (l @ (a, es) # r)" using ok by auto
    then obtain fl e fr where f: "flat lv2 = fl @ e # fr" "list_all2 child_ok fl l"
        "child_ok e (a, es)" "list_all2 child_ok fr r"
      by (auto simp: list_all2_append2 list_all2_Cons2)
    then have "length fl = length l" by (simp add: list_all2_lengthD)
    then have "fst e \<le> k" using loc Cons f(1) by (auto simp: located_def nth_append)
    then have "child_ok e (a, es')" using f(3) mem by (fastforce simp: child_ok_def)
    with f Cons show ?thesis by (auto intro!: list_all2_appendI)
  qed
  have up: "uppers None (lows_of rest) (l @ (a, es') # r)"
  proof -
    have "uppers None (lows_of rest) (l @ (a, es) # r)" using ok by simp
    moreover have "below (endb None El) (fst x)"
      if "\<forall>x \<in> set es. below (endb None El) (fst x)" "x \<in> set es'" for x
      using mem [OF that(2)] that(1) located_below(2) [OF loc E] by auto
    ultimately show ?thesis using E by (auto simp: uppers_append)
  qed
  show ?thesis using ok d ch up by auto
qed

lemma flat_put:
  assumes "tower_ok ((l @ (a, es) # r) # rest)" "located k rest l (a, es) r"
  shows "flat (l @ (a, ins_at (posn k es) (k, v) es) # r)
       = ins_at (posn k (flat (l @ (a, es) # r))) (k, v) (flat (l @ (a, es) # r))"
  using posn_located [OF assms] ins_at_mid [of "posn k es" es "flat l" "(k, v)" "flat r"] posn_le [of k es]
  by simp

lemma lows_put:
  assumes ok: "tower_ok ((l @ (a, es) # r) # rest)" and loc: "located k rest l (a, es) r"
    and ne: "fills 1 ((l @ (a, es) # r) # rest)"
    and j: "interval k (lows_of ((l @ (a, es) # r) # rest)) j" "fst (flat (l @ (a, es) # r) ! j) \<le> k"
  shows "lows_of ((l @ (a, ins_at (posn k es) (k, v) es) # r) # rest)
       = ins_at j k (lows_of ((l @ (a, es) # r) # rest))"
proof -
  let ?lv = "l @ (a, es) # r" and ?p = "posn k es"
  obtain El E Er where E: "lows_of rest = El @ E # Er" "length El = length l"
    using loc unfolding located_def by (metis interval_split)
  have pes: "0 < length es" using ne by auto
  have i: "interval k (lows_of rest) (length l)" using loc by (simp add: located_def)
  have "interval k (lows_of (?lv # rest)) (length (flat l) + min ?p (length es - 1))"
    by (rule interval_child [OF ne i tower_lows_length [OF ok]])
  then have jj: "j = length (flat l) + min ?p (length es - 1)"
    using interval_unique [OF tower_falls [OF ok ne] j(1)] by simp
  have "?p < length es"
  proof (rule ccontr)
    assume "\<not> ?p < length es"
    then have p: "?p = length es" using posn_le [of k es] by simp
    then have "j = length (flat l) + (length es - 1)" using jj by simp
    then have "flat ?lv ! j = es ! (length es - 1)"
      using nth_flat [of "length es - 1" "(a, es)" l r] pes by simp
    then show False using j(2) p pes posn_lt [of "length es - 1" k es] by auto
  qed
  then have p: "?p < length es" and jp: "j = length (flat l) + ?p" using jj by auto
  have ls: "length (seps El l) = length (flat l)"
    using ne E(2) by (intro length_seps) auto
  have "butlast (ins_at ?p (k, v) es) = ins_at ?p (k, v) (butlast es)" by (rule butlast_ins_at [OF p])
  then show ?thesis
    using E p ins_at_mid [of ?p "map fst (butlast es)" "seps El l" k "E # seps Er r"] ls jp
    by (simp add: seps_append map_ins_at)
qed

lemma tower_in_put:
  assumes g: "geo_ok g" and T: "tower_in g h ((l @ (a, es) # r) # rest)" and ok: "entries_ok g es'"
  shows "tower_in g (put g h a (pad g es')) ((l @ (a, es') # r) # rest)"
    "frame {a} h (put g h a (pad g es'))"
proof -
  show fr: "frame {a} h (put g h a (pad g es'))" by (intro frame_put) auto
  have d: "a \<notin> fst ` set l" "a \<notin> fst ` set r" "a \<notin> set (addrs rest)"
    using T by (auto simp: tower_in_Cons)
  moreover have "lnode_in g (put g h a (pad g es')) (a, es')"
    using T ok g valid_pad [OF ok] by (auto simp: tower_in_Cons lnode_in_def put_simps)
  ultimately show "tower_in g (put g h a (pad g es')) ((l @ (a, es') # r) # rest)"
    using T level_in_frame [OF fr, of g l] level_in_frame [OF fr, of g r]
      tower_in_frame [OF fr, of g rest] by (auto simp: tower_in_Cons)
qed

lemma head_ok_put:
  "head_ok head L ((l @ (a, es) # r) # rest) \<Longrightarrow> head_ok head L ((l @ (a, es') # r) # rest)"
  by (auto simp: head_ok_def append_eq_Cons_conv Cons_eq_append_conv)


section \<open>Allocating and freeing a node\<close>

lemma node_zeros: "geo_ok g \<Longrightarrow> slots g (replicate node_longs 0) = pad g []"
proof (rule nth_equalityI)
  assume g: "geo_ok g"
  show "length (slots g (replicate node_longs 0)) = length (pad g [])" by (simp add: length_pad)
  fix i assume "i < length (slots g (replicate node_longs 0))"
  then have i: "i < no_pairs g" by simp
  from slot_bounds(2,3) [OF g i]
  have "take (keylen g) (drop (i * keylen g) (replicate node_longs (0 :: ulong))) = replicate (keylen g) 0"
    "replicate node_longs (0 :: ulong) ! (no_pairs g * keylen g + i) = 0"
    by (simp_all add: min_def)
  with i show "slots g (replicate node_longs 0) ! i = pad g [] ! i"
    by (simp add: slots_nth nth_pad zslot_def)
qed

lemma alloc_cases:
  assumes "alloc_ok h" "geo_ok g" "btree_node_alloc h = (p, h')"
  obtains (fail) "p = 0" "changes {} {} h h'" "mem h' = mem h"
  | (ok) "p \<noteq> 0" "mem h p = None" "changes {} {p} h h'" "nd g h' p = Some (pad g [])"
proof (cases "strategy h (ticks h) (mem h)")
  case None
  then show ?thesis using assms(3) fail by (auto simp: btree_node_alloc_def changes_def)
next
  case (Some q)
  then have h': "p = q" "h' = h\<lparr>ticks := Suc (ticks h),
      mem := (mem h)(p \<mapsto> Node (replicate node_longs 0))\<rparr>"
    using assms(3) by (auto simp: btree_node_alloc_def)
  have "p \<noteq> 0 \<and> mem h p = None" using assms(1) Some h'(1) unfolding alloc_ok_def by metis
  then have "p \<noteq> 0" "mem h p = None" by simp_all
  moreover from this have "changes {} {p} h h'" using h'(2) by (auto simp: changes_def)
  moreover have "nd g h' p = Some (pad g [])"
    using h'(2) node_zeros [OF assms(2)] by (simp add: nd_def)
  ultimately show ?thesis by (rule ok)
qed

lemma free_node:
  assumes "p \<noteq> 0" "mem h p \<noteq> None"
  obtains h' where "heap_free h p = Some h'" "changes {p} {} h h'"
  using assms by (auto simp: heap_free_def changes_def)

lemma changes_tower:
  assumes "changes F F' h h'" "tower_in g h T" "set (addrs T) \<inter> F = {}"
  shows "tower_in g h' T" "set (addrs T) \<inter> F' = {}"
  using assms(2,3)
proof (induction T)
  case (Cons lv T)
  { case 1
    then show ?case using Cons.IH changes_level(1) [OF assms(1), of g lv]
      by (auto simp: tower_in_Cons Int_Un_distrib2)
  next
    case 2
    then show ?case using Cons.IH changes_level(2) [OF assms(1), of g lv]
      by (auto simp: tower_in_Cons Int_Un_distrib2)
  }
qed (auto simp: tower_in_def)

lemma changes_nd:
  "changes F F' h h' \<Longrightarrow> p \<notin> F \<Longrightarrow> nd g h p = Some S \<Longrightarrow> nd g h' p = Some S \<and> p \<notin> F'"
  using changes_outside [of F F' h h' p] nd_mem [of h' p h g] by (auto simp: nd_Node)

section \<open>Contracts\<close>

text \<open>What inserting at a level assumes, and what it promises.\<close>

definition ins_pre :: "btree_geo \<Rightarrow> 'o heap \<Rightarrow> btree_head \<Rightarrow> nat \<Rightarrow> level list \<Rightarrow> kptr \<Rightarrow> key \<Rightarrow> ulong \<Rightarrow> bool" where
  "ins_pre g h head L T kp k v \<longleftrightarrow> rep g h head L T \<and> alloc_ok h \<and> kval g h kp = Some k
     \<and> kaddr kp \<inter> set (addrs T) = {} \<and> v \<noteq> 0 \<and> k \<notin> fst ` set (flat (hd T))
     \<and> fills 2 (tl T) \<and> (tl T \<noteq> [] \<longrightarrow> fill 2 (hd T))"

definition inserted :: "btree_geo \<Rightarrow> 'o heap \<Rightarrow> btree_head \<Rightarrow> nat \<Rightarrow> level list \<Rightarrow> key \<Rightarrow> ulong \<Rightarrow>
    int \<Rightarrow> btree_head \<Rightarrow> 'o heap \<Rightarrow> level list \<Rightarrow> bool" where
  "inserted g h head L T k v err head' h' T' \<longleftrightarrow>
     rep g h' head' L T' \<and> changes (set (addrs T)) (set (addrs T')) h h' \<and> fills 2 (tl T')
   \<and> (if err = 0
      then flat (hd T') = ins_at (posn k (flat (hd T))) (k, v) (flat (hd T))
         \<and> (fill 1 (hd T) \<longrightarrow> fill 2 (hd T')
              \<and> (\<forall>j. interval k (lows_of T) j \<longrightarrow> fst (flat (hd T) ! j) \<le> k \<longrightarrow>
                      lows_of T' = ins_at j k (lows_of T)))
      else err = - ENOMEM \<and> head' = head \<and> hd T' = hd T \<and> shape T' = shape T
         \<and> lows_of T' = lows_of T)"

text \<open>A node with room: the entry goes into it.\<close>

lemma retry_fits:
  fixes h :: "'o heap"
  assumes g: "geo_ok g" and pre: "ins_pre g h head L (lv # rest) kp k v"
    and room: "\<And>l n r. lv = l @ n # r \<Longrightarrow> interval k (lows_of rest) (length l) \<Longrightarrow>
                 length (snd n) < no_pairs g"
  shows "\<exists>h' T'. insert_retry (Suc fuel) g head h kp v L = Some (0, head, h')
     \<and> inserted g h head L (lv # rest) k v 0 head h' T' \<and> (tl T' = [] \<longleftrightarrow> rest = [])"
proof -
  from pre have r: "rep g h head L (lv # rest)" and kv: "kval g h kp = Some k" and v: "v \<noteq> 0"
    and disj: "kaddr kp \<inter> set (addrs (lv # rest)) = {}" and new: "k \<notin> fst ` set (flat lv)"
    and f2: "fills 2 rest" "rest \<noteq> [] \<Longrightarrow> fill 2 lv"
    by (auto simp: ins_pre_def)
  from disj have disj': "kaddr kp \<inter> set (addrs rest) = {}" by auto
  obtain l a es r' rest' h1 where f: "find_level g head h kp L = Some (a, h1)"
      "lv = l @ (a, es) # r'" "located k rest' l (a, es) r'" "rep g h1 head L (lv # rest')"
      "lows_of rest' = lows_of rest" "shape rest' = shape rest"
      "frame (set (addrs rest)) h h1" "nd g h1 a = Some (pad g es)" "entries_ok g es" "a \<noteq> 0"
    by (rule find_level_rep [OF r g kv disj'])
  have kv1: "kval g h1 kp = Some k" using frame_kval [OF f(7) disj'] kv by simp
  have lt: "length es < no_pairs g"
    using room [OF f(2)] f(3,5) by (simp add: located_def)
  let ?p = "posn k es" and ?es = "ins_at (posn k es) (k, v) es"
  let ?h = "put g h1 a (pad g ?es)" and ?lv = "l @ (a, ?es) # r'"
  have nin: "k \<notin> fst ` set es" using new f(2) by auto
  obtain c where c: "(if ?p < length es then keycmp g h1 a ?p kp else Some 1) = Some c" "c \<noteq> 0"
  proof (cases "?p < length es")
    case True
    then have "fst (es ! ?p) \<noteq> k" using nin by (metis image_eqI nth_mem)
    moreover have "keycmp g h1 a ?p kp = Some (cmp3 (fst (pad g es ! ?p)) k)"
      using True lt by (intro keycmp_slot [OF g f(8) _ kv1]) simp
    ultimately show ?thesis using that True lt by (simp add: nth_pad)
  next
    case False
    with that [of 1] show ?thesis by simp
  qed
  have ap: "a \<notin> kaddr kp" using disj f(2) by auto
  have ins: "do { h \<leftarrow> copy_down g a ?p (Suc ?p) (length es - ?p) h1;
              h \<leftarrow> setkey g h a kp ?p;
              setval g h a v ?p } = Some ?h"
    by (rule insert_slots [OF g f(8,9) lt posn_le kv1 ap v])
  have res: "insert_retry (Suc fuel) g head h kp v L = Some (0, head, ?h)"
    using f(1) getpos_pad [OF g f(8) kv1] getfill_pad [OF g f(8,9) posn_le [of k es]] c lt ins
    by (auto simp: Option.bind_eq_Some_conv)
  note rr = repD [OF f(4), unfolded f(2)]
  have eok: "entries_ok g ?es"
    using entries_ok_ins_at [OF f(9) lt posn_le [of k es] kval_length [OF kv] v] .
  have d: "desc ?es" using rr(2) nin by (intro desc_ins_at) auto
  have tok: "tower_ok (?lv # rest')"
    by (rule tower_ok_put [OF rr(2) f(3) d]) (simp add: set_ins_at)
  note tin = tower_in_put [OF g rr(3) eok]
  have rep': "rep g ?h head L (?lv # rest')"
    using tok tin(1) head_ok_put [OF rr(4)] by (simp add: rep_def)
  have ch: "changes (set (addrs (lv # rest))) (set (addrs (?lv # rest'))) h ?h"
  proof -
    have "frame (set (addrs (lv # rest))) h h1" using f(7) by (rule frame_mono) simp
    moreover have "frame (set (addrs (lv # rest))) h1 ?h"
      using tin(2) by (rule frame_mono) (simp add: f(2))
    ultimately have "frame (set (addrs (lv # rest))) h ?h" by (rule frame_trans)
    moreover have "\<forall>p \<in> set (addrs (lv # rest)). mem h p \<noteq> None"
      using tower_in_mem [OF repD(3) [OF r]] by simp
    moreover have "set (addrs (?lv # rest')) = set (addrs (lv # rest))"
      using f(2) shape_addrs [OF f(6)] by simp
    ultimately show ?thesis using changes_frame [of _ h ?h] by simp
  qed
  have lows: "lows_of (lv # rest') = lows_of (lv # rest)" using f(5) by simp
  have f2': "fills 2 rest'" using f2(1) shape_fills [OF f(6)] by simp
  have "inserted g h head L (lv # rest) k v 0 head ?h (?lv # rest')"
  proof -
    have "flat ?lv = ins_at (posn k (flat lv)) (k, v) (flat lv)"
      unfolding f(2) by (rule flat_put [OF rr(2) f(3)])
    moreover have "fill 2 ?lv" if "fill 1 lv"
    proof (cases "rest = []")
      case True
      then have "l = []" "r' = []" using f(2) r by (auto simp: rep_def append_eq_Cons_conv)
      with that f(2) show ?thesis by (simp add: posn_le)
    next
      case False
      then show ?thesis using f2(2) f(2) posn_le [of k es] by simp
    qed
    moreover have "lows_of (?lv # rest') = ins_at j k (lows_of (lv # rest))"
      if "fill 1 lv" "interval k (lows_of (lv # rest)) j" "fst (flat lv ! j) \<le> k" for j
    proof -
      have ne: "fills 1 ((l @ (a, es) # r') # rest')"
        using that(1) f2' f(2) fills_mono [of 2 rest' 1] by simp
      show ?thesis
        using lows_put [OF rr(2) f(3) ne, of j] that(2,3) lows unfolding f(2) by simp
    qed
    ultimately show ?thesis using rep' ch f2' by (simp add: inserted_def)
  qed
  moreover have "tl (?lv # rest') = [] \<longleftrightarrow> rest = []" using shape_length [OF f(6)] by auto
  ultimately show ?thesis using res by blast
qed


section \<open>Splitting a node\<close>

lemma rep_tl: "rep g h head L (lv # rest) \<Longrightarrow> rest \<noteq> [] \<Longrightarrow> rep g h head (Suc L) rest"
  by (auto simp: rep_def tower_in_Cons head_ok_def)

lemma interval_upper: "interval k Es i \<Longrightarrow> falls U Es \<Longrightarrow> j < i \<Longrightarrow> k < Es ! j"
proof -
  assume a: "interval k Es i" "falls U Es" "j < i"
  then have "Es ! (i - 1) \<le> Es ! j"
    by (cases "j = i - 1") (auto simp: falls_def interval_def sorted_wrt_iff_nth_less)
  moreover have "k < Es ! (i - 1)" using a by (auto simp: interval_def)
  ultimately show ?thesis by order
qed

text \<open>The separator of a split: the last key that goes to the left half.\<close>

lemma sep_facts:
  assumes ok: "tower_ok ((l @ (a, es) # r) # rest)" and m: "0 < m" "m < length es"
  defines "kk \<equiv> fst (es ! (m - 1))"
  shows "interval kk (lows_of rest) (length l)"
    "rest \<noteq> [] \<Longrightarrow> fst (flat (hd rest) ! length l) < kk"
    "rest \<noteq> [] \<Longrightarrow> posn kk (flat (hd rest)) = length l"
    "rest \<noteq> [] \<Longrightarrow> kk \<notin> fst ` set (flat (hd rest))"
proof -
  have len: "length (lows_of rest) = length (l @ (a, es) # r)" by (rule tower_lows_length [OF ok])
  define El E Er where "El = take (length l) (lows_of rest)" and "E = lows_of rest ! length l"
    and "Er = drop (Suc (length l)) (lows_of rest)"
  have E: "lows_of rest = El @ E # Er" "length El = length l"
    using len by (auto simp: El_def E_def Er_def intro: split_at)
  have last: "es ! (length es - 1) \<in> set es" "es ! (m - 1) \<in> set es" using m by auto
  have lt: "fst (es ! (length es - 1)) < kk"
    using ok m desc_nth [of es "m - 1" "length es - 1"] by (auto simp: kk_def)
  have lo: "list_all2 (\<lambda>E n. \<forall>x \<in> set (snd n). E \<le> fst x) (El @ E # Er) (l @ (a, es) # r)"
    using tower_lows [OF ok] E(1) by simp
  then have "\<forall>x \<in> set es. E \<le> fst x" using E(2) by (simp add: list_all2_append)
  then have low: "E \<le> kk" using last(1) lt by force
  have "uppers None (El @ E # Er) (l @ (a, es) # r)" using ok E(1) by simp
  then have "below (endb None El) kk" using E(2) last(2) by (auto simp: uppers_append kk_def)
  then show i: "interval kk (lows_of rest) (length l)"
    using low E interval_append [OF E(2)] by (auto simp: endb_def split: if_splits)
  assume ne: "rest \<noteq> []"
  let ?fs = "flat (hd rest)"
  from ok ne have ch: "list_all2 child_ok ?fs (l @ (a, es) # r)" by (cases rest) auto
  then have lf: "length l < length ?fs" by (auto dest: list_all2_lengthD)
  have "child_ok (?fs ! length l) (a, es)" using list_all2_nthD [OF ch lf] by simp
  then have "fst (?fs ! length l) \<le> fst (es ! (length es - 1))" using last(1) by (auto simp: child_ok_def)
  with lt show lk: "fst (?fs ! length l) < kk" by order
  have okr: "tower_ok rest" and f1: "fills 1 rest" using ok by auto
  have le: "list_all2 (\<le>) (lows_of rest) (map fst ?fs)" by (rule lows_le_keys [OF okr ne f1])
  have gt: "kk < fst (?fs ! j)" if "j < length l" for j
  proof -
    have "kk < lows_of rest ! j" by (rule interval_upper [OF i tower_falls [OF okr f1] that])
    moreover have "lows_of rest ! j \<le> fst (?fs ! j)"
      using list_all2_nthD [OF le, of j] that len lf by simp
    ultimately show ?thesis by order
  qed
  show "posn kk ?fs = length l" using lf gt lk by (intro posn_eqI) (auto intro: less_imp_le)
  have d: "desc ?fs" using okr ne by (cases rest) (auto intro: flat_desc)
  show "kk \<notin> fst ` set ?fs"
  proof
    assume "kk \<in> fst ` set ?fs"
    then obtain i where j: "i < length ?fs" "fst (?fs ! i) = kk" by (auto simp: in_set_conv_nth)
    show False
    proof (cases i "length l" rule: linorder_cases)
      case less
      then show False using gt [of i] j by simp
    next
      case equal
      then show False using lk j by simp
    next
      case greater
      then show False using desc_nth [OF d greater j(1)] lk j(2) by order
    qed
  qed
qed

lemma tower_ok_split:
  assumes ok: "tower_ok ((l @ (a, es) # r) # rest)" and m: "0 < m" "m < length es"
    and ch: "list_all2 child_ok fs (l @ (a, es) # r)"
    and T1: "T1 \<noteq> []" "tower_ok T1" "fills 1 T1"
    and fl: "flat (hd T1) = ins_at (length l) (fst (es ! (m - 1)), new) fs"
    and lo: "lows_of T1 = ins_at (length l) (fst (es ! (m - 1))) (lows_of rest)"
  shows "tower_ok ((l @ (new, take m es) # (a, drop m es) # r) # T1)"
    "lows_of ((l @ (new, take m es) # (a, drop m es) # r) # T1) = lows_of ((l @ (a, es) # r) # rest)"
proof -
  let ?kk = "fst (es ! (m - 1))" and ?lv = "l @ (new, take m es) # (a, drop m es) # r"
  have len: "length (lows_of rest) = length (l @ (a, es) # r)" by (rule tower_lows_length [OF ok])
  define El E Er where "El = take (length l) (lows_of rest)" and "E = lows_of rest ! length l"
    and "Er = drop (Suc (length l)) (lows_of rest)"
  have E: "lows_of rest = El @ E # Er" "length El = length l"
    using len by (auto simp: El_def E_def Er_def intro: split_at)
  have lo1: "lows_of T1 = El @ ?kk # E # Er" using lo E ins_at_length [of El ?kk "E # Er"] by simp
  have d: "desc es" using ok by simp
  have td: "desc (take m es)" "desc (drop m es)"
    using d by (simp_all add: desc_def sorted_wrt_take sorted_wrt_drop)
  have ge: "?kk \<le> fst x" if x: "x \<in> set (take m es)" for x
  proof -
    obtain i where i: "i < m" "x = es ! i" using x m by (auto simp: in_set_conv_nth)
    then show ?thesis using desc_nth [OF d, of i "m - 1"] m
      by (cases "i = m - 1") (auto intro: less_imp_le)
  qed
  have lt: "fst x < ?kk" if x: "x \<in> set (drop m es)" for x
  proof -
    obtain i where "i < length (drop m es)" "x = drop m es ! i" using x unfolding in_set_conv_nth by blast
    then show ?thesis using desc_nth [OF d, of "m - 1" "m + i"] m by simp
  qed
  have up: "uppers None (lows_of T1) ?lv"
  proof -
    have "uppers None (El @ E # Er) (l @ (a, es) # r)" using ok E(1) by simp
    then show ?thesis using E(2) lt unfolding lo1 by (auto simp: uppers_append dest: in_set_takeD)
  qed
  have "list_all2 child_ok (flat (hd T1)) ?lv"
  proof -
    from ch obtain fl' e fr where f: "fs = fl' @ e # fr" "list_all2 child_ok fl' l"
        "child_ok e (a, es)" "list_all2 child_ok fr r"
      by (auto simp: list_all2_append2 list_all2_Cons2)
    have lf: "length fl' = length l" using f(2) by (rule list_all2_lengthD)
    have "flat (hd T1) = fl' @ (?kk, new) # e # fr"
      using fl f(1) lf ins_at_length [of fl' "(?kk, new)" "e # fr"] by simp
    moreover have "child_ok (?kk, new) (new, take m es)" using ge by (simp add: child_ok_def)
    moreover have "child_ok e (a, drop m es)" using f(3) by (auto simp: child_ok_def dest: in_set_dropD)
    ultimately show ?thesis using f(2,4) by (auto intro!: list_all2_appendI)
  qed
  then have "children T1 ?lv" using T1(1) by (cases T1) auto
  then show "tower_ok (?lv # T1)" using ok td up T1 by auto
  have "butlast es = take m es @ butlast (drop m es)"
    using m by (metis append_take_drop_id butlast_append drop_eq_Nil not_le)
  moreover have "map fst (take m es) = map fst (butlast (take m es)) @ [?kk]"
  proof -
    have "take m es \<noteq> []" using m by auto
    moreover from this have "last (take m es) = es ! (m - 1)" using m by (simp add: last_conv_nth min_def)
    ultimately show ?thesis using map_fst_butlast_last [of "take m es"] by simp
  qed
  ultimately show "lows_of (?lv # T1) = lows_of ((l @ (a, es) # r) # rest)"
    using E lo1 by (simp add: seps_append)
qed

lemma grow_rep:
  assumes g: "geo_ok g" and al: "alloc_ok h" and r: "rep g h head L [[(a, es)]]" and ne: "es \<noteq> []"
  obtains (fail) h' where "btree_grow g head h = Some (- ENOMEM, head, h')" "changes {} {} h h'"
  | (ok) p head' h' where "btree_grow g head h = Some (0, head', h')" "p \<noteq> 0" "mem h p = None"
      "changes {} {p} h h'" "rep g h' head' (Suc L) [[(p, [(fst (last es), a)])]]"
proof -
  obtain p h1 where p: "btree_node_alloc h = (p, h1)" by fastforce
  have hd: "bh_node head = a" "bh_height head = L" using repD(4) [OF r] by (auto simp: head_ok_def)
  have a: "a \<noteq> 0" "nd g h a = Some (pad g es)" "entries_ok g es" "mem h a \<noteq> None"
    using repD(3) [OF r] by (auto simp: tower_in_Cons lnode_in_def nd_Node)
  show thesis
  proof (rule alloc_cases [OF al g p])
    assume "p = 0" "changes {} {} h h1"
    then show thesis using p fail by (simp add: btree_grow_def)
  next
    assume n: "p \<noteq> 0" "mem h p = None" "changes {} {p} h h1" "nd g h1 p = Some (pad g [])"
    have ap: "a \<noteq> p" using n(2) a(4) by auto
    have a1: "nd g h1 a = Some (pad g es)" using changes_nd [OF n(3) _ a(2)] by simp
    let ?k = "fst (last es)" and ?S = "(pad g [])[0 := (fst (last es), snd (pad g [] ! 0))]"
    let ?T = "pad g [(fst (last es), a)]" and ?head = "head\<lparr>bh_node := p, bh_height := Suc (bh_height head)\<rparr>"
    have n0: "0 < no_pairs g" using g by (simp add: geo_ok_def)
    have kv: "kval g h1 (bkey g a (length es - 1)) = Some ?k"
      using kval_bkey_pad [OF g a1 a(3), of "length es - 1"] ne by (simp add: last_conv_nth)
    have 1: "setkey g h1 p (bkey g a (length es - 1)) 0 = Some (put g h1 p ?S)"
      by (rule setkey_slot [OF g n(4) n0 kv]) simp
    have vS: "valid g ?S" using valid_pad [of g "[]"] kval_length [OF kv]
      by (intro valid_upd) (auto simp: entries_ok_def)
    have eT: "entries_ok g [(?k, a)]" using kval_length [OF kv] a(1) n0 by (simp add: entries_ok_def)
    have ST: "?S[0 := (fst (?S ! 0), a)] = ?T"
      using n0 by (cases "no_pairs g") (auto simp: pad_def)
    have 2: "setval g (put g h1 p ?S) p a 0 = Some (put g h1 p ?T)"
      using setval_slot [OF g, of "put g h1 p ?S" p ?S 0 a] n0 g n(4) vS valid_pad [OF eT] ST
      by (simp add: put_simps)
    have grow: "btree_grow g head h = Some (0, ?head, put g h1 p ?T)"
      using p n(1) hd a(1) getfill_pad [OF g a1 a(3), of 0] ne 1 2 by (simp add: btree_grow_def)
    have fr: "frame {p} h1 (put g h1 p ?T)" by (intro frame_put) auto
    have ch: "changes {} {p} h (put g h1 p ?T)"
      using changes_trans [OF n(3) changes_frame [OF fr]] n(4) by (auto simp: nd_Node)
    have "lnode_in g (put g h1 p ?T) (p, [(?k, a)])"
      using n g eT valid_pad [OF eT] by (simp add: lnode_in_def put_simps)
    then have "rep g (put g h1 p ?T) ?head (Suc L) [[(p, [(?k, a)])]]"
      using hd by (simp add: rep_def tower_in_Cons tower_in_def head_ok_def)
    with grow n(1,2) ch show thesis by (rule ok)
  qed
qed


section \<open>Inserting the separator one level up\<close>

definition raised :: "btree_geo \<Rightarrow> 'o heap \<Rightarrow> btree_head \<Rightarrow> nat \<Rightarrow> level \<Rightarrow> nat \<Rightarrow> level list \<Rightarrow> key \<Rightarrow> ulong \<Rightarrow>
    int \<Rightarrow> btree_head \<Rightarrow> 'o heap \<Rightarrow> level list \<Rightarrow> bool" where
  "raised g h head L lv i rest kk new err head' h' T1 \<longleftrightarrow>
     changes (set (addrs rest)) (set (addrs T1)) h h'
   \<and> (if err = 0
      then rep g h' head' (Suc L) T1 \<and> fills 2 T1 \<and> lows_of T1 = ins_at i kk (lows_of rest)
         \<and> (\<exists>fs. list_all2 child_ok fs lv \<and> flat (hd T1) = ins_at i (kk, new) fs)
      else err = - ENOMEM \<and> head' = head \<and> shape T1 = shape rest \<and> lows_of T1 = lows_of rest
         \<and> tower_in g h' T1 \<and> tower_ok (lv # T1) \<and> (rest \<noteq> [] \<longrightarrow> rep g h' head (Suc L) T1))"

lemma insert_up_inner:
  assumes r: "rep g h head L ((l @ (a, es) # r) # rest)" and m: "0 < m" "m < length es"
    and new: "new \<noteq> 0" and ne: "rest \<noteq> []" and f2: "fills 2 rest"
    and upper: "insert_retry fuel g head h kp new (Suc L) = Some (err, head', h')"
      "inserted g h head (Suc L) rest (fst (es ! (m - 1))) new err head' h' T'"
  shows "btree_insert_level (Suc fuel) g head h kp new (Suc L) = Some (err, head', h')
    \<and> raised g h head L (l @ (a, es) # r) (length l) rest (fst (es ! (m - 1))) new err head' h' T'"
proof -
  let ?kk = "fst (es ! (m - 1))" and ?lv = "l @ (a, es) # r"
  note rr = repD [OF r]
  note sep = sep_facts [OF rr(2) m]
  from ne obtain lv' T where rest: "rest = lv' # T" by (cases rest) auto
  have "\<not> bh_height head < Suc L" using rr(5) rest by simp
  then have run: "btree_insert_level (Suc fuel) g head h kp new (Suc L) = Some (err, head', h')"
    using upper(1) new by simp
  from upper(2) have i: "rep g h' head' (Suc L) T'" "changes (set (addrs rest)) (set (addrs T')) h h'"
      "fills 2 (tl T')" by (simp_all add: inserted_def)
  note r' = repD [OF i(1)]
  have ch: "list_all2 child_ok (flat (hd rest)) ?lv" using rr(2) rest by simp
  show ?thesis
  proof (cases "err = 0")
    case True
    with upper(2) have e: "flat (hd T') = ins_at (length l) (?kk, new) (flat (hd rest))"
      using sep(3) [OF ne] by (simp add: inserted_def)
    have "fill 1 (hd rest)" using f2 rest fill_mono [of 2 lv' 1] by simp
    then have f: "fill 2 (hd T')" and lo: "lows_of T' = ins_at (length l) ?kk (lows_of rest)"
      using upper(2) True sep(1) less_imp_le [OF sep(2) [OF ne]] by (auto simp: inserted_def)
    have "fills 2 T'" using f i(3) r'(1) by (cases T') auto
    then show ?thesis using run i True e lo ch by (auto simp: raised_def)
  next
    case False
    with upper(2) have e: "err = - ENOMEM" "head' = head" "hd T' = hd rest" "shape T' = shape rest"
        "lows_of T' = lows_of rest" by (simp_all add: inserted_def)
    have "tower_ok (?lv # T')"
      using rr(2) ch e(3,5) r'(1,2) shape_fills [OF e(4)] rest by (cases T') auto
    then show ?thesis using run i e r' False by (simp add: raised_def)
  qed
qed

lemma insert_up_root:
  fixes h :: "'o heap"
  assumes g: "geo_ok g" and al: "alloc_ok h" and r: "rep g h head L [[(a, es)]]"
    and m: "0 < m" "m < length es" and kv: "kval g h kp = Some (fst (es ! (m - 1)))" and new: "new \<noteq> 0"
  shows "\<exists>err head' h' T1. btree_insert_level (Suc (Suc fuel)) g head h kp new (Suc L) = Some (err, head', h')
    \<and> raised g h head L [(a, es)] 0 [] (fst (es ! (m - 1))) new err head' h' T1"
proof -
  let ?kk = "fst (es ! (m - 1))"
  note rr = repD [OF r]
  have ne: "es \<noteq> []" and lt: "bh_height head < Suc L" using m rr(5) by auto
  have d: "desc es" using rr(2) by simp
  have gt: "fst (last es) < ?kk"
    using desc_nth [OF d, of "m - 1" "length es - 1"] m ne by (simp add: last_conv_nth)
  show ?thesis
  proof (rule grow_rep [OF g al r ne])
    fix h' assume 1: "btree_grow g head h = Some (- ENOMEM, head, h')" "changes {} {} h h'"
    then have "btree_insert_level (Suc (Suc fuel)) g head h kp new (Suc L) = Some (- ENOMEM, head, h')"
      using lt new by (simp add: ENOMEM_def)
    moreover have "raised g h head L [(a, es)] 0 [] ?kk new (- ENOMEM) head h' []"
      using 1 d by (simp add: raised_def ENOMEM_def tower_in_def)
    ultimately show ?thesis by blast
  next
    fix p head1 h1
    assume 1: "btree_grow g head h = Some (0, head1, h1)" "p \<noteq> 0" "mem h p = None"
      "changes {} {p} h h1" "rep g h1 head1 (Suc L) [[(p, [(fst (last es), a)])]]"
    let ?T = "[[(p, [(fst (last es), a)])]]"
    have kv1: "kval g h1 kp = Some ?kk" "kaddr kp \<inter> {p} = {}"
      using changes_kval [OF 1(4) kv] by auto
    have pre: "ins_pre g h1 head1 (Suc L) ?T kp ?kk new"
      using 1(5) kv1 new gt al changes_alloc_ok [OF 1(4)] by (simp add: ins_pre_def)
    have g1: "1 < no_pairs g" using g by (simp add: geo_ok_def)
    obtain h' T' where 2: "insert_retry (Suc fuel) g head1 h1 kp new (Suc L) = Some (0, head1, h')"
        "inserted g h1 head1 (Suc L) ?T ?kk new 0 head1 h' T'" "tl T' = []"
      using retry_fits [OF g pre, of fuel] g1 by (auto simp: append_eq_Cons_conv Cons_eq_append_conv)
    have run: "btree_insert_level (Suc (Suc fuel)) g head h kp new (Suc L) = Some (0, head1, h')"
      using 1(1) 2(1) lt new by simp
    have i: "rep g h' head1 (Suc L) T'" "changes {p} (set (addrs T')) h1 h'"
      using 2(2) by (simp_all add: inserted_def)
    have p0: "posn ?kk [(fst (last es), a)] = 0" using gt by (intro posn_0) auto
    have fl: "flat (hd T') = ins_at 0 (?kk, new) [(fst (last es), a)]" "fill 2 (hd T')"
        "lows_of T' = ins_at 0 ?kk [[]]"
      using 2(2) p0 gt unfolding inserted_def by (auto simp: interval_def intro: less_imp_le)
    have T': "T' = [hd T']" using repD(1) [OF i(1)] 2(3) by (cases T') auto
    have f2: "fills 2 T'" using fl(2) by (subst T') simp
    have "child_ok (fst (last es), a) (a, es)"
    proof -
      have "fst (last es) \<le> fst x" if "x \<in> set es" for x
      proof -
        have "es = butlast es @ [last es]" using ne by simp
        then have "desc (butlast es @ [last es])" "x \<in> set (butlast es @ [last es])" using d that by metis+
        then show ?thesis by (auto simp: desc_append intro: less_imp_le)
      qed
      then show ?thesis by (simp add: child_ok_def)
    qed
    then have "\<exists>fs. list_all2 child_ok fs [(a, es)] \<and> flat (hd T') = ins_at 0 (?kk, new) fs"
      using fl(1) by (intro exI [of _ "[(fst (last es), a)]"]) simp
    then have "raised g h head L [(a, es)] 0 [] ?kk new 0 head1 h' T'"
      using i fl f2 changes_trans [OF 1(4) i(2)] by (simp add: raised_def)
    with run show ?thesis by blast
  qed
qed


section \<open>Splitting\<close>

lemma alloc_ok_changes: "alloc_ok h \<Longrightarrow> changes F F' h h' \<Longrightarrow> alloc_ok h'"
  by (simp add: changes_alloc_ok)

lemma rep_changes:
  assumes "rep g h head L T" "changes F F' h h'" "set (addrs T) \<inter> F = {}"
  shows "rep g h' head L T" "set (addrs T) \<inter> F' = {}"
  using assms changes_tower [OF assms(2) _ assms(3)] by (auto simp: rep_def)

lemma rep_Cons:
  assumes "rep g h head (Suc L) T" "tower_ok (lv # T)" "level_in g h lv" "distinct (map fst lv)"
    "fst ` set lv \<inter> set (addrs T) = {}"
  shows "rep g h head L (lv # T)"
  using assms repD [OF assms(1)] by (auto simp: rep_def tower_in_Cons head_ok_def)

lemma set_addrs_Cons: "set (addrs (lv # T)) = fst ` set lv \<union> set (addrs T)"
  by simp

definition split_done :: "btree_geo \<Rightarrow> 'o heap \<Rightarrow> btree_head \<Rightarrow> nat \<Rightarrow> level \<Rightarrow> lnode \<Rightarrow> level \<Rightarrow> level list \<Rightarrow>
    nat \<Rightarrow> int \<Rightarrow> btree_head \<Rightarrow> 'o heap \<Rightarrow> level \<Rightarrow> level list \<Rightarrow> bool" where
  "split_done g h head L l n r rest m err head' h' lv' T1 \<longleftrightarrow>
     rep g h' head' L (lv' # T1)
   \<and> changes (set (addrs ((l @ n # r) # rest))) (set (addrs (lv' # T1))) h h'
   \<and> lows_of (lv' # T1) = lows_of ((l @ n # r) # rest)
   \<and> (if err = 0
      then (\<exists>new. lv' = l @ (new, take m (snd n)) # (fst n, drop m (snd n)) # r) \<and> fills 2 T1
         \<and> lows_of T1 = ins_at (length l) (fst (snd n ! (m - 1))) (lows_of rest)
      else err = - ENOMEM \<and> head' = head \<and> lv' = l @ n # r \<and> shape T1 = shape rest
         \<and> lows_of T1 = lows_of rest)"

lemma split_rep:
  fixes h :: "'o heap"
  assumes g: "geo_ok g" and al: "alloc_ok h" and r: "rep g h head L ((l @ (a, es) # r) # rest)"
    and full: "length es = no_pairs g" and f2: "fills 2 rest"
    and up: "\<And>new (h1 :: 'o heap). \<lbrakk>new \<noteq> 0; alloc_ok h1; rep g h1 head L ((l @ (a, es) # r) # rest);
                kval g h1 (bkey g a (no_pairs g div 2 - 1)) = Some (fst (es ! (no_pairs g div 2 - 1)))\<rbrakk> \<Longrightarrow>
         \<exists>err head' h' T1. btree_insert_level fuel g head h1 (bkey g a (no_pairs g div 2 - 1)) new (Suc L)
             = Some (err, head', h')
           \<and> raised g h1 head L (l @ (a, es) # r) (length l) rest (fst (es ! (no_pairs g div 2 - 1)))
               new err head' h' T1"
  shows "\<exists>err head' h' lv' T1. btree_split (Suc fuel) g head h a L = Some (err, head', h')
     \<and> split_done g h head L l (a, es) r rest (no_pairs g div 2) err head' h' lv' T1"
proof -
  define m where "m = no_pairs g div 2"
  let ?lv = "l @ (a, es) # r" and ?kk = "fst (es ! (m - 1))"
  let ?A = "fst ` set ?lv" and ?R = "set (addrs rest)"
  have m: "0 < m" "m < length es" "2 * m \<le> no_pairs g" using g full by (auto simp: m_def geo_ok_def)
  note rr = repD [OF r]
  have owned: "\<forall>p \<in> ?A \<union> ?R. mem h p \<noteq> None" using tower_in_mem [OF rr(3)] by auto
  have na: "nd g h a = Some (pad g es)" "entries_ok g es" "a \<noteq> 0"
    using rr(3) by (auto simp: tower_in_Cons lnode_in_def)
  have AR: "set (addrs (?lv # rest)) = ?A \<union> ?R" by auto
  have dj: "?A \<inter> ?R = {}" "distinct (map fst ?lv)" using rr(3) by (auto simp: tower_in_Cons)
  obtain new h1 where new: "btree_node_alloc h = (new, h1)" by fastforce
  show ?thesis
  proof (rule alloc_cases [OF al g new])
    assume 1: "new = 0" "changes {} {} h h1"
    have "rep g h1 head L (?lv # rest)" using rep_changes [OF r 1(2)] by simp
    moreover have "changes (?A \<union> ?R) (?A \<union> ?R) h h1" using changes_grow [OF 1(2) owned] by simp
    ultimately have "split_done g h head L l (a, es) r rest m (- ENOMEM) head h1 ?lv rest"
      using AR by (simp add: split_done_def ENOMEM_def)
    then show ?thesis using new 1(1) by (auto simp: m_def)
  next
    assume 1: "new \<noteq> 0" "mem h new = None" "changes {} {new} h h1" "nd g h1 new = Some (pad g [])"
    have r1: "rep g h1 head L (?lv # rest)" and n1: "new \<notin> ?A \<union> ?R"
      using rep_changes [OF r 1(3)] AR by auto
    have a1: "nd g h1 a = Some (pad g es)" using changes_nd [OF 1(3) _ na(1)] by simp
    have kv: "kval g h1 (bkey g a (m - 1)) = Some ?kk"
      using m by (intro kval_bkey_pad [OF g a1 na(2)]) auto
    obtain err head' h2 T1 where 2: "btree_insert_level fuel g head h1 (bkey g a (m - 1)) new (Suc L)
             = Some (err, head', h2)" "raised g h1 head L ?lv (length l) rest ?kk new err head' h2 T1"
      using up [OF 1(1) alloc_ok_changes [OF al 1(3)] r1] kv by (auto simp: m_def)
    let ?R1 = "set (addrs T1)"
    have ch2: "changes ?R ?R1 h1 h2" using 2(2) by (simp add: raised_def)
    have lv2: "level_in g h2 ?lv" "?A \<inter> ?R1 = {}"
      using changes_level [OF ch2 _ dj(1)] repD(3) [OF r1] by (auto simp: tower_in_Cons)
    have nn: "nd g h2 new = Some (pad g [])" "new \<notin> ?R1"
      using changes_nd [OF ch2 _ 1(4)] n1 by auto
    have c1: "changes (?A \<union> ?R) ((insert new ?A) \<union> ?R) h h1"
      using changes_grow [OF 1(3) owned] by simp
    have c2: "changes ((insert new ?A) \<union> ?R) ((insert new ?A) \<union> ?R1) h1 h2"
      using c1 n1 dj(1) by (intro changes_grow [OF ch2]) (auto simp: changes_def)
    have c12: "changes (?A \<union> ?R) ((insert new ?A) \<union> ?R1) h h2" by (rule changes_trans [OF c1 c2])
    show ?thesis
    proof (cases "err = 0")
      case False
      with 2(2) have e: "err = - ENOMEM" "head' = head" "shape T1 = shape rest"
          "lows_of T1 = lows_of rest" "tower_in g h2 T1" "tower_ok (?lv # T1)"
        by (auto simp: raised_def)
      obtain h3 where 3: "heap_free h2 new = Some h3" "changes {new} {} h2 h3"
        using free_node [of new h2] 1(1) nn(1) by (auto simp: nd_Node)
      have t2: "tower_in g h2 (?lv # T1)" using lv2 dj(2) e(5) by (simp add: tower_in_Cons)
      then have t3: "tower_in g h3 (?lv # T1)" using changes_tower [OF 3(2) t2] nn(2) n1 by auto
      have own2: "\<forall>p \<in> ?A \<union> ?R1. mem h2 p \<noteq> None" using tower_in_mem [OF t2] by auto
      have "changes (insert new (?A \<union> ?R1)) (?A \<union> ?R1) h2 h3"
        using changes_grow [OF 3(2) own2] nn(2) n1 by auto
      then have "changes (set (addrs (?lv # rest))) (set (addrs (?lv # T1))) h h3"
        unfolding set_addrs_Cons using changes_trans [OF c12] by simp
      moreover have "rep g h3 head L (?lv # T1)"
        using t3 e(6) head_ok_shape [OF rr(4) e(3)] by (simp add: rep_def)
      ultimately have "split_done g h head L l (a, es) r rest m err head' h3 ?lv T1"
        using e False unfolding split_done_def by simp
      then show ?thesis using new 1(1) 2(1) 3(1) False by (auto simp: m_def)
    next
      case True
      with 2(2) have e: "rep g h2 head' (Suc L) T1" "fills 2 T1"
          "lows_of T1 = ins_at (length l) ?kk (lows_of rest)" by (auto simp: raised_def)
      obtain fs where fs: "list_all2 child_ok fs ?lv" "flat (hd T1) = ins_at (length l) (?kk, new) fs"
        using 2(2) True by (auto simp: raised_def)
      let ?lv' = "l @ (new, take m es) # (a, drop m es) # r"
      let ?h = "put g (put g h2 new (pad g (take m es))) a (pad g (drop m es))"
      note r2 = repD [OF e(1)]
      have f1: "fills 1 T1" using e(2) by (rule fills_mono) simp
      note sp = tower_ok_split [OF rr(2) m(1,2) fs(1) r2(1,2) f1 fs(2) e(3)]
      have a2: "nd g h2 a = Some (pad g es)" using lv2(1) by (simp add: lnode_in_def)
      have an: "a \<noteq> new" "new \<notin> ?A" using n1 by auto
      have run: "btree_split (Suc fuel) g head h a L = Some (0, head', ?h)"
        using new 1(1) 2(1) True
          bind_bind_Some [OF split_slots [OF g a2 full na(2) nn(1) an(1)], of "\<lambda>h. Some (0, head', h)"]
        by (simp add: m_def Let_def)
      have fr: "frame {new, a} h2 ?h" by (intro frame_put frame_refl) auto
      have d: "a \<notin> fst ` set l" "a \<notin> fst ` set r" "distinct (map fst l)" "distinct (map fst r)"
          "fst ` set l \<inter> fst ` set r = {}" using dj(2) by auto
      have lvl: "level_in g ?h l" "level_in g ?h r"
        using lv2(1) d an(2) level_in_frame [OF fr, of g l] level_in_frame [OF fr, of g r] by auto
      have ek: "entries_ok g (take m es)" "entries_ok g (drop m es)"
        using na(2) by (simp_all add: entries_ok_take entries_ok_drop)
      have "lnode_in g ?h (new, take m es)" "lnode_in g ?h (a, drop m es)"
        using 1(1) na(3) an(1) a2 nn(1) g ek valid_pad [OF ek(1)] valid_pad [OF ek(2)]
        by (auto simp: lnode_in_def put_simps)
      then have lv': "level_in g ?h ?lv'" "distinct (map fst ?lv')" "fst ` set ?lv' \<inter> ?R1 = {}"
        using lvl d an lv2(2) nn(2) by auto
      have "tower_in g ?h T1"
        using tower_in_frame [OF fr r2(3)] nn(2) lv2(2) by auto
      then have "rep g ?h head' (Suc L) T1" using r2 by (simp add: rep_def)
      then have rep': "rep g ?h head' L (?lv' # T1)" by (rule rep_Cons [OF _ sp(1) lv'])
      have eqA: "set (addrs (?lv' # T1)) = insert new ?A \<union> ?R1" by auto
      have own2: "\<forall>p \<in> insert new ?A \<union> ?R1. mem h2 p \<noteq> None" using c12 by (simp add: changes_def)
      have "changes (insert new ?A \<union> ?R1) (insert new ?A \<union> ?R1) h2 ?h"
        by (rule changes_frame [OF fr _ own2]) auto
      then have "changes (set (addrs (?lv # rest))) (set (addrs (?lv' # T1))) h ?h"
        unfolding AR eqA by (rule changes_trans [OF c12])
      then have "split_done g h head L l (a, es) r rest m 0 head' ?h ?lv' T1"
        using rep' sp(2) e(2,3) unfolding split_done_def by simp
      then show ?thesis using run by (auto simp: m_def)
    qed
  qed
qed


section \<open>One level of insertion\<close>

lemma mid_unique:
  "l @ n # r = l' @ n' # r' \<Longrightarrow> length l = length l' \<Longrightarrow> n = n'"
  by (simp add: append_eq_append_conv)

text \<open>After a split the node responsible for the key is one of the two halves.\<close>

lemma split_room:
  assumes sp: "split_done g h head L l (a, es) r rest m 0 head' h' lv' T1"
    and m: "0 < m" "m < length es" and loc: "interval k (lows_of rest) (length l)"
    and at: "lv' = l' @ n # r'" "interval k (lows_of T1) (length l')"
  shows "length (snd n) \<le> max m (length es - m)"
proof -
  from sp have r: "rep g h' head' L (lv' # T1)"
    and lo: "lows_of T1 = ins_at (length l) (fst (es ! (m - 1))) (lows_of rest)"
    by (simp_all add: split_done_def)
  from sp obtain new where lv': "lv' = l @ (new, take m es) # (a, drop m es) # r"
    by (auto simp: split_done_def)
  let ?kk = "fst (es ! (m - 1))"
  obtain El E Er where E: "lows_of rest = El @ E # Er" "length El = length l" "E \<le> k"
      "El \<noteq> [] \<longrightarrow> k < last El" using loc by (rule interval_split)
  have lo1: "lows_of T1 = El @ ?kk # E # Er" using lo E ins_at_length [of El ?kk "E # Er"] by simp
  have fa: "falls None (lows_of T1)" using repD(2) [OF r] by (rule tower_falls_tl)
  show ?thesis
  proof (cases "?kk \<le> k")
    case True
    then have "interval k (lows_of T1) (length l)"
      using E(4) interval_append [OF E(2)] unfolding lo1 by simp
    then have "length l' = length l" using interval_unique [OF fa at(2)] by simp
    then have "n = (new, take m es)" using at(1) lv' by (auto dest: mid_unique)
    then show ?thesis by simp
  next
    case False
    then have "interval k (lows_of T1) (length (l @ [(new, take m es)]))"
      using E(2,3) interval_append [of "El @ [?kk]" "length (l @ [(new, take m es)])" k E Er]
      unfolding lo1 by simp
    then have "length l' = length (l @ [(new, take m es)])" using interval_unique [OF fa at(2)] by simp
    moreover have "(l @ [(new, take m es)]) @ (a, drop m es) # r = l' @ n # r'" using at(1) lv' by simp
    ultimately have "n = (a, drop m es)" using mid_unique by metis
    then show ?thesis by simp
  qed
qed

lemma inserted_split:
  assumes sp: "split_done g h head L l (a, es) r rest m 0 head' h' lv' T1"
    and ins: "inserted g h' head' L (lv' # T1) k v 0 head'' h'' T'"
    and ch: "changes (set (addrs T0)) (set (addrs ((l @ (a, es) # r) # rest))) h0 h"
    and T0: "hd T0 = l @ (a, es) # r" "lows_of T0 = lows_of ((l @ (a, es) # r) # rest)"
    and m: "0 < m" "m < length es"
  shows "inserted g h0 head0 L T0 k v 0 head'' h'' T'"
proof -
  from sp obtain new where lv': "lv' = l @ (new, take m es) # (a, drop m es) # r"
    by (auto simp: split_done_def)
  have fl: "flat lv' = flat (hd T0)" using T0(1) lv' by simp
  have f1: "fill 1 (hd T0) \<Longrightarrow> fill 1 lv'" using T0(1) lv' m by auto
  have "lows_of (lv' # T1) = lows_of ((l @ (a, es) # r) # rest)" using sp unfolding split_done_def by blast
  then have lo: "lows_of (lv' # T1) = lows_of T0" by (rule trans [OF _ T0(2) [symmetric]])
  have "changes (set (addrs T0)) (set (addrs (lv' # T1))) h0 h'"
    using changes_trans [OF ch] sp by (simp add: split_done_def)
  then have "changes (set (addrs T0)) (set (addrs T')) h0 h''"
    using changes_trans ins unfolding inserted_def by blast
  then show ?thesis
    using ins fl f1 lo unfolding inserted_def list.sel by simp
qed

theorem insert_retry_rep:
  fixes h :: "'o heap"
  assumes g: "geo_ok g" and pre: "ins_pre g h head L (lv # rest) kp k v"
    and fuel: "3 * length rest + 4 \<le> fuel"
  shows "\<exists>err head' h' T'. insert_retry fuel g head h kp v L = Some (err, head', h')
     \<and> inserted g h head L (lv # rest) k v err head' h' T'"
  using pre fuel
proof (induction "length rest" arbitrary: h head L lv rest kp k v fuel rule: less_induct)
  case less
  from less.prems(1) have r: "rep g h head L (lv # rest)" and kv: "kval g h kp = Some k" and v: "v \<noteq> 0"
    and disj: "kaddr kp \<inter> set (addrs (lv # rest)) = {}" and new: "k \<notin> fst ` set (flat lv)"
    and f2: "fills 2 rest" "rest \<noteq> [] \<Longrightarrow> fill 2 lv" and al: "alloc_ok h"
    by (auto simp: ins_pre_def)
  from disj have disj': "kaddr kp \<inter> set (addrs rest) = {}" by auto
  obtain l a es r' rest' h1 where f: "find_level g head h kp L = Some (a, h1)"
      "lv = l @ (a, es) # r'" "located k rest' l (a, es) r'" "rep g h1 head L (lv # rest')"
      "lows_of rest' = lows_of rest" "shape rest' = shape rest"
      "frame (set (addrs rest)) h h1" "nd g h1 a = Some (pad g es)" "entries_ok g es" "a \<noteq> 0"
    by (rule find_level_rep [OF r g kv disj'])
  have loc: "interval k (lows_of rest) (length l)" using f(3,5) by (simp add: located_def)
  have fa: "falls None (lows_of rest)" using repD(2) [OF r] by (rule tower_falls_tl)
  have only: "n = (a, es)" if at: "lv = l2 @ n # r2" "interval k (lows_of rest) (length l2)" for l2 n r2
    using mid_unique [OF at(1) [unfolded f(2), symmetric]] interval_unique [OF fa at(2) loc] by simp
  show ?case
  proof (cases "length es < no_pairs g")
    case True
    obtain fuel' where "fuel = Suc fuel'" using less.prems(2) by (cases fuel) auto
    then show ?thesis using retry_fits [OF g less.prems(1), of fuel'] only True by fastforce
  next
    case False
    then have full: "length es = no_pairs g" using f(9) by (simp add: entries_ok_def)
    obtain j where "fuel = 3 * length rest + 4 + j" using less.prems(2) le_Suc_ex by blast
    then obtain fuel' where fu: "fuel = Suc (Suc (Suc (Suc fuel')))" "3 * length rest \<le> fuel'"
      by (simp add: numeral_eq_Suc)
    let ?m = "no_pairs g div 2"
    have m: "0 < ?m" "?m < length es" "2 \<le> ?m" "2 \<le> length es - ?m" "max ?m (length es - ?m) < no_pairs g"
      using g full by (auto simp: geo_ok_def)
    have kv1: "kval g h1 kp = Some k" using frame_kval [OF f(7) disj'] kv by simp
    have al1: "alloc_ok h1" using frame_alloc_ok [OF f(7)] al by simp
    have f2': "fills 2 rest'" using f2(1) shape_fills [OF f(6)] by simp
    have fr1: "changes (set (addrs (lv # rest))) (set (addrs (lv # rest'))) h h1"
    proof -
      have "\<forall>p \<in> set (addrs (lv # rest)). mem h p \<noteq> None" using tower_in_mem [OF repD(3) [OF r]] by simp
      then show ?thesis using changes_frame [OF f(7), of "set (addrs (lv # rest))"] shape_addrs [OF f(6)] by simp
    qed
    obtain c where c: "(if posn k es < no_pairs g then keycmp g h1 a (posn k es) kp else Some 1) = Some c" "c \<noteq> 0"
    proof (cases "posn k es < no_pairs g")
      case True
      have "k \<notin> fst ` set es" using new f(2) by auto
      then have "fst (es ! posn k es) \<noteq> k" using full True by (metis image_eqI nth_mem)
      moreover have "keycmp g h1 a (posn k es) kp = Some (cmp3 (fst (pad g es ! posn k es)) k)"
        by (rule keycmp_slot [OF g f(8) True kv1])
      ultimately show ?thesis using that True full by (simp add: nth_pad)
    next
      case False
      with that [of 1] show ?thesis by simp
    qed
    let ?kk = "fst (es ! (?m - 1))"
    have r1: "rep g h1 head L ((l @ (a, es) # r') # rest')" using f(2,4) by simp
    have up: "\<exists>err head' h' T1. btree_insert_level (Suc (Suc fuel')) g head h2 (bkey g a (?m - 1)) new (Suc L)
             = Some (err, head', h')
           \<and> raised g h2 head L (l @ (a, es) # r') (length l) rest' ?kk new err head' h' T1"
      if new: "new \<noteq> 0" and al2: "alloc_ok h2" and r2: "rep g h2 head L ((l @ (a, es) # r') # rest')"
        and k2: "kval g h2 (bkey g a (?m - 1)) = Some ?kk" for new and h2 :: "'o heap"
    proof (cases rest')
      case Nil
      then have "l = []" "r' = []" using r2 by (auto simp: rep_def append_eq_Cons_conv)
      then show ?thesis
        using insert_up_root [OF g al2 _ m(1,2) k2 new, of head L a fuel'] r2 Nil by simp
    next
      case (Cons lv2 T2)
      then have ne: "rest' \<noteq> []" by simp
      note sep = sep_facts [OF repD(2) [OF r2] m(1,2)]
      have "a \<notin> set (addrs rest')" using repD(3) [OF r2] by (auto simp: tower_in_Cons)
      then have "ins_pre g h2 head (Suc L) (lv2 # T2) (bkey g a (?m - 1)) ?kk new"
        using rep_tl [OF r2 ne] al2 k2 new sep(4) [OF ne] f2' Cons by (simp add: ins_pre_def)
      moreover have "length T2 < length rest" "3 * length T2 + 4 \<le> Suc fuel'"
        using shape_length [OF f(6)] Cons fu(2) by auto
      ultimately obtain err head' h' T' where
        "insert_retry (Suc fuel') g head h2 (bkey g a (?m - 1)) new (Suc L) = Some (err, head', h')"
        "inserted g h2 head (Suc L) rest' ?kk new err head' h' T'"
        using less.hyps [of T2 h2 head "Suc L" lv2 "bkey g a (?m - 1)" ?kk new "Suc fuel'"] Cons by auto
      from insert_up_inner [OF r2 m(1,2) new ne f2' this] show ?thesis by blast
    qed
    obtain err head2 h2 lv' T1 where sp: "btree_split (Suc (Suc (Suc fuel'))) g head h1 a L = Some (err, head2, h2)"
        "split_done g h1 head L l (a, es) r' rest' ?m err head2 h2 lv' T1"
      using split_rep [OF g al1 r1 full f2' up] by blast
    have run: "insert_retry fuel g head h kp v L =
        (if err \<noteq> 0 then Some (err, head2, h2) else insert_retry (Suc (Suc (Suc fuel'))) g head2 h2 kp v L)"
      using f(1) getpos_pad [OF g f(8) kv1] getfill_pad [OF g f(8,9) posn_le [of k es]] c full sp(1)
      unfolding fu(1) by simp
    have rp: "rep g h2 head2 L (lv' # T1)"
      and ch2: "changes (set (addrs ((l @ (a, es) # r') # rest'))) (set (addrs (lv' # T1))) h1 h2"
      using sp(2) by (simp_all add: split_done_def)
    have ch: "changes (set (addrs (lv # rest))) (set (addrs (lv' # T1))) h h2"
      using changes_trans [OF fr1] ch2 f(2) by simp
    show ?thesis
    proof (cases "err = 0")
      case False
      then have e: "err = - ENOMEM" "head2 = head" "lv' = lv" "shape T1 = shape rest" "lows_of T1 = lows_of rest"
        using sp(2) f(2,5,6) by (simp_all add: split_done_def)
      then have "fills 2 T1" using shape_fills [OF e(4)] f2(1) by simp
      then have "inserted g h head L (lv # rest) k v err head2 h2 (lv' # T1)"
        using rp ch e False by (simp add: inserted_def)
      then show ?thesis using run False by auto
    next
      case True
      then have sp0: "split_done g h1 head L l (a, es) r' rest' ?m 0 head2 h2 lv' T1" using sp(2) by simp
      then obtain w where lv': "lv' = l @ (w, take ?m es) # (a, drop ?m es) # r'" and f2T: "fills 2 T1"
        by (auto simp: split_done_def)
      have fl: "flat lv' = flat lv" using f(2) lv' by simp
      have "fill 2 lv'"
      proof (cases "rest = []")
        case True
        then have "l = []" "r' = []" using f(2) r by (auto simp: rep_def append_eq_Cons_conv)
        then show ?thesis using lv' m full by simp
      next
        case False
        then show ?thesis using f2(2) f(2) lv' m full by simp
      qed
      then have pre2: "ins_pre g h2 head2 L (lv' # T1) kp k v"
        using rp alloc_ok_changes [OF al ch] changes_kval [OF ch kv disj] v new fl f2T
        by (simp add: ins_pre_def)
      have "\<exists>h' T'. insert_retry (Suc (Suc (Suc fuel'))) g head2 h2 kp v L = Some (0, head2, h')
          \<and> inserted g h2 head2 L (lv' # T1) k v 0 head2 h' T' \<and> (tl T' = [] \<longleftrightarrow> T1 = [])"
      proof (rule retry_fits [OF g pre2])
        fix l2 n2 r2 assume "lv' = l2 @ n2 # r2" "interval k (lows_of T1) (length l2)"
        moreover have "interval k (lows_of rest') (length l)" using loc f(5) by simp
        ultimately have "length (snd n2) \<le> max ?m (length es - ?m)" by (intro split_room [OF sp0 m(1,2)])
        then show "length (snd n2) < no_pairs g" using m(5) by (rule order_le_less_trans)
      qed
      then obtain h' T' where 3: "insert_retry (Suc (Suc (Suc fuel'))) g head2 h2 kp v L = Some (0, head2, h')"
        "inserted g h2 head2 L (lv' # T1) k v 0 head2 h' T'" by blast
      have "inserted g h head L (lv # rest) k v 0 head2 h' T'"
        using inserted_split [OF sp0 3(2), of "lv # rest" h head] fr1 f(2,5) m by simp
      then show ?thesis using run True 3(1) by auto
    qed
  qed
qed


section \<open>Whole trees\<close>

text \<open>
  \<open>tree g h head T\<close>: the heap \<open>h\<close> holds a tree with head \<open>head\<close>, and \<open>T\<close> are its levels from the
  leaves up. Every node but the root has at least two entries, an inner root too, and a root that
  is a leaf has at least one; the empty tree is the freshly initialised head.
\<close>

definition tree :: "btree_geo \<Rightarrow> 'o heap \<Rightarrow> btree_head \<Rightarrow> level list \<Rightarrow> bool" where
  "tree g h head T \<longleftrightarrow>
     (if T = [] then head = btree_init
      else rep g h head 1 T \<and> fills 2 (tl T) \<and> fill 1 (hd T) \<and> (tl T \<noteq> [] \<longrightarrow> fill 2 (hd T)))"

fun leaves :: "level list \<Rightarrow> entry list" where
  "leaves [] = []"
| "leaves (lv # T) = flat lv"

lemma tree_height: "tree g h head T \<Longrightarrow> bh_height head = length T"
  using repD(5) [of g h head 1 T] by (auto simp: tree_def btree_init_def split: if_splits)

lemma tree_leaves_desc: "tree g h head T \<Longrightarrow> desc (leaves T)"
  using flat_desc [of "hd T" "tl T"] by (cases T) (auto simp: tree_def rep_def)

lemma grow_empty:
  fixes h :: "'o heap"
  assumes g: "geo_ok g" and al: "alloc_ok h"
  obtains (fail) h' where "btree_grow g btree_init h = Some (- ENOMEM, btree_init, h')" "changes {} {} h h'"
  | (ok) p head' h' where "btree_grow g btree_init h = Some (0, head', h')" "p \<noteq> 0" "mem h p = None"
      "changes {} {p} h h'" "rep g h' head' 1 [[(p, [])]]"
proof -
  obtain p h1 where p: "btree_node_alloc h = (p, h1)" by fastforce
  show thesis
  proof (rule alloc_cases [OF al g p])
    assume "p = 0" "changes {} {} h h1"
    then show thesis using p fail by (simp add: btree_grow_def)
  next
    assume n: "p \<noteq> 0" "mem h p = None" "changes {} {p} h h1" "nd g h1 p = Some (pad g [])"
    then have "rep g h1 \<lparr>bh_node = p, bh_height = 1\<rparr> 1 [[(p, [])]]"
      by (simp add: rep_def tower_in_def lnode_in_def entries_ok_def head_ok_def)
    then show thesis using p n ok by (simp add: btree_grow_def btree_init_def)
  qed
qed

definition insert_result :: "btree_geo \<Rightarrow> 'o heap \<Rightarrow> btree_head \<Rightarrow> level list \<Rightarrow> key \<Rightarrow> ulong \<Rightarrow>
    int \<Rightarrow> btree_head \<Rightarrow> 'o heap \<Rightarrow> level list \<Rightarrow> bool" where
  "insert_result g h head T k v err head' h' T' \<longleftrightarrow>
     tree g h' head' T' \<and> changes (set (addrs T)) (set (addrs T')) h h'
   \<and> (if err = 0 then leaves T' = ins_at (posn k (leaves T)) (k, v) (leaves T)
      else err = - ENOMEM \<and> head' = head \<and> leaves T' = leaves T \<and> shape T' = shape T)"

lemma inserted_tree:
  assumes "inserted g h head 1 T k v err head' h' T'" "T \<noteq> []" "fill 1 (hd T)" "fills 2 (tl T)"
    "tl T \<noteq> [] \<longrightarrow> fill 2 (hd T)"
  shows "insert_result g h head T k v err head' h' T'"
proof -
  from assms(1) have i: "rep g h' head' 1 T'" "changes (set (addrs T)) (set (addrs T')) h h'" "fills 2 (tl T')"
    by (simp_all add: inserted_def)
  have ne: "T' \<noteq> []" using i(1) by (simp add: rep_def)
  have lv: "leaves S = flat (hd S)" if "S \<noteq> []" for S using that by (cases S) auto
  show ?thesis
  proof (cases "err = 0")
    case True
    with assms have "fill 2 (hd T')" "leaves T' = ins_at (posn k (leaves T)) (k, v) (leaves T)"
      using lv [OF ne] lv [OF assms(2)] by (simp_all add: inserted_def)
    then show ?thesis using True i ne fill_mono [of 2 "hd T'" 1] by (simp add: insert_result_def tree_def)
  next
    case False
    with assms have e: "err = - ENOMEM" "head' = head" "hd T' = hd T" "shape T' = shape T"
      by (simp_all add: inserted_def)
    have "tl T' = [] \<longleftrightarrow> tl T = []" using shape_length [OF e(4)] by (cases T'; cases T) auto
    with e False i ne assms(2,3,5) lv [OF ne] lv [OF assms(2)] show ?thesis
      by (auto simp: insert_result_def tree_def)
  qed
qed

lemma insert_tree:
  fixes h :: "'o heap"
  assumes g: "geo_ok g" and al: "alloc_ok h" and t: "tree g h head T" and kv: "kval g h kp = Some k"
    and disj: "kaddr kp \<inter> set (addrs T) = {}" and v: "v \<noteq> 0" and new: "k \<notin> fst ` set (leaves T)"
  shows "\<exists>err head' h' T'. btree_insert g head h kp v = Some (err, head', h')
     \<and> insert_result g h head T k v err head' h' T'"
proof (cases T)
  case Nil
  then have hd: "head = btree_init" using t by (simp add: tree_def)
  have run: "btree_insert g head h kp v = do {
      (err, head, h) \<leftarrow> btree_grow g btree_init h;
      if err \<noteq> 0 then Some (err, head, h) else insert_retry (Suc (Suc 0)) g head h kp v 1 }"
    using v hd unfolding btree_insert_def by (simp add: btree_init_def numeral_3_eq_3 cong: if_cong)
  show ?thesis
  proof (rule grow_empty [OF g al])
    fix h' assume 1: "btree_grow g btree_init h = Some (- ENOMEM, btree_init, h')" "changes {} {} h h'"
    then have "insert_result g h head T k v (- ENOMEM) head h' []"
      using Nil hd by (simp add: insert_result_def tree_def ENOMEM_def)
    then show ?thesis using 1(1) run hd by (auto simp: ENOMEM_def)
  next
    fix p head1 h1
    assume 1: "btree_grow g btree_init h = Some (0, head1, h1)" "p \<noteq> 0" "mem h p = None"
      "changes {} {p} h h1" "rep g h1 head1 1 [[(p, [])]]"
    have pre: "ins_pre g h1 head1 1 [[(p, [])]] kp k v"
      using 1(5) changes_kval [OF 1(4) kv] v alloc_ok_changes [OF al 1(4)] by (simp add: ins_pre_def)
    have "0 < no_pairs g" using g by (simp add: geo_ok_def)
    then obtain h' T' where 2: "insert_retry (Suc (Suc 0)) g head1 h1 kp v 1 = Some (0, head1, h')"
        "inserted g h1 head1 1 [[(p, [])]] k v 0 head1 h' T'" "tl T' = []"
      using retry_fits [OF g pre, of "Suc 0"] by (auto simp: append_eq_Cons_conv Cons_eq_append_conv)
    from 2(2) have i: "rep g h' head1 1 T'" "changes {p} (set (addrs T')) h1 h'" "flat (hd T') = [(k, v)]"
      by (auto simp: inserted_def ins_at_def posn_def)
    obtain lv where T': "T' = [lv]" using repD(1) [OF i(1)] 2(3) by (cases T') auto
    then have "length lv = 1" using repD(2) [OF i(1)] by simp
    then have "fill 1 lv" using i(3) T' by (auto simp: length_Suc_conv)
    then have "insert_result g h head T k v 0 head1 h' T'"
      using i T' Nil changes_trans [OF 1(4) i(2)] by (simp add: insert_result_def tree_def ins_at_def posn_def)
    then show ?thesis using 1(1) 2(1) run by auto
  qed
next
  case (Cons lv rest)
  then have t': "rep g h head 1 (lv # rest)" "fills 2 rest" "fill 1 lv" "rest \<noteq> [] \<Longrightarrow> fill 2 lv"
    using t by (auto simp: tree_def)
  have ht: "bh_height head = Suc (length rest)" using tree_height [OF t] Cons by simp
  have run: "btree_insert g head h kp v = insert_retry (3 * length rest + 5) g head h kp v 1"
    using v ht unfolding btree_insert_def by (simp add: numeral_eq_Suc)
  have pre: "ins_pre g h head 1 (lv # rest) kp k v"
    using t' al kv disj v new Cons by (simp add: ins_pre_def)
  obtain err head' h' T' where i: "insert_retry (3 * length rest + 5) g head h kp v 1 = Some (err, head', h')"
    "inserted g h head 1 (lv # rest) k v err head' h' T'"
    using insert_retry_rep [OF g pre, of "3 * length rest + 5"] by auto
  have "insert_result g h head (lv # rest) k v err head' h' T'"
    using t' by (intro inserted_tree [OF i(2)]) auto
  then show ?thesis using run i(1) Cons by auto
qed

text \<open>Inserting a key that is there stops the program (\<open>BUG_ON\<close>).\<close>

lemma insert_duplicate:
  assumes g: "geo_ok g" and t: "tree g h head T" and kv: "kval g h kp = Some k"
    and disj: "kaddr kp \<inter> set (addrs T) = {}" and dup: "k \<in> fst ` set (leaves T)"
  shows "btree_insert g head h kp v = None"
proof (cases T)
  case Nil
  with dup show ?thesis by simp
next
  case (Cons lv rest)
  then have r: "rep g h head 1 (lv # rest)" using t by (auto simp: tree_def)
  have ht: "bh_height head = Suc (length rest)" using tree_height [OF t] Cons by simp
  have disj': "kaddr kp \<inter> set (addrs rest) = {}" using disj Cons by auto
  obtain l a es r' rest' h1 where f: "find_level g head h kp 1 = Some (a, h1)"
      "lv = l @ (a, es) # r'" "located k rest' l (a, es) r'" "rep g h1 head 1 (lv # rest')"
      "lows_of rest' = lows_of rest" "shape rest' = shape rest"
      "frame (set (addrs rest)) h h1" "nd g h1 a = Some (pad g es)" "entries_ok g es" "a \<noteq> 0"
    by (rule find_level_rep [OF r g kv disj'])
  have kv1: "kval g h1 kp = Some k" using frame_kval [OF f(7) disj'] kv by simp
  have ok: "tower_ok ((l @ (a, es) # r') # rest')" using repD(2) [OF f(4)] f(2) by simp
  have "k \<notin> fst ` set (flat l)" "k \<notin> fst ` set (flat r')"
    using located_sides [OF ok f(3)] by auto
  then have "k \<in> fst ` set es" using dup Cons f(2) by auto
  then obtain i where i: "i < length es" "fst (es ! i) = k" by (auto simp: in_set_conv_nth)
  have d: "desc es" using ok by simp
  have "posn k es = i"
    using i desc_nth [OF d, of _ i] by (intro posn_eqI) auto
  then have c: "keycmp g h1 a (posn k es) kp = Some 0" "posn k es < length es"
    using keycmp_slot [OF g f(8) _ kv1, of i] i f(9) by (simp_all add: entries_ok_def nth_pad cmp3_def)
  have "insert_retry (Suc fuel) g head h kp v 1 = None" for fuel
    using f(1) getpos_pad [OF g f(8) kv1] getfill_pad [OF g f(8,9) posn_le [of k es]] c by simp
  then show ?thesis using ht unfolding btree_insert_def by (simp add: numeral_eq_Suc)
qed

end
