(* ===== verification/Btree_Lookup.thy ===== *)
theory Btree_Lookup
  imports Main Btree_Insert
begin

text \<open>
  \<open>btree_lookup\<close> and \<open>btree_last\<close> on a tree: the first is the map from keys to values that the
  leaves hold, with NULL for a key that is absent, the second the largest key.
\<close>

section \<open>The leaf\<close>

definition found :: "ulong option \<Rightarrow> ulong" where
  "found r = (case r of None \<Rightarrow> 0 | Some v \<Rightarrow> v)"

lemma found_simps [simp]: "found None = 0" "found (Some v) = v"
  by (simp_all add: found_def)

lemma lookup_leaf_slots:
  assumes "geo_ok g" "nd g h p = Some S" "kval g h kp = Some k" "i \<le> no_pairs g"
  shows "lookup_leaf g h kp p i = Some (found (map_of (drop i S) k))"
  using assms(4)
proof (induction "no_pairs g - i" arbitrary: i)
  case 0
  with nd_length [OF assms(2)] show ?case by (simp add: lookup_leaf.simps)
next
  case (Suc m)
  then have i: "i < no_pairs g" by simp
  then have "drop i S = S ! i # drop (Suc i) S"
    using nd_length [OF assms(2)] by (simp add: Cons_nth_drop_Suc)
  with Suc.hyps(1) [of "Suc i"] Suc.hyps(2) i assms(1,2,3) show ?case
    by (subst lookup_leaf.simps) (auto simp: slot_simps split: prod.splits)
qed

lemma found_padding: "found (map_of (replicate n (zslot g)) k) = 0"
  by (induction n) (auto simp: zslot_def)

lemma found_pad: "found (map_of (pad g es) k) = found (map_of es k)"
  using found_padding by (cases "map_of es k") (auto simp: pad_def map_add_def split: option.splits)

lemma lookup_leaf_pad:
  "geo_ok g \<Longrightarrow> nd g h p = Some (pad g es) \<Longrightarrow> kval g h kp = Some k \<Longrightarrow>
     lookup_leaf g h kp p 0 = Some (found (map_of es k))"
  using lookup_leaf_slots [of g h p "pad g es" kp k 0] found_pad by simp

section \<open>The descent\<close>

lemma lookup_loop_Suc:
  "node \<noteq> 0 \<Longrightarrow> lookup_loop g h kp (Suc n) node = do {
     node \<leftarrow> lookup_loop g h kp n node;
     if node = 0 then Some 0 else lookup_loop g h kp 1 node
   }"
proof (induction n arbitrary: node)
  case 0
  then show ?case by simp
next
  case (Suc n)
  show ?case
  proof (cases "scan_le g h node kp 0")
    case (Some i)
    show ?thesis
    proof (cases "i = no_pairs g")
      case True
      with Some show ?thesis by simp
    next
      case False
      show ?thesis
      proof (cases "bval g h node i")
        case (Some child)
        then have "child \<noteq> 0 \<Longrightarrow> lookup_loop g h kp (Suc n) child = do {
            node \<leftarrow> lookup_loop g h kp n child;
            if node = 0 then Some 0 else lookup_loop g h kp 1 node }"
          using Suc.IH by blast
        then show ?thesis using Some False \<open>scan_le g h node kp 0 = Some i\<close> by simp
      qed (use Some False in simp)
    qed
  qed simp
qed

lemma lookup_step:
  assumes "geo_ok g" "nd g h p = Some (pad g es)" "entries_ok g es" "kval g h kp = Some k"
  shows "lookup_loop g h kp 1 p =
    Some (if posn k es < length es then snd (es ! posn k es) else 0)"
proof -
  have "length es \<le> no_pairs g" using assms(3) by (rule entries_ok_length)
  then show ?thesis
    using scan_le_pad [OF assms(1,2,4)] posn_le [of k es] bval_pad [OF assms(1-3), of "posn k es"]
      entries_ok_snd [OF assms(3), of "posn k es"]
    by (cases "posn k es < length es") auto
qed

text \<open>
  The descent stops where the key is smaller than every key of the node that is responsible for
  it; then the last child of that node is responsible on the level below, and all its keys are
  larger too.
\<close>

definition missed :: "key \<Rightarrow> level list \<Rightarrow> level \<Rightarrow> lnode \<Rightarrow> level \<Rightarrow> bool" where
  "missed k rest l n r \<longleftrightarrow> interval k (lows_of rest) (length l) \<and> (\<forall>x \<in> set (snd n). k < fst x)"

lemma missed_absent:
  "tower_ok ((l @ n # r) # rest) \<Longrightarrow> missed k rest l n r \<Longrightarrow> k \<notin> fst ` set (flat (l @ n # r))"
  using interval_sides [of l n r rest k] by (auto simp: missed_def)

lemma missed_child:
  assumes ok: "tower_ok (lv # (pl @ (pa, pes) # pr) # T)" and i: "interval k (lows_of T) (length pl)"
    and gt: "\<forall>x \<in> set pes. k < fst x"
  shows "\<exists>l n r. lv = l @ n # r \<and> missed k ((pl @ (pa, pes) # pr) # T) l n r"
proof -
  let ?lv' = "pl @ (pa, pes) # pr"
  have ne: "pes \<noteq> []" using ok by auto
  have p: "posn k pes = length pes" using gt by (rule posn_all)
  let ?ix = "length (flat pl) + (length pes - 1)"
  have lv: "list_all2 child_ok (flat ?lv') lv" using ok by auto
  have ix: "?ix < length (flat ?lv')" "?ix < length lv"
    using ne list_all2_lengthD [OF lv] by (cases pes; simp)+
  have "interval k (lows_of (?lv' # T)) (length (flat pl) + min (posn k pes) (length pes - 1))"
    using ok i tower_lows_length [of ?lv' T] by (intro interval_child) auto
  then have iv: "interval k (lows_of (?lv' # T)) ?ix" using p by simp
  have "flat ?lv' ! ?ix = pes ! (length pes - 1)"
    using nth_flat [of "length pes - 1" "(pa, pes)" pl pr] ne by simp
  then have "child_ok (pes ! (length pes - 1)) (lv ! ?ix)"
    using list_all2_nthD [OF lv ix(1)] by simp
  moreover have "k < fst (pes ! (length pes - 1))" using gt ne by simp
  ultimately have "\<forall>x \<in> set (snd (lv ! ?ix)). k < fst x"
    by (auto simp: child_ok_def intro: order_less_le_trans)
  then have "missed k (?lv' # T) (take ?ix lv) (lv ! ?ix) (drop (Suc ?ix) lv)"
    using iv ix(2) by (simp add: missed_def min_def del: lows_of.simps)
  moreover have "lv = take ?ix lv @ lv ! ?ix # drop (Suc ?ix) lv" using ix(2) by (rule split_at)
  ultimately show ?thesis by blast
qed

lemma lookup_loop_ok:
  assumes "tower_ok T" "tower_in g h T" "T \<noteq> []" "last T = [(root, res)]" "geo_ok g"
    "kval g h kp = Some k"
  shows "\<exists>l a es r. hd T = l @ (a, es) # r
     \<and> (lookup_loop g h kp (length T - 1) root = Some a \<and> located k (tl T) l (a, es) r
      \<or> lookup_loop g h kp (length T - 1) root = Some 0 \<and> missed k (tl T) l (a, es) r)"
  using assms
proof (induction T)
  case Nil
  then show ?case by simp
next
  case (Cons lv T)
  show ?case
  proof (cases T)
    case Nil
    have "located k [] [] (root, res) []" by (simp add: located_def interval_def)
    with Nil Cons.prems show ?thesis
      by (intro exI [of _ "[]"] exI [of _ root] exI [of _ res]) simp
  next
    case T: (Cons lv' T')
    have root: "root \<noteq> 0"
    proof -
      have "[(root, res)] \<in> set (lv # T)" using Cons.prems(4) last_in_set [of "lv # T"] by simp
      then show ?thesis using Cons.prems(2) by (auto simp: tower_in_def level_in_def lnode_in_def)
    qed
    have inT: "tower_in g h T" using Cons.prems(2) by (auto simp: tower_in_Cons)
    obtain pl pa pes pr where 1: "lv' = pl @ (pa, pes) # pr"
       "lookup_loop g h kp (length T - 1) root = Some pa \<and> located k T' pl (pa, pes) pr
      \<or> lookup_loop g h kp (length T - 1) root = Some 0 \<and> missed k T' pl (pa, pes) pr"
      using Cons.IH [OF _ inT] Cons.prems T by auto
    have ok: "tower_ok (lv # (pl @ (pa, pes) # pr) # T')" using Cons.prems(1) T 1(1) by simp
    have pa: "nd g h pa = Some (pad g pes)" "entries_ok g pes" "pa \<noteq> 0"
      using inT T 1(1) by (auto simp: tower_in_Cons lnode_in_def)
    have run: "lookup_loop g h kp (length (lv # T) - 1) root = do {
        node \<leftarrow> lookup_loop g h kp (length T - 1) root;
        if node = 0 then Some 0 else lookup_loop g h kp 1 node }"
      using lookup_loop_Suc [OF root, of g h kp "length T - 1"] T by simp
    from 1(2) show ?thesis
    proof (elim disjE conjE)
      assume a: "lookup_loop g h kp (length T - 1) root = Some pa" "located k T' pl (pa, pes) pr"
      note st = lookup_step [OF Cons.prems(5) pa(1,2) Cons.prems(6)]
      show ?thesis
      proof (cases "posn k pes < length pes")
        case True
        then have "lookup_loop g h kp (length (lv # T) - 1) root = Some (snd (pes ! posn k pes))"
          using run a(1) pa(3) st by simp
        moreover obtain l es r where "lv = l @ (snd (pes ! posn k pes), es) # r"
            "located k ((pl @ (pa, pes) # pr) # T') l (snd (pes ! posn k pes), es) r"
          using locate_child [OF ok a(2) refl True] by blast
        ultimately show ?thesis using T 1(1) by auto
      next
        case False
        then have p: "posn k pes = length pes" using posn_le [of k pes] by simp
        then have "\<forall>x \<in> set pes. k < fst x" using posn_length by blast
        moreover have "interval k (lows_of T') (length pl)" using a(2) by (simp add: located_def)
        ultimately obtain l n r where "lv = l @ n # r" "missed k ((pl @ (pa, pes) # pr) # T') l n r"
          using missed_child [OF ok] by blast
        moreover have "lookup_loop g h kp (length (lv # T) - 1) root = Some 0"
          using run a(1) pa(3) st False by simp
        ultimately show ?thesis using T 1(1) by (cases n) auto
      qed
    next
      assume a: "lookup_loop g h kp (length T - 1) root = Some 0" "missed k T' pl (pa, pes) pr"
      then have "interval k (lows_of T') (length pl)" "\<forall>x \<in> set pes. k < fst x"
        by (simp_all add: missed_def)
      then obtain l n r where "lv = l @ n # r" "missed k ((pl @ (pa, pes) # pr) # T') l n r"
        using missed_child [OF ok] by blast
      moreover have "lookup_loop g h kp (length (lv # T) - 1) root = Some 0" using run a(1) by simp
      ultimately show ?thesis using T 1(1) by (cases n) auto
    qed
  qed
qed

lemma map_of_absent: "k \<notin> fst ` set es \<Longrightarrow> map_of es k = None"
  by (simp add: map_of_eq_None_iff)

lemma map_of_flat:
  assumes "tower_ok ((l @ (a, es) # r) # rest)" "located k rest l (a, es) r"
  shows "map_of (flat (l @ (a, es) # r)) k = map_of es k"
proof -
  have "map_of (flat l) k = None" "map_of (flat r) k = None"
    using located_sides [OF assms] by (auto intro!: map_of_absent)
  then show ?thesis by (simp add: map_add_def split: option.splits)
qed

text \<open>Lookup is the map the leaves hold.\<close>

lemma lookup_tree:
  assumes g: "geo_ok g" and t: "tree g h head T" and kv: "kval g h kp = Some k"
  shows "btree_lookup g h head kp = Some (found (map_of (leaves T) k))"
proof (cases T)
  case Nil
  then show ?thesis using t by (simp add: tree_def btree_lookup_def btree_init_def)
next
  case (Cons lv rest)
  then have r: "rep g h head 1 (lv # rest)" using t by (auto simp: tree_def)
  note rr = repD [OF r]
  have ht: "bh_height head - 1 = length (lv # rest) - 1" "bh_height head \<noteq> 0" using rr(5) by auto
  obtain res where root: "last (lv # rest) = [(bh_node head, res)]" using rr(4) by (auto simp: head_ok_def)
  obtain l a es r' where 1: "lv = l @ (a, es) # r'"
     "lookup_loop g h kp (length (lv # rest) - 1) (bh_node head) = Some a \<and> located k rest l (a, es) r'
      \<or> lookup_loop g h kp (length (lv # rest) - 1) (bh_node head) = Some 0 \<and> missed k rest l (a, es) r'"
    using lookup_loop_ok [OF rr(2,3,1) root g kv] by auto
  have ok: "tower_ok ((l @ (a, es) # r') # rest)" using rr(2) 1(1) by simp
  have a: "nd g h a = Some (pad g es)" "a \<noteq> 0" using rr(3) 1(1) by (auto simp: tower_in_Cons lnode_in_def)
  from 1(2) show ?thesis
  proof (elim disjE conjE)
    assume "lookup_loop g h kp (length (lv # rest) - 1) (bh_node head) = Some a" "located k rest l (a, es) r'"
    then show ?thesis
      using ht a lookup_leaf_pad [OF g a(1) kv] map_of_flat [OF ok] Cons 1(1) by (simp add: btree_lookup_def)
  next
    assume z: "lookup_loop g h kp (length (lv # rest) - 1) (bh_node head) = Some 0" "missed k rest l (a, es) r'"
    have "map_of (flat lv) k = None"
      using missed_absent [OF ok z(2)] unfolding 1(1) by (rule map_of_absent)
    then show ?thesis using ht z(1) Cons by (simp add: btree_lookup_def)
  qed
qed

section \<open>The largest key\<close>

lemma last_loop_Suc:
  "last_loop g h (Suc n) node = do { node \<leftarrow> last_loop g h n node; bval g h node 0 }"
proof (induction n arbitrary: node)
  case (Suc n)
  then show ?case by (cases "bval g h node 0") simp_all
qed (cases "bval g h node 0"; simp)

lemma last_loop_ok:
  assumes "tower_ok T" "tower_in g h T" "T \<noteq> []" "last T = [(root, res)]" "geo_ok g"
  shows "last_loop g h (length T - 1) root = Some (fst (hd (hd T))) \<and> hd T \<noteq> []"
  using assms
proof (induction T)
  case (Cons lv T)
  show ?case
  proof (cases T)
    case Nil
    with Cons.prems show ?thesis by simp
  next
    case T: (Cons lv' T')
    then have IH: "last_loop g h (length T - 1) root = Some (fst (hd lv'))" "lv' \<noteq> []"
      using Cons by (auto simp: tower_in_Cons)
    then obtain a es lv'' where lv': "lv' = (a, es) # lv''" by (cases lv') auto
    have a: "nd g h a = Some (pad g es)" "entries_ok g es" "es \<noteq> []"
      using Cons.prems(1,2) T lv' by (auto simp: tower_in_Cons lnode_in_def)
    have ch: "list_all2 child_ok (flat lv') lv" using Cons.prems(1) T by simp
    then obtain n lv3 where lv: "lv = n # lv3" "child_ok (hd es) n"
      using lv' a(3) by (cases es) (auto simp: list_all2_Cons1)
    have "0 < no_pairs g" using Cons.prems(5) by (simp add: geo_ok_def)
    then have "bval g h a 0 = Some (fst n)"
      using bval_pad [OF Cons.prems(5) a(1,2), of 0] a(3) lv(2) by (simp add: child_ok_def hd_conv_nth)
    then show ?thesis
      using IH lv' lv T last_loop_Suc [of g h "length T - 1" root] by simp
  qed
qed simp

lemma last_tree:
  assumes g: "geo_ok g" and t: "tree g h head T"
  shows "btree_last g h head = Some (if leaves T = [] then None else Some (bkey g (fst (hd (hd T))) 0))"
    "leaves T \<noteq> [] \<Longrightarrow> kval g h (bkey g (fst (hd (hd T))) 0) = Some (fst (hd (leaves T)))"
proof -
  show "btree_last g h head = Some (if leaves T = [] then None else Some (bkey g (fst (hd (hd T))) 0))"
    and "leaves T \<noteq> [] \<Longrightarrow> kval g h (bkey g (fst (hd (hd T))) 0) = Some (fst (hd (leaves T)))"
  proof (atomize (full), cases T)
    case Nil
    then show "btree_last g h head = Some (if leaves T = [] then None else Some (bkey g (fst (hd (hd T))) 0)) \<and>
      (leaves T \<noteq> [] \<longrightarrow> kval g h (bkey g (fst (hd (hd T))) 0) = Some (fst (hd (leaves T))))"
      using t by (simp add: tree_def btree_last_def btree_init_def)
  next
    case (Cons lv rest)
    then have r: "rep g h head 1 (lv # rest)" "fill 1 lv" using t by (auto simp: tree_def)
    note rr = repD [OF r(1)]
    obtain res where root: "last (lv # rest) = [(bh_node head, res)]" using rr(4) by (auto simp: head_ok_def)
    note ll = last_loop_ok [OF rr(2,3,1) root g]
    then obtain a es lv2 where lv: "lv = (a, es) # lv2" by (cases lv) auto
    have a: "nd g h a = Some (pad g es)" "entries_ok g es" using rr(3) lv by (auto simp: tower_in_Cons lnode_in_def)
    have es: "0 < length es" using r(2) lv by auto
    have "kval g h (bkey g a 0) = Some (fst (es ! 0))" by (rule kval_bkey_pad [OF g a es])
    then show "btree_last g h head = Some (if leaves T = [] then None else Some (bkey g (fst (hd (hd T))) 0)) \<and>
      (leaves T \<noteq> [] \<longrightarrow> kval g h (bkey g (fst (hd (hd T))) 0) = Some (fst (hd (leaves T))))"
      using ll rr(5) lv es Cons by (cases es) (simp_all add: btree_last_def)
  qed
qed

end
