(* ===== verification/Btree_Remove.thy ===== *)
theory Btree_Remove
  imports Main Btree_Insert
begin

text \<open>
  Removal is correct. \<open>rebalance\<close> merges a node that got too small with a neighbour, which removes
  an entry one level up, or moves entries over from a neighbour; the root goes away when one child
  is left. A merge never lowers the lower end of an interval (\<open>lows_le\<close>), which is what the level
  below needs to stay well formed.
\<close>

section \<open>Removing from a list, and pointwise larger lower ends\<close>

abbreviation lows_le :: "key list \<Rightarrow> key list \<Rightarrow> bool" where
  "lows_le \<equiv> list_all2 (\<le>)"

lemma lows_le_refl [simp]: "lows_le Es Es"
  by (simp add: list.rel_refl)

lemma lows_le_trans: "lows_le Es Fs \<Longrightarrow> lows_le Fs Gs \<Longrightarrow> lows_le Es Gs"
  by (erule (1) list_all2_trans [rotated]) (rule order_trans)

lemma seps_mono:
  assumes "lows_le Es Es'" "length Es = length lv"
  shows "lows_le (seps Es lv) (seps Es' lv)"
proof -
  have "length Es' = length lv" using assms by (simp add: list_all2_lengthD [symmetric])
  with assms show ?thesis
  proof (induction Es Es' arbitrary: lv rule: list_all2_induct)
    case (Cons E Es E' Es')
    then show ?case by (cases lv) (auto intro!: list_all2_appendI)
  qed simp
qed

lemma del_at_mid: "i < length ys \<Longrightarrow> del_at (length xs + i) (xs @ ys @ zs) = xs @ del_at i ys @ zs"
  by (simp add: del_at_def)

lemma del_at_length: "del_at (length xs) (xs @ x # ys) = xs @ ys"
  by (simp add: del_at_def)

lemma map_del_at: "map f (del_at i xs) = del_at i (map f xs)"
  by (simp add: del_at_def take_map drop_map)

lemma butlast_del_at:
  assumes "Suc i < length xs"
  shows "butlast (del_at i xs) = del_at i (butlast xs)"
proof -
  have "drop (Suc i) xs \<noteq> []" using assms by simp
  then show ?thesis using assms by (simp add: del_at_def butlast_append take_butlast butlast_drop)
qed

lemma desc_del_at: "desc es \<Longrightarrow> desc (del_at i es)"
proof -
  assume d: "desc es"
  have "desc (take i es @ drop i es)" using d by simp
  then have "\<forall>x \<in> set (take i es). \<forall>y \<in> set (drop i es). fst y < fst x" "desc (take i es)"
    unfolding desc_append by auto
  moreover have "desc (drop (Suc i) es)" "set (drop (Suc i) es) \<subseteq> set (drop i es)"
    using d by (simp_all add: desc_def sorted_wrt_drop set_drop_subset_set_drop)
  ultimately show ?thesis unfolding del_at_def desc_append by blast
qed

lemma posn_at: "desc es \<Longrightarrow> i < length es \<Longrightarrow> posn (fst (es ! i)) es = i"
  by (rule posn_eqI) (auto intro: desc_nth)

section \<open>The parent of a node\<close>

lemma located_posn:
  assumes ok: "tower_ok ((l @ n # r) # rest)" and loc: "located k rest l n r" and ne: "rest \<noteq> []"
  shows "posn k (flat (hd rest)) = length l" "length l < length (flat (hd rest))"
proof -
  let ?fs = "flat (hd rest)"
  from ok ne have ch: "list_all2 child_ok ?fs (l @ n # r)" by (cases rest) auto
  then show lf: "length l < length ?fs" by (auto dest: list_all2_lengthD)
  have okr: "tower_ok rest" and f1: "fills 1 rest" using ok by auto
  have le: "list_all2 (\<le>) (lows_of rest) (map fst ?fs)" by (rule lows_le_keys [OF okr ne f1])
  have len: "length (lows_of rest) = length (l @ n # r)" by (rule tower_lows_length [OF ok])
  have i: "interval k (lows_of rest) (length l)" using loc by (simp add: located_def)
  have "k < fst (?fs ! j)" if "j < length l" for j
  proof -
    have "k < lows_of rest ! j" by (rule interval_upper [OF i tower_falls [OF okr f1] that])
    moreover have "lows_of rest ! j \<le> fst (?fs ! j)"
      using list_all2_nthD [OF le, of j] that len lf by simp
    ultimately show ?thesis by order
  qed
  then show "posn k ?fs = length l"
    using lf loc ne by (intro posn_eqI) (auto simp: located_def)
qed

lemma parent_of:
  assumes ok: "tower_ok ((l @ n # r) # (pl @ (pa, pes) # pr) # T)"
    and loc: "located k ((pl @ (pa, pes) # pr) # T) l n r" and ploc: "located k T pl (pa, pes) pr"
  shows "posn k pes < length pes" "length l = length (flat pl) + posn k pes"
    "snd (pes ! posn k pes) = fst n"
proof -
  let ?lv = "pl @ (pa, pes) # pr"
  have ok1: "tower_ok (?lv # T)" and ne: "fills 1 (?lv # T)" using ok by auto
  note p = located_posn [OF ok loc, simplified]
  have p1: "posn k (flat ?lv) = length l" "length l < length (flat ?lv)" using p by simp_all
  have pl: "posn k (flat ?lv) = length (flat pl) + posn k pes"
    using posn_located [OF ok1 ploc] by simp
  show len: "length l = length (flat pl) + posn k pes" using p1 pl by simp
  have "interval k (lows_of (?lv # T)) (length (flat pl) + min (posn k pes) (length pes - 1))"
    using ploc tower_lows_length [OF ok1] by (intro interval_child [OF ne]) (auto simp: located_def)
  moreover have "interval k (lows_of (?lv # T)) (length l)" using loc by (simp add: located_def)
  ultimately have "length l = length (flat pl) + min (posn k pes) (length pes - 1)"
    using interval_unique [OF tower_falls [OF ok1 ne]] by blast
  moreover have "0 < length pes" using ne by auto
  ultimately show lt: "posn k pes < length pes" using len by (cases pes) (auto simp: min_def split: if_splits)
  have "list_all2 child_ok (flat ?lv) (l @ n # r)" using ok by simp
  then have "child_ok (flat ?lv ! length l) n" using list_all2_nthD [OF _ p1(2)] by fastforce
  then show "snd (pes ! posn k pes) = fst n"
    using nth_flat [of "posn k pes" "(pa, pes)" pl pr] lt len by (simp add: child_ok_def)
qed

section \<open>Neighbours\<close>

text \<open>
  Two neighbours \<open>x\<close> and \<open>y\<close> under the same parent: where their lower ends are, and what bounds
  their entries.
\<close>

lemma lows_parent:
  assumes len: "length (lows_of T) = length (pl @ (pa, pre @ (k1, x) # (k2, y) # post) # pr)"
    and f: "fill 1 pl"
  shows "\<exists>A E2 B. lows_of ((pl @ (pa, pre @ (k1, x) # (k2, y) # post) # pr) # T) = A @ k1 # E2 # B
     \<and> length A = length (flat pl) + length pre
     \<and> (\<forall>k. lows_of ((pl @ (pa, pre @ (k, x) # (k2, y) # post) # pr) # T) = A @ k # E2 # B)
     \<and> lows_of ((pl @ (pa, pre @ (k2, x) # post) # pr) # T) = A @ E2 # B
     \<and> endb None A = (if pre = [] then endb None (take (length pl) (lows_of T)) else Some (fst (last pre)))"
proof -
  define El E Er where "El = take (length pl) (lows_of T)" and "E = lows_of T ! length pl"
    and "Er = drop (Suc (length pl)) (lows_of T)"
  have E: "lows_of T = El @ E # Er" "length El = length pl"
    using len by (auto simp: El_def E_def Er_def intro: split_at)
  define A where "A = seps El pl @ map fst pre"
  let ?c = "map fst (butlast ((k2, y) # post)) @ E # seps Er pr"
  have "?c \<noteq> []" by simp
  then obtain E2 B where c: "?c = E2 # B" by (cases ?c) auto
  have b: "butlast (pre @ (k, x) # (k2, y) # post) = pre @ (k, x) # butlast ((k2, y) # post)" for k
    by (simp add: butlast_append)
  have 1: "lows_of ((pl @ (pa, pre @ (k, x) # (k2, y) # post) # pr) # T) = A @ k # E2 # B" for k
    using E c by (simp add: seps_append b A_def)
  have 2: "lows_of ((pl @ (pa, pre @ (k2, x) # post) # pr) # T) = A @ E2 # B"
    using E c by (cases post rule: rev_cases) (auto simp: seps_append A_def butlast_append)
  have 3: "length A = length (flat pl) + length pre"
    using length_seps [OF E(2) f] by (simp add: A_def)
  have 4: "endb None A = (if pre = [] then endb None El else Some (fst (last pre)))"
  proof (cases "pre = []")
    case True
    show ?thesis
    proof (cases "El = []")
      case True
      with \<open>pre = []\<close> E(2) show ?thesis by (simp add: A_def)
    next
      case False
      then have "seps El pl \<noteq> []" using E(2) by (cases El; cases pl) auto
      with last_seps [OF E(2) False] False \<open>pre = []\<close> show ?thesis by (simp add: A_def endb_def)
    qed
  next
    case False
    then show ?thesis by (simp add: A_def endb_def last_map)
  qed
  show ?thesis using 1 2 3 4 unfolding El_def by blast
qed


lemma uppers_mid:
  assumes "length A = length l"
  shows "uppers U (A @ k # E # B) (l @ (x, xs) # (y, ys) # r) \<longleftrightarrow>
     uppers U A l \<and> (\<forall>e \<in> set xs. below (endb U A) (fst e)) \<and> (\<forall>e \<in> set ys. fst e < k) \<and> uppers (Some E) B r"
  by (simp add: uppers_append [OF assms])

lemma desc_bounds:
  assumes "desc es" "es \<noteq> []" "e \<in> set es"
  shows "fst (last es) \<le> fst e" "fst e \<le> fst (hd es)"
proof -
  obtain i where i: "i < length es" "e = es ! i" using assms(3) by (auto simp: in_set_conv_nth)
  have "i = length es - 1 \<or> i < length es - 1" using i(1) by auto
  then show "fst (last es) \<le> fst e"
    using i desc_nth [OF assms(1), of i "length es - 1"] assms(2) by (auto simp: last_conv_nth intro: less_imp_le)
  show "fst e \<le> fst (hd es)"
    using i desc_nth [OF assms(1), of 0 i] assms(2) by (cases i) (auto simp: hd_conv_nth intro: less_imp_le)
qed

text \<open>What is known of two neighbours.\<close>

lemma neighbours:
  assumes ok: "tower_ok ((l @ (x, xs) # (y, ys) # r) # (pl @ (pa, pre @ (k1, x) # (k2, y) # post) # pr) # T)"
    and len: "length l = length (flat pl) + length pre"
  shows "desc xs" "desc ys" "k2 < k1" "\<forall>e \<in> set xs. k1 \<le> fst e" "\<forall>e \<in> set ys. fst e < k1"
    "\<forall>e \<in> set ys. k2 \<le> fst e" "\<forall>e \<in> set pre. k1 < fst e" "\<forall>e \<in> set post. fst e < k2"
proof -
  let ?lv1 = "pl @ (pa, pre @ (k1, x) # (k2, y) # post) # pr"
  show "desc xs" "desc ys" using ok by auto
  have d: "desc (pre @ (k1, x) # (k2, y) # post)" using ok by auto
  then show "k2 < k1" "\<forall>e \<in> set pre. k1 < fst e" "\<forall>e \<in> set post. fst e < k2"
    by (auto simp: desc_append)
  have "list_all2 child_ok ((flat pl @ pre) @ (k1, x) # (k2, y) # post @ flat pr) (l @ (x, xs) # (y, ys) # r)"
    using ok by simp
  moreover have "length (flat pl @ pre) = length l" using len by simp
  ultimately have "child_ok (k1, x) (x, xs)" "child_ok (k2, y) (y, ys)"
    unfolding list_all2_append [OF \<open>length (flat pl @ pre) = length l\<close>] by auto
  then show "\<forall>e \<in> set xs. k1 \<le> fst e" "\<forall>e \<in> set ys. k2 \<le> fst e" by (simp_all add: child_ok_def)
  obtain A E2 B where "lows_of (?lv1 # T) = A @ k1 # E2 # B" "length A = length (flat pl) + length pre"
    using lows_parent [of T pl pa pre k1 x k2 y post pr] tower_lows_length [of ?lv1 T] ok by auto
  then show "\<forall>e \<in> set ys. fst e < k1" using ok len uppers_mid [of A l None k1 E2 B x xs y ys r] by auto
qed

text \<open>
  Moving entries between the two: the parent's key of the left one becomes the smallest key that
  it now holds.
\<close>

lemma tower_ok_shift:
  assumes ok: "tower_ok ((l @ (x, xs) # (y, ys) # r) # (pl @ (pa, pre @ (k1, x) # (k2, y) # post) # pr) # T)"
    and len: "length l = length (flat pl) + length pre"
    and mv: "xs' @ ys' = xs @ ys" "xs' \<noteq> []" "ys' \<noteq> []" "xs \<noteq> []" "ys \<noteq> []"
  defines "lv' \<equiv> l @ (x, xs') # (y, ys') # r"
    and "lv1' \<equiv> pl @ (pa, pre @ (fst (last xs'), x) # (k2, y) # post) # pr"
  shows "tower_ok (lv' # lv1' # T)"
    "lows_le (lows_of ((l @ (x, xs) # (y, ys) # r) # (pl @ (pa, pre @ (k1, x) # (k2, y) # post) # pr) # T))
       (lows_of (lv' # lv1' # T))"
proof -
  let ?lv1 = "pl @ (pa, pre @ (k1, x) # (k2, y) # post) # pr" and ?k = "fst (last xs')"
  note nb = neighbours [OF ok len]
  have ok1: "tower_ok (?lv1 # T)" using ok by simp
  have f: "fill 1 pl" "fill 1 pr" "fills 1 T" using ok by auto
  obtain A E2 B where A: "length A = length l"
      "\<forall>k. lows_of ((pl @ (pa, pre @ (k, x) # (k2, y) # post) # pr) # T) = A @ k # E2 # B"
      "endb None A = (if pre = [] then endb None (take (length pl) (lows_of T)) else Some (fst (last pre)))"
    using lows_parent [OF tower_lows_length [OF ok1] f(1)] len by auto
  have up: "uppers None A l" "\<forall>e \<in> set xs. below (endb None A) (fst e)" "uppers (Some E2) B r"
    using ok A(2) uppers_mid [OF A(1)] by auto
  have all: "desc (xs @ ys)" using nb(1,2,4,5) by (auto simp: desc_append intro: order_less_le_trans)
  then have d: "desc xs'" "desc ys'" "\<forall>a \<in> set xs'. \<forall>b \<in> set ys'. fst b < fst a"
    using mv(1) by (metis desc_append)+
  have set: "set xs' \<union> set ys' = set xs \<union> set ys" using mv(1) by (metis set_append)
  have ge: "\<forall>e \<in> set xs'. ?k \<le> fst e" using desc_bounds(1) [OF d(1) mv(2)] by blast
  have bel: "below (endb None A) k" if "k \<le> k'" "below (endb None A) k'" for k k'
    using that by (auto simp: below_def split: option.splits)
  have yb: "\<forall>e \<in> set ys. below (endb None A) (fst e)"
  proof
    fix e assume "e \<in> set ys"
    then have "fst e < fst (hd xs)" using nb(4,5) mv(4) by (meson hd_in_set order_less_le_trans)
    then show "below (endb None A) (fst e)" using bel up(2) mv(4) by (meson hd_in_set less_imp_le)
  qed
  have k2: "k2 < ?k"
  proof -
    have "last xs' \<in> set xs \<or> last xs' \<in> set ys" using set last_in_set [OF mv(2)] by blast
    then show ?thesis
    proof
      assume "last xs' \<in> set xs"
      then show ?thesis using nb(3,4) by (meson order_less_le_trans)
    next
      assume y: "last xs' \<in> set ys"
      have "hd ys' \<in> set xs \<union> set ys" using set hd_in_set [OF mv(3)] by blast
      then have "k2 \<le> fst (hd ys')" using nb(3,4,6) by (meson UnE less_imp_le order_trans)
      moreover have "fst (hd ys') < ?k" using d(3) mv(2,3) by simp
      ultimately show ?thesis by order
    qed
  qed
  have xb: "below (endb None A) ?k"
    using set last_in_set [OF mv(2)] up(2) yb by blast
  have pk: "\<forall>e \<in> set pre. ?k < fst e"
  proof
    fix e assume e: "e \<in> set pre"
    then have "desc pre" "pre \<noteq> []" using ok1 by (auto simp: desc_append)
    then have "fst (last pre) \<le> fst e" using e by (rule desc_bounds)
    moreover have "?k < fst (last pre)" using xb A(3) \<open>pre \<noteq> []\<close> by simp
    ultimately show "?k < fst e" by order
  qed
  have d1: "desc (pre @ (?k, x) # (k2, y) # post)"
    using ok1 pk k2 nb(8) by (auto simp: desc_append intro: order_less_trans)
  have okp: "tower_ok (lv1' # T)"
  proof -
    have fl: "fst ` set (pre @ (?k, x) # (k2, y) # post) \<subseteq> insert ?k (fst ` set (pre @ (k1, x) # (k2, y) # post))"
      by auto
    have ch: "children T lv1'"
    proof (cases T)
      case Nil
      with ok1 show ?thesis by (simp add: lv1'_def)
    next
      case (Cons lv2 T2)
      then have "list_all2 child_ok (flat lv2) ?lv1" using ok1 by auto
      then obtain fl e fr where c: "flat lv2 = fl @ e # fr" "list_all2 child_ok fl pl"
          "child_ok e (pa, pre @ (k1, x) # (k2, y) # post)" "list_all2 child_ok fr pr"
        by (auto simp: list_all2_append2 list_all2_Cons2)
      then have "fst e \<le> k2" by (simp add: child_ok_def)
      then have "fst e \<le> ?k" using k2 by order
      then have "child_ok e (pa, pre @ (?k, x) # (k2, y) # post)" using c(3) by (auto simp: child_ok_def)
      with c Cons show ?thesis by (auto simp: lv1'_def intro!: list_all2_appendI)
    qed
    have "uppers None (lows_of T) lv1'"
    proof -
      define El E Er where "El = take (length pl) (lows_of T)" and "E = lows_of T ! length pl"
        and "Er = drop (Suc (length pl)) (lows_of T)"
      have lT: "length (lows_of T) = length ?lv1" by (rule tower_lows_length [OF ok1])
      have E: "lows_of T = El @ E # Er" "length El = length pl"
        using lT by (auto simp: El_def E_def Er_def intro: split_at)
      have "below (endb None El) ?k"
      proof (cases "pre = []")
        case True
        then show ?thesis using xb A(3) by (simp add: El_def)
      next
        case False
        have "below (endb None El) (fst (last pre))"
          using ok1 E False by (auto simp: uppers_append)
        moreover have "?k < fst (last pre)" using pk False by simp
        ultimately show ?thesis by (auto simp: below_def split: option.splits)
      qed
      then show ?thesis using ok1 E by (auto simp: uppers_append lv1'_def)
    qed
    with d1 ch ok1 show ?thesis by (auto simp: lv1'_def)
  qed
  have lo1: "lows_of (lv1' # T) = A @ ?k # E2 # B" "lows_of (?lv1 # T) = A @ k1 # E2 # B"
    using A(2) unfolding lv1'_def by blast+
  have up': "uppers None (lows_of (lv1' # T)) lv'"
  proof -
    have "\<forall>e \<in> set xs'. below (endb None A) (fst e)" using set up(2) yb by blast
    moreover have "\<forall>e \<in> set ys'. fst e < ?k" using d(3) mv(2) by simp
    ultimately show ?thesis unfolding lo1(1) lv'_def uppers_mid [OF A(1)] using up by blast
  qed
  have ch': "list_all2 child_ok (flat lv1') lv'"
  proof -
    have "list_all2 child_ok ((flat pl @ pre) @ (k1, x) # (k2, y) # post @ flat pr) (l @ (x, xs) # (y, ys) # r)"
      using ok by simp
    moreover have le: "length (flat pl @ pre) = length l" using len by simp
    ultimately have c: "list_all2 child_ok (flat pl @ pre) l" "list_all2 child_ok (post @ flat pr) r"
      unfolding list_all2_append [OF le] by auto
    have "k2 \<le> fst e" if "e \<in> set xs \<union> set ys" for e
      using that nb(3,4,6) by (meson UnE less_imp_le order_trans)
    then have "child_ok (k2, y) (y, ys')" using set by (auto simp: child_ok_def)
    moreover have "child_ok (?k, x) (x, xs')" using ge by (simp add: child_ok_def)
    ultimately have "list_all2 child_ok ((flat pl @ pre) @ (?k, x) # (k2, y) # post @ flat pr) lv'"
      unfolding lv'_def list_all2_append [OF le] using c by simp
    then show ?thesis by (simp add: lv1'_def)
  qed
  show "tower_ok (lv' # lv1' # T)"
    using ok okp up' ch' d f by (auto simp: lv'_def lv1'_def)
  have "lows_le (seps (A @ k1 # E2 # B) (l @ (x, xs) # (y, ys) # r)) (seps (A @ ?k # E2 # B) lv')"
  proof -
    have "map fst (butlast xs') @ ?k # map fst (butlast ys') = map fst (butlast (xs' @ ys'))"
      using mv(2,3) map_fst_butlast_last [OF mv(2)] by (simp add: butlast_append)
    also have "\<dots> = map fst xs @ map fst (butlast ys)"
      unfolding mv(1) using mv(5) by (simp add: butlast_append)
    also have "\<dots> = map fst (butlast xs) @ fst (last xs) # map fst (butlast ys)"
      using map_fst_butlast_last [OF mv(4)] by simp
    finally have e: "map fst (butlast xs') @ ?k # map fst (butlast ys')
        = map fst (butlast xs) @ fst (last xs) # map fst (butlast ys)" .
    have "seps (A @ ?k # E2 # B) lv'
        = seps A l @ (map fst (butlast xs') @ ?k # map fst (butlast ys')) @ E2 # seps B r"
      by (simp add: lv'_def seps_append [OF A(1)])
    also have "\<dots> = seps A l @ map fst (butlast xs) @ fst (last xs) # map fst (butlast ys) @ E2 # seps B r"
      unfolding e by simp
    finally have n: "seps (A @ ?k # E2 # B) lv'
        = seps A l @ map fst (butlast xs) @ fst (last xs) # map fst (butlast ys) @ E2 # seps B r" .
    have "k1 \<le> fst (last xs)" using nb(4) mv(4) by simp
    then show ?thesis
      unfolding n by (auto simp: seps_append [OF A(1)] intro!: list_all2_appendI)
  qed
  then show "lows_le (lows_of ((l @ (x, xs) # (y, ys) # r) # ?lv1 # T)) (lows_of (lv' # lv1' # T))"
    using lo1 by simp
qed


text \<open>Merging the two, once the parent has lost the entry of the left one.\<close>

lemma tower_ok_merge:
  assumes ok: "tower_ok ((l @ (x, xs) # (y, ys) # r) # (pl @ (pa, pre @ (k1, x) # (k2, y) # post) # pr) # T)"
    and len: "length l = length (flat pl) + length pre" and ne: "xs \<noteq> []" "ys \<noteq> []"
    and T1: "tower_ok T1" "fills 1 T1" "T1 = [] \<Longrightarrow> l = [] \<and> r = []"
      "T1 \<noteq> [] \<Longrightarrow> flat (hd T1) = (flat pl @ pre) @ (k2, x) # post @ flat pr"
    and lo: "lows_le (del_at (length l) (lows_of ((pl @ (pa, pre @ (k1, x) # (k2, y) # post) # pr) # T))) (lows_of T1)"
  shows "tower_ok ((l @ (x, xs @ ys) # r) # T1)"
    "lows_le (lows_of ((l @ (x, xs) # (y, ys) # r) # (pl @ (pa, pre @ (k1, x) # (k2, y) # post) # pr) # T))
       (lows_of ((l @ (x, xs @ ys) # r) # T1))"
proof -
  let ?lv = "l @ (x, xs) # (y, ys) # r" and ?lv1 = "pl @ (pa, pre @ (k1, x) # (k2, y) # post) # pr"
    and ?lv' = "l @ (x, xs @ ys) # r"
  note nb = neighbours [OF ok len]
  have ok1: "tower_ok (?lv1 # T)" and f: "fill 1 pl" using ok by auto
  obtain A E2 B where A: "length A = length l" "lows_of (?lv1 # T) = A @ k1 # E2 # B"
    using lows_parent [OF tower_lows_length [OF ok1] f] len by auto
  have lo': "lows_le (A @ E2 # B) (lows_of T1)"
    using lo del_at_length [of A k1 "E2 # B"] unfolding A(2) by (simp add: A(1))
  have up: "uppers None A l" "\<forall>e \<in> set xs. below (endb None A) (fst e)" "uppers (Some E2) B r"
    using ok uppers_mid [OF A(1)] A(2) by auto
  have yb: "\<forall>e \<in> set ys. below (endb None A) (fst e)"
  proof
    fix e assume "e \<in> set ys"
    then have "fst e < fst (hd xs)" using nb(4,5) ne by (meson hd_in_set order_less_le_trans)
    moreover have "below (endb None A) (fst (hd xs))" using up(2) ne by simp
    ultimately show "below (endb None A) (fst e)" by (auto simp: below_def split: option.splits)
  qed
  have "uppers None (A @ E2 # B) ?lv'"
    using up yb by (auto simp: uppers_append [OF A(1)])
  then have up': "uppers None (lows_of T1) ?lv'" using lo' by (rule uppers_mono) simp
  have d: "desc (xs @ ys)" using nb(1,2,4,5) by (auto simp: desc_append intro: order_less_le_trans)
  have ch: "children T1 ?lv'"
  proof (cases T1)
    case Nil
    then show ?thesis using T1(3) by simp
  next
    case (Cons lv2 T2)
    have le: "length (flat pl @ pre) = length l" using len by simp
    have "list_all2 child_ok ((flat pl @ pre) @ (k1, x) # (k2, y) # post @ flat pr) ?lv" using ok by simp
    then have "list_all2 child_ok (flat pl @ pre) l" "list_all2 child_ok (post @ flat pr) r"
      unfolding list_all2_append [OF le] by auto
    moreover have "child_ok (k2, x) (x, xs @ ys)"
      using nb(3,4,6) by (auto simp: child_ok_def intro: order_trans less_imp_le)
    ultimately have "list_all2 child_ok ((flat pl @ pre) @ (k2, x) # post @ flat pr) ?lv'"
      unfolding list_all2_append [OF le] by simp
    then show ?thesis using T1(4) Cons by simp
  qed
  show "tower_ok (?lv' # T1)" using ok d ch up' T1 by auto
  have lT: "length (A @ E2 # B) = length ?lv'"
    using tower_lows_length [OF ok] A by simp
  have "lows_le (lows_of (?lv # ?lv1 # T)) (seps (A @ E2 # B) ?lv')"
  proof -
    have "map fst (butlast (xs @ ys)) = map fst xs @ map fst (butlast ys)" using ne by (simp add: butlast_append)
    also have "\<dots> = map fst (butlast xs) @ fst (last xs) # map fst (butlast ys)"
      using map_fst_butlast_last [OF ne(1)] by simp
    finally have e: "map fst (butlast (xs @ ys)) = map fst (butlast xs) @ fst (last xs) # map fst (butlast ys)" .
    have "k1 \<le> fst (last xs)" using nb(4) ne by simp
    then show ?thesis
      using A e by (auto simp: seps_append [OF A(1)] intro!: list_all2_appendI)
  qed
  also have "lows_le (seps (A @ E2 # B) ?lv') (lows_of (?lv' # T1))"
    using seps_mono [OF lo' lT] by simp
  finally (lows_le_trans) show "lows_le (lows_of (?lv # ?lv1 # T)) (lows_of (?lv' # T1))" .
qed

section \<open>Contracts\<close>

text \<open>
  What removing at a level assumes. The key is given by a pointer: at the leaves it points outside
  the tree, above it points at the very slot that is removed.
\<close>

definition rem_pre :: "btree_geo \<Rightarrow> 'o heap \<Rightarrow> btree_head \<Rightarrow> nat \<Rightarrow> level list \<Rightarrow> kptr \<Rightarrow> key \<Rightarrow> bool" where
  "rem_pre g h head L T kp k \<longleftrightarrow> rep g h head L T \<and> kval g h kp = Some k
     \<and> kaddr kp \<inter> set (addrs (tl T)) = {} \<and> fills 2 (tl T) \<and> fill 1 (hd T)
     \<and> (L \<noteq> 1 \<or> tl T \<noteq> [] \<longrightarrow> fill 2 (hd T))
     \<and> (if L = 1 then kaddr kp \<inter> set (addrs T) = {} \<and> k \<in> fst ` set (flat (hd T))
        else \<exists>l a es r j. hd T = l @ (a, es) # r \<and> kp = bkey g a j \<and> Suc j < length es \<and> k = fst (es ! j))"

definition removed :: "btree_geo \<Rightarrow> 'o heap \<Rightarrow> btree_head \<Rightarrow> nat \<Rightarrow> level list \<Rightarrow> key \<Rightarrow>
    ulong \<Rightarrow> btree_head \<Rightarrow> 'o heap \<Rightarrow> level list \<Rightarrow> bool" where
  "removed g h head L T k ret head' h' T' \<longleftrightarrow>
     changes (set (addrs T)) (set (addrs T')) h h' \<and> fills 2 (tl T')
   \<and> (let i = posn k (flat (hd T)); fs = del_at i (flat (hd T)) in
        ret = snd (flat (hd T) ! i)
      \<and> (if T' = []
         then bh_height head' + 1 = L \<and> (if L = 1 then bh_node head' = 0 \<and> fs = []
                                        else \<exists>k2. fs = [(k2, bh_node head')])
         else rep g h' head' L T' \<and> flat (hd T') = fs \<and> fill 1 (hd T')
            \<and> (L \<noteq> 1 \<or> tl T' \<noteq> [] \<longrightarrow> fill 2 (hd T')))
      \<and> (L \<noteq> 1 \<longrightarrow> lows_le (del_at i (lows_of T)) (lows_of T')))"

definition rebalanced :: "btree_geo \<Rightarrow> 'o heap \<Rightarrow> nat \<Rightarrow> level list \<Rightarrow>
    btree_head \<Rightarrow> 'o heap \<Rightarrow> level list \<Rightarrow> bool" where
  "rebalanced g h L T head' h' T' \<longleftrightarrow> rep g h' head' L T' \<and> fills 2 T'
     \<and> changes (set (addrs T)) (set (addrs T')) h h' \<and> flat (hd T') = flat (hd T)
     \<and> lows_le (lows_of T) (lows_of T')"

section \<open>Stealing\<close>

lemma head_ok_nodes:
  assumes "head_ok head L T" "map (map fst) T' = map (map fst) T" "T \<noteq> []"
  shows "head_ok head L T'"
proof -
  have len: "length T' = length T" using assms(2) by (rule map_eq_imp_length_eq)
  obtain es where "last T = [(bh_node head, es)]" using assms(1) by (auto simp: head_ok_def)
  moreover have "T' \<noteq> []" using len assms(3) by auto
  ultimately have "map fst (last T') = [bh_node head]"
    using arg_cong [OF assms(2), of last] assms(3) by (simp add: last_map)
  then have "\<exists>es. last T' = [(bh_node head, es)]" by (auto simp: map_eq_Cons_conv)
  then show ?thesis using assms(1) len by (simp add: head_ok_def)
qed

lemma tower_in_put2:
  assumes g: "geo_ok g" and T: "tower_in g h (lv # (l @ (a, es) # r) # rest)" and ok: "entries_ok g es'"
  shows "tower_in g (put g h a (pad g es')) (lv # (l @ (a, es') # r) # rest)"
proof -
  have T2: "tower_in g h ((l @ (a, es) # r) # rest)" using T by (simp add: tower_in_Cons)
  note p = tower_in_put [OF g T2 ok]
  have "level_in g (put g h a (pad g es')) lv"
    using T by (intro level_in_frame [OF p(2)]) (auto simp: tower_in_Cons)
  then show ?thesis using p(1) T by (auto simp: tower_in_Cons)
qed

text \<open>Storing new entries in two neighbours and a new key in their parent.\<close>

lemma shift_rep:
  assumes g: "geo_ok g"
    and r: "rep g h head L ((l @ (x, xs) # (y, ys) # r) # (pl @ (pa, pre @ (k1, x) # (k2, y) # post) # pr) # T)"
    and len: "length l = length (flat pl) + length pre"
    and mv: "xs' @ ys' = xs @ ys" "xs' \<noteq> []" "ys' \<noteq> []" "xs \<noteq> []" "ys \<noteq> []"
      "length xs' \<le> no_pairs g" "length ys' \<le> no_pairs g"
    and h': "h' = put g (put g (put g h y (pad g ys')) x (pad g xs')) pa
                     (pad g (pre @ (fst (last xs'), x) # (k2, y) # post))"
  shows "rep g h' head L ((l @ (x, xs') # (y, ys') # r)
           # (pl @ (pa, pre @ (fst (last xs'), x) # (k2, y) # post) # pr) # T)"
    "frame {x, y, pa} h h'"
proof -
  let ?pes = "pre @ (k1, x) # (k2, y) # post" and ?pes' = "pre @ (fst (last xs'), x) # (k2, y) # post"
  note rr = repD [OF r]
  have e: "entries_ok g xs" "entries_ok g ys" "entries_ok g ?pes"
    using rr(3) by (auto simp: tower_in_Cons lnode_in_def)
  have "set xs' \<subseteq> set xs \<union> set ys" "set ys' \<subseteq> set xs \<union> set ys" using mv(1) by (metis set_append Un_upper1 Un_upper2)+
  then have e': "entries_ok g xs'" "entries_ok g ys'" using e(1,2) mv(6,7) by (auto simp: entries_ok_def)
  have "length (fst (last xs')) = keylen g" using e'(1) mv(2) by (simp add: entries_ok_def)
  then have p': "entries_ok g ?pes'" using e(3) by (auto simp: entries_ok_def)
  have "tower_in g (put g h y (pad g ys')) ((l @ (x, xs) # (y, ys') # r) # (pl @ (pa, ?pes) # pr) # T)"
    using tower_in_put(1) [OF g _ e'(2), of h "l @ [(x, xs)]" y ys r] rr(3) by simp
  then have "tower_in g (put g (put g h y (pad g ys')) x (pad g xs')) ((l @ (x, xs') # (y, ys') # r) # (pl @ (pa, ?pes) # pr) # T)"
    by (rule tower_in_put(1) [OF g _ e'(1)])
  then have "tower_in g h' ((l @ (x, xs') # (y, ys') # r) # (pl @ (pa, ?pes') # pr) # T)"
    unfolding h' by (rule tower_in_put2 [OF g _ p'])
  moreover have "head_ok head L ((l @ (x, xs') # (y, ys') # r) # (pl @ (pa, ?pes') # pr) # T)"
    by (rule head_ok_nodes [OF rr(4)]) simp_all
  ultimately show "rep g h' head L ((l @ (x, xs') # (y, ys') # r) # (pl @ (pa, ?pes') # pr) # T)"
    using tower_ok_shift(1) [OF rr(2) len mv(1-5)] by (simp add: rep_def)
  show "frame {x, y, pa} h h'" unfolding h' by (intro frame_put frame_refl) auto
qed


lemma shift_rebalanced:
  assumes g: "geo_ok g"
    and r: "rep g h head L ((l @ (x, xs) # (y, ys) # r) # (pl @ (pa, pre @ (k1, x) # (k2, y) # post) # pr) # T)"
    and len: "length l = length (flat pl) + length pre"
    and mv: "xs' @ ys' = xs @ ys" "2 \<le> length xs'" "2 \<le> length ys'" "xs \<noteq> []" "ys \<noteq> []"
      "length xs' \<le> no_pairs g" "length ys' \<le> no_pairs g"
    and f2: "fill 2 l" "fill 2 r" "fills 2 ((pl @ (pa, pre @ (k1, x) # (k2, y) # post) # pr) # T)"
    and h': "h' = put g (put g (put g h y (pad g ys')) x (pad g xs')) pa
                     (pad g (pre @ (fst (last xs'), x) # (k2, y) # post))"
  shows "\<exists>T'. rebalanced g h L ((l @ (x, xs) # (y, ys) # r) # (pl @ (pa, pre @ (k1, x) # (k2, y) # post) # pr) # T)
    head h' T'"
proof -
  let ?T = "(l @ (x, xs) # (y, ys) # r) # (pl @ (pa, pre @ (k1, x) # (k2, y) # post) # pr) # T"
  let ?T' = "(l @ (x, xs') # (y, ys') # r) # (pl @ (pa, pre @ (fst (last xs'), x) # (k2, y) # post) # pr) # T"
  note rr = repD [OF r]
  have ne: "xs' \<noteq> []" "ys' \<noteq> []" using mv(2,3) by auto
  note s = shift_rep [OF g r len mv(1) ne mv(4-7) h']
  have ch: "changes (set (addrs ?T)) (set (addrs ?T)) h h'"
    using tower_in_mem [OF rr(3)] by (intro changes_frame [OF s(2)]) auto
  have ad: "addrs ?T' = addrs ?T" by simp
  have fl: "flat (hd ?T') = flat (hd ?T)" using arg_cong [OF mv(1), of "\<lambda>z. flat l @ z @ flat r"] by simp
  have "rebalanced g h L ?T head h' ?T'"
    unfolding rebalanced_def ad fl
    using s(1) ch tower_ok_shift(2) [OF rr(2) len mv(1) ne mv(4,5)] f2 mv(2,3) by simp
  then show ?thesis by blast
qed

lemma pair_nodes:
  assumes r: "rep g h head L ((l @ (x, xs) # (y, ys) # r) # (pl @ (pa, pes) # pr) # T)"
  shows "nd g h x = Some (pad g xs)" "entries_ok g xs" "nd g h y = Some (pad g ys)" "entries_ok g ys"
    "nd g h pa = Some (pad g pes)" "entries_ok g pes" "x \<noteq> y" "x \<noteq> pa" "y \<noteq> pa" "x \<noteq> 0" "y \<noteq> 0"
  using repD(3) [OF r] by (auto simp: tower_in_Cons lnode_in_def)

lemma steal_l_rep:
  assumes g: "geo_ok g"
    and r: "rep g h head L ((l @ (x, xs) # (y, ys) # r) # (pl @ (pa, pre @ (k1, x) # (k2, y) # post) # pr) # T)"
    and len: "length l = length (flat pl) + length pre"
    and n: "0 < n" "n + 2 \<le> length xs" "n + length ys \<le> no_pairs g" "ys \<noteq> []"
    and f2: "fill 2 l" "fill 2 r" "fills 2 ((pl @ (pa, pre @ (k1, x) # (k2, y) # post) # pr) # T)"
  shows "\<exists>h' T'. steal_l g h x (length xs) y (length ys) pa (length pre) n = Some h'
    \<and> rebalanced g h L ((l @ (x, xs) # (y, ys) # r) # (pl @ (pa, pre @ (k1, x) # (k2, y) # post) # pr) # T)
        head h' T'"
proof -
  let ?a = "length xs - n"
  let ?xs = "take ?a xs" and ?ys = "drop ?a xs @ ys"
  note nn = pair_nodes [OF r]
  have last: "xs ! (?a - 1) = last ?xs" using n by (subst last_conv_nth) (auto simp: min_def)
  have run: "steal_l g h x (length xs) y (length ys) pa (length pre) n
      = Some (put g (put g (put g h y (pad g ?ys)) x (pad g ?xs)) pa
                (pad g (pre @ (fst (last ?xs), x) # (k2, y) # post)))"
    using steal_l_slots [OF g nn(1-9), of n "length pre"] n last nn(8) by (simp add: put_comm)
  have le: "length xs \<le> no_pairs g" using nn(2) by (simp add: entries_ok_def)
  have two: "2 \<le> length ?ys" "2 \<le> length ?xs" "length ?ys \<le> no_pairs g"
  proof -
    have "1 \<le> length ys" using n(4) by (cases ys) auto
    then show "2 \<le> length ?ys" using n by (simp only: length_append length_drop)
  qed (use n in auto)
  then have "\<exists>T'. rebalanced g h L ((l @ (x, xs) # (y, ys) # r) # (pl @ (pa, pre @ (k1, x) # (k2, y) # post) # pr) # T)
        head (put g (put g (put g h y (pad g ?ys)) x (pad g ?xs)) pa
                (pad g (pre @ (fst (last ?xs), x) # (k2, y) # post))) T'"
    using n le by (intro shift_rebalanced [OF g r len _ two(2,1) _ n(4) _ two(3) f2 refl]) auto
  with run show ?thesis by blast
qed

lemma steal_r_rep:
  assumes g: "geo_ok g"
    and r: "rep g h head L ((l @ (x, xs) # (y, ys) # r) # (pl @ (pa, pre @ (k1, x) # (k2, y) # post) # pr) # T)"
    and len: "length l = length (flat pl) + length pre"
    and n: "0 < n" "n + 2 \<le> length ys" "n + length xs \<le> no_pairs g" "xs \<noteq> []"
    and f2: "fill 2 l" "fill 2 r" "fills 2 ((pl @ (pa, pre @ (k1, x) # (k2, y) # post) # pr) # T)"
  shows "\<exists>h' T'. steal_r g h x (length xs) y (length ys) pa (length pre) n = Some h'
    \<and> rebalanced g h L ((l @ (x, xs) # (y, ys) # r) # (pl @ (pa, pre @ (k1, x) # (k2, y) # post) # pr) # T)
        head h' T'"
proof -
  let ?xs = "xs @ take n ys" and ?ys = "drop n ys"
  note nn = pair_nodes [OF r]
  have ne: "take n ys \<noteq> []" using n by auto
  have "last ?xs = last (take n ys)" using ne by simp
  then have last: "ys ! (n - 1) = last ?xs" using n ne by (simp add: last_conv_nth min_def)
  have run: "steal_r g h x (length xs) y (length ys) pa (length pre) n
      = Some (put g (put g (put g h y (pad g ?ys)) x (pad g ?xs)) pa
                (pad g (pre @ (fst (last ?xs), x) # (k2, y) # post)))"
    using steal_r_slots [OF g nn(1-9), of n "length pre"] n last nn(7-9)
    by (simp add: put_comm [of pa y] put_comm [of x y])
  have le: "length ys \<le> no_pairs g" using nn(4) by (simp add: entries_ok_def)
  have "ys \<noteq> []" using n by auto
  have two: "2 \<le> length ?xs" "2 \<le> length ?ys" "length ?xs \<le> no_pairs g"
  proof -
    have "1 \<le> length xs" using n(4) by (cases xs) auto
    moreover have "length (take n ys) = n" using n by simp
    ultimately show "2 \<le> length ?xs" using n by (simp only: length_append)
  qed (use n in auto)
  have "\<exists>T'. rebalanced g h L ((l @ (x, xs) # (y, ys) # r) # (pl @ (pa, pre @ (k1, x) # (k2, y) # post) # pr) # T)
        head (put g (put g (put g h y (pad g ?ys)) x (pad g ?xs)) pa
                (pad g (pre @ (fst (last ?xs), x) # (k2, y) # post))) T'"
    using n le \<open>ys \<noteq> []\<close> by (intro shift_rebalanced [OF g r len _ two(1,2) n(4) _ two(3) _ f2 refl]) auto
  with run show ?thesis by blast
qed

section \<open>Merging\<close>

lemma desc_keys: "desc es \<longleftrightarrow> sorted_wrt (\<lambda>a b. b < a) (map fst es)"
  by (simp add: desc_def sorted_wrt_map)

text \<open>Other values under the same keys.\<close>

lemma tower_ok_values:
  assumes ok: "tower_ok ((l @ (a, es) # r) # T)" and e: "map fst es' = map fst es"
  shows "tower_ok ((l @ (a, es') # r) # T)" "lows_of ((l @ (a, es') # r) # T) = lows_of ((l @ (a, es) # r) # T)"
proof -
  have s: "fst ` set es' = fst ` set es" using e by (metis list.set_map)
  have all: "(\<forall>x \<in> set es'. P (fst x)) \<longleftrightarrow> (\<forall>x \<in> set es. P (fst x))" for P
    using s by (metis (mono_tags, lifting) ball_imageD imageI image_iff)
  have d: "desc es'" using ok e by (simp add: desc_keys)
  have ch: "children T (l @ (a, es') # r)"
  proof (cases T)
    case (Cons lv2 T2)
    then have "list_all2 child_ok (flat lv2) (l @ (a, es) # r)" using ok by simp
    then obtain fl e fr where f: "flat lv2 = fl @ e # fr" "list_all2 child_ok fl l"
        "child_ok e (a, es)" "list_all2 child_ok fr r"
      by (auto simp: list_all2_append2 list_all2_Cons2)
    moreover have "child_ok e (a, es')" using f(3) all [of "\<lambda>k. fst e \<le> k"] by (simp add: child_ok_def)
    ultimately show ?thesis using Cons by (auto intro!: list_all2_appendI)
  qed (use ok in simp)
  define El E Er where "El = take (length l) (lows_of T)" and "E = lows_of T ! length l"
    and "Er = drop (Suc (length l)) (lows_of T)"
  have E: "lows_of T = El @ E # Er" "length El = length l"
    using tower_lows_length [OF ok] by (auto simp: El_def E_def Er_def intro: split_at)
  have "uppers None (lows_of T) (l @ (a, es') # r)" using ok all E by (auto simp: uppers_append)
  then show "tower_ok ((l @ (a, es') # r) # T)" using ok d ch by simp
  have "map fst (butlast es') = map fst (butlast es)" using e by (metis map_butlast)
  then show "lows_of ((l @ (a, es') # r) # T) = lows_of ((l @ (a, es) # r) # T)"
    using E by (simp add: seps_append)
qed


text \<open>The three stores that a merge makes before it removes the parent's entry.\<close>

lemma merge_stores:
  assumes g: "geo_ok g"
    and r: "rep g h head L ((l @ (x, xs) # (y, ys) # r) # (pl @ (pa, pre @ (k1, x) # (k2, y) # post) # pr) # T)"
    and fit: "length xs + length ys \<le> no_pairs g"
    and h3: "h3 = put g (put g h x (pad g (xs @ ys))) pa (pad g (pre @ (k1, y) # (k2, x) # post))"
  shows "do { h \<leftarrow> copy_up g y 0 x (length xs) (length ys) h;
              h \<leftarrow> setval g h pa y (length pre);
              setval g h pa x (length pre + 1) } = Some h3"
    "tower_in g h3 ((l @ (x, xs @ ys) # (y, ys) # r) # (pl @ (pa, pre @ (k1, y) # (k2, x) # post) # pr) # T)"
    "frame {x, pa} h h3"
proof -
  let ?pes = "pre @ (k1, x) # (k2, y) # post" and ?p1 = "pre @ (k1, y) # (k2, y) # post"
    and ?p2 = "pre @ (k1, y) # (k2, x) # post"
  note nn = pair_nodes [OF r]
  let ?h1 = "put g h x (pad g (xs @ ys))"
  have e: "entries_ok g (xs @ ys)" using fit nn(2,4) by (simp add: entries_ok_append)
  have p1: "entries_ok g ?p1" and p2: "entries_ok g ?p2" using nn(6,10,11) by (auto simp: entries_ok_def)
  have n1: "nd g ?h1 pa = Some (pad g ?pes)" using nn(5,8) by (simp add: put_simps)
  have 1: "copy_up g y 0 x (length xs) (length ys) h = Some ?h1"
    by (rule append_slots [OF g nn(1,3,7) fit])
  have 2: "setval g ?h1 pa y (length pre) = Some (put g ?h1 pa (pad g ?p1))"
    using setval_pad [OF g n1 nn(6), of "length pre" y] by simp
  have n2: "nd g (put g ?h1 pa (pad g ?p1)) pa = Some (pad g ?p1)"
    using n1 g valid_pad [OF p1] by (simp add: put_simps)
  have "?p1[length pre + 1 := (k2, x)] = ?p2" by (simp add: list_update_append)
  then have 3: "setval g (put g ?h1 pa (pad g ?p1)) pa x (length pre + 1) = Some h3"
    using setval_pad [OF g n2 p1, of "length pre + 1" x] g valid_pad [OF p1] valid_pad [OF p2] h3
    by (simp add: put_simps nth_append)
  show "do { h \<leftarrow> copy_up g y 0 x (length xs) (length ys) h;
              h \<leftarrow> setval g h pa y (length pre);
              setval g h pa x (length pre + 1) } = Some h3" using 1 2 3 by simp
  have "tower_in g ?h1 ((l @ (x, xs @ ys) # (y, ys) # r) # (pl @ (pa, ?pes) # pr) # T)"
    by (rule tower_in_put(1) [OF g repD(3) [OF r] e])
  then show "tower_in g h3 ((l @ (x, xs @ ys) # (y, ys) # r) # (pl @ (pa, ?p2) # pr) # T)"
    unfolding h3 by (rule tower_in_put2 [OF g _ p2])
  show "frame {x, pa} h h3" unfolding h3 by (intro frame_put frame_refl) auto
qed

lemma merge_rep:
  fixes h :: "'o heap"
  assumes g: "geo_ok g" and L: "0 < L"
    and r: "rep g h head L ((l @ (x, xs) # (y, ys) # r) # (pl @ (pa, pre @ (k1, x) # (k2, y) # post) # pr) # T)"
    and len: "length l = length (flat pl) + length pre"
    and fit: "length xs + length ys \<le> no_pairs g" and ne: "xs \<noteq> []" "ys \<noteq> []"
    and f2: "fill 2 l" "fill 2 r" "fills 2 ((pl @ (pa, pre @ (k1, x) # (k2, y) # post) # pr) # T)"
    and IH: "\<And>(h' :: 'o heap) lv1. rem_pre g h' head (Suc L) (lv1 # T) (bkey g pa (length pre)) k1 \<Longrightarrow>
       \<exists>ret head' h'' T1. btree_remove_level g head h' (bkey g pa (length pre)) (Suc L) = Some (ret, head', h'')
         \<and> removed g h' head (Suc L) (lv1 # T) k1 ret head' h'' T1"
  shows "\<exists>head' h' T'. btree_merge_nodes g head h L x (length xs) y (length ys) pa (length pre) = Some (head', h')
     \<and> rebalanced g h L ((l @ (x, xs) # (y, ys) # r) # (pl @ (pa, pre @ (k1, x) # (k2, y) # post) # pr) # T)
         head' h' T'"
proof -
  let ?lv = "l @ (x, xs) # (y, ys) # r" and ?lv1 = "pl @ (pa, pre @ (k1, x) # (k2, y) # post) # pr"
  let ?lv' = "l @ (x, xs @ ys) # r" and ?lvs = "pl @ (pa, pre @ (k1, y) # (k2, x) # post) # pr"
  let ?A = "fst ` set ?lv'" and ?R = "set (addrs (?lv1 # T))"
  note rr = repD [OF r]
  define h3 where "h3 = put g (put g h x (pad g (xs @ ys))) pa (pad g (pre @ (k1, y) # (k2, x) # post))"
  note st = merge_stores [OF g r fit h3_def]
  have ok1: "tower_ok (?lv1 # T)" using rr(2) by simp
  have keys: "map fst (pre @ (k1, y) # (k2, x) # post) = map fst (pre @ (k1, x) # (k2, y) # post)" by simp
  note val = tower_ok_values [OF ok1 keys]
  have hd3: "head_ok head (Suc L) (?lvs # T)"
    using head_ok_nodes [OF repD(4) [OF rep_tl [OF r]], of "?lvs # T"] by simp
  have rep3: "rep g h3 head (Suc L) (?lvs # T)"
    using val(1) st(2) hd3 by (simp add: rep_def tower_in_Cons)
  have pa3: "nd g h3 pa = Some (pad g (pre @ (k1, y) # (k2, x) # post))"
      "entries_ok g (pre @ (k1, y) # (k2, x) # post)"
    using st(2) by (auto simp: tower_in_Cons lnode_in_def)
  have paT: "pa \<notin> set (addrs T)" using rr(3) by (auto simp: tower_in_Cons)
  have pre3: "rem_pre g h3 head (Suc L) (?lvs # T) (bkey g pa (length pre)) k1"
  proof -
    have "kval g h3 (bkey g pa (length pre)) = Some k1"
      using kval_bkey_pad [OF g pa3, of "length pre"] by simp
    moreover have f: "fills 2 T" "fill 2 ?lvs" using f2(3) by simp_all
    moreover have "fill 1 ?lvs" using f(2) by (rule fill_mono) simp
    moreover have "\<exists>l a es r j. ?lvs = l @ (a, es) # r \<and> bkey g pa (length pre) = bkey g a j
        \<and> Suc j < length es \<and> k1 = fst (es ! j)"
      by (intro exI [of _ pl] exI [of _ pa] exI [of _ "pre @ (k1, y) # (k2, x) # post"] exI [of _ pr]
          exI [of _ "length pre"]) simp
    ultimately show ?thesis using rep3 paT L by (simp add: rem_pre_def)
  qed
  obtain ret head' h4 T1 where 4: "btree_remove_level g head h3 (bkey g pa (length pre)) (Suc L) = Some (ret, head', h4)"
      "removed g h3 head (Suc L) (?lvs # T) k1 ret head' h4 T1" using IH [OF pre3] by blast
  have flat3: "flat ?lvs = (flat pl @ pre) @ (k1, y) # (k2, x) # post @ flat pr" by simp
  have p1: "posn k1 (flat ?lvs) = length l"
    using posn_at [OF flat_desc [OF val(1)], of "length l"] len by (simp add: nth_append)
  have del: "del_at (length l) (flat ?lvs) = (flat pl @ pre) @ (k2, x) # post @ flat pr"
    unfolding flat3 using del_at_length [of "flat pl @ pre"] len by simp
  let ?R1 = "set (addrs T1)"
  have ch4: "changes ?R ?R1 h3 h4" using 4(2) by (simp add: removed_def)
  have lo: "lows_le (del_at (length l) (lows_of (?lv1 # T))) (lows_of T1)"
    using 4(2) p1 val(2) L by (simp add: removed_def Let_def)
  have T1e: "l = [] \<and> r = []" "bh_node head' = x" "bh_height head' = L" if e: "T1 = []"
  proof -
    obtain k3 where k3: "(flat pl @ pre) @ (k2, x) # post @ flat pr = [(k3, bh_node head')]" "bh_height head' = L"
      using 4(2) e p1 del L by (auto simp: removed_def Let_def)
    then show "l = [] \<and> r = []" "bh_node head' = x" "bh_height head' = L"
      using len rr(2) by (auto simp: append_eq_Cons_conv)
  qed
  have T1n: "rep g h4 head' (Suc L) T1" "flat (hd T1) = (flat pl @ pre) @ (k2, x) # post @ flat pr"
    "fill 2 (hd T1)" if "T1 \<noteq> []"
    using 4(2) that p1 del L by (simp_all add: removed_def Let_def)
  have f4: "fills 2 T1" using T1n(3) 4(2) by (cases T1) (auto simp: removed_def)
  have okT1: "tower_ok T1" "tower_in g h4 T1"
    using repD(2,3) [OF T1n(1)] by (cases T1; simp add: tower_in_def)+
  have mg: "tower_ok (?lv' # T1)" "lows_le (lows_of (?lv # ?lv1 # T)) (lows_of (?lv' # T1))"
    using tower_ok_merge [OF rr(2) len ne okT1(1) fills_mono [OF f4] T1e(1) T1n(2) lo] by simp_all
  have dj: "y \<notin> ?A" "(insert y ?A) \<inter> ?R = {}" "distinct (map fst ?lv')"
    using rr(3) by (auto simp: tower_in_Cons)
  have lv3: "level_in g h3 ?lv'" "lnode_in g h3 (y, ys)" using st(2) by (auto simp: tower_in_Cons)
  have "?A \<inter> ?R = {}" "fst ` set [(y, ys)] \<inter> ?R = {}" using dj(2) by auto
  with lv3 have lv4: "level_in g h4 ?lv'" "?A \<inter> ?R1 = {}" "lnode_in g h4 (y, ys)" "y \<notin> ?R1"
    using changes_level [OF ch4 lv3(1)] changes_level [OF ch4, of g "[(y, ys)]"] by auto
  obtain h5 where 5: "heap_free h4 y = Some h5" "changes {y} {} h4 h5"
    using free_node [of y h4] lv4(3) by (auto simp: lnode_in_def nd_Node)
  have t4: "tower_in g h4 (?lv' # T1)" using lv4 dj(3) okT1(2) by (simp add: tower_in_Cons)
  have t5: "tower_in g h5 (?lv' # T1)"
    using changes_tower(1) [OF 5(2) t4] dj(1) lv4(4) by auto
  have ad: "set (addrs (?lv # ?lv1 # T)) = insert y ?A \<union> ?R" "set (addrs (?lv' # T1)) = ?A \<union> ?R1" by auto
  have own: "\<forall>p \<in> insert y ?A \<union> ?R. mem h p \<noteq> None" using tower_in_mem [OF rr(3)] unfolding ad(1) by blast
  have c3: "changes (insert y ?A \<union> ?R) (insert y ?A \<union> ?R) h h3"
    by (rule changes_frame [OF st(3) _ own]) auto
  have c4: "changes (insert y ?A \<union> ?R) (insert y ?A \<union> ?R1) h3 h4"
    by (rule changes_grow [OF ch4 _ dj(2)]) (use c3 in \<open>simp add: changes_def\<close>)
  have own4: "\<forall>p \<in> ?A \<union> ?R1. mem h4 p \<noteq> None" using tower_in_mem [OF t4] unfolding ad(2) by blast
  have "changes ((?A \<union> ?R1) \<union> {y}) ((?A \<union> ?R1) \<union> {}) h4 h5"
    by (rule changes_grow [OF 5(2) own4]) (use dj(1) lv4(4) in auto)
  moreover have "(?A \<union> ?R1) \<union> {y} = insert y ?A \<union> ?R1" "(?A \<union> ?R1) \<union> {} = ?A \<union> ?R1" by blast+
  ultimately have c5: "changes (insert y ?A \<union> ?R1) (?A \<union> ?R1) h4 h5" by (simp only:)
  have c: "changes (set (addrs (?lv # ?lv1 # T))) (set (addrs (?lv' # T1))) h h5"
    unfolding ad using changes_trans [OF changes_trans [OF c3 c4] c5] .
  have rep5: "rep g h5 head' L (?lv' # T1)"
  proof (cases "T1 = []")
    case True
    then show ?thesis using mg(1) t5 T1e by (simp add: rep_def head_ok_def)
  next
    case False
    have "head_ok head' L (?lv' # T1)" using repD(4) [OF T1n(1) [OF False]] False by (auto simp: head_ok_def)
    then show ?thesis using mg(1) t5 by (simp add: rep_def)
  qed
  have "fill 2 ?lv'"
  proof -
    have "2 \<le> length xs + length ys" using ne by (cases xs; cases ys) auto
    then show ?thesis using f2 by simp
  qed
  then have "rebalanced g h L (?lv # ?lv1 # T) head' h5 (?lv' # T1)"
    unfolding rebalanced_def using rep5 f4 c mg(2) by simp
  moreover have "btree_merge_nodes g head h L x (length xs) y (length ys) pa (length pre) = Some (head', h5)"
    using st(1) 4(1) 5(1) by (auto simp: btree_merge_nodes.simps Option.bind_eq_Some_conv)
  ultimately show ?thesis by blast
qed


section \<open>Rebalancing\<close>

text \<open>What \<open>rebalance\<close> does, once the parent and the neighbours are known.\<close>

lemma rebalance_run:
  assumes g: "geo_ok g" and find: "find_level g head h kp (Suc L) = Some (pa, h1)"
      "getpos g h1 pa kp = Some (length pre)"
    and pa: "nd g h1 pa = Some (pad g (pre @ (ke, a) # post))" "entries_ok g (pre @ (ke, a) # post)"
    and left: "pre \<noteq> [] \<Longrightarrow> nd g h1 (snd (last pre)) = Some (pad g xs) \<and> entries_ok g xs"
    and right: "post \<noteq> [] \<Longrightarrow> nd g h1 (snd (hd post)) = Some (pad g ys) \<and> entries_ok g ys"
  shows "rebalance g head h kp L a n =
    (if pre \<noteq> [] \<and> n + length xs \<le> no_pairs g
     then btree_merge_nodes g head h1 L (snd (last pre)) (length xs) a n pa (length pre - 1)
     else if post \<noteq> [] \<and> n + length ys \<le> no_pairs g
     then btree_merge_nodes g head h1 L a n (snd (hd post)) (length ys) pa (length pre)
     else if n > 1 then Some (head, h1)
     else if pre \<noteq> [] then
       (if (length xs - n) div 2 < 1 then None
        else do { h \<leftarrow> steal_l g h1 (snd (last pre)) (length xs) a n pa (length pre - 1) ((length xs - n) div 2);
                  Some (head, h) })
     else if post \<noteq> [] then
       (if (length ys - n) div 2 < 1 then None
        else do { h \<leftarrow> steal_r g h1 a n (snd (hd post)) (length ys) pa (length pre) ((length ys - n) div 2);
                  Some (head, h) })
     else None)"
proof -
  let ?pes = "pre @ (ke, a) # post"
  have le: "length ?pes \<le> no_pairs g" using pa(2) by (rule entries_ok_length)
  have c: "bval g h1 pa (length pre) = Some a"
    using bval_pad [OF g pa, of "length pre"] le by simp
  have pf: "getfill g h1 pa (length pre) = Some (length ?pes)" by (rule getfill_pad [OF g pa]) simp
  have l: "bval g h1 pa (length pre - 1) = Some (snd (last pre))" "snd (last pre) \<noteq> 0"
      "getfill g h1 (snd (last pre)) 0 = Some (length xs)" if "pre \<noteq> []"
  proof -
    have i: "?pes ! (length pre - 1) = last pre" "length pre - 1 < no_pairs g"
      using that le by (cases pre rule: rev_cases; simp add: nth_append)+
    then show "bval g h1 pa (length pre - 1) = Some (snd (last pre))"
    proof -
      have "length pre - 1 < length ?pes" by (simp add: less_Suc_eq_le le_diff_conv)
      then show ?thesis using bval_pad [OF g pa i(2)] i(1) by (simp only: if_True)
    qed
    show "snd (last pre) \<noteq> 0" using pa(2) that by (simp add: entries_ok_def)
    show "getfill g h1 (snd (last pre)) 0 = Some (length xs)"
      using left [OF that] getfill_pad [OF g, of h1 "snd (last pre)" xs 0] by simp
  qed
  have r: "bval g h1 pa (length pre + 1) = Some (snd (hd post))" "snd (hd post) \<noteq> 0"
      "getfill g h1 (snd (hd post)) 0 = Some (length ys)" if "post \<noteq> []"
  proof -
    have i: "?pes ! (length pre + 1) = hd post" "length pre + 1 < no_pairs g"
      using that le by (cases post; simp add: nth_append)+
    then show "bval g h1 pa (length pre + 1) = Some (snd (hd post))"
      using bval_pad [OF g pa i(2)] that by simp
    show "snd (hd post) \<noteq> 0" using pa(2) that by (simp add: entries_ok_def)
    show "getfill g h1 (snd (hd post)) 0 = Some (length ys)"
      using right [OF that] getfill_pad [OF g, of h1 "snd (hd post)" ys 0] by simp
  qed
  show ?thesis
    using find c pf l r by (cases "pre = []"; cases "post = []") (simp_all add: rebalance.simps)
qed

lemma left_neighbour:
  assumes ch: "list_all2 child_ok (flat pl @ pre @ (ke, a) # post @ flat pr) (l @ n # r)"
    and len: "length l = length (flat pl) + length pre" and ne: "pre \<noteq> []"
  obtains pre' kl x xs l' where "pre = pre' @ [(kl, x)]" "l = l' @ [(x, xs)]"
    "length l' = length (flat pl) + length pre'"
proof -
  from ne obtain pre' kl x where p: "pre = pre' @ [(kl, x)]" by (metis rev_exhaust surj_pair)
  have "l \<noteq> []" using len p by auto
  then obtain l' n' where l: "l = l' @ [n']" by (metis rev_exhaust)
  have le: "length (flat pl @ pre') = length l'" using len p l by simp
  have "list_all2 child_ok ((flat pl @ pre') @ (kl, x) # (ke, a) # post @ flat pr) (l' @ n' # n # r)"
    using ch p l by simp
  then have "child_ok (kl, x) n'" unfolding list_all2_append [OF le] by simp
  then have "n' = (x, snd n')" by (simp add: child_ok_def prod_eq_iff)
  with p l le that show thesis by simp
qed

lemma right_neighbour:
  assumes ch: "list_all2 child_ok (flat pl @ pre @ (ke, a) # post @ flat pr) (l @ n # r)"
    and len: "length l = length (flat pl) + length pre" and ne: "post \<noteq> []"
  obtains post' kr y ys r' where "post = (kr, y) # post'" "r = (y, ys) # r'"
proof -
  from ne obtain post' kr y where p: "post = (kr, y) # post'" by (metis neq_Nil_conv surj_pair)
  have le: "length (flat pl @ pre) = length l" using len by simp
  have "list_all2 child_ok ((flat pl @ pre) @ (ke, a) # (kr, y) # post' @ flat pr) (l @ n # r)"
    using ch p by simp
  then have "list_all2 child_ok ((kr, y) # post' @ flat pr) r" unfolding list_all2_append [OF le] by simp
  then obtain n' r' where "r = n' # r'" "child_ok (kr, y) n'" by (auto simp: list_all2_Cons1)
  moreover from this have "n' = (y, snd n')" by (simp add: child_ok_def prod_eq_iff)
  ultimately show thesis using that p by metis
qed

lemma level_node:
  "level_in g h lv \<Longrightarrow> (b, n) \<in> set lv \<Longrightarrow> nd g h b = Some (pad g n) \<and> entries_ok g n"
  by (fastforce simp: level_in_def lnode_in_def)

lemma changes_refl: "(\<And>p. p \<in> F \<Longrightarrow> mem h p \<noteq> None) \<Longrightarrow> changes F F h h"
  unfolding changes_def by blast

lemma rebalanced_from:
  assumes rb: "rebalanced g h1 L T head' h' T'" and ch: "changes (set (addrs T0)) (set (addrs T)) h h1"
    and eq: "flat (hd T) = flat (hd T0)" "lows_of T = lows_of T0"
  shows "rebalanced g h L T0 head' h' T'"
  using rb changes_trans [OF ch] eq by (simp add: rebalanced_def)


lemma rebalance_rep:
  fixes h :: "'o heap"
  assumes g: "geo_ok g" and L: "0 < L"
    and r0: "rep g h head L ((l @ (a, es) # r) # lv1 # T0)"
    and loc: "located k (lv1 # T0) l (a, es) r" and kv: "kval g h kp = Some k"
    and kd: "kaddr kp \<inter> set (addrs (lv1 # T0)) = {}"
    and f2: "fill 2 l" "fill 2 r" "fills 2 (lv1 # T0)" and ne: "es \<noteq> []"
    and IH: "\<And>(h' :: 'o heap) lv1' T pa j k1. length T = length T0 \<Longrightarrow>
       rem_pre g h' head (Suc L) (lv1' # T) (bkey g pa j) k1 \<Longrightarrow>
       \<exists>ret head' h'' T1. btree_remove_level g head h' (bkey g pa j) (Suc L) = Some (ret, head', h'')
         \<and> removed g h' head (Suc L) (lv1' # T) k1 ret head' h'' T1"
  shows "\<exists>head' h' T'. rebalance g head h kp L a (length es) = Some (head', h')
     \<and> rebalanced g h L ((l @ (a, es) # r) # lv1 # T0) head' h' T'"
proof -
  let ?lv = "l @ (a, es) # r"
  note rr0 = repD [OF r0]
  have r1: "rep g h head (Suc L) (lv1 # T0)" using rep_tl [OF r0] by simp
  have kd': "kaddr kp \<inter> set (addrs T0) = {}" using kd by auto
  obtain pl pa pes pr T h1 where f: "find_level g head h kp (Suc L) = Some (pa, h1)"
      "lv1 = pl @ (pa, pes) # pr" "located k T pl (pa, pes) pr" "rep g h1 head (Suc L) (lv1 # T)"
      "lows_of T = lows_of T0" "shape T = shape T0" "frame (set (addrs T0)) h h1"
      "nd g h1 pa = Some (pad g pes)" "entries_ok g pes" "pa \<noteq> 0"
    by (rule find_level_rep [OF r1 g kv kd'])
  have kv1: "kval g h1 kp = Some k" using frame_kval [OF f(7) kd'] kv by simp
  have fT: "fills 2 T" "fill 2 lv1" using f2(3) shape_fills [OF f(6)] by simp_all
  have ad: "addrs T = addrs T0" by (rule shape_addrs [OF f(6)])
  have ok: "tower_ok (?lv # lv1 # T)"
    using rr0(2) repD(2) [OF f(4)] f(5) fills_mono [OF fT(1), of 1] by simp
  have rep1: "rep g h1 head L (?lv # lv1 # T)"
  proof (rule rep_Cons [OF f(4) ok])
    show "level_in g h1 ?lv"
      using rr0(3) by (intro level_in_frame [OF f(7)]) (auto simp: tower_in_Cons)
    show "distinct (map fst ?lv)" "fst ` set ?lv \<inter> set (addrs (lv1 # T)) = {}"
      using rr0(3) ad by (auto simp: tower_in_Cons)
  qed
  have loc1: "located k (lv1 # T) l (a, es) r" using loc f(5) by (simp add: located_def)
  have ch1: "changes (set (addrs (?lv # lv1 # T0))) (set (addrs (?lv # lv1 # T))) h h1"
  proof -
    have "set (addrs T0) \<subseteq> set (addrs (?lv # lv1 # T0))" by auto
    moreover have "set (addrs (?lv # lv1 # T)) = set (addrs (?lv # lv1 # T0))" using ad by simp
    ultimately show ?thesis using changes_frame [OF f(7)] tower_in_mem [OF rr0(3)] by metis
  qed
  have lows: "lows_of (?lv # lv1 # T) = lows_of (?lv # lv1 # T0)" using f(5) by simp
  have goal: "\<exists>T'. rebalanced g h L (?lv # lv1 # T0) head' h' T'"
    if "rebalanced g h1 L (?lv # lv1 # T) head' h' T'" for head' h' T'
    using rebalanced_from [OF that ch1 _ lows] by auto
  note par = parent_of [OF ok [unfolded f(2)] loc1 [unfolded f(2)] f(3)]
  define pre ke post where "pre = take (posn k pes) pes" and "ke = fst (pes ! posn k pes)"
    and "post = drop (Suc (posn k pes)) pes"
  have pes: "pes = pre @ (ke, a) # post" "length pre = posn k pes"
    using split_at [OF par(1)] par by (auto simp: pre_def ke_def post_def prod_eq_iff)
  have len: "length l = length (flat pl) + length pre" using par(2) pes(2) by simp
  have gp: "getpos g h1 pa kp = Some (length pre)" using getpos_pad [OF g f(8) kv1] pes(2) by simp
  have lv1: "lv1 = pl @ (pa, pre @ (ke, a) # post) # pr" using f(2) pes(1) by simp
  have chl: "list_all2 child_ok (flat pl @ pre @ (ke, a) # post @ flat pr) ?lv" using ok lv1 by simp
  have np: "4 \<le> no_pairs g" using g by (simp add: geo_ok_def)
  have lvl: "level_in g h1 ?lv" using repD(3) [OF rep1] by (simp add: tower_in_Cons)
  have esn: "nd g h1 a = Some (pad g es)" "entries_ok g es" using level_node [OF lvl, of a es] by simp_all
  obtain y ys where rt: "post \<noteq> [] \<Longrightarrow> \<exists>kr post' r'. post = (kr, y) # post' \<and> r = (y, ys) # r'"
  proof (cases "post = []")
    case False
    show thesis by (rule right_neighbour [OF chl len False]) (rule that, simp)
  qed (use that in simp)
  obtain x xs where lf: "pre \<noteq> [] \<Longrightarrow> \<exists>kl pre' l'. pre = pre' @ [(kl, x)] \<and> l = l' @ [(x, xs)]
      \<and> length l' = length (flat pl) + length pre'"
  proof (cases "pre = []")
    case False
    show thesis by (rule left_neighbour [OF chl len False]) (rule that, simp)
  qed (use that in simp)
  have xsn: "nd g h1 (snd (last pre)) = Some (pad g xs) \<and> entries_ok g xs" "2 \<le> length xs"
      "length xs \<le> no_pairs g" if "pre \<noteq> []"
    using lf [OF that] level_node [OF lvl, of x xs] f2(1) by (auto dest: entries_ok_length)
  have ysn: "nd g h1 (snd (hd post)) = Some (pad g ys) \<and> entries_ok g ys" "2 \<le> length ys"
      "length ys \<le> no_pairs g" if "post \<noteq> []"
    using rt [OF that] level_node [OF lvl, of y ys] f2(2) by (auto dest: entries_ok_length)
  note run = rebalance_run [OF g f(1) gp f(8) [unfolded pes(1)] f(9) [unfolded pes(1)] xsn(1) ysn(1)]
  have right_case: "\<exists>kr post' r'. post = (kr, y) # post' \<and> r = (y, ys) # r' \<and> fill 2 r'
      \<and> rep g h1 head L ((l @ (a, es) # (y, ys) # r') # (pl @ (pa, pre @ (ke, a) # (kr, y) # post') # pr) # T)
      \<and> fills 2 ((pl @ (pa, pre @ (ke, a) # (kr, y) # post') # pr) # T)
      \<and> ?lv # lv1 # T = (l @ (a, es) # (y, ys) # r') # (pl @ (pa, pre @ (ke, a) # (kr, y) # post') # pr) # T"
    if "post \<noteq> []"
    using rt [OF that] rep1 lv1 fT f2(2) by fastforce
  have left_case: "\<exists>kl pre' l'. pre = pre' @ [(kl, x)] \<and> l = l' @ [(x, xs)] \<and> fill 2 l'
      \<and> length l' = length (flat pl) + length pre'
      \<and> rep g h1 head L ((l' @ (x, xs) # (a, es) # r) # (pl @ (pa, pre' @ (kl, x) # (ke, a) # post) # pr) # T)
      \<and> fills 2 ((pl @ (pa, pre' @ (kl, x) # (ke, a) # post) # pr) # T)
      \<and> ?lv # lv1 # T = (l' @ (x, xs) # (a, es) # r) # (pl @ (pa, pre' @ (kl, x) # (ke, a) # post) # pr) # T"
    if "pre \<noteq> []"
    using lf [OF that] rep1 lv1 fT f2(1) by fastforce
  have IH': "\<exists>ret head' h'' T1. btree_remove_level g head h' (bkey g pa j) (Suc L) = Some (ret, head', h'')
         \<and> removed g h' head (Suc L) (lv1' # T) k1 ret head' h'' T1"
    if "rem_pre g h' head (Suc L) (lv1' # T) (bkey g pa j) k1" for h' :: "'o heap" and lv1' j k1
    using IH [OF shape_length [OF f(6)] that] .
  have es1: "length es = 1 \<or> length es > 1" using ne by (cases es) auto
  consider (ml) "pre \<noteq> []" "length es + length xs \<le> no_pairs g"
    | (mr) "\<not> (pre \<noteq> [] \<and> length es + length xs \<le> no_pairs g)" "post \<noteq> []" "length es + length ys \<le> no_pairs g"
    | (id) "\<not> (pre \<noteq> [] \<and> length es + length xs \<le> no_pairs g)"
        "\<not> (post \<noteq> [] \<and> length es + length ys \<le> no_pairs g)" "length es > 1"
    | (sl) "pre \<noteq> []" "\<not> length es + length xs \<le> no_pairs g"
        "\<not> (post \<noteq> [] \<and> length es + length ys \<le> no_pairs g)" "length es = 1"
    | (sr) "pre = []" "post \<noteq> []" "\<not> length es + length ys \<le> no_pairs g" "length es = 1"
    | (none) "pre = []" "post = []"
    using es1 by argo
  then show ?thesis
  proof cases
    case ml
    obtain kl pre' l' where c: "pre = pre' @ [(kl, x)]" "fill 2 l'" "length l' = length (flat pl) + length pre'"
      "rep g h1 head L ((l' @ (x, xs) # (a, es) # r) # (pl @ (pa, pre' @ (kl, x) # (ke, a) # post) # pr) # T)"
      "fills 2 ((pl @ (pa, pre' @ (kl, x) # (ke, a) # post) # pr) # T)"
      "?lv # lv1 # T = (l' @ (x, xs) # (a, es) # r) # (pl @ (pa, pre' @ (kl, x) # (ke, a) # post) # pr) # T"
      using left_case [OF ml(1)] by blast
    have "xs \<noteq> []" "length xs + length es \<le> no_pairs g" using xsn(2) [OF ml(1)] ml(2) by auto
    then obtain head' h' T' where m: "btree_merge_nodes g head h1 L x (length xs) a (length es) pa (length pre') = Some (head', h')"
      "rebalanced g h1 L (?lv # lv1 # T) head' h' T'"
      using merge_rep [OF g L c(4,3) _ _ ne c(2) f2(2) c(5) IH'] unfolding c(6) by blast
    show ?thesis using run ml m(1) goal [OF m(2)] c(1) by auto
  next
    case mr
    obtain kr post' r' where c: "post = (kr, y) # post'" "fill 2 r'"
      "rep g h1 head L ((l @ (a, es) # (y, ys) # r') # (pl @ (pa, pre @ (ke, a) # (kr, y) # post') # pr) # T)"
      "fills 2 ((pl @ (pa, pre @ (ke, a) # (kr, y) # post') # pr) # T)"
      "?lv # lv1 # T = (l @ (a, es) # (y, ys) # r') # (pl @ (pa, pre @ (ke, a) # (kr, y) # post') # pr) # T"
      using right_case [OF mr(2)] by blast
    have "ys \<noteq> []" using ysn(2) [OF mr(2)] by auto
    then obtain head' h' T' where m: "btree_merge_nodes g head h1 L a (length es) y (length ys) pa (length pre) = Some (head', h')"
      "rebalanced g h1 L (?lv # lv1 # T) head' h' T'"
      using merge_rep [OF g L c(3) len mr(3) ne _ f2(1) c(2) c(4) IH'] unfolding c(5) by blast
    show ?thesis using run mr m(1) goal [OF m(2)] c(1) by auto
  next
    case id
    have "changes (set (addrs (?lv # lv1 # T))) (set (addrs (?lv # lv1 # T))) h1 h1"
      by (rule changes_refl) (rule tower_in_mem [OF repD(3) [OF rep1]])
    then have "rebalanced g h1 L (?lv # lv1 # T) head h1 (?lv # lv1 # T)"
      using rep1 f2 fT id(3) unfolding rebalanced_def by simp
    then show ?thesis using run id goal by auto
  next
    case sl
    obtain kl pre' l' where c: "pre = pre' @ [(kl, x)]" "fill 2 l'" "length l' = length (flat pl) + length pre'"
      "rep g h1 head L ((l' @ (x, xs) # (a, es) # r) # (pl @ (pa, pre' @ (kl, x) # (ke, a) # post) # pr) # T)"
      "fills 2 ((pl @ (pa, pre' @ (kl, x) # (ke, a) # post) # pr) # T)"
      "?lv # lv1 # T = (l' @ (x, xs) # (a, es) # r) # (pl @ (pa, pre' @ (kl, x) # (ke, a) # post) # pr) # T"
      using left_case [OF sl(1)] by blast
    have full: "length xs = no_pairs g" using xsn(3) [OF sl(1)] sl(2,4) by simp
    let ?n = "(length xs - length es) div 2"
    have n: "0 < ?n" "?n + 2 \<le> length xs" "?n + length es \<le> no_pairs g" using full sl(4) np by auto
    obtain h' T' where m: "steal_l g h1 x (length xs) a (length es) pa (length pre') ?n = Some h'"
      "rebalanced g h1 L (?lv # lv1 # T) head h' T'"
      using steal_l_rep [OF g c(4,3) n ne c(2) f2(2) c(5)] unfolding c(6) by blast
    show ?thesis using run sl m(1) goal [OF m(2)] c(1) n(1) by auto
  next
    case sr
    obtain kr post' r' where c: "post = (kr, y) # post'" "fill 2 r'"
      "rep g h1 head L ((l @ (a, es) # (y, ys) # r') # (pl @ (pa, pre @ (ke, a) # (kr, y) # post') # pr) # T)"
      "fills 2 ((pl @ (pa, pre @ (ke, a) # (kr, y) # post') # pr) # T)"
      "?lv # lv1 # T = (l @ (a, es) # (y, ys) # r') # (pl @ (pa, pre @ (ke, a) # (kr, y) # post') # pr) # T"
      using right_case [OF sr(2)] by blast
    have full: "length ys = no_pairs g" using ysn(3) [OF sr(2)] sr(3,4) by simp
    let ?n = "(length ys - length es) div 2"
    have n: "0 < ?n" "?n + 2 \<le> length ys" "?n + length es \<le> no_pairs g" using full sr(4) np by auto
    obtain h' T' where m: "steal_r g h1 a (length es) y (length ys) pa (length pre) ?n = Some h'"
      "rebalanced g h1 L (?lv # lv1 # T) head h' T'"
      using steal_r_rep [OF g c(3) len n ne f2(1) c(2) c(4)] unfolding c(5) by blast
    show ?thesis using run sr m(1) goal [OF m(2)] c(1) n(1) by auto
  next
    case none
    then have "fill 2 (pl @ (pa, [(ke, a)]) # pr)" using fT(2) lv1 by simp
    then show ?thesis by simp
  qed
qed


section \<open>One level of removal\<close>

lemma node_interval:
  assumes ok: "tower_ok ((l @ (a, es) # r) # rest)" and e: "e \<in> set es"
  shows "interval (fst e) (lows_of rest) (length l)"
proof -
  have len: "length (lows_of rest) = length (l @ (a, es) # r)" by (rule tower_lows_length [OF ok])
  define El E Er where "El = take (length l) (lows_of rest)" and "E = lows_of rest ! length l"
    and "Er = drop (Suc (length l)) (lows_of rest)"
  have E: "lows_of rest = El @ E # Er" "length El = length l"
    using len by (auto simp: El_def E_def Er_def intro: split_at)
  have "list_all2 (\<lambda>E n. \<forall>x \<in> set (snd n). E \<le> fst x) (El @ E # Er) (l @ (a, es) # r)"
    using tower_lows [OF ok] E(1) by simp
  then have low: "E \<le> fst e" using E(2) e by (simp add: list_all2_append)
  have "uppers None (El @ E # Er) (l @ (a, es) # r)" using ok E(1) by simp
  then have "below (endb None El) (fst e)" using E(2) e by (auto simp: uppers_append)
  then show ?thesis
    using low E interval_append [OF E(2)] by (auto simp: endb_def split: if_splits)
qed

lemma node_located:
  assumes ok: "tower_ok ((l @ (a, es) # r) # rest)" and e: "e \<in> set es"
  shows "located (fst e) rest l (a, es) r"
proof -
  have "fst (flat (hd rest) ! length l) \<le> fst e" if "rest \<noteq> []"
  proof -
    have ch: "list_all2 child_ok (flat (hd rest)) (l @ (a, es) # r)" using ok that by (cases rest) auto
    then have "length l < length (flat (hd rest))" by (auto dest: list_all2_lengthD)
    then have "child_ok (flat (hd rest) ! length l) (a, es)" using list_all2_nthD [OF ch] by fastforce
    then show ?thesis using e by (simp add: child_ok_def)
  qed
  then show ?thesis using node_interval [OF ok e] by (simp add: located_def)
qed

lemma located_key:
  assumes ok: "tower_ok ((l @ (a, es) # r) # rest)" and loc: "located k rest l (a, es) r"
    and k: "k \<in> fst ` set (flat (l @ (a, es) # r))"
  shows "posn k es < length es" "fst (es ! posn k es) = k"
proof -
  have "k \<notin> fst ` set (flat l)" "k \<notin> fst ` set (flat r)" using located_sides [OF ok loc] by auto
  then have "k \<in> fst ` set es" using k by auto
  then obtain i where i: "i < length es" "fst (es ! i) = k" by (auto simp: in_set_conv_nth)
  have "desc es" using ok by simp
  then have "posn k es = i" using posn_at i by blast
  with i show "posn k es < length es" "fst (es ! posn k es) = k" by simp_all
qed

lemma lows_del:
  assumes len: "length (lows_of rest) = length (l @ (a, es) # r)" and f: "fill 1 l" and i: "Suc i < length es"
  shows "lows_of ((l @ (a, del_at i es) # r) # rest)
       = del_at (length (flat l) + i) (lows_of ((l @ (a, es) # r) # rest))"
proof -
  define El E Er where "El = take (length l) (lows_of rest)" and "E = lows_of rest ! length l"
    and "Er = drop (Suc (length l)) (lows_of rest)"
  have E: "lows_of rest = El @ E # Er" "length El = length l"
    using len by (auto simp: El_def E_def Er_def intro: split_at)
  have "length (seps El l) = length (flat l)" using E(2) f by (intro length_seps)
  then show ?thesis
    using E i del_at_mid [of i "map fst (butlast es)" "seps El l" "E # seps Er r"]
    by (simp add: seps_append butlast_del_at map_del_at)
qed

text \<open>The state after the entry is gone from its node, before any rebalancing.\<close>

lemma tower_ok_del:
  assumes ok: "tower_ok ((l @ (a, es) # r) # rest)" and loc: "located k rest l (a, es) r"
  shows "tower_ok ((l @ (a, del_at i es) # r) # rest)"
proof (rule tower_ok_put [OF ok loc])
  show "desc (del_at i es)" using ok desc_del_at by auto
  show "fst ` set (del_at i es) \<subseteq> insert k (fst ` set es)" using set_del_at [of i es] by auto
qed


lemma remove_entry:
  fixes h :: "'o heap"
  assumes g: "geo_ok g" and L: "0 < L" and pre: "rem_pre g h head L (lv # rest) kp k"
  obtains l a es r rest' h1 h2 i k2 where "find_level g head h kp L = Some (a, h1)"
    "lv = l @ (a, es) # r" "length rest' = length rest" "i < length es" "i = posn k es"
    "getpos g h1 a kp = Some i" "getfill g h1 a i = Some (length es)"
    "keycmp g h1 a i kp = Some 0" "bval g h1 a i = Some (snd (flat lv ! posn k (flat lv)))"
    "do { h \<leftarrow> copy_up g a (Suc i) a i (length es - 1 - i) h1; clearpair g h a (length es - 1) } = Some h2"
    "rep g h2 head L ((l @ (a, del_at i es) # r) # rest')"
    "changes (set (addrs (lv # rest))) (set (addrs ((l @ (a, del_at i es) # r) # rest'))) h h2"
    "flat (l @ (a, del_at i es) # r) = del_at (posn k (flat lv)) (flat lv)"
    "L \<noteq> 1 \<longrightarrow> lows_of ((l @ (a, del_at i es) # r) # rest') = del_at (posn k (flat lv)) (lows_of (lv # rest))"
    "kval g h2 kp = Some k2" "located k2 rest' l (a, del_at i es) r"
    "kaddr kp \<inter> set (addrs rest') = {}" "fills 2 rest'"
proof -
  from pre have r: "rep g h head L (lv # rest)" and kv: "kval g h kp = Some k"
    and kd: "kaddr kp \<inter> set (addrs rest) = {}" and f2: "fills 2 rest" "fill 1 lv"
    and at: "if L = 1 then kaddr kp \<inter> set (addrs (lv # rest)) = {} \<and> k \<in> fst ` set (flat lv)
        else \<exists>l a es r j. lv = l @ (a, es) # r \<and> kp = bkey g a j \<and> Suc j < length es \<and> k = fst (es ! j)"
    unfolding rem_pre_def list.sel by blast+
  obtain l a es r' rest' h1 where f: "find_level g head h kp L = Some (a, h1)"
      "lv = l @ (a, es) # r'" "located k rest' l (a, es) r'" "rep g h1 head L (lv # rest')"
      "lows_of rest' = lows_of rest" "shape rest' = shape rest"
      "frame (set (addrs rest)) h h1" "nd g h1 a = Some (pad g es)" "entries_ok g es" "a \<noteq> 0"
    by (rule find_level_rep [OF r g kv kd])
  have kv1: "kval g h1 kp = Some k" using frame_kval [OF f(7) kd] kv by simp
  have ok: "tower_ok ((l @ (a, es) # r') # rest')" using repD(2) [OF f(4)] f(2) by simp
  have ad: "addrs rest' = addrs rest" by (rule shape_addrs [OF f(6)])
  have mem: "k \<in> fst ` set (flat (l @ (a, es) # r'))"
  proof (cases "L = 1")
    case True
    then show ?thesis using at f(2) by simp
  next
    case False
    then obtain l2 a2 es2 r2 j where "lv = l2 @ (a2, es2) # r2" "Suc j < length es2" "k = fst (es2 ! j)"
      using at by auto
    then have "es2 ! j \<in> set (flat lv)" "k = fst (es2 ! j)" by simp_all
    then show ?thesis using f(2) by (metis image_eqI)
  qed
  define i where "i = posn k es"
  note lk = located_key [OF ok f(3) mem, folded i_def]
  have pk: "posn k (flat lv) = length (flat l) + i" using posn_located [OF ok f(3)] f(2) i_def by simp
  have slot: "kp = bkey g a i \<and> Suc i < length es" if "L \<noteq> 1"
  proof -
    from at that obtain l2 a2 es2 r2 j where j: "lv = l2 @ (a2, es2) # r2" "kp = bkey g a2 j"
      "Suc j < length es2" "k = fst (es2 ! j)" by auto
    have ok2: "tower_ok ((l2 @ (a2, es2) # r2) # rest')" using repD(2) [OF f(4)] j(1) by simp
    have "interval k (lows_of rest') (length l2)" using node_interval [OF ok2, of "es2 ! j"] j by simp
    moreover have "interval k (lows_of rest') (length l)" using f(3) by (simp add: located_def)
    ultimately have "length l2 = length l" by (rule interval_unique [OF tower_falls_tl [OF ok]])
    then have "(a2, es2) = (a, es)" using mid_unique j(1) f(2) by metis
    moreover have "posn k es2 = j" using ok2 j by (auto intro: posn_at)
    ultimately show ?thesis using j i_def by simp
  qed
  let ?es = "del_at i es"
  define h2 where "h2 = put g h1 a (pad g ?es)"
  have le: "i < no_pairs g" using lk(1) entries_ok_length [OF f(9)] by simp
  have c: "keycmp g h1 a i kp = Some 0"
    using keycmp_slot [OF g f(8) le kv1] lk entries_ok_length [OF f(9)] by (simp add: nth_pad cmp3_def)
  have v: "bval g h1 a i = Some (snd (flat lv ! posn k (flat lv)))"
    unfolding pk using bval_pad [OF g f(8,9) le] lk(1) nth_flat [of i "(a, es)" l r'] f(2) by simp
  have run: "do { h \<leftarrow> copy_up g a (Suc i) a i (length es - 1 - i) h1; clearpair g h a (length es - 1) } = Some h2"
    unfolding h2_def by (rule remove_slots [OF g f(8,9) lk(1)])
  have e2: "entries_ok g ?es" using f(9) lk(1) by (rule entries_ok_del_at)
  note rr1 = repD [OF f(4) [unfolded f(2)]]
  note tin = tower_in_put [OF g rr1(3) e2]
  have ok2: "tower_ok ((l @ (a, ?es) # r') # rest')" by (rule tower_ok_del [OF ok f(3)])
  have rep2: "rep g h2 head L ((l @ (a, ?es) # r') # rest')"
    unfolding h2_def using ok2 tin(1) head_ok_put [OF rr1(4)] by (simp add: rep_def)
  have ch: "changes (set (addrs (lv # rest))) (set (addrs ((l @ (a, ?es) # r') # rest'))) h h2"
  proof -
    have "frame (set (addrs (lv # rest))) h h1" using f(7) by (rule frame_mono) simp
    moreover have "frame (set (addrs (lv # rest))) h1 h2"
      unfolding h2_def using tin(2) by (rule frame_mono) (simp add: f(2))
    ultimately have "frame (set (addrs (lv # rest))) h h2" by (rule frame_trans)
    moreover have "\<forall>p \<in> set (addrs (lv # rest)). mem h p \<noteq> None"
      using tower_in_mem [OF repD(3) [OF r]] by simp
    moreover have "set (addrs ((l @ (a, ?es) # r') # rest')) = set (addrs (lv # rest))" using f(2) ad by simp
    ultimately show ?thesis using changes_frame [of _ h h2] by simp
  qed
  have fl: "flat (l @ (a, ?es) # r') = del_at (posn k (flat lv)) (flat lv)"
    unfolding pk unfolding f(2) using del_at_mid [OF lk(1), of "flat l" "flat r'"] by simp
  have lows: "L \<noteq> 1 \<longrightarrow> lows_of ((l @ (a, ?es) # r') # rest') = del_at (posn k (flat lv)) (lows_of (lv # rest))"
  proof
    assume "L \<noteq> 1"
    then have "Suc i < length es" using slot by simp
    then show "lows_of ((l @ (a, ?es) # r') # rest') = del_at (posn k (flat lv)) (lows_of (lv # rest))"
      unfolding pk using lows_del [OF tower_lows_length [OF ok], of i] f2(2) f(2,5) by simp
  qed
  have n2: "nd g h2 a = Some (pad g ?es)"
    unfolding h2_def using g f(8) valid_pad [OF e2] by (simp add: put_simps)
  obtain k2 where k2: "kval g h2 kp = Some k2" "located k2 rest' l (a, ?es) r'"
  proof (cases "L = 1")
    case True
    then have "a \<notin> kaddr kp" using at f(2) by auto
    then have "kval g h2 kp = Some k" unfolding h2_def using kv1 by (simp add: put_simps)
    moreover have "located k rest' l (a, ?es) r'" using f(3) by (simp add: located_def)
    ultimately show ?thesis by (rule that)
  next
    case False
    then have s: "kp = bkey g a i" "i < length ?es" using slot by auto
    have "kval g h2 kp = Some (fst (?es ! i))" unfolding s(1) by (rule kval_bkey_pad [OF g n2 e2 s(2)])
    moreover have "located (fst (?es ! i)) rest' l (a, ?es) r'"
      using s(2) by (intro node_located [OF ok2]) simp
    ultimately show ?thesis by (rule that)
  qed
  have "length rest' = length rest" by (rule shape_length [OF f(6)])
  moreover have "fills 2 rest'" using f2(1) shape_fills [OF f(6)] by simp
  ultimately show thesis
    using that [OF f(1,2) _ lk(1) i_def getpos_pad [OF g f(8) kv1, folded i_def]
        getfill_pad [OF g f(8,9) less_imp_le [OF lk(1)]] c v run rep2 ch fl lows k2] kd ad by simp
qed


text \<open>The three ways a removal ends: nothing more to do, rebalancing, and a shrinking root.\<close>

lemma shrink_rep:
  fixes h :: "'o heap"
  assumes g: "geo_ok g" and L: "0 < L" and r: "rep g h head L [[(a, es)]]"
    and es: "L = 1 \<or> 1 \<le> length es"
  shows "\<exists>head' h' T'. btree_shrink g head h (length es) = Some (head', h')
     \<and> changes {a} (set (addrs T')) h h'
     \<and> (if T' = []
         then bh_height head' + 1 = L \<and> (if L = 1 then bh_node head' = 0 \<and> es = []
                                        else \<exists>k2. es = [(k2, bh_node head')])
         else T' = [[(a, es)]] \<and> head' = head \<and> h' = h \<and> 1 \<le> length es \<and> (L \<noteq> 1 \<longrightarrow> 2 \<le> length es))"
proof -
  note rr = repD [OF r]
  have hd: "bh_node head = a" "bh_height head = L" using rr(4) by (auto simp: head_ok_def)
  have a: "nd g h a = Some (pad g es)" "entries_ok g es" "a \<noteq> 0"
    using rr(3) by (auto simp: tower_in_Cons lnode_in_def)
  have np: "0 < no_pairs g" using g by (simp add: geo_ok_def)
  show ?thesis
  proof (cases "length es = 0 \<or> (length es = 1 \<and> L > 1)")
    case True
    obtain h' where 1: "heap_free h a = Some h'" "changes {a} {} h h'"
      using free_node [OF a(3), of h] a(1) by (auto simp: nd_Node)
    let ?head = "head\<lparr>bh_node := (if 0 < length es then snd (es ! 0) else 0), bh_height := L - 1\<rparr>"
    have "btree_shrink g head h (length es) = Some (?head, h')"
      using True hd 1(1) bval_pad [OF g a(1,2) np] by (auto simp: btree_shrink_def)
    moreover have "es = [] \<and> L = 1 \<or> (\<exists>k2 v. es = [(k2, v)]) \<and> L > 1"
      using True es L by (cases es) (auto simp: length_Suc_conv)
    ultimately show ?thesis using 1(2) L by (intro exI [of _ ?head] exI [of _ h'] exI [of _ "[]"]) auto
  next
    case False
    have "changes {a} {a} h h" by (rule changes_refl) (use a(1) in \<open>auto simp: nd_Node\<close>)
    moreover have "btree_shrink g head h (length es) = Some (head, h)"
      using False hd by (auto simp: btree_shrink_def)
    moreover have "1 \<le> length es" "L \<noteq> 1 \<longrightarrow> 2 \<le> length es" using False L by linarith+
    ultimately show ?thesis by (intro exI [of _ head] exI [of _ h] exI [of _ "[[(a, es)]]"]) simp
  qed
qed

theorem remove_level_rep:
  fixes h :: "'o heap"
  assumes g: "geo_ok g" and L: "0 < L" and pre: "rem_pre g h head L (lv # rest) kp k"
  shows "\<exists>ret head' h' T'. btree_remove_level g head h kp L = Some (ret, head', h')
     \<and> removed g h head L (lv # rest) k ret head' h' T'"
  using L pre
proof (induction "length rest" arbitrary: h L lv rest kp k rule: less_induct)
  case less
  note L = less.prems(1) and pre = less.prems(2)
  obtain l a es r rest' h1 h2 i k2 where f: "find_level g head h kp L = Some (a, h1)"
    "lv = l @ (a, es) # r" "length rest' = length rest" "i < length es" "i = posn k es"
    "getpos g h1 a kp = Some i" "getfill g h1 a i = Some (length es)"
    "keycmp g h1 a i kp = Some 0" "bval g h1 a i = Some (snd (flat lv ! posn k (flat lv)))"
    "do { h \<leftarrow> copy_up g a (Suc i) a i (length es - 1 - i) h1; clearpair g h a (length es - 1) } = Some h2"
    "rep g h2 head L ((l @ (a, del_at i es) # r) # rest')"
    "changes (set (addrs (lv # rest))) (set (addrs ((l @ (a, del_at i es) # r) # rest'))) h h2"
    "flat (l @ (a, del_at i es) # r) = del_at (posn k (flat lv)) (flat lv)"
    "L \<noteq> 1 \<longrightarrow> lows_of ((l @ (a, del_at i es) # r) # rest') = del_at (posn k (flat lv)) (lows_of (lv # rest))"
    "kval g h2 kp = Some k2" "located k2 rest' l (a, del_at i es) r"
    "kaddr kp \<inter> set (addrs rest') = {}" "fills 2 rest'"
    by (rule remove_entry [OF g L pre])
  let ?es = "del_at i es" and ?ret = "snd (flat lv ! posn k (flat lv))"
  have r: "rep g h head L (lv # rest)" and fl: "fill 1 lv" "L \<noteq> 1 \<or> rest \<noteq> [] \<longrightarrow> fill 2 lv"
    using pre by (auto simp: rem_pre_def)
  have les: "length ?es = length es - 1" using f(4) by simp
  have ht: "bh_height head + 1 = L + length (lv # rest)" by (rule repD(5) [OF r])
  have np: "4 \<le> no_pairs g" using g by (simp add: geo_ok_def)
  have re: "rest' = [] \<longleftrightarrow> rest = []" using f(3) by auto
  have run: "btree_remove_level g head h kp L = do {
      (head, h) \<leftarrow> (if length ?es < no_pairs g div 2 then
                      (if L < bh_height head then rebalance g head h2 kp L a (length ?es)
                       else btree_shrink g head h2 (length ?es))
                    else Some (head, h2));
      Some (?ret, head, h) }"
  proof -
    have "\<not> bh_height head < L" using ht by simp
    moreover have "length es \<noteq> 0" using f(4) by linarith
    moreover obtain h3 where "copy_up g a (Suc i) a i (length es - 1 - i) h1 = Some h3"
        "clearpair g h3 a (length es - 1) = Some h2"
      using f(10) by (auto simp: Option.bind_eq_Some_conv)
    ultimately show ?thesis
      using f(1,6-9) unfolding les by (simp add: btree_remove_level.simps)
  qed
  have stay: "removed g h head L (lv # rest) k ?ret head h2 ((l @ (a, ?es) # r) # rest')"
    if "1 \<le> length ?es" "L \<noteq> 1 \<or> rest \<noteq> [] \<longrightarrow> 2 \<le> length ?es"
  proof -
    have "fill 1 (l @ (a, ?es) # r)" using fl(1) that(1) f(2) by simp
    moreover have "L \<noteq> 1 \<or> rest' \<noteq> [] \<longrightarrow> fill 2 (l @ (a, ?es) # r)" using fl(2) that(2) f(2) re by simp
    ultimately show ?thesis
      using f(11-14,18) unfolding removed_def Let_def by simp
  qed
  show ?case
  proof (cases "length ?es < no_pairs g div 2")
    case False
    then have "2 \<le> length ?es" using np by linarith
    then show ?thesis using run False stay by auto
  next
    case small: True
    show ?thesis
    proof (cases rest')
      case Nil
      then have lr: "l = []" "r = []" using f(11) by (auto simp: rep_def append_eq_Cons_conv)
      have "L = 1 \<or> 1 \<le> length ?es" using fl(2) f(2) les by auto
      then obtain head' h' T' where s: "btree_shrink g head h2 (length ?es) = Some (head', h')"
        "changes {a} (set (addrs T')) h2 h'"
        "if T' = [] then bh_height head' + 1 = L \<and> (if L = 1 then bh_node head' = 0 \<and> ?es = []
                                        else \<exists>k2. ?es = [(k2, bh_node head')])
         else T' = [[(a, ?es)]] \<and> head' = head \<and> h' = h2 \<and> 1 \<le> length ?es \<and> (L \<noteq> 1 \<longrightarrow> 2 \<le> length ?es)"
        using shrink_rep [OF g L, of h2 head a ?es] f(11) lr Nil by auto
      have run': "btree_remove_level g head h kp L = Some (?ret, head', h')"
        using run small s(1) ht Nil re by simp
      have "removed g h head L (lv # rest) k ?ret head' h' T'"
      proof (cases "T' = []")
        case True
        have fs: "del_at (posn k (flat lv)) (flat lv) = ?es" using f(13) lr by simp
        have "changes (set (addrs (lv # rest))) {} h h'"
          using changes_trans [OF f(12)] s(2) True lr Nil by simp
        moreover have "L \<noteq> 1 \<longrightarrow> lows_le (del_at (posn k (flat lv)) (lows_of (lv # rest))) [[]]"
        proof
          assume "L \<noteq> 1"
          then obtain k3 where "?es = [(k3, bh_node head')]" using s(3) True by auto
          then have "lows_of ((l @ (a, ?es) # r) # rest') = [[]]" using lr Nil by simp
          then have "del_at (posn k (flat lv)) (lows_of (lv # rest)) = [[]]" using f(14) \<open>L \<noteq> 1\<close> by metis
          then show "lows_le (del_at (posn k (flat lv)) (lows_of (lv # rest))) [[]]" by simp
        qed
        ultimately show ?thesis using s(3) True fs unfolding removed_def Let_def by simp
      next
        case False
        then show ?thesis using s(3) stay lr Nil re by simp
      qed
      with run' show ?thesis by blast
    next
      case (Cons lv1 T0)
      then have f2: "fill 2 l" "fill 2 r" "?es \<noteq> []" using fl(2) f(2) les re by auto
      have lt: "length T0 < length rest" using f(3) Cons by auto
      obtain head' h' T' where s: "rebalance g head h2 kp L a (length ?es) = Some (head', h')"
        "rebalanced g h2 L ((l @ (a, ?es) # r) # lv1 # T0) head' h' T'"
      proof -
        have "\<exists>head' h' T'. rebalance g head h2 kp L a (length ?es) = Some (head', h')
           \<and> rebalanced g h2 L ((l @ (a, ?es) # r) # lv1 # T0) head' h' T'"
        proof (rule rebalance_rep [OF g L])
          show "rep g h2 head L ((l @ (a, ?es) # r) # lv1 # T0)" "located k2 (lv1 # T0) l (a, ?es) r"
            "kval g h2 kp = Some k2" "kaddr kp \<inter> set (addrs (lv1 # T0)) = {}" "fill 2 l" "fill 2 r"
            "fills 2 (lv1 # T0)" "?es \<noteq> []"
            using f(11,15-18) f2 Cons by simp_all
          show "\<exists>ret head' h'' T1. btree_remove_level g head h' (bkey g pa j) (Suc L) = Some (ret, head', h'')
             \<and> removed g h' head (Suc L) (lv1' # T) k1 ret head' h'' T1"
            if "length T = length T0" "rem_pre g h' head (Suc L) (lv1' # T) (bkey g pa j) k1"
            for h' :: "'o heap" and lv1' T pa j k1
            using less.hyps [of T "Suc L" h' lv1' "bkey g pa j" k1] that lt by simp
        qed
        then show thesis using that by blast
      qed
      have run': "btree_remove_level g head h kp L = Some (?ret, head', h')"
        using run small s(1) ht Cons f(3) re by simp
      have "removed g h head L (lv # rest) k ?ret head' h' T'"
      proof -
        have rb: "rep g h' head' L T'" "fills 2 T'" "flat (hd T') = del_at (posn k (flat lv)) (flat lv)"
          "changes (set (addrs (lv # rest))) (set (addrs T')) h h'"
          using s(2) f(13) changes_trans [OF f(12)] Cons by (simp_all add: rebalanced_def)
        have f2: "fill 2 (hd T')" "fills 2 (tl T')" using rb(2) repD(1) [OF rb(1)] by (cases T'; simp)+
        moreover have "fill 1 (hd T')" using f2(1) by (rule fill_mono) simp
        moreover have "L \<noteq> 1 \<longrightarrow> lows_le (del_at (posn k (flat lv)) (lows_of (lv # rest))) (lows_of T')"
          using f(14) s(2) Cons unfolding rebalanced_def by metis
        ultimately show ?thesis using rb repD(1) [OF rb(1)] unfolding removed_def Let_def by simp
      qed
      with run' show ?thesis by blast
    qed
  qed
qed


section \<open>Whole trees\<close>

definition remove_result :: "btree_geo \<Rightarrow> 'o heap \<Rightarrow> level list \<Rightarrow> key \<Rightarrow>
    ulong \<Rightarrow> btree_head \<Rightarrow> 'o heap \<Rightarrow> level list \<Rightarrow> bool" where
  "remove_result g h T k ret head' h' T' \<longleftrightarrow>
     tree g h' head' T' \<and> changes (set (addrs T)) (set (addrs T')) h h'
   \<and> (let i = posn k (leaves T) in
        ret = snd (leaves T ! i) \<and> leaves T' = del_at i (leaves T))"

lemma remove_tree:
  fixes h :: "'o heap"
  assumes g: "geo_ok g" and t: "tree g h head T" and kv: "kval g h kp = Some k"
    and disj: "kaddr kp \<inter> set (addrs T) = {}" and mem: "k \<in> fst ` set (leaves T)"
  shows "\<exists>ret head' h' T'. btree_remove g head h kp = Some (ret, head', h')
     \<and> remove_result g h T k ret head' h' T'"
proof -
  obtain lv rest where T: "T = lv # rest" using mem by (cases T) auto
  have t': "rep g h head 1 (lv # rest)" "fills 2 rest" "fill 1 lv" "rest \<noteq> [] \<longrightarrow> fill 2 lv"
    using t T by (auto simp: tree_def)
  have pre: "rem_pre g h head 1 (lv # rest) kp k"
    using t' kv disj mem T by (auto simp: rem_pre_def)
  obtain ret head' h' T' where 1: "btree_remove_level g head h kp 1 = Some (ret, head', h')"
    "removed g h head 1 (lv # rest) k ret head' h' T'" using remove_level_rep [OF g _ pre] by auto
  have "btree_remove g head h kp = Some (ret, head', h')"
    using 1(1) tree_height [OF t] T by (simp add: btree_remove_def)
  moreover have "remove_result g h T k ret head' h' T'"
  proof (cases "T' = []")
    case True
    then have "bh_node head' = 0 \<and> bh_height head' = 0" "del_at (posn k (flat lv)) (flat lv) = []"
      "ret = snd (flat lv ! posn k (flat lv))" "changes (set (addrs T)) {} h h'"
      using 1(2) T by (auto simp: removed_def Let_def)
    then show ?thesis using True T by (simp add: remove_result_def tree_def btree_init_def)
  next
    case False
    then have r: "rep g h' head' 1 T'" "flat (hd T') = del_at (posn k (flat lv)) (flat lv)" "fill 1 (hd T')"
      "tl T' \<noteq> [] \<longrightarrow> fill 2 (hd T')" "fills 2 (tl T')" "ret = snd (flat lv ! posn k (flat lv))"
      "changes (set (addrs T)) (set (addrs T')) h h'"
      using 1(2) T by (simp_all add: removed_def Let_def)
    have "leaves T' = flat (hd T')" using False by (cases T') auto
    then show ?thesis using r False T by (simp add: remove_result_def tree_def)
  qed
  ultimately show ?thesis by blast
qed

text \<open>
  An absent key. The leaf is left alone if the comparison of \<open>btree_remove_level\<close> sees a difference;
  it compares with the slot at the key's position, used or not. \<open>spurious g es k\<close>: the slot is not
  used, and the words the code compares (the zeros of a cleared slot, or the first values where the
  position is behind the last slot) are the key.
\<close>

definition spurious :: "btree_geo \<Rightarrow> entry list \<Rightarrow> key \<Rightarrow> bool" where
  "spurious g es k \<longleftrightarrow> posn k es = length es \<and>
     (if length es = no_pairs g then take (keylen g) (map snd es) = k else k = replicate (keylen g) 0)"


lemma kval_behind:
  assumes g: "geo_ok g" and p: "nd g h p = Some (pad g es)" and full: "length es = no_pairs g"
  shows "kval g h (bkey g p (no_pairs g)) = Some (take (keylen g) (map snd es))"
proof -
  let ?n = "no_pairs g" and ?k = "keylen g"
  obtain ws where ws: "mem h p = Some (Node ws)" "length ws = node_longs" "pad g es = slots g ws"
    using p by (auto simp: nd_Node)
  have sp: "4 \<le> ?n" "?n * ?k + ?n \<le> node_longs" using g by (simp_all add: geo_ok_def)
  have kn: "?k \<le> ?n"
  proof (rule ccontr)
    assume "\<not> ?k \<le> ?n"
    then have "4 * 5 \<le> ?n * ?k" using sp(1) by (intro mult_le_mono) auto
    then show False using sp(2) by (simp add: NODESIZE_def L1_CACHE_BYTES_def SIZEOF_LONG_def)
  qed
  have es: "es = slots g ws" using ws(3) full by (simp add: pad_def)
  have "take ?k (map snd es) = take ?k (drop (?n * ?k) ws)"
    using kn sp(2) ws(2) unfolding es by (intro nth_equalityI) (auto simp: slots_nth)
  then show ?thesis
    using ws kn sp(2) by (simp add: kval_def bkey_def)
qed

lemma keycmp_kval:
  assumes "kval g h (bkey g p n) = Some k1" "kval g h kp = Some k"
  shows "keycmp g h p n kp = Some (cmp3 k1 k)"
proof -
  have "longcmp h (bkey g p n) kp 0 (keylen g)
      = Some (if drop 0 k1 < drop 0 k then - 1 else if drop 0 k < drop 0 k1 then 1 else 0)"
    by (rule longcmp_prefix) (use assms kval_peek kval_length in auto)
  then show ?thesis by (auto simp: keycmp_def cmp3_def)
qed

lemma remove_absent_tree:
  fixes h :: "'o heap"
  assumes g: "geo_ok g" and t: "tree g h head T" and kv: "kval g h kp = Some k"
    and disj: "kaddr kp \<inter> set (addrs T) = {}" and mem: "k \<notin> fst ` set (leaves T)"
    and sp: "T \<noteq> [] \<Longrightarrow> \<forall>n \<in> set (hd T). \<not> spurious g (snd n) k"
  shows "\<exists>h' T'. btree_remove g head h kp = Some (0, head, h') \<and> tree g h' head T'
     \<and> leaves T' = leaves T \<and> changes (set (addrs T)) (set (addrs T')) h h'"
proof (cases T)
  case Nil
  then have "changes (set (addrs T)) (set (addrs T)) h h" by (simp add: changes_def)
  moreover have "btree_remove g head h kp = Some (0, head, h)"
    using t Nil by (simp add: tree_def btree_init_def btree_remove_def)
  ultimately show ?thesis using t by blast
next
  case (Cons lv rest)
  have t': "rep g h head 1 (lv # rest)" "fills 2 rest" "fill 1 lv" "rest \<noteq> [] \<longrightarrow> fill 2 lv"
    using t Cons by (auto simp: tree_def)
  have disj': "kaddr kp \<inter> set (addrs rest) = {}" using disj Cons by auto
  obtain l a es r rest' h1 where f: "find_level g head h kp 1 = Some (a, h1)"
      "lv = l @ (a, es) # r" "located k rest' l (a, es) r" "rep g h1 head 1 (lv # rest')"
      "lows_of rest' = lows_of rest" "shape rest' = shape rest"
      "frame (set (addrs rest)) h h1" "nd g h1 a = Some (pad g es)" "entries_ok g es" "a \<noteq> 0"
    by (rule find_level_rep [OF t'(1) g kv disj'])
  have kv1: "kval g h1 kp = Some k" using frame_kval [OF f(7) disj'] kv by simp
  have ns: "\<not> spurious g es k" using sp Cons f(2) by auto
  have nin: "k \<notin> fst ` set es" using mem Cons f(2) by auto
  have le: "length es \<le> no_pairs g" using f(9) by (rule entries_ok_length)
  obtain c where c: "keycmp g h1 a (posn k es) kp = Some c" "c \<noteq> 0"
  proof (cases "posn k es < no_pairs g")
    case True
    have "fst (pad g es ! posn k es) \<noteq> k"
    proof (cases "posn k es < length es")
      case True
      then have "fst (es ! posn k es) \<in> fst ` set es" by simp
      then have "fst (es ! posn k es) \<noteq> k" using nin by metis
      then show ?thesis using True le by (simp add: nth_pad)
    next
      case False
      then show ?thesis using ns \<open>posn k es < no_pairs g\<close> le posn_le [of k es]
        by (auto simp: nth_pad spurious_def zslot_def split: if_splits)
    qed
    then show ?thesis using that keycmp_slot [OF g f(8) True kv1] by simp
  next
    case False
    then have full: "length es = no_pairs g" "posn k es = no_pairs g" using le posn_le [of k es] by auto
    have "take (keylen g) (map snd es) \<noteq> k" using ns full by (simp add: spurious_def)
    then show ?thesis
      using that keycmp_kval [OF kval_behind [OF g f(8) full(1)] kv1] full(2) by simp
  qed
  have ht: "bh_height head = Suc (length rest)" using tree_height [OF t] Cons by simp
  have "btree_remove g head h kp = Some (0, head, h1)"
    using ht f(1) getpos_pad [OF g f(8) kv1] getfill_pad [OF g f(8,9) posn_le [of k es]] c
    by (simp add: btree_remove_def btree_remove_level.simps)
  moreover have "tree g h1 head (lv # rest')"
    using f(4) t' shape_fills [OF f(6)] shape_length [OF f(6)] by (auto simp: tree_def)
  moreover have "changes (set (addrs T)) (set (addrs (lv # rest'))) h h1"
  proof -
    have "set (addrs rest) \<subseteq> set (addrs T)" using Cons by auto
    moreover have "set (addrs (lv # rest')) = set (addrs T)" using shape_addrs [OF f(6)] Cons by simp
    ultimately show ?thesis
      using changes_frame [OF f(7)] tower_in_mem [OF repD(3) [OF t'(1)]] Cons by metis
  qed
  ultimately show ?thesis using Cons by (intro exI [of _ h1] exI [of _ "lv # rest'"]) simp
qed

end
