(* ===== verification/Btree_Walk.thy ===== *)
theory Btree_Walk
  imports Main "HOL-Library.Multiset" Btree_Remove Btree_Lookup
begin

text \<open>
  The operations that go through a whole tree: the visitors (\<open>__btree_for_each\<close>), which call back
  for every entry in descending order of the keys, and \<open>btree_merge\<close>, which moves the entries of one
  tree to another.
\<close>

section \<open>The levels from the root down\<close>

text \<open>
  \<open>linked ns U\<close>: the entries of the nodes \<open>ns\<close> point, in order, at the nodes of the first level of
  \<open>U\<close>, and so on down to the leaves.
\<close>

fun linked :: "level \<Rightarrow> level list \<Rightarrow> bool" where
  "linked ns [] \<longleftrightarrow> True"
| "linked ns (lv # U) \<longleftrightarrow> map snd (flat ns) = map fst lv \<and> linked lv U"

definition bottom :: "level \<Rightarrow> level list \<Rightarrow> level" where
  "bottom ns U = last (ns # U)"

lemma bottom_simps [simp]: "bottom ns [] = ns" "bottom ns (lv # U) = bottom lv U"
  by (simp_all add: bottom_def)

lemma linked_snoc: "linked ns (U @ [lv]) \<longleftrightarrow> linked ns U \<and> map snd (flat (bottom ns U)) = map fst lv"
  by (induction U arbitrary: ns) auto

lemma tower_linked:
  assumes "tower_ok T" "T \<noteq> []"
  shows "linked (last T) (tl (rev T)) \<and> bottom (last T) (tl (rev T)) = hd T"
  using assms
proof (induction T)
  case (Cons lv T)
  show ?case
  proof (cases T)
    case Nil
    then show ?thesis by simp
  next
    case (Cons lv1 T1)
    then have ch: "list_all2 child_ok (flat lv1) lv" using Cons.prems(1) by simp
    have "map snd (flat lv1) = map fst lv"
      using ch by (induction rule: list_all2_induct) (auto simp: child_ok_def)
    moreover have "linked (last T) (tl (rev T)) \<and> bottom (last T) (tl (rev T)) = lv1"
      using Cons.IH Cons.prems(1) Cons by simp
    moreover have "tl (rev (lv # T)) = tl (rev T) @ [lv]" using Cons by (cases "rev T") auto
    ultimately show ?thesis using Cons by (simp add: linked_snoc) (simp add: bottom_def)
  qed
qed simp

lemma linked_split:
  assumes "linked (xs @ ys) U"
  shows "\<exists>V W. linked xs V \<and> linked ys W \<and> length V = length U \<and> length W = length U
     \<and> bottom (xs @ ys) U = bottom xs V @ bottom ys W
     \<and> mset (concat U) = mset (concat V) + mset (concat W)"
  using assms
proof (induction U arbitrary: xs ys)
  case Nil
  then show ?case by (intro exI [of _ "[]"]) simp
next
  case (Cons lv U)
  let ?n = "length (flat xs)"
  have m: "map snd (flat xs) @ map snd (flat ys) = map fst lv" and l: "linked lv U"
    using Cons.prems by simp_all
  have len: "length lv = ?n + length (flat ys)" using arg_cong [OF m, of length] by simp
  have s: "map snd (flat xs) = map fst (take ?n lv)" "map snd (flat ys) = map fst (drop ?n lv)"
    using arg_cong [OF m, of "take ?n"] arg_cong [OF m, of "drop ?n"] len by (simp_all add: take_map drop_map)
  obtain V W where "linked (take ?n lv) V" "linked (drop ?n lv) W" "length V = length U"
    "length W = length U" "bottom (take ?n lv @ drop ?n lv) U = bottom (take ?n lv) V @ bottom (drop ?n lv) W"
    "mset (concat U) = mset (concat V) + mset (concat W)"
    using Cons.IH [of "take ?n lv" "drop ?n lv"] l by auto
  moreover have "mset lv = mset (take ?n lv) + mset (drop ?n lv)" by (metis append_take_drop_id mset_append)
  ultimately show ?case
    using s by (intro exI [of _ "take ?n lv # V"] exI [of _ "drop ?n lv # W"]) simp
qed

section \<open>Visitors\<close>

definition clear :: "'o heap \<Rightarrow> ulong set \<Rightarrow> 'o heap" where
  "clear h A = h\<lparr>mem := (\<lambda>p. if p \<in> A then None else mem h p)\<rparr>"

lemma clear_simps [simp]: "clear h {} = h" "clear (clear h A) B = clear h (A \<union> B)"
  by (auto simp: clear_def cong: if_cong intro!: heap.equality)

lemma lnode_in_clear: "fst n \<notin> A \<Longrightarrow> lnode_in g (clear h A) n = lnode_in g h n"
  by (simp add: lnode_in_def nd_def clear_def)

lemma heap_free_clear: "p \<noteq> 0 \<Longrightarrow> mem h p \<noteq> None \<Longrightarrow> heap_free h p = Some (clear h {p})"
  by (auto simp: heap_free_def clear_def fun_upd_def)

text \<open>What the callbacks do to the caller's state, in order.\<close>

fun visits :: "(ulong \<Rightarrow> key \<Rightarrow> nat \<Rightarrow> 's \<Rightarrow> 's option) \<Rightarrow> entry list \<Rightarrow> nat \<Rightarrow> 's \<Rightarrow> 's option" where
  "visits F [] c s = Some s"
| "visits F (e # es) c s = Option.bind (F (snd e) (fst e) c s) (visits F es (Suc c))"

lemma visits_append:
  "visits F (xs @ ys) c s = Option.bind (visits F xs c s) (visits F ys (c + length xs))"
  by (induction xs arbitrary: c s) (auto intro!: bind_option_cong)

definition calls :: "btree_geo \<Rightarrow> ulong \<Rightarrow> ('o, 's) visitor \<Rightarrow> (ulong \<Rightarrow> key \<Rightarrow> nat \<Rightarrow> 's \<Rightarrow> 's option) \<Rightarrow> bool" where
  "calls g opaque func F \<longleftrightarrow> (\<forall>h p es i c s. nd g h p = Some (pad g es) \<longrightarrow> entries_ok g es \<longrightarrow>
     i < length es \<longrightarrow> func h (snd (es ! i)) opaque (bkey g p i) c s = F (snd (es ! i)) (fst (es ! i)) c s)"

definition after :: "bool \<Rightarrow> 'o heap \<Rightarrow> ulong set \<Rightarrow> 'o heap" where
  "after reap h A = (if reap then clear h A else h)"

definition walked :: "bool \<Rightarrow> 'o heap \<Rightarrow> (ulong \<Rightarrow> key \<Rightarrow> nat \<Rightarrow> 's \<Rightarrow> 's option) \<Rightarrow> entry list \<Rightarrow> ulong set \<Rightarrow>
    nat \<Rightarrow> 's \<Rightarrow> (nat \<times> 's \<times> 'o heap) option" where
  "walked reap h F es A c s = Option.bind (visits F es c s) (\<lambda>s. Some (c + length es, s, after reap h A))"

lemma loop_end:
  assumes "geo_ok g" "nd g h a = Some (pad g es)" "entries_ok g es"
  shows "for_each_loop g opaque func reap h a height (length es) c s = Some (c, s, h)"
  using bval_pad [OF assms, of "length es"] by (subst for_each_loop.simps) simp

lemma leaf_loop:
  assumes g: "geo_ok g" and f: "calls g opaque func F"
    and a: "nd g h a = Some (pad g (don @ todo))" "entries_ok g (don @ todo)"
  shows "for_each_loop g opaque func reap h a 1 (length don) c s = walked False h F todo {} c s"
  using a
proof (induction todo arbitrary: don c s)
  case Nil
  then show ?case using loop_end [OF g, of h a don] by (simp add: walked_def after_def)
next
  case (Cons e todo)
  note a = Cons.prems
  have i: "length don < no_pairs g" using entries_ok_length [OF a(2)] by simp
  have v: "bval g h a (length don) = Some (snd e)" using bval_pad [OF g a i] by simp
  have nz: "snd e \<noteq> 0" using a(2) by (simp add: entries_ok_def)
  have fn: "func h (snd e) opaque (bkey g a (length don)) c s = F (snd e) (fst e) c s" for c s
    using f [unfolded calls_def, rule_format, OF a, of "length don" c s] by simp
  have "for_each_loop g opaque func reap h a 1 (length (don @ [e])) c s = walked False h F todo {} c s" for c s
    using Cons.IH [of "don @ [e]"] a by simp
  then show ?case
    using i v nz fn by (subst for_each_loop.simps)
      (auto simp: walked_def after_def intro!: bind_option_cong)
qed

lemma nodes_clear:
  assumes "\<forall>n \<in> A. lnode_in g h n" "fst ` A \<inter> B = {}"
  shows "\<forall>n \<in> A. lnode_in g (after reap h B) n"
  using assms lnode_in_clear [of _ B g h] by (auto simp: after_def)

text \<open>One inner node, given that its children are walked as they should be.\<close>

lemma inner_loop:
  assumes g: "geo_ok g"
    and child: "\<And>h n V c s. \<lbrakk>length V = length U; linked [n] V; \<forall>m \<in> set (n # concat V). lnode_in g h m;
        distinct (map fst (n # concat V))\<rbrakk> \<Longrightarrow>
      btree_for_each g opaque func reap h (fst n) (Suc (length U)) c s
        = walked reap h F (flat (bottom [n] V)) (fst ` set (n # concat V)) c s"
    and a: "lnode_in g h (a, don @ todo)" and link: "map snd todo = map fst ns" "linked ns U'" "length U' = length U"
    and nodes: "\<forall>m \<in> set (ns @ concat U'). lnode_in g h m" "distinct (a # map fst (ns @ concat U'))"
  shows "for_each_loop g opaque func reap h a (Suc (Suc (length U))) (length don) c s
       = walked reap h F (flat (bottom ns U')) (fst ` set (ns @ concat U')) c s"
  using a link nodes
proof (induction ns arbitrary: h don todo U' c s)
  case Nil
  then have td: "todo = []" by simp
  have an: "nd g h a = Some (pad g don)" "entries_ok g don" using Nil.prems(1) td by (auto simp: lnode_in_def)
  have "bottom [] U' = [] \<and> concat U' = []" using Nil.prems(3)
    by (induction U') (auto simp: bottom_def)
  then have e: "bottom [] U' = []" "fst ` set ([] @ concat U') = {}" by simp_all
  show ?case unfolding e by (simp add: walked_def after_def loop_end [OF g an])
next
  case (Cons n ns)
  obtain e todo' where td: "todo = e # todo'" "snd e = fst n" "map snd todo' = map fst ns"
    using Cons.prems(2) by (cases todo) auto
  note a = Cons.prems(1) [unfolded td(1)]
  have an: "nd g h a = Some (pad g (don @ e # todo'))" "entries_ok g (don @ e # todo')"
    using a by (auto simp: lnode_in_def)
  have i: "length don < no_pairs g" using entries_ok_length [OF an(2)] by simp
  have v: "bval g h a (length don) = Some (fst n)" using bval_pad [OF g an i] td(2) by simp
  have nz: "fst n \<noteq> 0" using Cons.prems(5) by (simp add: lnode_in_def)
  obtain V W where VW: "linked [n] V" "linked ns W" "length V = length U'" "length W = length U'"
    "bottom (n # ns) U' = bottom [n] V @ bottom ns W" "mset (concat U') = mset (concat V) + mset (concat W)"
    using linked_split [of "[n]" ns U'] Cons.prems(3) by auto
  have setU: "set (concat U') = set (concat V) \<union> set (concat W)"
    using arg_cong [OF VW(6), of set_mset] by simp
  have "mset (a # map fst (n # ns @ concat U')) = mset (a # map fst ((n # concat V) @ ns @ concat W))"
    using VW(6) by simp
  then have d: "distinct (a # map fst ((n # concat V) @ ns @ concat W))"
    using Cons.prems(6) mset_eq_imp_distinct_iff by (metis append_Cons)
  let ?A = "fst ` set (n # concat V)"
  have disj: "fst ` set (ns @ concat W) \<inter> ?A = {}" "a \<notin> ?A"
    using d unfolding map_append [of fst "n # concat V"] distinct.simps distinct_append set_append set_map
    by blast+
  have IHn: "btree_for_each g opaque func reap h (fst n) (Suc (length U)) c s
        = walked reap h F (flat (bottom [n] V)) ?A c s"
    using VW(1,3) Cons.prems(4,5) setU d by (intro child) auto
  have rest: "for_each_loop g opaque func reap (after reap h ?A) a (Suc (Suc (length U))) (length (don @ [e])) c s
       = walked reap (after reap h ?A) F (flat (bottom ns W)) (fst ` set (ns @ concat W)) c s" for c s
  proof (rule Cons.IH)
    show "lnode_in g (after reap h ?A) (a, (don @ [e]) @ todo')"
      using a disj(2) lnode_in_clear [of "(a, don @ e # todo')" ?A g h] by (simp add: after_def)
    show "map snd todo' = map fst ns" "linked ns W" "length W = length U" using td VW Cons.prems(4) by simp_all
    show "\<forall>m \<in> set (ns @ concat W). lnode_in g (after reap h ?A) m"
      by (rule nodes_clear [OF _ disj(1)]) (use Cons.prems(5) setU in auto)
    show "distinct (a # map fst (ns @ concat W))" using d by simp
  qed
  have aft: "after reap (after reap h ?A) (fst ` set (ns @ concat W)) = after reap h (fst ` set ((n # ns) @ concat U'))"
    using setU by (auto simp: after_def image_Un Un_ac)
  have "for_each_loop g opaque func reap h a (Suc (Suc (length U))) (length don) c s = do {
      (c, s, h) \<leftarrow> walked reap h F (flat (bottom [n] V)) ?A c s;
      for_each_loop g opaque func reap h a (Suc (Suc (length U))) (length (don @ [e])) c s }"
    using i v nz IHn by (subst for_each_loop.simps) simp
  also have "\<dots> = Option.bind (visits F (flat (bottom [n] V)) c s) (\<lambda>s.
      walked reap (after reap h ?A) F (flat (bottom ns W)) (fst ` set (ns @ concat W)) (c + length (flat (bottom [n] V))) s)"
    using rest by (simp add: walked_def)
  also have "\<dots> = walked reap h F (flat (bottom (n # ns) U')) (fst ` set ((n # ns) @ concat U')) c s"
    unfolding walked_def aft VW(5) flat_simps(3) visits_append by (simp add: add.assoc)
  finally show ?case .
qed

lemma for_each_ok:
  assumes g: "geo_ok g" and f: "calls g opaque func F"
    and link: "linked [n] U" and nodes: "\<forall>m \<in> set (n # concat U). lnode_in g h m" "distinct (map fst (n # concat U))"
  shows "btree_for_each g opaque func reap h (fst n) (Suc (length U)) c s
       = walked reap h F (flat (bottom [n] U)) (fst ` set (n # concat U)) c s"
  using link nodes
proof (induction "length U" arbitrary: U n h c s)
  case leaf: 0
  then have U: "U = []" by simp
  have n: "nd g h (fst n) = Some (pad g (snd n))" "entries_ok g (snd n)" "fst n \<noteq> 0" "mem h (fst n) \<noteq> None"
    using leaf.prems(2) by (auto simp: lnode_in_def nd_Node)
  have "for_each_loop g opaque func reap h (fst n) 1 0 c s = walked False h F (snd n) {} c s"
    using leaf_loop [OF g f, of h "fst n" "[]" "snd n"] n by simp
  then show ?case
    using U heap_free_clear [OF n(3,4)]
    by (cases reap) (simp_all add: btree_for_each.simps walked_def after_def)
next
  case (Suc m)
  then obtain lv U1 where U: "U = lv # U1" "length U1 = m" by (cases U) auto
  have d: "fst n \<notin> fst ` set (lv @ concat U1)" using Suc.prems(3) U(1) by auto
  have n: "fst n \<noteq> 0" "mem h (fst n) \<noteq> None" using Suc.prems(2) by (auto simp: lnode_in_def nd_Node)
  have "for_each_loop g opaque func reap h (fst n) (Suc (Suc (length U1))) (length ([] :: entry list)) c s
     = walked reap h F (flat (bottom lv U1)) (fst ` set (lv @ concat U1)) c s"
  proof (rule inner_loop [OF g])
    show "btree_for_each g opaque func reap h' (fst n') (Suc (length U1)) c s
        = walked reap h' F (flat (bottom [n'] V)) (fst ` set (n' # concat V)) c s"
      if "length V = length U1" "linked [n'] V" "\<forall>m \<in> set (n' # concat V). lnode_in g h' m"
        "distinct (map fst (n' # concat V))" for h' n' V c s
      using Suc.hyps(1) [of V n' h'] that U(2) by simp
    show "lnode_in g h (fst n, [] @ snd n)" using Suc.prems(2) by simp
    show "map snd (snd n) = map fst lv" "linked lv U1" "length U1 = length U1" using Suc.prems(1) U(1) by simp_all
    show "\<forall>m \<in> set (lv @ concat U1). lnode_in g h m" "distinct (fst n # map fst (lv @ concat U1))"
      using Suc.prems(2,3) U(1) by simp_all
  qed
  moreover define A B where "A = fst ` set (lv @ concat U1)" and "B = fst ` set (n # concat U)"
  ultimately have run: "for_each_loop g opaque func reap h (fst n) (Suc (length U)) 0 c s
     = walked reap h F (flat (bottom [n] U)) A c s" using U by simp
  have m: "mem (clear h A) (fst n) \<noteq> None"
    using n(2) d by (simp add: clear_def A_def)
  have "A \<union> {fst n} = B" using U(1) by (auto simp: A_def B_def)
  then have free: "heap_free (clear h A) (fst n) = Some (clear h B)"
    using heap_free_clear [OF n(1) m] by simp
  show ?case
    unfolding btree_for_each.simps [of g opaque func reap h "fst n"] run walked_def B_def [symmetric]
    by (cases reap; cases "visits F (flat (bottom [n] U)) c s") (simp_all add: after_def free)
qed

section \<open>Visiting a whole tree\<close>

definition pick_visitor :: "('f \<Rightarrow> ('o, 's) visitor) \<Rightarrow> 'f option \<Rightarrow> ('o, 's) visitor" where
  "pick_visitor func func2 = (case func2 of None \<Rightarrow> empty_visitor | Some f \<Rightarrow> func f)"

lemma tree_node_zero:
  assumes "tree g h head T"
  shows "bh_node head = 0 \<longleftrightarrow> T = []"
proof (cases "T = []")
  case True
  then show ?thesis using assms by (simp add: tree_def btree_init_def)
next
  case False
  then have r: "rep g h head 1 T" using assms by (simp add: tree_def)
  obtain res where "last T = [(bh_node head, res)]" using repD(4) [OF r] by (auto simp: head_ok_def)
  then have "[(bh_node head, res)] \<in> set T" using last_in_set [OF False] by simp
  then have "bh_node head \<noteq> 0" using repD(3) [OF r] by (auto simp: tower_in_def level_in_def lnode_in_def)
  then show ?thesis using False by simp
qed

lemma tree_walk:
  assumes g: "geo_ok g" and t: "tree g h head T" and ne: "T \<noteq> []" and f: "calls g opaque func F"
  shows "btree_for_each g opaque func reap h (bh_node head) (bh_height head) c s
       = walked reap h F (leaves T) (set (addrs T)) c s"
proof -
  have r: "rep g h head 1 T" using t ne by (simp add: tree_def)
  note rr = repD [OF r]
  obtain res where root: "last T = [(bh_node head, res)]" using rr(4) by (auto simp: head_ok_def)
  let ?n = "(bh_node head, res)" and ?U = "tl (rev T)"
  have rt: "rev T = [?n] # ?U" using root ne hd_rev [of T] by (metis hd_Cons_tl rev_is_Nil_conv)
  have lk: "linked [?n] ?U" "bottom [?n] ?U = hd T" using tower_linked [OF rr(2) ne] root by simp_all
  have ht: "bh_height head = Suc (length ?U)" using tree_height [OF t] ne by simp
  have st: "set (?n # concat ?U) = set (concat T)" using arg_cong [OF rt, of "\<lambda>x. set (concat x)"] by simp
  have "mset (map fst (?n # concat ?U)) = mset (addrs T)"
  proof -
    have "mset (concat (rev T)) = mset (concat T)" by (induction T) (simp_all add: union_commute)
    moreover have "concat (rev T) = ?n # concat ?U" using arg_cong [OF rt, of concat] by simp
    ultimately have "mset (?n # concat ?U) = mset (concat T)" by simp
    then show ?thesis unfolding addrs_def by (metis mset_map)
  qed
  then have d: "distinct (map fst (?n # concat ?U))"
    using rr(3) mset_eq_imp_distinct_iff unfolding tower_in_def by blast
  have nodes: "\<forall>m \<in> set (?n # concat ?U). lnode_in g h m"
    unfolding st using rr(3) by (auto simp: tower_in_def level_in_def)
  have lv: "flat (hd T) = leaves T" using ne by (cases T) auto
  have as: "fst ` set (?n # concat ?U) = set (addrs T)" unfolding st by (simp add: addrs_def)
  show "btree_for_each g opaque func reap h (bh_node head) (bh_height head) c s
       = walked reap h F (leaves T) (set (addrs T)) c s"
    using for_each_ok [OF g f lk(1) nodes d, of reap c s] ht lk(2) lv as by simp
qed

lemma visitor_tree:
  assumes g: "geo_ok g" and t: "tree g h head T" and f: "calls g opaque (pick_visitor func func2) F"
  shows "btree_visitor g head h opaque func func2 s
       = Option.bind (visits F (leaves T) 0 s) (\<lambda>s. Some (length (leaves T), s, h))"
proof (cases "T = []")
  case True
  then show ?thesis using t by (simp add: tree_def btree_init_def btree_visitor_def)
next
  case False
  then show ?thesis using tree_walk [OF g t False f, of False 0 s] False tree_node_zero [OF t]
    by (simp add: btree_visitor_def pick_visitor_def walked_def after_def)
qed

lemma grim_visitor_tree:
  assumes g: "geo_ok g" and t: "tree g h head T" and f: "calls g opaque (pick_visitor func func2) F"
  shows "btree_grim_visitor g head h opaque func func2 s
       = Option.bind (visits F (leaves T) 0 s)
           (\<lambda>s. Some (length (leaves T), s, btree_init, clear h (set (addrs T))))"
proof (cases "T = []")
  case True
  then show ?thesis using t by (simp add: tree_def btree_init_def btree_grim_visitor_def)
next
  case False
  then show ?thesis using tree_walk [OF g t False f, of True 0 s] False tree_node_zero [OF t]
    by (cases "visits F (leaves T) 0 s")
      (simp_all add: btree_grim_visitor_def pick_visitor_def walked_def after_def)
qed


section \<open>Merging\<close>

lemma read_words_kval:
  assumes "kval g h kp = Some k"
  shows "read_words h kp (keylen g) = Some k"
proof -
  have "n \<le> keylen g \<Longrightarrow> read_words h kp n = Some (take n k)" for n
  proof (induction n)
    case (Suc n)
    then show ?case
      using kval_peek [OF assms, of n] kval_length [OF assms] by (simp add: take_Suc_conv_app_nth)
  qed simp
  then show ?thesis using kval_length [OF assms] by simp
qed

lemma tree_leaf_value: "tree g h head T \<Longrightarrow> e \<in> set (leaves T) \<Longrightarrow> length (fst e) = keylen g \<and> snd e \<noteq> 0"
proof -
  assume t: "tree g h head T" and e: "e \<in> set (leaves T)"
  then obtain lv rest where T: "T = lv # rest" by (cases T) auto
  then obtain n where n: "n \<in> set lv" "e \<in> set (snd n)" using e by (auto simp: set_flat)
  have "level_in g h lv" using t T by (simp add: tree_def rep_def tower_in_Cons)
  then have "entries_ok g (snd n)" using n(1) by (simp add: level_in_def lnode_in_def)
  then show ?thesis using n(2) by (simp add: entries_ok_def)
qed

lemma tree_keep:
  assumes "tree g h head T" "changes F F' h h'" "set (addrs T) \<inter> F = {}"
  shows "tree g h' head T" "set (addrs T) \<inter> F' = {}"
  using assms rep_changes [of g h head 1 T F F' h'] by (auto simp: tree_def split: if_splits)

lemma tree_mem: "tree g h head T \<Longrightarrow> p \<in> set (addrs T) \<Longrightarrow> mem h p \<noteq> None"
  using tower_in_mem repD(3) by (fastforce simp: tree_def split: if_splits)

text \<open>One turn of the loop: the largest entry of the victim moves over, or memory runs out.\<close>

lemma merge_step:
  fixes h :: "'o heap"
  assumes g: "geo_ok g" and al: "alloc_ok h" and t: "tree g h target T" and v: "tree g h victim V"
    and disj: "set (addrs T) \<inter> set (addrs V) = {}" and e: "leaves V = e # es"
    and new: "fst e \<notin> fst ` set (leaves T)"
  shows "\<exists>err target' h1 T'. tree g h1 target' T' \<and> set (addrs T') \<inter> set (addrs V) = {}
     \<and> (if err = 0
        then \<exists>victim' h2 V'. merge_loop g target victim h = merge_loop g target' victim' h2
             \<and> tree g h2 target' T' \<and> tree g h2 victim' V' \<and> set (addrs T') \<inter> set (addrs V') = {}
             \<and> leaves T' = ins_at (posn (fst e) (leaves T)) e (leaves T) \<and> leaves V' = es
             \<and> changes (set (addrs T) \<union> set (addrs V)) (set (addrs T') \<union> set (addrs V')) h h2
        else err = - ENOMEM \<and> merge_loop g target victim h = Some (err, target', victim, h1)
             \<and> tree g h1 victim V \<and> target' = target \<and> leaves T' = leaves T
             \<and> changes (set (addrs T) \<union> set (addrs V)) (set (addrs T') \<union> set (addrs V)) h h1)"
proof -
  let ?kp = "bkey g (fst (hd (hd V))) 0" and ?k = "fst e" and ?v = "snd e"
  have ne: "leaves V \<noteq> []" "V \<noteq> []" using e by auto
  have la: "btree_last g h victim = Some (Some ?kp)" "kval g h ?kp = Some ?k"
    using last_tree [OF g v] ne(1) e by auto
  have lk: "btree_lookup g h victim ?kp = Some ?v"
    using lookup_tree [OF g v la(2)] e by (cases e) simp
  have val: "length ?k = keylen g" "?v \<noteq> 0" using tree_leaf_value [OF v, of e] e by simp_all
  have kd: "kaddr ?kp \<inter> set (addrs T) = {}"
  proof -
    obtain lv rest where V: "V = lv # rest" using ne(2) by (cases V) auto
    then have "lv \<noteq> []" using e by auto
    then have "fst (hd (hd V)) \<in> set (addrs V)" using V by simp
    then show ?thesis using disj by auto
  qed
  obtain err target' h1 T' where i: "btree_insert g target h ?kp ?v = Some (err, target', h1)"
    "insert_result g h target T ?k ?v err target' h1 T'"
    using insert_tree [OF g al t la(2) kd val(2) new] by blast
  then have i': "tree g h1 target' T'" "changes (set (addrs T)) (set (addrs T')) h h1"
    by (simp_all add: insert_result_def)
  have v1: "tree g h1 victim V" "set (addrs V) \<inter> set (addrs T') = {}"
    using tree_keep [OF v i'(2)] disj by auto
  have own: "\<forall>p \<in> set (addrs V). mem h p \<noteq> None" using tree_mem [OF v] by blast
  have c1: "changes (set (addrs T) \<union> set (addrs V)) (set (addrs T') \<union> set (addrs V)) h h1"
    using changes_grow [OF i'(2) own] disj by (simp add: Un_commute Int_commute)
  show ?thesis
  proof (cases "err = 0")
    case False
    have "merge_loop g target victim h = Some (err, target', victim, h1)"
      by (subst merge_loop.simps) (simp add: la(1) lk i(1) False)
    moreover have "err = - ENOMEM" "target' = target" "leaves T' = leaves T"
      using i(2) False by (simp_all add: insert_result_def)
    ultimately show ?thesis using False i'(1) v1 c1 by (intro exI [of _ err] exI [of _ target'] exI [of _ h1] exI [of _ T']) auto
  next
    case True
    have k1: "kval g h1 ?kp = Some ?k" using changes_kval [OF i'(2) la(2) kd] by simp
    have rd: "read_words h1 ?kp (keylen g) = Some ?k" by (rule read_words_kval [OF k1])
    have "?k \<in> fst ` set (leaves V)" using e by simp
    then obtain ret victim' h2 V' where r: "btree_remove g victim h1 (Buf ?k) = Some (ret, victim', h2)"
      "remove_result g h1 V ?k ret victim' h2 V'"
      using remove_tree [OF g v1(1), of "Buf ?k" ?k] val(1) by auto
    have p0: "posn ?k (leaves V) = 0"
      using posn_at [OF tree_leaves_desc [OF v], of 0] e by simp
    have r': "tree g h2 victim' V'" "changes (set (addrs V)) (set (addrs V')) h1 h2" "leaves V' = es"
      using r(2) p0 e by (simp_all add: remove_result_def del_at_def)
    have t2: "tree g h2 target' T'" "set (addrs T') \<inter> set (addrs V') = {}"
      using tree_keep [OF i'(1) r'(2)] v1(2) by auto
    have own1: "\<forall>p \<in> set (addrs T'). mem h1 p \<noteq> None" using tree_mem [OF i'(1)] by blast
    have c2: "changes (set (addrs T') \<union> set (addrs V)) (set (addrs T') \<union> set (addrs V')) h1 h2"
      using changes_grow [OF r'(2) own1] v1(2) by (simp add: Int_commute)
    have "merge_loop g target victim h = merge_loop g target' victim' h2"
      by (subst merge_loop.simps) (simp add: la(1) lk i(1) True rd r(1))
    moreover have "leaves T' = ins_at (posn ?k (leaves T)) e (leaves T)"
      using i(2) True by (simp add: insert_result_def)
    ultimately show ?thesis
      using True i'(1) v1(2) t2 r' changes_trans [OF c1 c2]
      by (intro exI [of _ err] exI [of _ target'] exI [of _ h1] exI [of _ T']) (auto simp: Int_commute)
  qed
qed

lemma merge_loop_end:
  "geo_ok g \<Longrightarrow> tree g h victim V \<Longrightarrow> leaves V = [] \<Longrightarrow> merge_loop g target victim h = Some (0, target, victim, h)"
  by (subst merge_loop.simps) (simp add: last_tree(1))

text \<open>No entry is lost: what is not in the target is still in the victim.\<close>

definition merged :: "btree_geo \<Rightarrow> 'o heap \<Rightarrow> level list \<Rightarrow> level list \<Rightarrow> int \<Rightarrow> btree_head \<Rightarrow> btree_head \<Rightarrow>
    'o heap \<Rightarrow> level list \<Rightarrow> level list \<Rightarrow> bool" where
  "merged g h T V err target' victim' h' T' V' \<longleftrightarrow>
     tree g h' target' T' \<and> tree g h' victim' V' \<and> set (addrs T') \<inter> set (addrs V') = {}
   \<and> changes (set (addrs T) \<union> set (addrs V)) (set (addrs T') \<union> set (addrs V')) h h'
   \<and> fst ` set (leaves V') \<inter> fst ` set (leaves T') = {}
   \<and> set (leaves T') \<union> set (leaves V') = set (leaves T) \<union> set (leaves V)
   \<and> (err = 0 \<and> leaves V' = [] \<or> err = - ENOMEM)"

lemma merged_step:
  assumes "merged g h1 T1 V1 err target' victim' h' T' V'"
    "changes (set (addrs T) \<union> set (addrs V)) (set (addrs T1) \<union> set (addrs V1)) h h1"
    "set (leaves T1) \<union> set (leaves V1) = set (leaves T) \<union> set (leaves V)"
  shows "merged g h T V err target' victim' h' T' V'"
  using assms(1,3) changes_trans [OF assms(2)] unfolding merged_def by simp

lemma merge_tree:
  fixes h :: "'o heap"
  assumes g: "geo_ok g" and al: "alloc_ok h" and t: "tree g h target T" and v: "tree g h victim V"
    and disj: "set (addrs T) \<inter> set (addrs V) = {}"
    and new: "fst ` set (leaves V) \<inter> fst ` set (leaves T) = {}"
  shows "\<exists>err target' victim' h' T' V'. merge_loop g target victim h = Some (err, target', victim', h')
     \<and> merged g h T V err target' victim' h' T' V'"
  using al t v disj new
proof (induction "leaves V" arbitrary: h target victim T V)
  case Nil
  have "changes (set (addrs T) \<union> set (addrs V)) (set (addrs T) \<union> set (addrs V)) h h"
    using tree_mem [OF Nil.prems(2)] tree_mem [OF Nil.prems(3)] by (intro changes_refl) blast
  then have "merged g h T V 0 target victim h T V" using Nil by (simp add: merged_def)
  then show ?case using merge_loop_end [OF g Nil.prems(3)] Nil.hyps by metis
next
  case (Cons e es)
  have e: "leaves V = e # es" using Cons.hyps(2) by simp
  have ne: "fst e \<notin> fst ` set (leaves T)" using Cons.prems(5) e by auto
  obtain err target' h1 T' where s: "tree g h1 target' T'" "set (addrs T') \<inter> set (addrs V) = {}"
    "if err = 0
        then \<exists>victim' h2 V'. merge_loop g target victim h = merge_loop g target' victim' h2
             \<and> tree g h2 target' T' \<and> tree g h2 victim' V' \<and> set (addrs T') \<inter> set (addrs V') = {}
             \<and> leaves T' = ins_at (posn (fst e) (leaves T)) e (leaves T) \<and> leaves V' = es
             \<and> changes (set (addrs T) \<union> set (addrs V)) (set (addrs T') \<union> set (addrs V')) h h2
        else err = - ENOMEM \<and> merge_loop g target victim h = Some (err, target', victim, h1)
             \<and> tree g h1 victim V \<and> target' = target \<and> leaves T' = leaves T
             \<and> changes (set (addrs T) \<union> set (addrs V)) (set (addrs T') \<union> set (addrs V)) h h1"
    using merge_step [OF g Cons.prems(1-4) e ne] by blast
  show ?case
  proof (cases "err = 0")
    case False
    then have "merged g h T V err target' victim h1 T' V"
      using s Cons.prems(5) by (simp add: merged_def)
    then show ?thesis using s(3) False by auto
  next
    case True
    then obtain victim' h2 V' where s2: "merge_loop g target victim h = merge_loop g target' victim' h2"
       "tree g h2 target' T'" "tree g h2 victim' V'" "set (addrs T') \<inter> set (addrs V') = {}"
       "leaves T' = ins_at (posn (fst e) (leaves T)) e (leaves T)" "leaves V' = es"
       "changes (set (addrs T) \<union> set (addrs V)) (set (addrs T') \<union> set (addrs V')) h h2"
      using s(3) by auto
    have d: "fst e \<notin> fst ` set es" using tree_leaves_desc [OF Cons.prems(3)] e by force
    have dj: "fst ` set (leaves V') \<inter> fst ` set (leaves T') = {}"
      using Cons.prems(5) d unfolding s2(5,6) set_ins_at e by auto
    obtain err' target'' victim'' h3 T'' V'' where IH:
      "merge_loop g target' victim' h2 = Some (err', target'', victim'', h3)"
      "merged g h2 T' V' err' target'' victim'' h3 T'' V''"
      using Cons.hyps(1) [OF s2(6) [symmetric] alloc_ok_changes [OF Cons.prems(1) s2(7)] s2(2-4) dj] by blast
    have "set (leaves T') \<union> set (leaves V') = set (leaves T) \<union> set (leaves V)"
      unfolding s2(5,6) set_ins_at e by auto
    from merged_step [OF IH(2) s2(7) this] show ?thesis using s2(1) IH(1) by auto
  qed
qed

end
