(* ===== verification/Btree_Api.thy ===== *)
theory Btree_Api
  imports Main Btree_Lookup Btree_Remove Btree_Walk
begin

text \<open>
  The tree as a finite map: what a caller of btree.h may rely on. \<open>dict T\<close> is the map the leaves
  of the tower \<open>T\<close> hold.
\<close>

definition dict :: "level list \<Rightarrow> key \<Rightarrow> ulong option" where
  "dict T = map_of (leaves T)"

lemma dict_ins_at:
  assumes "desc es" "k \<notin> fst ` set es"
  shows "map_of (ins_at (posn k es) (k, v) es) = (map_of es)(k \<mapsto> v)"
proof -
  have d: "distinct (map fst (ins_at (posn k es) (k, v) es))" "distinct (map fst ((k, v) # es))"
    using desc_ins_at [OF assms, of v] desc_distinct [OF assms(1)] assms(2)
    by (auto intro: desc_distinct)
  have "set (ins_at (posn k es) (k, v) es) = set ((k, v) # es)" by (simp add: set_ins_at)
  then show ?thesis using map_of_inject_set [OF d] by simp
qed

lemma map_of_remove_mid:
  assumes "a \<notin> fst ` set xs" "a \<notin> fst ` set ys"
  shows "(map_of (xs @ (a, b) # ys))(a := None) = map_of (xs @ ys)"
proof
  fix x
  have "map_of xs a = None" "map_of ys a = None" using assms by (simp_all add: map_of_eq_None_iff)
  then show "((map_of (xs @ (a, b) # ys))(a := None)) x = map_of (xs @ ys) x"
    by (cases "x = a"; cases "map_of xs x") (simp_all add: map_add_def)
qed

lemma map_of_del_at:
  assumes "desc es" "i < length es"
  shows "map_of (del_at i es) = (map_of es)(fst (es ! i) := None)"
proof -
  have es: "es = take i es @ es ! i # drop (Suc i) es" using assms(2) by (rule split_at)
  have "desc (take i es @ es ! i # drop (Suc i) es)" using assms(1) es by simp
  then have "fst (es ! i) \<notin> fst ` set (take i es)" "fst (es ! i) \<notin> fst ` set (drop (Suc i) es)"
    unfolding desc_append by auto
  then have "(map_of (take i es @ es ! i # drop (Suc i) es)) (fst (es ! i) := None)
      = map_of (take i es @ drop (Suc i) es)"
    by (cases "es ! i") (simp only: fst_conv, rule map_of_remove_mid)
  then show ?thesis using es by (simp add: del_at_def)
qed

lemma tree_entry:
  "tree g h head T \<Longrightarrow> (k, v) \<in> set (leaves T) \<Longrightarrow> length k = keylen g \<and> v \<noteq> 0"
  using tree_leaf_value [of g h head T "(k, v)"] by simp

lemma dom_dict: "dom (dict T) = fst ` set (leaves T)"
  by (simp add: dict_def dom_map_of_conv_image_fst)

lemma dict_join:
  assumes "tree g h a T" "tree g h b V" "tree g h' a' T'" "tree g h' b' V'"
    "fst ` set (leaves V) \<inter> fst ` set (leaves T) = {}" "fst ` set (leaves V') \<inter> fst ` set (leaves T') = {}"
    "set (leaves T') \<union> set (leaves V') = set (leaves T) \<union> set (leaves V)"
  shows "dict T' ++ dict V' = dict T ++ dict V"
proof -
  have dis: "distinct (map fst (leaves X))" if "tree g h0 hd0 X" for X h0 hd0
    using desc_distinct [OF tree_leaves_desc [OF that]] .
  have "distinct (map fst (leaves V' @ leaves T'))" "distinct (map fst (leaves V @ leaves T))"
    using dis [OF assms(1)] dis [OF assms(2)] dis [OF assms(3)] dis [OF assms(4)] assms(5,6) by simp_all
  moreover have "set (leaves V' @ leaves T') = set (leaves V @ leaves T)" using assms(7) by auto
  ultimately have "map_of (leaves V' @ leaves T') = map_of (leaves V @ leaves T)"
    by (simp only: map_of_inject_set)
  then show ?thesis by (simp add: dict_def)
qed

text \<open>A small allocator and a small tree, for concrete runs.\<close>

definition bump :: "nat \<Rightarrow> (ulong \<Rightarrow> 'o obj option) \<Rightarrow> ulong option" where
  "bump t m = (let p = 128 * (of_nat t + 1) in if p = 0 \<or> m p \<noteq> None then None else Some p)"

definition empty_heap :: "unit heap" where
  "empty_heap = \<lparr>mem = (\<lambda>_. None), ticks = 0, strategy = bump\<rparr>"

lemma bump_ok: "strategy h = bump \<Longrightarrow> alloc_ok h"
  by (auto simp: alloc_ok_def bump_def Let_def split: if_splits)

definition leaf_heap :: "unit heap" where
  "leaf_heap = empty_heap\<lparr>mem := [128 \<mapsto> Node [9, 5, 0, 0, 0, 0, 0, 0, 1, 2, 0, 0, 0, 0, 0, 0]], ticks := 1\<rparr>"

definition leaf_head :: btree_head where
  "leaf_head = \<lparr>bh_node = 128, bh_height = 1\<rparr>"

definition leaf_tower :: "level list" where
  "leaf_tower = [[(128, [([9], 1), ([5], 2)])]]"

lemma leaf_slots:
  "slots btree_geo64 [9, 5, 0, 0, 0, 0, 0, 0, 1, 2, 0, 0, 0, 0, 0, 0] = pad btree_geo64 [([9], 1), ([5], 2)]"
  by code_simp

lemma leaf_tree: "tree btree_geo64 leaf_heap leaf_head leaf_tower"
proof -
  have "nd btree_geo64 leaf_heap 128 = Some (pad btree_geo64 [([9], 1), ([5], 2)])"
    using leaf_slots by (simp add: nd_def leaf_heap_def NODESIZE_def L1_CACHE_BYTES_def SIZEOF_LONG_def)
  then show ?thesis
    by (simp add: tree_def leaf_tower_def leaf_head_def rep_def tower_in_def lnode_in_def head_ok_def
        entries_ok_def)
qed

lemma leaf_alloc: "alloc_ok leaf_heap"
  by (rule bump_ok) (simp add: leaf_heap_def empty_heap_def)

text \<open>Two trees of one leaf each in one heap.\<close>

definition two_heap :: "unit heap" where
  "two_heap = leaf_heap\<lparr>mem := (mem leaf_heap)(256 \<mapsto> Node [7, 0, 0, 0, 0, 0, 0, 0, 3, 0, 0, 0, 0, 0, 0, 0]), ticks := 2\<rparr>"

definition two_head :: btree_head where
  "two_head = \<lparr>bh_node = 256, bh_height = 1\<rparr>"

definition two_tower :: "level list" where
  "two_tower = [[(256, [([7], 3)])]]"

lemma two_slots:
  "slots btree_geo64 [7, 0, 0, 0, 0, 0, 0, 0, 3, 0, 0, 0, 0, 0, 0, 0] = pad btree_geo64 [([7], 3)]"
  by code_simp

lemma two_trees: "tree btree_geo64 two_heap leaf_head leaf_tower" "tree btree_geo64 two_heap two_head two_tower"
proof -
  have "nd btree_geo64 two_heap 128 = Some (pad btree_geo64 [([9], 1), ([5], 2)])"
    "nd btree_geo64 two_heap 256 = Some (pad btree_geo64 [([7], 3)])"
    using leaf_slots two_slots
    by (simp_all add: nd_def two_heap_def leaf_heap_def NODESIZE_def L1_CACHE_BYTES_def SIZEOF_LONG_def)
  then show "tree btree_geo64 two_heap leaf_head leaf_tower" "tree btree_geo64 two_heap two_head two_tower"
    by (simp_all add: tree_def leaf_tower_def leaf_head_def two_tower_def two_head_def rep_def tower_in_def
        lnode_in_def head_ok_def entries_ok_def)
qed

lemma two_alloc: "alloc_ok two_heap"
  by (rule bump_ok) (simp add: two_heap_def leaf_heap_def empty_heap_def)

section \<open>Properties\<close>

text \<open>
  C3: inserting a key that is not in the tree either adds exactly that key with its value, keeps
  the tree well formed and touches no object outside it, or reports \<open>-ENOMEM\<close> and leaves the map
  and the tree's head as they were; it always returns.
\<close>

theorem insert_correct:
  assumes "geo_ok g" "alloc_ok h" "tree g h head T" "kval g h kp = Some k"
    "kaddr kp \<inter> set (addrs T) = {}" "v \<noteq> 0" "dict T k = None"
  shows "\<exists>err head' h' T'. btree_insert g head h kp v = Some (err, head', h')
     \<and> tree g h' head' T' \<and> changes (set (addrs T)) (set (addrs T')) h h'
     \<and> (if err = 0 then dict T' = (dict T)(k \<mapsto> v)
        else err = - ENOMEM \<and> head' = head \<and> dict T' = dict T)"
proof -
  have new: "k \<notin> fst ` set (leaves T)" using assms(7) by (simp add: dict_def map_of_eq_None_iff)
  have "map_of (ins_at (posn k (leaves T)) (k, v) (leaves T)) = (map_of (leaves T))(k \<mapsto> v)"
    by (rule dict_ins_at [OF tree_leaves_desc [OF assms(3)] new])
  then show ?thesis
    using insert_tree [OF assms(1-6) new] by (fastforce simp: insert_result_def dict_def)
qed

lemma insert_correct_witness:
  "\<exists>err head' h' T'. btree_insert btree_geo64 leaf_head leaf_heap (Buf [7]) 3 = Some (err, head', h')
     \<and> tree btree_geo64 h' head' T' \<and> changes (set (addrs leaf_tower)) (set (addrs T')) leaf_heap h'
     \<and> (if err = 0 then dict T' = (dict leaf_tower)([7] \<mapsto> 3)
        else err = - ENOMEM \<and> head' = leaf_head \<and> dict T' = dict leaf_tower)"
  by (rule insert_correct [OF geo64_ok leaf_alloc leaf_tree]) (simp_all add: dict_def leaf_tower_def)

text \<open>C8: inserting a key that is in the tree stops the program (the code's \<open>BUG_ON\<close>).\<close>

theorem insert_duplicate_stops:
  assumes "geo_ok g" "tree g h head T" "kval g h kp = Some k" "kaddr kp \<inter> set (addrs T) = {}"
    "dict T k \<noteq> None"
  shows "btree_insert g head h kp v = None"
  by (rule insert_duplicate [OF assms(1-4)]) (use assms(5) in \<open>simp add: dict_def map_of_eq_None_iff\<close>)

lemma insert_duplicate_stops_witness:
  "btree_insert btree_geo64 leaf_head leaf_heap (Buf [5]) 3 = None"
  by (rule insert_duplicate_stops [OF geo64_ok leaf_tree, where k = "[5]"])
    (simp_all add: dict_def leaf_tower_def)

text \<open>
  C9: looking a key up gives its value, and NULL for a key that is not in the tree. Values are
  never NULL, so the two are told apart.
\<close>

theorem lookup_correct:
  assumes "geo_ok g" "tree g h head T" "kval g h kp = Some k"
  shows "btree_lookup g h head kp = Some (case dict T k of None \<Rightarrow> 0 | Some v \<Rightarrow> v)
     \<and> dict T k \<noteq> Some 0"
proof -
  have "dict T k \<noteq> Some 0" using tree_entry [OF assms(2)] by (auto simp: dict_def dest: map_of_SomeD)
  then show ?thesis using lookup_tree [OF assms] by (simp add: dict_def found_def)
qed

lemma lookup_correct_witness:
  "btree_lookup btree_geo64 leaf_heap leaf_head (Buf [5]) = Some 2
     \<and> btree_lookup btree_geo64 leaf_heap leaf_head (Buf [6]) = Some 0"
  using lookup_correct [OF geo64_ok leaf_tree, of "Buf [5]" "[5]"]
    lookup_correct [OF geo64_ok leaf_tree, of "Buf [6]" "[6]"]
  by (simp add: dict_def leaf_tower_def)


text \<open>
  C4: removing a key that is in the tree always returns its value, removes exactly that key, keeps
  the tree well formed (the \<open>BUG\<close> cases of \<open>rebalance\<close> are never reached), touches no object
  outside the tree, and gives back every node that the tree no longer uses.
\<close>

theorem remove_correct:
  assumes "geo_ok g" "tree g h head T" "kval g h kp = Some k" "kaddr kp \<inter> set (addrs T) = {}"
    "dict T k = Some v"
  shows "\<exists>head' h' T'. btree_remove g head h kp = Some (v, head', h')
     \<and> tree g h' head' T' \<and> changes (set (addrs T)) (set (addrs T')) h h'
     \<and> dict T' = (dict T)(k := None)"
proof -
  have kv: "(k, v) \<in> set (leaves T)" using assms(5) by (simp add: dict_def map_of_SomeD)
  then have mem: "k \<in> fst ` set (leaves T)" by force
  have d: "desc (leaves T)" by (rule tree_leaves_desc [OF assms(2)])
  obtain i where i: "i < length (leaves T)" "leaves T ! i = (k, v)" using kv by (auto simp: in_set_conv_nth)
  have p: "posn k (leaves T) = i" using posn_at [OF d i(1)] i(2) by simp
  obtain ret head' h' T' where 1: "btree_remove g head h kp = Some (ret, head', h')"
    "remove_result g h T k ret head' h' T'" using remove_tree [OF assms(1-4) mem] by blast
  then have r: "tree g h' head' T'" "changes (set (addrs T)) (set (addrs T')) h h'"
    "ret = v" "leaves T' = del_at i (leaves T)"
    using p i(2) by (simp_all add: remove_result_def Let_def)
  have "dict T' = (dict T)(k := None)" using map_of_del_at [OF d i(1)] i(2) r(4) by (simp add: dict_def)
  then show ?thesis using 1(1) r by auto
qed

lemma remove_correct_witness:
  "\<exists>head' h' T'. btree_remove btree_geo64 leaf_head leaf_heap (Buf [5]) = Some (2, head', h')
     \<and> tree btree_geo64 h' head' T' \<and> changes (set (addrs leaf_tower)) (set (addrs T')) leaf_heap h'
     \<and> dict T' = (dict leaf_tower)([5] := None)"
  by (rule remove_correct [OF geo64_ok leaf_tree]) (simp_all add: dict_def leaf_tower_def)

text \<open>
  C10: removing a key that is not in the tree returns NULL and leaves the map as it is, unless the
  comparison of \<open>btree_remove_level\<close> is fooled by words that are not a key (\<open>spurious\<close>).
\<close>

theorem remove_absent:
  assumes "geo_ok g" "tree g h head T" "kval g h kp = Some k" "kaddr kp \<inter> set (addrs T) = {}"
    "dict T k = None" "\<And>lv n. T = lv # tl T \<Longrightarrow> n \<in> set lv \<Longrightarrow> \<not> spurious g (snd n) k"
  shows "\<exists>h' T'. btree_remove g head h kp = Some (0, head, h') \<and> tree g h' head T'
     \<and> changes (set (addrs T)) (set (addrs T')) h h' \<and> dict T' = dict T"
proof -
  have sp: "\<forall>n \<in> set (hd T). \<not> spurious g (snd n) k" if "T \<noteq> []"
    using assms(6) [of "hd T"] that by (cases T) auto
  have "k \<notin> fst ` set (leaves T)" using assms(5) by (simp add: dict_def map_of_eq_None_iff)
  then obtain h' T' where "btree_remove g head h kp = Some (0, head, h')" "tree g h' head T'"
    "leaves T' = leaves T" "changes (set (addrs T)) (set (addrs T')) h h'"
    using remove_absent_tree [OF assms(1-4) _ sp] by blast
  then show ?thesis by (intro exI [of _ h'] exI [of _ T']) (simp add: dict_def)
qed

lemma remove_absent_witness:
  "\<exists>h' T'. btree_remove btree_geo64 leaf_head leaf_heap (Buf [7]) = Some (0, leaf_head, h')
     \<and> tree btree_geo64 h' leaf_head T' \<and> changes (set (addrs leaf_tower)) (set (addrs T')) leaf_heap h'
     \<and> dict T' = dict leaf_tower"
  by (rule remove_absent [OF geo64_ok leaf_tree])
    (auto simp: dict_def leaf_tower_def spurious_def posn_def)


text \<open>C12: \<open>btree_last\<close> is NULL for an empty tree, and otherwise points at the largest key.\<close>

theorem last_correct:
  assumes "geo_ok g" "tree g h head T"
  shows "(if dict T = Map.empty then btree_last g h head = Some None
     else \<exists>kp k. btree_last g h head = Some (Some kp) \<and> kval g h kp = Some k \<and> k \<in> dom (dict T)
       \<and> (\<forall>k' \<in> dom (dict T). k' \<le> k))"
proof (cases "leaves T = []")
  case True
  then show ?thesis using last_tree(1) [OF assms] by (simp add: dict_def)
next
  case False
  then obtain e es where e: "leaves T = e # es" by (cases "leaves T") auto
  then have ne: "dict T \<noteq> Map.empty" by (auto simp: dict_def)
  have "desc (leaves T)" by (rule tree_leaves_desc [OF assms(2)])
  then have "k' \<le> fst e" if "k' \<in> dom (dict T)" for k'
    using that e by (auto simp: dict_def dom_map_of_conv_image_fst intro: less_imp_le)
  moreover have "fst e \<in> dom (dict T)" using e by (auto simp: dict_def dom_map_of_conv_image_fst)
  ultimately show ?thesis using last_tree [OF assms] False ne e by auto
qed

lemma last_correct_witness:
  "\<exists>kp k. btree_last btree_geo64 leaf_heap leaf_head = Some (Some kp)
     \<and> kval btree_geo64 leaf_heap kp = Some k \<and> k \<in> {[9], [5]} \<and> [9] \<le> k"
proof -
  have d: "dom (dict leaf_tower) = {[9], [5]}" "dict leaf_tower \<noteq> Map.empty"
    by (auto simp: dict_def leaf_tower_def)
  show ?thesis using last_correct [OF geo64_ok leaf_tree] d by auto
qed

text \<open>
  C13: merging two trees with different keys always returns. It either empties the victim or runs out
  of memory; at either end both trees are well formed, every entry is in exactly one of them, and no
  object outside the two trees is touched.
\<close>

theorem merge_correct:
  assumes "geo_ok g" "alloc_ok h" "tree g h target T" "tree g h victim V"
    "set (addrs T) \<inter> set (addrs V) = {}" "dom (dict T) \<inter> dom (dict V) = {}"
  shows "\<exists>err target' victim' h' T' V'. btree_merge g False target victim h = Some (err, target', victim', h')
     \<and> tree g h' target' T' \<and> tree g h' victim' V' \<and> set (addrs T') \<inter> set (addrs V') = {}
     \<and> changes (set (addrs T) \<union> set (addrs V)) (set (addrs T') \<union> set (addrs V')) h h'
     \<and> dom (dict T') \<inter> dom (dict V') = {} \<and> dict T' ++ dict V' = dict T ++ dict V
     \<and> (err = 0 \<and> dict V' = Map.empty \<or> err = - ENOMEM)"
proof (cases "bh_node target = 0")
  case True
  then have T: "T = []" "target = btree_init" using tree_node_zero [OF assms(3)] assms(3) by (auto simp: tree_def)
  have run: "btree_merge g False target victim h = Some (0, victim, btree_init, h)"
    using T(2) by (simp add: btree_merge_def btree_init_def)
  have init: "tree g h btree_init []" by (simp add: tree_def)
  have ch: "changes (set (addrs T) \<union> set (addrs V)) (set (addrs V) \<union> set (addrs [])) h h"
    using T(1) tree_mem [OF assms(4)] changes_refl [of "set (addrs V)" h] by (simp add: addrs_def)
  show ?thesis
    using run init ch assms(4) T(1)
    by (intro exI [of _ 0] exI [of _ victim] exI [of _ btree_init] exI [of _ h] exI [of _ V] exI [of _ "[]"])
      (simp add: dict_def addrs_def)
next
  case False
  have dj: "fst ` set (leaves V) \<inter> fst ` set (leaves T) = {}" using assms(6) by (auto simp: dom_dict)
  obtain err target' victim' h' T' V' where run: "merge_loop g target victim h = Some (err, target', victim', h')"
    and m: "merged g h T V err target' victim' h' T' V'" using merge_tree [OF assms(1-5) dj] by blast
  have e: "btree_merge g False target victim h = Some (err, target', victim', h')"
    using run False by (simp add: btree_merge_def)
  have j: "dict T' ++ dict V' = dict T ++ dict V"
    by (rule dict_join [OF assms(3,4) _ _ dj]) (use m in \<open>auto simp: merged_def\<close>)
  have "dom (dict T') \<inter> dom (dict V') = {}" using m by (auto simp: merged_def dom_dict)
  then show ?thesis
    using e j m by (intro exI [of _ err] exI [of _ target'] exI [of _ victim'] exI [of _ h'] exI [of _ T'] exI [of _ V'])
      (auto simp: merged_def dict_def)
qed

lemma merge_correct_witness:
  "\<exists>err target' victim' h' T' V'. btree_merge btree_geo64 False leaf_head two_head two_heap = Some (err, target', victim', h')
     \<and> tree btree_geo64 h' target' T' \<and> tree btree_geo64 h' victim' V' \<and> set (addrs T') \<inter> set (addrs V') = {}
     \<and> changes (set (addrs leaf_tower) \<union> set (addrs two_tower)) (set (addrs T') \<union> set (addrs V')) two_heap h'
     \<and> dom (dict T') \<inter> dom (dict V') = {} \<and> dict T' ++ dict V' = dict leaf_tower ++ dict two_tower
     \<and> (err = 0 \<and> dict V' = Map.empty \<or> err = - ENOMEM)"
  by (rule merge_correct [OF geo64_ok two_alloc two_trees])
    (auto simp: leaf_tower_def two_tower_def addrs_def dom_dict)

end
