(* ===== verification/Btree_Typed.thy ===== *)
theory Btree_Typed
  imports Main "HOL-Library.Product_Lexorder" Btree_Api
begin

text \<open>
  btree.h: the typed wrappers around the tree, for keys of type \<open>unsigned long\<close>, \<open>u32\<close>, \<open>u64\<close> and
  pairs of \<open>u64\<close>. The interface they offer is stated as a locale (a partial map with the order of
  its keys) and proved once for all key types that a geometry can hold.
\<close>

type_synonym 'o store = "btree_head \<times> 'o heap"

section \<open>The wrappers\<close>

text \<open>Keys of type \<open>unsigned long\<close>.\<close>

definition btree_lookupl :: "'o store \<Rightarrow> ulong \<Rightarrow> ulong option" where
  "btree_lookupl s key = (case s of (head, h) \<Rightarrow> btree_lookup btree_geo32 h head (Buf [key]))"

definition btree_insertl :: "'o store \<Rightarrow> ulong \<Rightarrow> ulong \<Rightarrow> (int \<times> 'o store) option" where
  "btree_insertl s key val = (case s of (head, h) \<Rightarrow> btree_insert btree_geo32 head h (Buf [key]) val)"

definition btree_removel :: "'o store \<Rightarrow> ulong \<Rightarrow> (ulong \<times> 'o store) option" where
  "btree_removel s key = (case s of (head, h) \<Rightarrow> btree_remove btree_geo32 head h (Buf [key]))"

definition btree_mergel :: "bool \<Rightarrow> btree_head \<Rightarrow> btree_head \<Rightarrow> 'o heap \<Rightarrow>
    (int \<times> btree_head \<times> btree_head \<times> 'o heap) option" where
  "btree_mergel same target victim h = btree_merge btree_geo32 same target victim h"

text \<open>
  Keys of type \<open>u32\<close>. The wrappers pass the address of a 4-byte argument as an
  \<open>unsigned long *\<close>, so the tree reads 8 bytes: the key, and above it (the machine is little-endian)
  whatever 4 bytes follow the argument in memory, here the argument \<open>junk\<close>.
\<close>

definition wide32 :: "u32 \<Rightarrow> u32 \<Rightarrow> ulong" where
  "wide32 junk key = word_cat junk key"

definition btree_lookup32 :: "u32 \<Rightarrow> 'o store \<Rightarrow> u32 \<Rightarrow> ulong option" where
  "btree_lookup32 junk s key =
     (case s of (head, h) \<Rightarrow> btree_lookup btree_geo32 h head (Buf [wide32 junk key]))"

definition btree_insert32 :: "u32 \<Rightarrow> 'o store \<Rightarrow> u32 \<Rightarrow> ulong \<Rightarrow> (int \<times> 'o store) option" where
  "btree_insert32 junk s key val =
     (case s of (head, h) \<Rightarrow> btree_insert btree_geo32 head h (Buf [wide32 junk key]) val)"

definition btree_remove32 :: "u32 \<Rightarrow> 'o store \<Rightarrow> u32 \<Rightarrow> (ulong \<times> 'o store) option" where
  "btree_remove32 junk s key =
     (case s of (head, h) \<Rightarrow> btree_remove btree_geo32 head h (Buf [wide32 junk key]))"

definition btree_merge32 :: "bool \<Rightarrow> btree_head \<Rightarrow> btree_head \<Rightarrow> 'o heap \<Rightarrow>
    (int \<times> btree_head \<times> btree_head \<times> 'o heap) option" where
  "btree_merge32 same target victim h = btree_merge btree_geo32 same target victim h"

text \<open>Keys of type \<open>u64\<close>. \<open>btree_last64\<close> answers 0 for an empty tree.\<close>

definition btree_lookup64 :: "'o store \<Rightarrow> u64 \<Rightarrow> ulong option" where
  "btree_lookup64 s key = (case s of (head, h) \<Rightarrow> btree_lookup btree_geo64 h head (Buf [key]))"

definition btree_insert64 :: "'o store \<Rightarrow> u64 \<Rightarrow> ulong \<Rightarrow> (int \<times> 'o store) option" where
  "btree_insert64 s key val = (case s of (head, h) \<Rightarrow> btree_insert btree_geo64 head h (Buf [key]) val)"

definition btree_remove64 :: "'o store \<Rightarrow> u64 \<Rightarrow> (ulong \<times> 'o store) option" where
  "btree_remove64 s key = (case s of (head, h) \<Rightarrow> btree_remove btree_geo64 head h (Buf [key]))"

definition btree_last64 :: "'o store \<Rightarrow> u64 option" where
  "btree_last64 s = (case s of (head, h) \<Rightarrow> do {
     key \<leftarrow> btree_last btree_geo64 h head;
     (case key of None \<Rightarrow> Some 0 | Some key \<Rightarrow> peek h key 0)
   })"

definition btree_merge64 :: "bool \<Rightarrow> btree_head \<Rightarrow> btree_head \<Rightarrow> 'o heap \<Rightarrow>
    (int \<times> btree_head \<times> btree_head \<times> 'o heap) option" where
  "btree_merge64 same target victim h = btree_merge btree_geo64 same target victim h"

text \<open>Keys of two \<open>u64\<close>.\<close>

definition btree_lookup128 :: "'o store \<Rightarrow> u64 \<times> u64 \<Rightarrow> ulong option" where
  "btree_lookup128 s k = (case s of (head, h) \<Rightarrow> btree_lookup btree_geo128 h head (Buf [fst k, snd k]))"

definition btree_insert128 :: "'o store \<Rightarrow> u64 \<times> u64 \<Rightarrow> ulong \<Rightarrow> (int \<times> 'o store) option" where
  "btree_insert128 s k val =
     (case s of (head, h) \<Rightarrow> btree_insert btree_geo128 head h (Buf [fst k, snd k]) val)"

definition btree_remove128 :: "'o store \<Rightarrow> u64 \<times> u64 \<Rightarrow> (ulong \<times> 'o store) option" where
  "btree_remove128 s k = (case s of (head, h) \<Rightarrow> btree_remove btree_geo128 head h (Buf [fst k, snd k]))"

definition btree_last128 :: "'o store \<Rightarrow> (u64 \<times> u64) option" where
  "btree_last128 s = (case s of (head, h) \<Rightarrow> do {
     key \<leftarrow> btree_last btree_geo128 h head;
     (case key of
        None \<Rightarrow> Some (0, 0)
      | Some key \<Rightarrow> do {
          k1 \<leftarrow> peek h key 0;
          k2 \<leftarrow> peek h key 1;
          Some (k1, k2)
        })
   })"

definition btree_merge128 :: "bool \<Rightarrow> btree_head \<Rightarrow> btree_head \<Rightarrow> 'o heap \<Rightarrow>
    (int \<times> btree_head \<times> btree_head \<times> 'o heap) option" where
  "btree_merge128 same target victim h = btree_merge btree_geo128 same target victim h"

text \<open>The callbacks that read the key for the user's callback, and the visitors that use them.\<close>

definition visitorl :: "(ulong \<Rightarrow> ulong \<Rightarrow> ulong \<Rightarrow> nat \<Rightarrow> 's \<Rightarrow> 's) \<Rightarrow> ('o, 's) visitor" where
  "visitorl func h elem opaque key index s = do {
     k \<leftarrow> peek h key 0;
     Some (func elem opaque k index s)
   }"

definition visitor32 :: "(ulong \<Rightarrow> ulong \<Rightarrow> u32 \<Rightarrow> nat \<Rightarrow> 's \<Rightarrow> 's) \<Rightarrow> ('o, 's) visitor" where
  "visitor32 func h elem opaque key index s = do {
     k \<leftarrow> peek h key 0;
     Some (func elem opaque (ucast k) index s)
   }"

definition btree_visitorl where
  "btree_visitorl head h opaque func2 s = btree_visitor btree_geo32 head h opaque visitorl func2 s"

definition btree_grim_visitorl where
  "btree_grim_visitorl head h opaque func2 s = btree_grim_visitor btree_geo32 head h opaque visitorl func2 s"

definition btree_visitor32 where
  "btree_visitor32 head h opaque func2 s = btree_visitor btree_geo32 head h opaque visitor32 func2 s"

definition btree_grim_visitor32 where
  "btree_grim_visitor32 head h opaque func2 s = btree_grim_visitor btree_geo32 head h opaque visitor32 func2 s"

definition btree_visitor64 where
  "btree_visitor64 head h opaque func2 s = btree_visitor btree_geo64 head h opaque visitor64 func2 s"

definition btree_grim_visitor64 where
  "btree_grim_visitor64 head h opaque func2 s = btree_grim_visitor btree_geo64 head h opaque visitor64 func2 s"

definition btree_visitor128 where
  "btree_visitor128 head h opaque func2 s = btree_visitor btree_geo128 head h opaque visitor128 func2 s"

definition btree_grim_visitor128 where
  "btree_grim_visitor128 head h opaque func2 s = btree_grim_visitor btree_geo128 head h opaque visitor128 func2 s"

section \<open>The interface\<close>

text \<open>
  What the callers rely on: a state with an invariant that stands for a partial map. \<open>ins\<close> either
  adds the entry or reports \<open>-ENOMEM\<close>; inserting twice does not come back; NULL is not a value.
\<close>

locale word_map =
  fixes inv :: "'s \<Rightarrow> bool" and view :: "'s \<Rightarrow> 'k \<Rightarrow> ulong option"
    and ins :: "'s \<Rightarrow> 'k \<Rightarrow> ulong \<Rightarrow> (int \<times> 's) option"
    and get :: "'s \<Rightarrow> 'k \<Rightarrow> ulong option"
    and del :: "'s \<Rightarrow> 'k \<Rightarrow> (ulong \<times> 's) option"
  assumes get_view: "inv s \<Longrightarrow> get s k = Some (case view s k of None \<Rightarrow> 0 | Some v \<Rightarrow> v)"
    and view_nz: "inv s \<Longrightarrow> view s k \<noteq> Some 0"
    and ins_new: "inv s \<Longrightarrow> v \<noteq> 0 \<Longrightarrow> view s k = None \<Longrightarrow>
      \<exists>err s'. ins s k v = Some (err, s') \<and> inv s' \<and>
        (if err = 0 then view s' = (view s)(k \<mapsto> v) else err = - ENOMEM \<and> view s' = view s)"
    and ins_dup: "inv s \<Longrightarrow> view s k \<noteq> None \<Longrightarrow> ins s k v = None"
    and del_old: "inv s \<Longrightarrow> view s k = Some v \<Longrightarrow>
      \<exists>s'. del s k = Some (v, s') \<and> inv s' \<and> view s' = (view s)(k := None)"
begin

lemma get_none: "inv s \<Longrightarrow> get s k = Some 0 \<longleftrightarrow> view s k = None"
  using get_view [of s k] view_nz [of s k] by (auto split: option.splits)

lemma get_some: "inv s \<Longrightarrow> v \<noteq> 0 \<Longrightarrow> get s k = Some v \<longleftrightarrow> view s k = Some v"
  using get_view [of s k] by (auto split: option.splits)

text \<open>An insertion that comes back was of a new key, and did one of the two things it may do.\<close>

lemma ins_cases:
  assumes "inv s" "v \<noteq> 0" "ins s k v = Some (err, s')"
  shows "inv s' \<and> view s k = None \<and>
    (err = 0 \<and> view s' = (view s)(k \<mapsto> v) \<or> err = - ENOMEM \<and> view s' = view s)"
proof -
  have "view s k = None" using ins_dup [OF assms(1), of k v] assms(3) by fastforce
  then show ?thesis using ins_new [OF assms(1,2), of k] assms(3) by (auto split: if_splits)
qed

lemma ins_get:
  assumes "inv s" "v \<noteq> 0" "ins s k v = Some (0, s')"
  shows "get s' k = Some v \<and> (\<forall>k'. k' \<noteq> k \<longrightarrow> get s' k' = get s k')"
  using ins_cases [OF assms] get_view [of s] get_view [of s'] assms(1) by (auto simp: ENOMEM_def)

lemma ins_del:
  assumes "inv s" "v \<noteq> 0" "ins s k v = Some (0, s')"
  shows "\<exists>s''. del s' k = Some (v, s'') \<and> inv s'' \<and> view s'' = view s"
proof -
  have 1: "inv s'" "view s' = (view s)(k \<mapsto> v)" "view s k = None"
    using ins_cases [OF assms] by (auto simp: ENOMEM_def)
  then have "(view s')(k := None) = view s" by auto
  then show ?thesis using del_old [OF 1(1), of k v] 1(2) by simp
qed

end

text \<open>With an order on the keys, and the largest key.\<close>

locale ordered_word_map = word_map inv view ins get del
  for inv :: "'s \<Rightarrow> bool" and view :: "'s \<Rightarrow> 'k::linorder \<Rightarrow> ulong option"
    and ins :: "'s \<Rightarrow> 'k \<Rightarrow> ulong \<Rightarrow> (int \<times> 's) option"
    and get :: "'s \<Rightarrow> 'k \<Rightarrow> ulong option"
    and del :: "'s \<Rightarrow> 'k \<Rightarrow> (ulong \<times> 's) option" +
  fixes top :: "'s \<Rightarrow> 'k option" and nil :: 'k
  assumes top_empty: "inv s \<Longrightarrow> view s = Map.empty \<Longrightarrow> top s = Some nil"
    and top_max: "inv s \<Longrightarrow> view s \<noteq> Map.empty \<Longrightarrow>
      \<exists>k. top s = Some k \<and> k \<in> dom (view s) \<and> (\<forall>k' \<in> dom (view s). k' \<le> k)"
begin

text \<open>Taking the largest entry out: the caller can tell the end only by looking the key up.\<close>

lemma pop_top:
  assumes "inv s" "view s \<noteq> Map.empty"
  shows "\<exists>k v s'. top s = Some k \<and> get s k = Some v \<and> v \<noteq> 0 \<and> del s k = Some (v, s') \<and> inv s'
     \<and> view s' = (view s)(k := None) \<and> (\<forall>k' \<in> dom (view s'). k' < k)"
proof -
  obtain k where k: "top s = Some k" "k \<in> dom (view s)" "\<forall>k' \<in> dom (view s). k' \<le> k"
    using top_max [OF assms] by blast
  then obtain v where v: "view s k = Some v" by blast
  then have "v \<noteq> 0" using view_nz [OF assms(1)] by blast
  moreover have "get s k = Some v" using get_view [OF assms(1), of k] v by simp
  moreover obtain s' where "del s k = Some (v, s')" "inv s'" "view s' = (view s)(k := None)"
    using del_old [OF assms(1) v] by blast
  ultimately show ?thesis using k by (intro exI [of _ k] exI [of _ v] exI [of _ s']) (auto simp: less_le)
qed

lemma top_none: "inv s \<Longrightarrow> view s = Map.empty \<Longrightarrow> \<exists>k. top s = Some k \<and> get s k = Some 0"
  using top_empty get_none by auto

end

section \<open>The provider\<close>

definition well :: "btree_geo \<Rightarrow> 'o store \<Rightarrow> bool" where
  "well g s \<longleftrightarrow> alloc_ok (snd s) \<and> (\<exists>T. tree g (snd s) (fst s) T)"

text \<open>The map of a tree, observed through lookups.\<close>

definition seen :: "btree_geo \<Rightarrow> ('k \<Rightarrow> key) \<Rightarrow> 'o store \<Rightarrow> 'k \<Rightarrow> ulong option" where
  "seen g enc s k = (case btree_lookup g (snd s) (fst s) (Buf (enc k)) of
      None \<Rightarrow> None | Some v \<Rightarrow> if v = 0 then None else Some v)"

locale key_code =
  fixes g :: btree_geo and enc :: "'k::linorder \<Rightarrow> key"
  assumes geo: "geo_ok g" and enc_length: "length (enc k) = keylen g"
    and enc_le: "enc k \<le> enc k' \<longleftrightarrow> k \<le> k'"
    and enc_onto: "length w = keylen g \<Longrightarrow> \<exists>k. w = enc k"
begin

lemma enc_eq: "enc k = enc k' \<longleftrightarrow> k = k'"
  using enc_le [of k k'] enc_le [of k' k] by (auto simp: eq_iff)

lemma seen_dict: "tree g h head T \<Longrightarrow> seen g enc (head, h) k = dict T (enc k)"
  using lookup_correct [of g h head T "Buf (enc k)" "enc k"] geo enc_length [of k]
  by (auto simp: seen_def split: option.splits)

lemma view_dict: "tree g h head T \<Longrightarrow> seen g enc (head, h) = (\<lambda>k. dict T (enc k))"
  by (rule ext) (rule seen_dict)

lemma code_get:
  assumes "well g (head, h)"
  shows "btree_lookup g h head (Buf (enc k)) = Some (case seen g enc (head, h) k of None \<Rightarrow> 0 | Some v \<Rightarrow> v)"
proof -
  obtain T where t: "tree g h head T" using assms by (auto simp: well_def)
  show ?thesis using lookup_tree [OF geo t, of "Buf (enc k)" "enc k"] seen_dict [OF t] enc_length [of k]
    by (simp add: dict_def found_def)
qed

lemma code_nz: "well g s \<Longrightarrow> seen g enc s k \<noteq> Some 0"
  by (auto simp: seen_def split: option.splits)

lemma code_ins:
  assumes "well g (head, h)" "v \<noteq> 0" "seen g enc (head, h) k = None"
  shows "\<exists>err s'. btree_insert g head h (Buf (enc k)) v = Some (err, s') \<and> well g s' \<and>
        (if err = 0 then seen g enc s' = (seen g enc (head, h))(k \<mapsto> v)
         else err = - ENOMEM \<and> seen g enc s' = seen g enc (head, h))"
proof -
  obtain T where t: "alloc_ok h" "tree g h head T" using assms(1) by (auto simp: well_def)
  have new: "enc k \<notin> fst ` set (leaves T)"
    using assms(3) seen_dict [OF t(2), of k] by (simp add: dict_def map_of_eq_None_iff)
  obtain err head' h' T' where i: "btree_insert g head h (Buf (enc k)) v = Some (err, head', h')"
    "insert_result g h head T (enc k) v err head' h' T'"
    using insert_tree [OF geo t, of "Buf (enc k)" "enc k" v] assms(2) new enc_length [of k] by auto
  have t': "tree g h' head' T'" "changes (set (addrs T)) (set (addrs T')) h h'"
    using i(2) by (simp_all add: insert_result_def)
  have w: "well g (head', h')" using t' alloc_ok_changes [OF t(1)] by (auto simp: well_def)
  have "dict (T :: level list) x = map_of (leaves T) x" for T x by (simp add: dict_def)
  then have "if err = 0 then dict T' = (dict T)(enc k \<mapsto> v) else err = - ENOMEM \<and> dict T' = dict T"
    using i(2) dict_ins_at [OF tree_leaves_desc [OF t(2)] new] by (auto simp: insert_result_def dict_def)
  then show ?thesis
    using i(1) w unfolding view_dict [OF t(2)] by (auto simp: view_dict [OF t'(1)] enc_eq fun_eq_iff)
qed

lemma code_dup:
  assumes "well g (head, h)" "seen g enc (head, h) k \<noteq> None"
  shows "btree_insert g head h (Buf (enc k)) v = None"
proof -
  obtain T where t: "tree g h head T" using assms(1) by (auto simp: well_def)
  then show ?thesis using insert_duplicate [OF geo t, of "Buf (enc k)" "enc k" v] assms(2)
      seen_dict [OF t, of k] enc_length [of k] by (simp add: dict_def map_of_eq_None_iff)
qed

lemma code_del:
  assumes "well g (head, h)" "seen g enc (head, h) k = Some v"
  shows "\<exists>s'. btree_remove g head h (Buf (enc k)) = Some (v, s') \<and> well g s'
    \<and> seen g enc s' = (seen g enc (head, h))(k := None)"
proof -
  obtain T where t: "alloc_ok h" "tree g h head T" using assms(1) by (auto simp: well_def)
  have d: "desc (leaves T)" by (rule tree_leaves_desc [OF t(2)])
  have "(enc k, v) \<in> set (leaves T)" using assms(2) seen_dict [OF t(2), of k] by (simp add: dict_def map_of_SomeD)
  then obtain i where i: "i < length (leaves T)" "leaves T ! i = (enc k, v)" by (auto simp: in_set_conv_nth)
  then have mem: "enc k \<in> fst ` set (leaves T)" using nth_mem [OF i(1)] by force
  have p: "posn (enc k) (leaves T) = i" using posn_at [OF d i(1)] i(2) by simp
  obtain ret head' h' T' where r: "btree_remove g head h (Buf (enc k)) = Some (ret, head', h')"
    "remove_result g h T (enc k) ret head' h' T'"
    using remove_tree [OF geo t(2), of "Buf (enc k)" "enc k"] enc_length [of k] mem by auto
  have t': "tree g h' head' T'" "changes (set (addrs T)) (set (addrs T')) h h'" "ret = v"
    "leaves T' = del_at i (leaves T)" using r(2) p i(2) by (simp_all add: remove_result_def Let_def)
  have "well g (head', h')" using t' alloc_ok_changes [OF t(1)] by (auto simp: well_def)
  moreover have "dict T' = (dict T)(enc k := None)"
    using map_of_del_at [OF d i(1)] i(2) t'(4) by (simp add: dict_def)
  ultimately show ?thesis using r(1) t'(3) by (auto simp: view_dict [OF t(2)] view_dict [OF t'(1)] enc_eq fun_eq_iff)
qed

lemma code_top:
  assumes "well g (head, h)"
  shows "seen g enc (head, h) = Map.empty \<and> btree_last g h head = Some None
    \<or> (\<exists>kp k. btree_last g h head = Some (Some kp) \<and> (\<forall>i < keylen g. peek h kp i = Some (enc k ! i))
        \<and> k \<in> dom (seen g enc (head, h)) \<and> (\<forall>k' \<in> dom (seen g enc (head, h)). k' \<le> k))"
proof -
  obtain T where t: "tree g h head T" using assms by (auto simp: well_def)
  show ?thesis
  proof (cases "leaves T")
    case Nil
    then show ?thesis using last_tree(1) [OF geo t] by (simp add: view_dict [OF t] dict_def)
  next
    case (Cons e es)
    then obtain kp where kp: "btree_last g h head = Some (Some kp)" "kval g h kp = Some (fst e)"
      using last_tree [OF geo t] by auto
    obtain k where k: "fst e = enc k" using enc_onto kval_length [OF kp(2)] by blast
    have pk: "\<forall>i < keylen g. peek h kp i = Some (enc k ! i)" using kval_peek [OF kp(2)] k by simp
    have mx: "x \<le> fst e" if "x \<in> dom (dict T)" for x
      using that tree_leaves_desc [OF t] Cons by (auto simp: dom_dict intro: less_imp_le)
    have "fst e \<in> dom (dict T)" using Cons by (simp add: dom_dict)
    then have "enc k \<in> dom (dict T)" using k by simp
    moreover have "k' \<le> k" if "enc k' \<in> dom (dict T)" for k' using mx [OF that] k enc_le by simp
    ultimately show ?thesis using kp(1) pk unfolding view_dict [OF t]
      by (intro disjI2 exI [of _ kp] exI [of _ k]) (auto simp: dom_def)
  qed
qed

end

interpretation k64: key_code btree_geo64 "\<lambda>k. [k]"
  by unfold_locales (auto simp: length_Suc_conv)

interpretation k128: key_code btree_geo128 "\<lambda>k. [fst k, snd k]"
  by unfold_locales (auto simp: less_eq_prod_def length_Suc_conv eval_nat_numeral)

text \<open>The maps the wrappers are.\<close>

abbreviation well64 :: "'o store \<Rightarrow> bool" where "well64 \<equiv> well btree_geo64"
abbreviation view64 :: "'o store \<Rightarrow> u64 \<Rightarrow> ulong option" where
  "view64 \<equiv> seen btree_geo64 (\<lambda>k. [k])"
abbreviation view128 :: "'o store \<Rightarrow> u64 \<times> u64 \<Rightarrow> ulong option" where
  "view128 \<equiv> seen btree_geo128 (\<lambda>k. [fst k, snd k])"

interpretation m64: ordered_word_map well64 view64 btree_insert64 btree_lookup64 btree_remove64
  btree_last64 0
proof
  fix s :: "'o store" and k :: u64 and v :: ulong
  obtain head h where s: "s = (head, h)" by (cases s)
  assume w: "well64 s"
  note w' = w [unfolded s]
  show "btree_lookup64 s k = Some (case view64 s k of None \<Rightarrow> 0 | Some v \<Rightarrow> v)"
    using k64.code_get [OF w'] by (simp add: s btree_lookup64_def)
  show "view64 s k \<noteq> Some 0" using k64.code_nz [OF w] .
  show "\<exists>err s'. btree_insert64 s k v = Some (err, s') \<and> well64 s' \<and>
        (if err = 0 then view64 s' = (view64 s)(k \<mapsto> v) else err = - ENOMEM \<and> view64 s' = view64 s)"
    if "v \<noteq> 0" "view64 s k = None"
    using k64.code_ins [OF w' that(1) that(2) [unfolded s]] unfolding s btree_insert64_def prod.case .
  show "btree_insert64 s k v = None" if "view64 s k \<noteq> None"
    using k64.code_dup [OF w'] that by (simp add: s btree_insert64_def)
  show "\<exists>s'. btree_remove64 s k = Some (v, s') \<and> well64 s' \<and> view64 s' = (view64 s)(k := None)"
    if "view64 s k = Some v" using k64.code_del [OF w'] that by (simp add: s btree_remove64_def)
  show "btree_last64 s = Some 0" if "view64 s = Map.empty"
    using k64.code_top [OF w'] that by (auto simp: s btree_last64_def)
  show "\<exists>k. btree_last64 s = Some k \<and> k \<in> dom (view64 s) \<and> (\<forall>k' \<in> dom (view64 s). k' \<le> k)"
    if "view64 s \<noteq> Map.empty" using k64.code_top [OF w'] that by (auto simp: s btree_last64_def)
qed

interpretation m128: ordered_word_map "well btree_geo128" view128 btree_insert128 btree_lookup128
  btree_remove128 btree_last128 "(0, 0)"
proof
  fix s :: "'o store" and k :: "u64 \<times> u64" and v :: ulong
  obtain head h where s: "s = (head, h)" by (cases s)
  assume w: "well btree_geo128 s"
  note w' = w [unfolded s]
  show "btree_lookup128 s k = Some (case view128 s k of None \<Rightarrow> 0 | Some v \<Rightarrow> v)"
    using k128.code_get [OF w'] by (simp add: s btree_lookup128_def)
  show "view128 s k \<noteq> Some 0" using k128.code_nz [OF w] .
  show "\<exists>err s'. btree_insert128 s k v = Some (err, s') \<and> well btree_geo128 s' \<and>
        (if err = 0 then view128 s' = (view128 s)(k \<mapsto> v) else err = - ENOMEM \<and> view128 s' = view128 s)"
    if "v \<noteq> 0" "view128 s k = None"
    using k128.code_ins [OF w' that(1) that(2) [unfolded s]] unfolding s btree_insert128_def prod.case .
  show "btree_insert128 s k v = None" if "view128 s k \<noteq> None"
    using k128.code_dup [OF w'] that by (simp add: s btree_insert128_def)
  show "\<exists>s'. btree_remove128 s k = Some (v, s') \<and> well btree_geo128 s' \<and> view128 s' = (view128 s)(k := None)"
    if "view128 s k = Some v" using k128.code_del [OF w'] that by (simp add: s btree_remove128_def)
  show "btree_last128 s = Some (0, 0)" if "view128 s = Map.empty"
    using k128.code_top [OF w'] that by (auto simp: s btree_last128_def)
  show "\<exists>k. btree_last128 s = Some k \<and> k \<in> dom (view128 s) \<and> (\<forall>k' \<in> dom (view128 s). k' \<le> k)"
    if "view128 s \<noteq> Map.empty" using k128.code_top [OF w'] that by (fastforce simp: s btree_last128_def)
qed

section \<open>Visitors\<close>

text \<open>What a visitor does with the callback: one call per key, with its value and the index.\<close>

definition each :: "(ulong \<Rightarrow> 'k \<Rightarrow> nat \<Rightarrow> 's \<Rightarrow> 's) \<Rightarrow> ('k \<Rightarrow> ulong option) \<Rightarrow> 'k list \<Rightarrow> 's \<Rightarrow> 's" where
  "each f m ks s = fold (\<lambda>(i, k). f (the (m k)) k i) (enumerate 0 ks) s"

lemma visits_fold:
  assumes "\<forall>e \<in> set es. m (key (fst e)) = Some (snd e)"
  shows "visits (\<lambda>v w i s. Some (f v (key w) i s)) es c s
       = Some (fold (\<lambda>(i, k). f (the (m k)) k i) (enumerate c (map (key \<circ> fst) es)) s)"
  using assms by (induction es arbitrary: c s) simp_all

lemma calls64: "calls btree_geo64 opaque (visitor64 f) (\<lambda>v w i s. Some (f v opaque (hd w) i s))"
  unfolding calls_def
proof (intro allI impI)
  fix h :: "'a heap" and p es i c s
  assume a: "nd btree_geo64 h p = Some (pad btree_geo64 es)" "entries_ok btree_geo64 es" "i < length es"
  have k: "kval btree_geo64 h (bkey btree_geo64 p i) = Some (fst (es ! i))"
    using kval_bkey_pad [OF geo64_ok a] .
  then obtain x where x: "fst (es ! i) = [x]" using kval_length [OF k] by (auto simp: length_Suc_conv)
  have "peek h (bkey btree_geo64 p i) 0 = Some x" using kval_peek [OF k, of 0] x by simp
  then show "visitor64 f h (snd (es ! i)) opaque (bkey btree_geo64 p i) c s
      = Some (f (snd (es ! i)) opaque (hd (fst (es ! i))) c s)" using x by (simp add: visitor64_def)
qed

lemma calls128: "calls btree_geo128 opaque (visitor128 f) (\<lambda>v w i s. Some (f v opaque (w ! 0) (w ! 1) i s))"
  unfolding calls_def
proof (intro allI impI)
  fix h :: "'a heap" and p es i c s
  assume a: "nd btree_geo128 h p = Some (pad btree_geo128 es)" "entries_ok btree_geo128 es" "i < length es"
  have k: "kval btree_geo128 h (bkey btree_geo128 p i) = Some (fst (es ! i))"
    using kval_bkey_pad [OF geo128_ok a] .
  have "peek h (bkey btree_geo128 p i) 0 = Some (fst (es ! i) ! 0)"
    "peek h (bkey btree_geo128 p i) 1 = Some (fst (es ! i) ! 1)"
    using kval_peek [OF k, of 0] kval_peek [OF k, of 1] by simp_all
  then show "visitor128 f h (snd (es ! i)) opaque (bkey btree_geo128 p i) c s
      = Some (f (snd (es ! i)) opaque (fst (es ! i) ! 0) (fst (es ! i) ! 1) c s)" by (simp add: visitor128_def)
qed

text \<open>The keys of a tree, largest first.\<close>

lemma keys64:
  assumes t: "tree btree_geo64 h head T"
  defines "ks \<equiv> map (hd \<circ> fst) (leaves T)"
  shows "sorted_wrt (>) ks \<and> set ks = dom (view64 (head, h)) \<and> length ks = length (leaves T)
    \<and> (\<forall>e \<in> set (leaves T). view64 (head, h) (hd (fst e)) = Some (snd e))"
proof -
  have one: "fst e = [hd (fst e)]" if "e \<in> set (leaves T)" for e
    using tree_leaf_value [OF t that] by (auto simp: length_Suc_conv)
  have "desc (leaves T)" by (rule tree_leaves_desc [OF t])
  then have d: "sorted_wrt (\<lambda>x y. fst y < fst x) (leaves T)" by (simp add: desc_def sorted_wrt_map)
  have "sorted_wrt (\<lambda>x y. hd (fst y) < hd (fst x)) (leaves T)"
    by (rule sorted_wrt_mono_rel [OF _ d]) (metis one k64.enc_le linorder_not_less)
  then have s: "sorted_wrt (>) ks" by (simp add: ks_def sorted_wrt_map)
  have v: "view64 (head, h) (hd (fst e)) = Some (snd e)" if e: "e \<in> set (leaves T)" for e
    using map_of_is_SomeI [OF desc_distinct [OF \<open>desc (leaves T)\<close>], of "fst e" "snd e"] e one [OF e]
    by (simp add: k64.seen_dict [OF t] dict_def)
  have "set ks = dom (view64 (head, h))"
    using one by (force simp: ks_def k64.view_dict [OF t] dict_def dom_def dest: map_of_SomeD
        intro: map_of_is_SomeI [OF desc_distinct [OF \<open>desc (leaves T)\<close>]])
  then show ?thesis using s v by (simp add: ks_def)
qed

section \<open>A client of the tree\<close>

text \<open>
  What a program does to a tree that keeps to the interface: it inserts values other than NULL under
  keys that it does not find, and removes keys that it finds. An event records a call and its result.
\<close>

datatype event = Ins u64 ulong int | Del u64 ulong

inductive client :: "'o store \<Rightarrow> event list \<Rightarrow> 'o store \<Rightarrow> bool" where
  client_nil: "client s [] s"
| client_ins: "client s evs s1 \<Longrightarrow> v \<noteq> 0 \<Longrightarrow> btree_lookup64 s1 k = Some 0 \<Longrightarrow>
    btree_insert64 s1 k v = Some (err, s2) \<Longrightarrow> client s (evs @ [Ins k v err]) s2"
| client_del: "client s evs s1 \<Longrightarrow> btree_lookup64 s1 k \<noteq> Some 0 \<Longrightarrow>
    btree_remove64 s1 k = Some (v, s2) \<Longrightarrow> client s (evs @ [Del k v]) s2"

inductive_cases client_insE: "client s (evs @ [Ins k v err]) s2"
inductive_simps client_nil_iff: "client s [] s2"

text \<open>The events on the abstract map, where they are possible there.\<close>

fun spec :: "(u64 \<Rightarrow> ulong option) \<Rightarrow> event list \<Rightarrow> (u64 \<Rightarrow> ulong option) option" where
  "spec m [] = Some m"
| "spec m (Ins k v err # evs) =
     (if m k \<noteq> None then None
      else if err = 0 then spec (m(k \<mapsto> v)) evs
      else if err = - ENOMEM then spec m evs else None)"
| "spec m (Del k v # evs) = (if m k = Some v then spec (m(k := None)) evs else None)"

lemma spec_append: "spec m (xs @ ys) = Option.bind (spec m xs) (\<lambda>m. spec m ys)"
proof (induction xs arbitrary: m)
  case (Cons ev xs)
  then show ?case by (cases ev) (simp_all add: fun_upd_def)
qed simp

lemma well_init: "alloc_ok h \<Longrightarrow> well64 (btree_init, h)"
  by (auto simp: well_def tree_def intro: exI [of _ "[]"])

lemma view_init [simp]: "view64 (btree_init, h) = Map.empty"
  by (rule ext) (simp add: seen_def btree_init_def btree_lookup_def)

lemma client_spec:
  "client s evs s' \<Longrightarrow> well64 s \<Longrightarrow> well64 s' \<and> spec (view64 s) evs = Some (view64 s')"
proof (induction rule: client.induct)
  case (client_ins s evs s1 v k err s2)
  then show ?case using m64.ins_cases [of s1 v k err s2]
    by (auto simp: spec_append ENOMEM_def)
next
  case (client_del s evs s1 k v s2)
  then have w: "well64 s1" "spec (view64 s) evs = Some (view64 s1)" by simp_all
  then obtain x where x: "view64 s1 k = Some x" using client_del.hyps(2) m64.get_none by blast
  show ?case using m64.del_old [OF w(1) x] client_del.hyps(3) w x by (auto simp: spec_append)
qed simp

section \<open>Properties\<close>

text \<open>
  C14: a tree with 64-bit keys simulates a finite map: whatever sequence of insertions and removals a
  client that keeps to the interface has made from an empty tree, the results it saw are the results
  of the abstract map, lookups show that map, the next operation of either kind comes back, and
  \<open>btree_last64\<close> is the largest key (0 for an empty map).
\<close>

theorem client_simulates:
  assumes "alloc_ok h" "client (btree_init, h) evs s" "v \<noteq> 0"
  shows "\<exists>m. spec Map.empty evs = Some m
     \<and> btree_lookup64 s k = Some (case m k of None \<Rightarrow> 0 | Some x \<Rightarrow> x)
     \<and> (m k = None \<longrightarrow> btree_insert64 s k v \<noteq> None)
     \<and> (\<forall>x. m k = Some x \<longrightarrow> x \<noteq> 0 \<and> (\<exists>s'. btree_remove64 s k = Some (x, s')))
     \<and> (if m = Map.empty then btree_last64 s = Some 0
        else \<exists>l. btree_last64 s = Some l \<and> l \<in> dom m \<and> (\<forall>k \<in> dom m. k \<le> l))"
proof -
  have s: "well64 s" "spec Map.empty evs = Some (view64 s)"
    using client_spec [OF assms(2) well_init [OF assms(1)]] by simp_all
  have "btree_insert64 s k v \<noteq> None" if "view64 s k = None"
    using m64.ins_new [OF s(1) assms(3) that] by auto
  moreover have "x \<noteq> 0 \<and> (\<exists>s'. btree_remove64 s k = Some (x, s'))" if "view64 s k = Some x" for x
    using m64.del_old [OF s(1) that] m64.view_nz [OF s(1), of k] that by auto
  moreover have "if view64 s = Map.empty then btree_last64 s = Some 0
        else \<exists>l. btree_last64 s = Some l \<and> l \<in> dom (view64 s) \<and> (\<forall>k \<in> dom (view64 s). k \<le> l)"
    using m64.top_empty [OF s(1)] m64.top_max [OF s(1)] by simp
  ultimately show ?thesis using s(2) m64.get_view [OF s(1), of k]
    by (intro exI [of _ "view64 s"]) blast
qed

lemma empty_heap_ok: "alloc_ok empty_heap"
  by (rule bump_ok) (simp add: empty_heap_def)

definition one_store :: "unit store" where
  "one_store = snd (the (btree_insert64 (btree_init, empty_heap) 4 6))"

lemma one_store_run: "btree_insert64 (btree_init, empty_heap) 4 6 = Some (0, one_store)"
proof -
  have "map_option fst (btree_insert64 (btree_init, empty_heap) 4 6) = Some 0" by code_simp
  then show ?thesis by (auto simp: one_store_def)
qed

lemma one_client: "client (btree_init, empty_heap) [Ins 4 6 0] one_store"
proof -
  have "btree_lookup64 (btree_init, empty_heap) 4 = Some 0" by code_simp
  then show ?thesis using client_ins [OF client_nil _ _ one_store_run] by simp
qed

lemma client_simulates_witness:
  "btree_lookup64 one_store 4 = Some 6 \<and> btree_lookup64 one_store 5 = Some 0
     \<and> btree_insert64 one_store 5 1 \<noteq> None \<and> (\<exists>s'. btree_remove64 one_store 4 = Some (6, s'))
     \<and> btree_last64 one_store = Some 4"
proof -
  have m: "spec Map.empty [Ins 4 6 0] = Some [4 \<mapsto> 6]" by simp
  note w = client_simulates [OF empty_heap_ok one_client, of 1]
  have "btree_lookup64 one_store 4 = Some 6 \<and> (\<exists>s'. btree_remove64 one_store 4 = Some (6, s'))
     \<and> btree_last64 one_store = Some 4"
    using w [of 4] unfolding m by (auto simp: dom_def split: if_splits)
  moreover have "btree_lookup64 one_store 5 = Some 0 \<and> btree_insert64 one_store 5 1 \<noteq> None"
    using w [of 5] unfolding m by auto
  ultimately show ?thesis by simp
qed

text \<open>
  C15: \<open>btree_visitor64\<close> calls back once for every key, in descending order, with the value stored
  under the key and the number of calls before; it returns the number of keys and changes nothing.
\<close>

theorem visitor64_correct:
  assumes "tree btree_geo64 h head T"
  shows "\<exists>ks. sorted_wrt (>) ks \<and> set ks = dom (view64 (head, h))
     \<and> btree_visitor64 head h opaque (Some f) s
       = Some (length ks, each (\<lambda>v k i. f v opaque k i) (view64 (head, h)) ks s, h)"
proof -
  note k = keys64 [OF assms]
  have "btree_visitor64 head h opaque (Some f) s
      = Option.bind (visits (\<lambda>v w i s. Some (f v opaque (hd w) i s)) (leaves T) 0 s)
          (\<lambda>s. Some (length (leaves T), s, h))"
    unfolding btree_visitor64_def
    by (rule visitor_tree [OF geo64_ok assms]) (simp add: pick_visitor_def calls64)
  moreover have "visits (\<lambda>v w i s. Some (f v opaque (hd w) i s)) (leaves T) 0 s
      = Some (each (\<lambda>v k i. f v opaque k i) (view64 (head, h)) (map (hd \<circ> fst) (leaves T)) s)"
    unfolding each_def using visits_fold [of "leaves T" "view64 (head, h)" hd "\<lambda>v k i. f v opaque k i"] k by blast
  ultimately show ?thesis using k by (intro exI [of _ "map (hd \<circ> fst) (leaves T)"]) simp
qed

lemma visitor64_correct_witness:
  "\<exists>ks. sorted_wrt (>) ks \<and> set ks = dom (view64 (leaf_head, leaf_heap))
     \<and> btree_visitor64 leaf_head leaf_heap 0 (Some (\<lambda>v p k i s. s @ [(k, v, i)])) []
       = Some (length ks, each (\<lambda>v k i s. s @ [(k, v, i)]) (view64 (leaf_head, leaf_heap)) ks [], leaf_heap)"
  by (rule visitor64_correct [OF leaf_tree])

text \<open>
  C16: \<open>btree_grim_visitor64\<close> makes the same calls and then leaves an empty tree; every node of
  the tree is given back, and nothing else in memory changes.
\<close>

theorem grim_visitor64_correct:
  assumes "tree btree_geo64 h head T"
  shows "\<exists>ks h'. sorted_wrt (>) ks \<and> set ks = dom (view64 (head, h))
     \<and> btree_grim_visitor64 head h opaque (Some f) s
       = Some (length ks, each (\<lambda>v k i. f v opaque k i) (view64 (head, h)) ks s, btree_init, h')
     \<and> mem h' = (\<lambda>p. if p \<in> set (addrs T) then None else mem h p)
     \<and> view64 (btree_init, h') = Map.empty"
proof -
  note k = keys64 [OF assms]
  have "btree_grim_visitor64 head h opaque (Some f) s
      = Option.bind (visits (\<lambda>v w i s. Some (f v opaque (hd w) i s)) (leaves T) 0 s)
          (\<lambda>s. Some (length (leaves T), s, btree_init, clear h (set (addrs T))))"
    unfolding btree_grim_visitor64_def
    by (rule grim_visitor_tree [OF geo64_ok assms]) (simp add: pick_visitor_def calls64)
  moreover have "visits (\<lambda>v w i s. Some (f v opaque (hd w) i s)) (leaves T) 0 s
      = Some (each (\<lambda>v k i. f v opaque k i) (view64 (head, h)) (map (hd \<circ> fst) (leaves T)) s)"
    unfolding each_def using visits_fold [of "leaves T" "view64 (head, h)" hd "\<lambda>v k i. f v opaque k i"] k by blast
  ultimately show ?thesis using k
    by (intro exI [of _ "map (hd \<circ> fst) (leaves T)"] exI [of _ "clear h (set (addrs T))"]) (simp add: clear_def)
qed

lemma grim_visitor64_correct_witness:
  "\<exists>ks h'. sorted_wrt (>) ks \<and> set ks = dom (view64 (leaf_head, leaf_heap))
     \<and> btree_grim_visitor64 leaf_head leaf_heap 0 (Some (\<lambda>v p k i s. s @ [(k, v, i)])) []
       = Some (length ks, each (\<lambda>v k i s. s @ [(k, v, i)]) (view64 (leaf_head, leaf_heap)) ks [], btree_init, h')
     \<and> mem h' = (\<lambda>p. if p \<in> set (addrs leaf_tower) then None else mem leaf_heap p)
     \<and> view64 (btree_init, h') = Map.empty"
  by (rule grim_visitor64_correct [OF leaf_tree])

lemma wide32_inj: "wide32 j k = wide32 j' k' \<longleftrightarrow> j = j' \<and> k = k'"
proof
  assume w: "wide32 j k = wide32 j' k'"
  have "word_split (wide32 a b) = (a, b)" for a b
    unfolding wide32_def by (rule word_split_cat_alt [OF refl]) (simp add: word_size)
  then show "j = j' \<and> k = k'" using arg_cong [OF w, of "word_split :: ulong \<Rightarrow> u32 \<times> u32"] by simp
qed simp

text \<open>
  C40: the wrappers for \<open>u32\<close> keys depend on the 4 bytes that follow the key in memory: an entry
  that was inserted is not found again where those bytes differ.
\<close>

theorem lookup32_depends_on_stray_bytes:
  assumes "well64 s" "v \<noteq> 0" "btree_insert32 junk s key v = Some (0, s')" "junk' \<noteq> junk"
    "btree_lookup32 junk' s key = Some 0"
  shows "btree_lookup32 junk s' key = Some v \<and> btree_lookup32 junk' s' key = Some 0"
proof -
  have e: "btree_insert32 junk s key v = btree_insert64 s (wide32 junk key) v"
    "btree_lookup32 j x key = btree_lookup64 x (wide32 j key)" for j x
    by (simp_all add: btree_insert32_def btree_insert64_def btree_lookup32_def btree_lookup64_def geo32_is_geo64)
  show ?thesis
    using m64.ins_get [OF assms(1,2) assms(3) [unfolded e(1)]] assms(4,5) unfolding e(2) by (simp add: wide32_inj)
qed

definition store32 :: "unit store" where
  "store32 = snd (the (btree_insert32 1 (btree_init, empty_heap) 4 6))"

lemma store32_run: "btree_insert32 1 (btree_init, empty_heap) 4 6 = Some (0, store32)"
proof -
  have "map_option fst (btree_insert32 1 (btree_init, empty_heap) 4 6) = Some 0" by code_simp
  then show ?thesis by (auto simp: store32_def)
qed

lemma lookup32_depends_on_stray_bytes_witness:
  "btree_lookup32 1 store32 4 = Some 6 \<and> btree_lookup32 2 store32 4 = Some 0"
proof -
  have "btree_lookup32 2 (btree_init, empty_heap) 4 = Some 0" by code_simp
  then show ?thesis
    using lookup32_depends_on_stray_bytes [OF well_init [OF empty_heap_ok] _ store32_run, of 2] by simp
qed

end
