(* ===== verification/Kerncompat.thy ===== *)
theory Kerncompat
  imports Main Prelude
begin

unbundle bit_operations_syntax

text \<open>
  kerncompat.h: the bit operations on arrays of longs, the byte order conversions (the branch for a
  little-endian machine) and \<open>ALIGN\<close>, with the order of an integer's bytes in memory.
\<close>

section \<open>Bits of an array of longs\<close>

text \<open>\<open>nr\<close> is an \<open>int\<close>; a negative one, or one behind the array, is outside the object.\<close>

definition BITOP_MASK :: "nat \<Rightarrow> ulong" where
  "BITOP_MASK nr = push_bit (nr mod 64) 1"

definition BITOP_WORD :: "nat \<Rightarrow> nat" where
  "BITOP_WORD nr = nr div 64"

definition set_bit_in :: "nat \<Rightarrow> ulong list \<Rightarrow> ulong list option" where
  "set_bit_in nr addr =
     (if BITOP_WORD nr < length addr
      then Some (addr[BITOP_WORD nr := (addr ! BITOP_WORD nr) OR BITOP_MASK nr]) else None)"

definition clear_bit_in :: "nat \<Rightarrow> ulong list \<Rightarrow> ulong list option" where
  "clear_bit_in nr addr =
     (if BITOP_WORD nr < length addr
      then Some (addr[BITOP_WORD nr := (addr ! BITOP_WORD nr) AND NOT (BITOP_MASK nr)]) else None)"

definition test_bit_in :: "nat \<Rightarrow> ulong list \<Rightarrow> ulong option" where
  "test_bit_in nr addr =
     (if BITOP_WORD nr < length addr
      then Some (1 AND drop_bit (nr mod 64) (addr ! BITOP_WORD nr)) else None)"

section \<open>Byte order\<close>

text \<open>The bytes of an integer in the memory of a little-endian machine, lowest address first.\<close>

definition mem_bytes :: "'a::len word \<Rightarrow> u8 list" where
  "mem_bytes x = map (\<lambda>i. ucast (drop_bit (8 * i) x)) [0..<LENGTH('a) div 8]"

fun of_bytes :: "u8 list \<Rightarrow> 'a::len word" where
  "of_bytes [] = 0"
| "of_bytes (b # bs) = push_bit 8 (of_bytes bs) OR ucast b"

text \<open>The standard library's \<open>bswap_16\<close>, \<open>bswap_32\<close> and \<open>bswap_64\<close>.\<close>

definition bswap :: "'a::len word \<Rightarrow> 'a word" where
  "bswap x = of_bytes (rev (mem_bytes x))"

definition cpu_to_be16 :: "u16 \<Rightarrow> u16" where "cpu_to_be16 x = bswap x"
definition be16_to_cpu :: "u16 \<Rightarrow> u16" where "be16_to_cpu x = bswap x"
definition cpu_to_be32 :: "u32 \<Rightarrow> u32" where "cpu_to_be32 x = bswap x"
definition be32_to_cpu :: "u32 \<Rightarrow> u32" where "be32_to_cpu x = bswap x"
definition cpu_to_be64 :: "u64 \<Rightarrow> u64" where "cpu_to_be64 x = bswap x"
definition be64_to_cpu :: "u64 \<Rightarrow> u64" where "be64_to_cpu x = bswap x"
definition cpu_to_le16 :: "u16 \<Rightarrow> u16" where "cpu_to_le16 x = x"
definition le16_to_cpu :: "u16 \<Rightarrow> u16" where "le16_to_cpu x = x"
definition cpu_to_le32 :: "u32 \<Rightarrow> u32" where "cpu_to_le32 x = x"
definition le32_to_cpu :: "u32 \<Rightarrow> u32" where "le32_to_cpu x = x"
definition cpu_to_le64 :: "u64 \<Rightarrow> u64" where "cpu_to_le64 x = x"
definition le64_to_cpu :: "u64 \<Rightarrow> u64" where "le64_to_cpu x = x"

lemmas endian_defs = cpu_to_be16_def be16_to_cpu_def cpu_to_be32_def be32_to_cpu_def
  cpu_to_be64_def be64_to_cpu_def

lemma length_mem_bytes: "length (mem_bytes (x :: 'a::len word)) = LENGTH('a) div 8"
  by (simp add: mem_bytes_def)

lemma length_mem_bytes_simps [simp]:
  "length (mem_bytes (a :: u8)) = 1" "length (mem_bytes (b :: u16)) = 2"
  "length (mem_bytes (c :: u32)) = 4" "length (mem_bytes (d :: u64)) = 8"
  by (simp_all add: length_mem_bytes)

lemma bit_of_bytes:
  "bit (of_bytes bs :: 'a::len word) n \<longleftrightarrow>
     n < LENGTH('a) \<and> n div 8 < length bs \<and> bit (bs ! (n div 8)) (n mod 8)"
proof (induction bs arbitrary: n)
  case (Cons b bs)
  show ?case
  proof (cases "n < 8")
    case True
    then show ?thesis by (auto simp: bit_simps)
  next
    case False
    then obtain m where m: "n = 8 + m" by (metis le_Suc_ex not_less)
    then have d: "(8 + m) div 8 = Suc (m div 8)" by simp
    show ?thesis using m bit_imp_le_length [of b n] by (auto simp: bit_simps Cons.IH d)
  qed
qed simp

lemma bit_mem_bytes:
  "i < LENGTH('a) div 8 \<Longrightarrow> j < 8 \<Longrightarrow> bit (mem_bytes (x :: 'a::len word) ! i) j \<longleftrightarrow> bit x (8 * i + j)"
  by (simp add: mem_bytes_def bit_simps)

lemma of_bytes_mem_bytes:
  assumes "8 dvd LENGTH('a::len)"
  shows "of_bytes (mem_bytes (x :: 'a word)) = x"
proof (rule bit_word_eqI)
  fix n assume n: "n < LENGTH('a)"
  then have "n div 8 < LENGTH('a) div 8" using assms by (auto elim!: dvdE)
  then show "bit (of_bytes (mem_bytes x) :: 'a word) n = bit x n"
    using n by (simp add: bit_of_bytes length_mem_bytes bit_mem_bytes)
qed

lemma mem_bytes_of_bytes:
  assumes "length bs * 8 = LENGTH('a::len)"
  shows "mem_bytes (of_bytes bs :: 'a word) = bs"
proof (rule nth_equalityI)
  show l: "length (mem_bytes (of_bytes bs :: 'a word)) = length bs"
    unfolding length_mem_bytes using assms by (metis nonzero_mult_div_cancel_right zero_neq_numeral)
  fix i assume "i < length (mem_bytes (of_bytes bs :: 'a word))"
  then have i: "i < LENGTH('a) div 8" "i < length bs" using l by (simp_all add: length_mem_bytes)
  show "mem_bytes (of_bytes bs :: 'a word) ! i = bs ! i"
  proof (rule bit_word_eqI)
    fix j assume j: "j < LENGTH(8)"
    then have "8 * i + j < LENGTH('a)" using i(1) by simp
    then show "bit (mem_bytes (of_bytes bs :: 'a word) ! i) j = bit (bs ! i) j"
      using i j by (simp add: bit_mem_bytes bit_of_bytes)
  qed
qed

lemma mem_bytes_bswap:
  assumes "8 dvd LENGTH('a::len)"
  shows "mem_bytes (bswap (x :: 'a word)) = rev (mem_bytes x)"
  unfolding bswap_def by (rule mem_bytes_of_bytes) (use assms in \<open>simp add: length_mem_bytes\<close>)

lemma bswap_bswap:
  assumes "8 dvd LENGTH('a::len)"
  shows "bswap (bswap (x :: 'a word)) = x"
  unfolding bswap_def [of "bswap x"] mem_bytes_bswap [OF assms] by (simp add: of_bytes_mem_bytes assms)

lemma be_round_trips [simp]:
  "be16_to_cpu (cpu_to_be16 a) = a" "cpu_to_be16 (be16_to_cpu a) = a"
  "be32_to_cpu (cpu_to_be32 b) = b" "cpu_to_be32 (be32_to_cpu b) = b"
  "be64_to_cpu (cpu_to_be64 c) = c" "cpu_to_be64 (be64_to_cpu c) = c"
  by (simp_all add: endian_defs bswap_bswap)

lemma mem_bytes_inj: "8 dvd LENGTH('a::len) \<Longrightarrow> mem_bytes (x :: 'a word) = mem_bytes y \<longleftrightarrow> x = y"
  by (metis of_bytes_mem_bytes)

text \<open>What the program writes to the device is the value with its most significant byte first.\<close>

lemma mem_bytes_be:
  "mem_bytes (cpu_to_be16 a) = rev (mem_bytes a)" "mem_bytes (cpu_to_be32 b) = rev (mem_bytes b)"
  "mem_bytes (cpu_to_be64 c) = rev (mem_bytes c)"
  by (simp_all add: endian_defs mem_bytes_bswap)

section \<open>Alignment\<close>

definition ALIGN_MASK :: "u64 \<Rightarrow> u64 \<Rightarrow> u64" where
  "ALIGN_MASK x m = (x + m) AND NOT m"

definition ALIGN :: "u64 \<Rightarrow> u64 \<Rightarrow> u64" where
  "ALIGN x a = ALIGN_MASK x (a - 1)"

lemma and_not_mask: "(y :: 'a::len word) AND NOT (mask n) = push_bit n (drop_bit n y)"
  by (rule bit_word_eqI) (auto simp: bit_simps)

lemma unat_and_not_mask: "unat ((y :: u64) AND NOT (mask n)) = unat y div 2 ^ n * 2 ^ n"
proof -
  have "unat y div 2 ^ n * 2 ^ n \<le> unat y" by (metis div_times_less_eq_dividend)
  moreover have "unat y < 2 ^ 64" using unsigned_less [of y] by simp
  ultimately have "unat y div 2 ^ n * 2 ^ n < 2 ^ 64" by (rule order_le_less_trans)
  then have "take_bit 64 (unat y div 2 ^ n * 2 ^ n) = unat y div 2 ^ n * 2 ^ n"
    by (rule take_bit_nat_eq_self)
  moreover have "unat (drop_bit n y) = unat y div 2 ^ n"
    unfolding unat_drop_bit_eq by (rule drop_bit_eq_div)
  ultimately show ?thesis unfolding and_not_mask unsigned_push_bit_eq by (simp add: push_bit_eq_mult)
qed

lemma unat_2p: "n < LENGTH('a) \<Longrightarrow> unat (2 ^ n :: 'a::len word) = 2 ^ n"
  by (rule of_nat_inverse) simp_all

text \<open>Rounding up to a power of two, where the sum does not wrap around.\<close>

lemma unat_ALIGN:
  assumes "n < 64" "unat x + 2 ^ n \<le> 2 ^ 64"
  shows "unat (ALIGN x (2 ^ n)) = (unat x + (2 ^ n - 1)) div 2 ^ n * 2 ^ n"
proof -
  have m: "(2 ^ n :: u64) - 1 = mask n" by (simp add: mask_eq_exp_minus_1)
  have "unat ((2 ^ n :: u64) - 1) = 2 ^ n - 1" using assms(1) by (simp add: unat_sub_if' unat_2p)
  then have u: "unat (mask n :: u64) = 2 ^ n - 1" using m by simp
  have "unat (x + mask n) = unat x + (2 ^ n - 1)"
    using assms(2) by (simp add: unat_word_ariths(1) u)
  then show ?thesis unfolding ALIGN_def ALIGN_MASK_def m unat_and_not_mask by simp
qed

lemma round_up_bounds:
  assumes "0 < (m :: nat)"
  shows "m dvd (x + (m - 1)) div m * m" "x \<le> (x + (m - 1)) div m * m" "(x + (m - 1)) div m * m < x + m"
proof -
  have e: "(x + (m - 1)) div m * m + (x + (m - 1)) mod m = x + (m - 1)" by simp
  have "(x + (m - 1)) mod m < m" using assms by simp
  then show "x \<le> (x + (m - 1)) div m * m" "(x + (m - 1)) div m * m < x + m"
    using e assms by linarith+
qed simp

section \<open>Properties\<close>

text \<open>
  Setting a bit makes it read as 1, clearing it makes it read as 0, and neither changes what
  any other bit of the array reads as.
\<close>

theorem bit_operations:
  assumes "nr < 64 * length addr" "m < 64 * length addr"
  shows "\<exists>t a b. test_bit_in m addr = Some t \<and> set_bit_in nr addr = Some a \<and> clear_bit_in nr addr = Some b
     \<and> length a = length addr \<and> length b = length addr
     \<and> test_bit_in m a = Some (if m = nr then 1 else t) \<and> test_bit_in m b = Some (if m = nr then 0 else t)"
proof -
  have i: "nr div 64 < length addr" "m div 64 < length addr" using assms by auto
  have read: "test_bit_in m xs = Some (of_bool (bit (xs ! (m div 64)) (m mod 64)))"
    if "length xs = length addr" for xs
    using i(2) that by (simp add: test_bit_in_def BITOP_WORD_def one_and_eq mod_2_eq_odd bit_iff_odd_drop_bit)
  have same: "m div 64 = nr div 64 \<Longrightarrow> m \<noteq> nr \<Longrightarrow> m mod 64 \<noteq> nr mod 64" by (metis div_mult_mod_eq)
  let ?a = "addr[nr div 64 := (addr ! (nr div 64)) OR BITOP_MASK nr]"
  let ?b = "addr[nr div 64 := (addr ! (nr div 64)) AND NOT (BITOP_MASK nr)]"
  have "bit (?a ! (m div 64)) (m mod 64) = (m = nr \<or> bit (addr ! (m div 64)) (m mod 64))"
    "bit (?b ! (m div 64)) (m mod 64) = (m \<noteq> nr \<and> bit (addr ! (m div 64)) (m mod 64))"
    using i same by (cases "m div 64 = nr div 64"; auto simp: BITOP_MASK_def bit_simps)+
  then show ?thesis
    using i(1) by (simp add: set_bit_in_def clear_bit_in_def BITOP_WORD_def read)
qed

lemma bit_operations_witness:
  "\<exists>t a b. test_bit_in 3 [9, 0] = Some t \<and> set_bit_in 70 [9, 0] = Some a \<and> clear_bit_in 70 [9, 0] = Some b
     \<and> length a = length [9 :: ulong, 0] \<and> length b = length [9 :: ulong, 0]
     \<and> test_bit_in 3 a = Some (if 3 = (70 :: nat) then 1 else t) \<and> test_bit_in 3 b = Some (if 3 = (70 :: nat) then 0 else t)"
  by (rule bit_operations) simp_all

text \<open>
  The byte order conversions undo each other, and a converted value lies in memory, and so on
  the device, with its most significant byte first.
\<close>

theorem byte_order:
  "be16_to_cpu (cpu_to_be16 a) = a \<and> be32_to_cpu (cpu_to_be32 b) = b \<and> be64_to_cpu (cpu_to_be64 c) = c
   \<and> cpu_to_be16 (be16_to_cpu a) = a \<and> cpu_to_be32 (be32_to_cpu b) = b \<and> cpu_to_be64 (be64_to_cpu c) = c
   \<and> mem_bytes (cpu_to_be16 a) = map (\<lambda>i. ucast (drop_bit (8 * i) a)) [1, 0]
   \<and> mem_bytes (cpu_to_be32 b) = map (\<lambda>i. ucast (drop_bit (8 * i) b)) [3, 2, 1, 0]
   \<and> mem_bytes (cpu_to_be64 c) = map (\<lambda>i. ucast (drop_bit (8 * i) c)) [7, 6, 5, 4, 3, 2, 1, 0]"
proof -
  have "[0..<2] = [0, 1 :: nat]" "[0..<4] = [0, 1, 2, 3 :: nat]" "[0..<8] = [0, 1, 2, 3, 4, 5, 6, 7 :: nat]"
    by (simp_all add: upt_rec)
  then show ?thesis unfolding mem_bytes_be be_round_trips by (simp add: mem_bytes_def)
qed

text \<open>
  \<open>ALIGN\<close> to a power of two gives the least multiple of it that is not below the number, where
  the addition does not wrap around.
\<close>

theorem align_rounds_up:
  assumes "n < 64" "unat x + 2 ^ n \<le> 2 ^ 64"
  shows "2 ^ n dvd unat (ALIGN x (2 ^ n)) \<and> unat x \<le> unat (ALIGN x (2 ^ n))
     \<and> unat (ALIGN x (2 ^ n)) < unat x + 2 ^ n"
  using round_up_bounds [of "2 ^ n" "unat x"] unfolding unat_ALIGN [OF assms] by simp

lemma align_rounds_up_witness:
  "2 ^ 4 dvd unat (ALIGN 24 (2 ^ 4)) \<and> unat (24 :: u64) \<le> unat (ALIGN 24 (2 ^ 4))
     \<and> unat (ALIGN 24 (2 ^ 4)) < unat (24 :: u64) + 2 ^ 4"
  by (rule align_rounds_up) simp_all

end
