(* ===== verification/Abi.thy ===== *)
theory Abi
  imports Main Kerncompat
begin

text \<open>
  logfs_abi.h: the on-medium format. Every structure is a record with the fields of the C struct, in
  the C order and at the C widths; a field of a type \<open>__be16\<close>, \<open>__be32\<close> or \<open>__be64\<close> holds the
  converted value, as it does in C. \<open>..._bytes\<close> is the memory of the structure, which is what the
  program hands to the checksum and to the device. The byte counts that the header's \<open>SIZE_CHECK\<close>s
  state (and do not check) are proved.
\<close>

section \<open>Constants\<close>

definition LOGFS_MAGIC :: u64 where "LOGFS_MAGIC = 0x7a3a8e5cb9d5bf67"

definition LOGFS_BLOCKSIZE :: u64 where "LOGFS_BLOCKSIZE = 4096"
definition LOGFS_BLOCK_FACTOR :: u64 where "LOGFS_BLOCK_FACTOR = LOGFS_BLOCKSIZE div 8"
definition LOGFS_BLOCK_BITS :: nat where "LOGFS_BLOCK_BITS = 9"

definition I0_BLOCKS :: nat where "I0_BLOCKS = 16"
definition I1_BLOCKS :: u64 where "I1_BLOCKS = LOGFS_BLOCK_FACTOR"
definition I2_BLOCKS :: u64 where "I2_BLOCKS = LOGFS_BLOCK_FACTOR * I1_BLOCKS"
definition I3_BLOCKS :: u64 where "I3_BLOCKS = LOGFS_BLOCK_FACTOR * I2_BLOCKS"
definition I4_BLOCKS :: u64 where "I4_BLOCKS = LOGFS_BLOCK_FACTOR * I3_BLOCKS"
definition I5_BLOCKS :: u64 where "I5_BLOCKS = LOGFS_BLOCK_FACTOR * I4_BLOCKS"

definition INDIRECT_INDEX :: nat where "INDIRECT_INDEX = I0_BLOCKS"
definition LOGFS_EMBEDDED_FIELDS :: nat where "LOGFS_EMBEDDED_FIELDS = I0_BLOCKS + 1"

definition LOGFS_FULLY_POPULATED :: u64 where "LOGFS_FULLY_POPULATED = push_bit 63 1"
definition pure_ofs :: "u64 \<Rightarrow> u64" where "pure_ofs ofs = ofs AND NOT LOGFS_FULLY_POPULATED"

definition LOGFS_MAX_INDIRECT :: nat where "LOGFS_MAX_INDIRECT = 5"
definition LOGFS_MAX_LEVELS :: nat where "LOGFS_MAX_LEVELS = LOGFS_MAX_INDIRECT + 1"
definition LOGFS_NO_AREAS :: nat where "LOGFS_NO_AREAS = 2 * LOGFS_MAX_LEVELS"

definition LOGFS_MAX_NAMELEN :: nat where "LOGFS_MAX_NAMELEN = 255"
definition LOGFS_JOURNAL_SEGS :: nat where "LOGFS_JOURNAL_SEGS = 16"

definition LOGFS_OBJECT_HEADERSIZE :: nat where "LOGFS_OBJECT_HEADERSIZE = 0x1c"
definition LOGFS_SEGMENT_HEADERSIZE :: nat where "LOGFS_SEGMENT_HEADERSIZE = 0x18"
definition LOGFS_MAX_OBJECTSIZE :: nat where
  "LOGFS_MAX_OBJECTSIZE = LOGFS_OBJECT_HEADERSIZE + unat LOGFS_BLOCKSIZE"
definition LOGFS_SEGMENT_RESERVE :: nat where
  "LOGFS_SEGMENT_RESERVE = LOGFS_SEGMENT_HEADERSIZE + LOGFS_MAX_OBJECTSIZE - 1"

definition SEG_SUPER :: u8 where "SEG_SUPER = 0x01"
definition SEG_JOURNAL :: u8 where "SEG_JOURNAL = 0x02"
definition SEG_OSTORE :: u8 where "SEG_OSTORE = 0x03"

definition OBJ_BLOCK :: u8 where "OBJ_BLOCK = 0x04"
definition OBJ_INODE :: u8 where "OBJ_INODE = 0x05"
definition OBJ_DENTRY :: u8 where "OBJ_DENTRY = 0x06"

definition LOGFS_INO_MASTER :: u64 where "LOGFS_INO_MASTER = 0x01"
definition LOGFS_INO_ROOT :: u64 where "LOGFS_INO_ROOT = 0x02"
definition LOGFS_INO_SEGFILE :: u64 where "LOGFS_INO_SEGFILE = 0x03"
definition LOGFS_RESERVED_INOS :: u64 where "LOGFS_RESERVED_INOS = 0x10"

definition LOGFS_IF_COMPRESSED :: u32 where "LOGFS_IF_COMPRESSED = 0x00000004"

definition RESERVED :: u32 where "RESERVED = 0xffffffff"
definition BADSEG :: u32 where "BADSEG = 0xffffffff"

definition COMPR_NONE :: u8 where "COMPR_NONE = 0"
definition COMPR_ZLIB :: u8 where "COMPR_ZLIB = 1"

definition JE_COMMIT :: u16 where "JE_COMMIT = 0x02"
definition JE_DYNSB :: u16 where "JE_DYNSB = 0x03"
definition JE_ANCHOR :: u16 where "JE_ANCHOR = 0x04"
definition JE_OBJ_ALIAS :: u16 where "JE_OBJ_ALIAS = 0x0d"

lemmas abi_sizes = LOGFS_OBJECT_HEADERSIZE_def LOGFS_SEGMENT_HEADERSIZE_def LOGFS_EMBEDDED_FIELDS_def
  I0_BLOCKS_def LOGFS_MAX_NAMELEN_def LOGFS_JOURNAL_SEGS_def INDIRECT_INDEX_def

lemmas abi_levels = LOGFS_MAX_INDIRECT_def LOGFS_MAX_LEVELS_def LOGFS_NO_AREAS_def

section \<open>Structures\<close>

definition array_bytes :: "'a::len word list \<Rightarrow> u8 list" where
  "array_bytes ws = concat (map mem_bytes ws)"

record segment_header =
  sh_crc :: u32
  sh_pad :: u16
  sh_type :: u8
  sh_level :: u8
  sh_segno :: u32
  sh_ec :: u32
  sh_gec :: u64

definition sh_bytes :: "segment_header \<Rightarrow> u8 list" where
  "sh_bytes sh = mem_bytes (sh_crc sh) @ mem_bytes (sh_pad sh) @ mem_bytes (sh_type sh)
     @ mem_bytes (sh_level sh) @ mem_bytes (sh_segno sh) @ mem_bytes (sh_ec sh) @ mem_bytes (sh_gec sh)"

record disk_super =
  ds_sh :: segment_header
  ds_magic :: u64
  ds_crc :: u32
  ds_ifile_levels :: u8
  ds_iblock_levels :: u8
  ds_data_levels :: u8
  ds_segment_shift :: u8
  ds_block_shift :: u8
  ds_write_shift :: u8
  ds_pad0 :: "u8 list"
  ds_filesystem_size :: u64
  ds_segment_size :: u32
  ds_bad_seg_reserve :: u32
  ds_feature_incompat :: u64
  ds_feature_ro_compat :: u64
  ds_feature_compat :: u64
  ds_feature_flags :: u64
  ds_root_reserve :: u64
  ds_speed_reserve :: u64
  ds_journal_seg :: "u32 list"
  ds_super_ofs :: "u64 list"
  ds_pad3 :: "u64 list"

definition ds_bytes :: "disk_super \<Rightarrow> u8 list" where
  "ds_bytes ds = sh_bytes (ds_sh ds) @ mem_bytes (ds_magic ds) @ mem_bytes (ds_crc ds)
     @ [ds_ifile_levels ds, ds_iblock_levels ds, ds_data_levels ds, ds_segment_shift ds,
        ds_block_shift ds, ds_write_shift ds] @ ds_pad0 ds
     @ mem_bytes (ds_filesystem_size ds) @ mem_bytes (ds_segment_size ds)
     @ mem_bytes (ds_bad_seg_reserve ds) @ mem_bytes (ds_feature_incompat ds)
     @ mem_bytes (ds_feature_ro_compat ds) @ mem_bytes (ds_feature_compat ds)
     @ mem_bytes (ds_feature_flags ds) @ mem_bytes (ds_root_reserve ds)
     @ mem_bytes (ds_speed_reserve ds) @ array_bytes (ds_journal_seg ds)
     @ array_bytes (ds_super_ofs ds) @ array_bytes (ds_pad3 ds)"

definition ds_ok :: "disk_super \<Rightarrow> bool" where
  "ds_ok ds \<longleftrightarrow> length (ds_pad0 ds) = 6 \<and> length (ds_journal_seg ds) = LOGFS_JOURNAL_SEGS
     \<and> length (ds_super_ofs ds) = 2 \<and> length (ds_pad3 ds) = 8"

record object_header =
  oh_crc :: u32
  oh_len :: u16
  oh_type :: u8
  oh_compr :: u8
  oh_ino :: u64
  oh_bix :: u64
  oh_data_crc :: u32

definition oh_bytes :: "object_header \<Rightarrow> u8 list" where
  "oh_bytes oh = mem_bytes (oh_crc oh) @ mem_bytes (oh_len oh) @ mem_bytes (oh_type oh)
     @ mem_bytes (oh_compr oh) @ mem_bytes (oh_ino oh) @ mem_bytes (oh_bix oh) @ mem_bytes (oh_data_crc oh)"

record disk_inode =
  di_mode :: u16
  di_height :: u8
  di_pad :: u8
  di_flags :: u32
  di_uid :: u32
  di_gid :: u32
  di_ctime :: u64
  di_mtime :: u64
  di_atime :: u64
  di_refcount :: u32
  di_generation :: u32
  di_used_bytes :: u64
  di_size :: u64
  di_data :: "u64 list"

definition di_bytes :: "disk_inode \<Rightarrow> u8 list" where
  "di_bytes di = mem_bytes (di_mode di) @ mem_bytes (di_height di) @ mem_bytes (di_pad di)
     @ mem_bytes (di_flags di) @ mem_bytes (di_uid di) @ mem_bytes (di_gid di)
     @ mem_bytes (di_ctime di) @ mem_bytes (di_mtime di) @ mem_bytes (di_atime di)
     @ mem_bytes (di_refcount di) @ mem_bytes (di_generation di) @ mem_bytes (di_used_bytes di)
     @ mem_bytes (di_size di) @ array_bytes (di_data di)"

definition di_ok :: "disk_inode \<Rightarrow> bool" where
  "di_ok di \<longleftrightarrow> length (di_data di) = LOGFS_EMBEDDED_FIELDS"

record disk_dentry =
  de_ino :: u64
  de_namelen :: u16
  de_type :: u8
  de_name :: "u8 list"

definition de_bytes :: "disk_dentry \<Rightarrow> u8 list" where
  "de_bytes de = mem_bytes (de_ino de) @ mem_bytes (de_namelen de) @ mem_bytes (de_type de) @ de_name de"

record segment_entry =
  se_ec_level :: u32
  se_valid :: u32

definition se_bytes :: "segment_entry \<Rightarrow> u8 list" where
  "se_bytes se = mem_bytes (se_ec_level se) @ mem_bytes (se_valid se)"

record journal_header =
  h_crc :: u32
  h_len :: u16
  h_datalen :: u16
  h_type :: u16
  h_compr :: u8
  h_pad :: "u8 list"

definition jh_bytes :: "journal_header \<Rightarrow> u8 list" where
  "jh_bytes jh = mem_bytes (h_crc jh) @ mem_bytes (h_len jh) @ mem_bytes (h_datalen jh)
     @ mem_bytes (h_type jh) @ mem_bytes (h_compr jh) @ h_pad jh"

record je_dynsb_rec =
  dy_gec :: u64
  dy_sweeper :: u64
  dy_rename_dir :: u64
  dy_rename_pos :: u64
  dy_victim_ino :: u64
  dy_victim_parent :: u64
  dy_used_bytes :: u64
  dy_generation :: u32
  dy_pad :: u32

definition dynsb_bytes :: "je_dynsb_rec \<Rightarrow> u8 list" where
  "dynsb_bytes dy = mem_bytes (dy_gec dy) @ mem_bytes (dy_sweeper dy) @ mem_bytes (dy_rename_dir dy)
     @ mem_bytes (dy_rename_pos dy) @ mem_bytes (dy_victim_ino dy) @ mem_bytes (dy_victim_parent dy)
     @ mem_bytes (dy_used_bytes dy) @ mem_bytes (dy_generation dy) @ mem_bytes (dy_pad dy)"

record je_anchor_rec =
  da_size :: u64
  da_last_ino :: u64
  da_used_bytes :: u64
  da_height :: u8
  da_pad :: "u8 list"
  da_data :: "u64 list"

definition anchor_bytes :: "je_anchor_rec \<Rightarrow> u8 list" where
  "anchor_bytes da = mem_bytes (da_size da) @ mem_bytes (da_last_ino da) @ mem_bytes (da_used_bytes da)
     @ mem_bytes (da_height da) @ da_pad da @ array_bytes (da_data da)"

record obj_alias =
  oa_ino :: u64
  oa_bix :: u64
  oa_val :: u64
  oa_level :: u8
  oa_pad :: "u8 list"
  oa_child_no :: u16

definition oa_bytes :: "obj_alias \<Rightarrow> u8 list" where
  "oa_bytes oa = mem_bytes (oa_ino oa) @ mem_bytes (oa_bix oa) @ mem_bytes (oa_val oa)
     @ mem_bytes (oa_level oa) @ oa_pad oa @ mem_bytes (oa_child_no oa)"

section \<open>Sizes\<close>

lemma length_array_bytes: "length (array_bytes (ws :: 'a::len word list)) = length ws * (LENGTH('a) div 8)"
  by (induction ws) (simp_all add: array_bytes_def length_mem_bytes)

lemma mem_bytes_u8 [simp]: "mem_bytes (x :: u8) = [x]"
  by (simp add: mem_bytes_def upt_rec)

lemma length_sh_bytes [simp]: "length (sh_bytes sh) = 24"
  by (simp add: sh_bytes_def)

lemma length_oh_bytes [simp]: "length (oh_bytes oh) = 28"
  by (simp add: oh_bytes_def)

lemma length_se_bytes [simp]: "length (se_bytes se) = 8"
  by (simp add: se_bytes_def)

lemma length_di_bytes: "di_ok di \<Longrightarrow> length (di_bytes di) = 200"
  by (simp add: di_bytes_def di_ok_def length_array_bytes abi_sizes)

lemma length_ds_bytes: "ds_ok ds \<Longrightarrow> length (ds_bytes ds) = 256"
  by (simp add: ds_bytes_def ds_ok_def length_array_bytes abi_sizes)

lemma length_dynsb_bytes [simp]: "length (dynsb_bytes dy) = 64"
  by (simp add: dynsb_bytes_def)

lemma mem_bytes_append_inj:
  assumes "8 dvd LENGTH('a::len)"
  shows "mem_bytes (x :: 'a word) @ xs = mem_bytes y @ ys \<longleftrightarrow> x = y \<and> xs = ys"
  using append_eq_append_conv [of "mem_bytes x" "mem_bytes y" xs ys]
  by (simp add: length_mem_bytes mem_bytes_inj [OF assms])

lemma array_bytes_inj:
  assumes "8 dvd LENGTH('a::len)" "length (xs :: 'a word list) = length ys"
  shows "array_bytes xs = array_bytes ys \<longleftrightarrow> xs = ys"
  using assms(2) by (induction xs ys rule: list_induct2)
    (simp_all add: array_bytes_def mem_bytes_append_inj [OF assms(1)])

section \<open>Properties\<close>

text \<open>
  C37: the structures have the sizes that the header's \<open>SIZE_CHECK\<close> lines name, with no padding
  between the fields.
\<close>

theorem structure_sizes:
  assumes "ds_ok ds" "di_ok di" "length (de_name de) = LOGFS_MAX_NAMELEN" "length (h_pad jh) = 5"
    "length (da_pad da) = 7" "length (da_data da) = LOGFS_EMBEDDED_FIELDS" "length (oa_pad oa) = 5"
  shows "length (sh_bytes sh) = LOGFS_SEGMENT_HEADERSIZE \<and> length (ds_bytes ds) = 256
     \<and> length (oh_bytes oh) = LOGFS_OBJECT_HEADERSIZE \<and> length (di_bytes di) = 200
     \<and> length (de_bytes de) = 266 \<and> length (se_bytes se) = 8 \<and> length (jh_bytes jh) = 16
     \<and> length (dynsb_bytes dy) = 64 \<and> length (anchor_bytes da) = 168 \<and> length (oa_bytes oa) = 32"
proof -
  have "length (de_bytes de) = 266" using assms(3) by (simp add: de_bytes_def abi_sizes)
  moreover have "length (jh_bytes jh) = 16" using assms(4) by (simp add: jh_bytes_def)
  moreover have "length (anchor_bytes da) = 168"
    using assms(5,6) by (simp add: anchor_bytes_def length_array_bytes abi_sizes)
  moreover have "length (oa_bytes oa) = 32" using assms(7) by (simp add: oa_bytes_def)
  ultimately show ?thesis
    using length_ds_bytes [OF assms(1)] length_di_bytes [OF assms(2)] by (simp add: abi_sizes)
qed

definition zero_inode :: disk_inode where
  "zero_inode = \<lparr>di_mode = 0, di_height = 0, di_pad = 0, di_flags = 0, di_uid = 0, di_gid = 0, di_ctime = 0,
     di_mtime = 0, di_atime = 0, di_refcount = 0, di_generation = 0, di_used_bytes = 0, di_size = 0,
     di_data = replicate LOGFS_EMBEDDED_FIELDS 0\<rparr>"

definition zero_sh :: segment_header where
  "zero_sh = \<lparr>sh_crc = 0, sh_pad = 0, sh_type = 0, sh_level = 0, sh_segno = 0, sh_ec = 0, sh_gec = 0\<rparr>"

definition zero_super :: disk_super where
  "zero_super = \<lparr>ds_sh = zero_sh, ds_magic = 0, ds_crc = 0, ds_ifile_levels = 0, ds_iblock_levels = 0,
     ds_data_levels = 0, ds_segment_shift = 0, ds_block_shift = 0, ds_write_shift = 0,
     ds_pad0 = replicate 6 0, ds_filesystem_size = 0, ds_segment_size = 0, ds_bad_seg_reserve = 0,
     ds_feature_incompat = 0, ds_feature_ro_compat = 0, ds_feature_compat = 0, ds_feature_flags = 0,
     ds_root_reserve = 0, ds_speed_reserve = 0, ds_journal_seg = replicate LOGFS_JOURNAL_SEGS 0,
     ds_super_ofs = replicate 2 0, ds_pad3 = replicate 8 0\<rparr>"

lemma zero_inode_ok [simp]: "di_ok zero_inode"
  by (simp add: di_ok_def zero_inode_def)

lemma zero_super_ok [simp]: "ds_ok zero_super"
  by (simp add: ds_ok_def zero_super_def)

lemma structure_sizes_witness:
  "length (ds_bytes zero_super) = 256 \<and> length (di_bytes zero_inode) = 200"
  using structure_sizes [where ds = zero_super and di = zero_inode
      and de = "\<lparr>de_ino = 2, de_namelen = 1, de_type = 4, de_name = replicate LOGFS_MAX_NAMELEN 0\<rparr>"
      and jh = "\<lparr>h_crc = 0, h_len = 0, h_datalen = 0, h_type = 0, h_compr = 0, h_pad = replicate 5 0\<rparr>"
      and da = "\<lparr>da_size = 0, da_last_ino = 0, da_used_bytes = 0, da_height = 0, da_pad = replicate 7 0,
          da_data = replicate LOGFS_EMBEDDED_FIELDS 0\<rparr>"
      and oa = "\<lparr>oa_ino = 0, oa_bix = 0, oa_val = 0, oa_level = 0, oa_pad = replicate 5 0, oa_child_no = 0\<rparr>"]
  by simp

text \<open>
  The medium keeps the structures apart: two segment headers, object headers or inodes with the
  same bytes are the same.
\<close>

theorem encodings_injective:
  assumes "di_ok di" "di_ok di'"
  shows "(sh_bytes sh = sh_bytes sh' \<longleftrightarrow> sh = sh') \<and> (oh_bytes oh = oh_bytes oh' \<longleftrightarrow> oh = oh')
     \<and> (di_bytes di = di_bytes di' \<longleftrightarrow> di = di')"
proof (intro conjI)
  show "sh_bytes sh = sh_bytes sh' \<longleftrightarrow> sh = sh'"
    by (cases sh, cases sh') (simp del: mem_bytes_u8 add: sh_bytes_def mem_bytes_append_inj mem_bytes_inj)
  show "oh_bytes oh = oh_bytes oh' \<longleftrightarrow> oh = oh'"
    by (cases oh, cases oh') (simp del: mem_bytes_u8 add: oh_bytes_def mem_bytes_append_inj mem_bytes_inj)
  have "length (di_data di) = length (di_data di')" using assms by (simp add: di_ok_def)
  then show "di_bytes di = di_bytes di' \<longleftrightarrow> di = di'"
    by (cases di, cases di') (simp del: mem_bytes_u8 add: di_bytes_def mem_bytes_append_inj array_bytes_inj mem_bytes_inj)
qed

lemma encodings_injective_witness:
  "di_bytes zero_inode = di_bytes (zero_inode\<lparr>di_height := 1\<rparr>) \<longleftrightarrow> zero_inode = zero_inode\<lparr>di_height := 1\<rparr>"
  using encodings_injective [of zero_inode "zero_inode\<lparr>di_height := 1\<rparr>"] by (simp add: di_ok_def zero_inode_def)

end
