(* ===== verification/Logfs.thy ===== *)
theory Logfs
  imports Main Abi Btree_Typed
begin

text \<open>
  logfs.h and lib.c: the in-memory structures of the program, the ways a computation can end, the
  external code the program calls, the checksum, \<open>zalloc\<close>, \<open>ec_level\<close> and \<open>check_crc32\<close>.
\<close>

section \<open>How a computation ends\<close>

text \<open>
  A function of the program returns (\<open>Ok\<close>), ends the program with a message (\<open>Exit\<close>, the code's
  \<open>fail\<close>), or does not come back at all (\<open>Stuck\<close>: a \<open>BUG\<close>, an access outside an object, or a loop
  that never ends). Error codes are returned values, as in C.
\<close>

datatype 'a result = Ok 'a | Exit string | Stuck

definition and_then :: "'a result \<Rightarrow> ('a \<Rightarrow> 'b result) \<Rightarrow> 'b result" where
  "and_then m f = (case m of Ok x \<Rightarrow> f x | Exit s \<Rightarrow> Exit s | Stuck \<Rightarrow> Stuck)"

lemma and_then_simps [simp]:
  "and_then (Ok x) f = f x" "and_then (Exit s) f = Exit s" "and_then Stuck f = Stuck"
  by (simp_all add: and_then_def)

lemma and_then_Ok: "and_then m f = Ok y \<longleftrightarrow> (\<exists>x. m = Ok x \<and> f x = Ok y)"
  by (cases m) simp_all

definition lift :: "'a option \<Rightarrow> 'a result" where
  "lift x = (case x of None \<Rightarrow> Stuck | Some y \<Rightarrow> Ok y)"

lemma lift_simps [simp]: "lift (Some x) = Ok x" "lift None = Stuck" "lift m = Ok y \<longleftrightarrow> m = Some y"
  by (auto simp: lift_def split: option.splits)

definition fail :: "string \<Rightarrow> 'a result" where
  "fail s = Exit s"

section \<open>Structures\<close>

record inode =
  i_block_tree :: "btree_head list"
  i_di :: disk_inode

text \<open>What lies in the heap beside the tree nodes: inodes, and the indirect blocks of a file.\<close>

datatype fsobj = Inode inode | Block "u64 list"

type_synonym fsheap = "fsobj heap"

text \<open>
  A buffer that only one variable ever points to (the buffer of an area, the erase buffer) is a value;
  \<open>None\<close> is the NULL pointer.
\<close>

record area =
  a_segno :: u32
  a_used_bytes :: u32
  a_buf :: "u8 list option"

text \<open>The two tables of device operations.\<close>

datatype device_operations = Mtd_ops | Bdev_ops

record super_block =
  sb_fd :: int
  sb_fssize :: u64
  sb_segsize :: u32
  sb_erasesize :: u32
  sb_blocksize :: u32
  sb_blocksize_bits :: nat
  sb_writesize :: u32
  sb_no_segs :: u32
  sb_journal_seg :: "u32 list"
  sb_used_bytes :: u64
  sb_lastseg :: u32
  sb_area :: "area list"
  sb_segment_entry :: "segment_entry list"
  sb_erase_buf :: "u8 list option"
  sb_ofs1 :: u64
  sb_ofs2 :: u64
  sb_ino_tree :: btree_head
  sb_dev_ops :: device_operations

text \<open>
  The state of the running program: the super block, the heap, and the state \<open>'w\<close> of the operating
  system, which only system calls touch.
\<close>

record 'w world =
  sb :: super_block
  hp :: fsheap
  os :: 'w

text \<open>
  The code the program calls and does not contain: zlib's \<open>crc32\<close> and the three calls that compress a
  buffer (a run of \<open>deflateInit\<close>, \<open>deflate\<close> and \<open>deflateEnd\<close> with room for a number of bytes: whether
  each of them reported success, and what was written to the output), and the system calls. A system
  call returns its result, \<open>errno\<close> and the new state of the system.
\<close>

record 'w lib =
  z_crc32 :: "u32 \<Rightarrow> u8 list \<Rightarrow> u32"
  z_deflate :: "u8 list \<Rightarrow> nat \<Rightarrow> bool \<times> u8 list"
  sys_pwrite :: "int \<Rightarrow> u8 list \<Rightarrow> u64 \<Rightarrow> 'w \<Rightarrow> int \<times> int \<times> 'w"
  sys_memerase :: "int \<Rightarrow> u32 \<Rightarrow> u32 \<Rightarrow> 'w \<Rightarrow> int \<times> 'w"
  sys_memerase64 :: "int \<Rightarrow> u64 \<Rightarrow> u64 \<Rightarrow> 'w \<Rightarrow> int \<times> 'w"

section \<open>Memory\<close>

text \<open>
  \<open>zalloc\<close> clears what \<open>malloc\<close> returned before anyone looks at the pointer: where \<open>malloc\<close> returns
  NULL the program crashes, and the callers' tests for NULL are dead code.
\<close>

definition zalloc :: "fsobj \<Rightarrow> fsheap \<Rightarrow> (ulong \<times> fsheap) result" where
  "zalloc obj h = (case strategy h (ticks h) (mem h) of
       None \<Rightarrow> Stuck
     | Some p \<Rightarrow> Ok (p, h\<lparr>ticks := Suc (ticks h), mem := (mem h)(p \<mapsto> Ext obj)\<rparr>))"

text \<open>\<open>malloc\<close> for a buffer that is a value: whether it succeeds.\<close>

definition malloc_buf :: "fsheap \<Rightarrow> bool \<times> fsheap" where
  "malloc_buf h = (strategy h (ticks h) (mem h) \<noteq> None, h\<lparr>ticks := Suc (ticks h)\<rparr>)"

section \<open>Checksums\<close>

definition logfs_crc32 :: "'w lib \<Rightarrow> u8 list \<Rightarrow> nat \<Rightarrow> nat \<Rightarrow> u32" where
  "logfs_crc32 L data len skip = cpu_to_be32 (NOT (z_crc32 L 0 (take (len - skip) (drop skip data))))"

definition check_crc32 :: "'w lib \<Rightarrow> unit result" where
  "check_crc32 L =
     (if logfs_crc32 L (mem_bytes (0 :: u32)) 4 0 \<noteq> cpu_to_be32 0xdebb20e3
      then fail ''crc32 returns bad results'' else Ok ())"

definition ec_level :: "u32 \<Rightarrow> u8 \<Rightarrow> u32" where
  "ec_level ec level = cpu_to_be32 (push_bit 4 ec OR (ucast level AND 0xf))"

text \<open>
  The CRC that zlib documents, for concrete runs: the reflected polynomial 0xedb88320, the register
  inverted before and after.
\<close>

definition crc_shift :: "u32 \<Rightarrow> u32" where
  "crc_shift c = (if bit c 0 then drop_bit 1 c XOR 0xedb88320 else drop_bit 1 c)"

definition crc_byte :: "u8 \<Rightarrow> u32 \<Rightarrow> u32" where
  "crc_byte b c = (crc_shift ^^ 8) (c XOR ucast b)"

definition crc_register :: "u32 \<Rightarrow> u8 list \<Rightarrow> u32" where
  "crc_register c bs = fold crc_byte bs c"

definition crc_zlib :: "u32 \<Rightarrow> u8 list \<Rightarrow> u32" where
  "crc_zlib c bs = NOT (crc_register (NOT c) bs)"

lemma crc_shift_simps:
  "crc_shift 0 = 0" "crc_shift (- 1) = 0x92477CDF"
  "crc_shift (numeral n) = (if bit (numeral n :: u32) 0 then drop_bit 1 (numeral n) XOR 0xedb88320
     else drop_bit 1 (numeral n))"
  by (simp_all add: crc_shift_def mask_eq_exp_minus_1)

lemma crc_byte_0:
  "crc_byte 0 c = crc_shift (crc_shift (crc_shift (crc_shift (crc_shift (crc_shift (crc_shift (crc_shift c)))))))"
  by (simp add: crc_byte_def eval_nat_numeral)

section \<open>Properties\<close>

text \<open>
  The start-up check accepts a library whose \<open>crc32\<close> is zlib's, and stops the program where
  \<open>crc32\<close> does not invert the register, as in the kernel.
\<close>

theorem check_crc32_tells_variants:
  "check_crc32 (L\<lparr>z_crc32 := crc_zlib\<rparr>) = Ok ()
   \<and> check_crc32 (L\<lparr>z_crc32 := crc_register\<rparr>) = Exit ''crc32 returns bad results''"
proof -
  have "NOT (crc_zlib 0 [0, 0, 0, 0]) = 0xdebb20e3" "NOT (crc_register 0 [0, 0, 0, 0]) \<noteq> 0xdebb20e3"
    by (simp_all add: crc_zlib_def crc_register_def crc_byte_0 crc_shift_simps)
  moreover have "mem_bytes (0 :: u32) = [0, 0, 0, 0]" by code_simp
  moreover have "cpu_to_be32 x = cpu_to_be32 y \<longleftrightarrow> x = y" for x y by (metis be_round_trips(3))
  ultimately show ?thesis by (simp add: check_crc32_def logfs_crc32_def fail_def)
qed

text \<open>
  C38: \<open>ec_level\<close> keeps the erase count in the upper 28 bits and the level in the lower 4; a count
  below 0xfffffff is never taken for the mark of a bad segment.
\<close>

theorem ec_level_fields:
  assumes "ec < 2 ^ 28 - 1" "level < 16"
  shows "drop_bit 4 (be32_to_cpu (ec_level ec level)) = ec
     \<and> be32_to_cpu (ec_level ec level) AND 0xf = ucast level
     \<and> ec_level ec level \<noteq> cpu_to_be32 BADSEG"
proof -
  let ?w = "push_bit 4 ec OR (ucast level AND 0xf) :: u32"
  have w: "be32_to_cpu (ec_level ec level) = ?w" by (simp add: ec_level_def)
  have m: "(0xf :: u32) = mask 4" by (simp add: mask_eq_exp_minus_1)
  have "ec < 2 ^ 28" using assms(1) by (simp add: word_less_nat_alt)
  then have e: "take_bit 28 ec = ec" by (simp add: take_bit_eq_mask less_mask_eq)
  have hi: "bit ec n \<Longrightarrow> n < 28" for n
    by (subst (asm) e [symmetric]) (simp add: bit_take_bit_iff)
  have "level < 2 ^ 4" using assms(2) by simp
  then have l: "take_bit 4 level = level" by (simp add: take_bit_eq_mask less_mask_eq)
  have lo: "bit level n \<Longrightarrow> n < 4" for n
    by (subst (asm) l [symmetric]) (simp add: bit_take_bit_iff)
  have d: "drop_bit 4 ?w = ec"
    unfolding m by (rule bit_word_eqI) (auto simp: bit_simps dest: hi)
  moreover have "?w AND 0xf = ucast level"
    unfolding m by (rule bit_word_eqI) (auto simp: bit_simps dest: lo)
  moreover have "drop_bit 4 BADSEG = 2 ^ 28 - 1" by (simp add: BADSEG_def)
  then have "?w \<noteq> BADSEG" using d assms(1) by (metis less_irrefl)
  then have "ec_level ec level \<noteq> cpu_to_be32 BADSEG" using w by (metis be_round_trips(3))
  ultimately show ?thesis unfolding w by simp
qed

lemma ec_level_fields_witness:
  "drop_bit 4 (be32_to_cpu (ec_level 1 6)) = 1 \<and> be32_to_cpu (ec_level 1 6) AND 0xf = ucast (6 :: u8)
     \<and> ec_level 1 6 \<noteq> cpu_to_be32 BADSEG"
  by (rule ec_level_fields) simp_all

end
