(* ===== verification/Device.thy ===== *)
theory Device
  imports Main Logfs
begin

text \<open>
  mkfs.c, the operations on the device: \<open>mtd_erase\<close>, \<open>safe_pwrite\<close>, \<open>bdev_write\<close>, \<open>bdev_erase\<close> and
  their dispatch through \<open>dev_ops\<close>. The system calls are parameters; what POSIX documents of
  \<open>pwrite\<close> is the hypothesis \<open>posix_pwrite\<close>.
\<close>

definition EIO :: int where "EIO = 5"
definition EINTR :: int where "EINTR = 4"

text \<open>
  The loop of \<open>safe_pwrite\<close>; \<open>buf\<close> is what is left to write, so its length is the C variable
  \<open>remaining\<close>. A result larger than \<open>remaining\<close> would take \<open>buf\<close> out of its object.
\<close>

partial_function (option) pwrite_loop :: "'w lib \<Rightarrow> int \<Rightarrow> u8 list \<Rightarrow> u64 \<Rightarrow> 'w \<Rightarrow> (int \<times> 'w) option" where
  "pwrite_loop L fd buf ofs s =
     (if buf = [] then Some (0, s)
      else case sys_pwrite L fd buf ofs s of (ret, errno, s') \<Rightarrow>
        if ret < 0 then (if errno = EINTR then pwrite_loop L fd buf ofs s' else Some (ret, s'))
        else if length buf < nat ret then None
        else pwrite_loop L fd (drop (nat ret) buf) (ofs + of_int ret) s')"

declare pwrite_loop.simps [code]

definition safe_pwrite :: "'w lib \<Rightarrow> int \<Rightarrow> u8 list \<Rightarrow> nat \<Rightarrow> u64 \<Rightarrow> 'w \<Rightarrow> (int \<times> 'w) option" where
  "safe_pwrite L fd buf sz ofs s =
     (if length buf < sz then None else pwrite_loop L fd (take sz buf) ofs s)"

definition bdev_write :: "'w lib \<Rightarrow> u64 \<Rightarrow> nat \<Rightarrow> u8 list \<Rightarrow> 'w world \<Rightarrow> (int \<times> 'w world) result" where
  "bdev_write L ofs sz buf w =
     and_then (lift (safe_pwrite L (sb_fd (sb w)) buf sz ofs (os w))) (\<lambda>(ret, s).
       Ok (if ret < 0 then - EIO else 0, w\<lparr>os := s\<rparr>))"

definition bdev_erase :: "'w lib \<Rightarrow> u64 \<Rightarrow> nat \<Rightarrow> 'w world \<Rightarrow> (int \<times> 'w world) result" where
  "bdev_erase L ofs sz w =
     and_then
       (case sb_erase_buf (sb w) of
          Some buf \<Rightarrow> Ok (buf, w)
        | None \<Rightarrow>
            (let (ok, h) = malloc_buf (hp w); buf = replicate (unat (sb_segsize (sb w))) 0xff in
             if \<not> ok then fail ''out of memory''
             else Ok (buf, w\<lparr>hp := h, sb := (sb w)\<lparr>sb_erase_buf := Some buf\<rparr>\<rparr>)))
       (\<lambda>(buf, w). bdev_write L ofs sz buf w)"

definition mtd_erase :: "'w lib \<Rightarrow> u64 \<Rightarrow> nat \<Rightarrow> 'w world \<Rightarrow> (int \<times> 'w world) result" where
  "mtd_erase L ofs sz w =
     (if ofs \<ge> 0x100000000
      then (case sys_memerase64 L (sb_fd (sb w)) ofs (of_nat sz) (os w) of
              (ret, s) \<Rightarrow> Ok (ret, w\<lparr>os := s\<rparr>))
      else (case sys_memerase L (sb_fd (sb w)) (ucast ofs) (of_nat sz) (os w) of
              (ret, s) \<Rightarrow> Ok (ret, w\<lparr>os := s\<rparr>)))"

definition dev_erase :: "'w lib \<Rightarrow> u64 \<Rightarrow> nat \<Rightarrow> 'w world \<Rightarrow> (int \<times> 'w world) result" where
  "dev_erase L ofs sz w =
     (case sb_dev_ops (sb w) of Mtd_ops \<Rightarrow> mtd_erase L ofs sz w | Bdev_ops \<Rightarrow> bdev_erase L ofs sz w)"

definition dev_write :: "'w lib \<Rightarrow> u64 \<Rightarrow> nat \<Rightarrow> u8 list \<Rightarrow> 'w world \<Rightarrow> (int \<times> 'w world) result" where
  "dev_write L ofs sz buf w =
     (case sb_dev_ops (sb w) of Mtd_ops \<Rightarrow> bdev_write L ofs sz buf w | Bdev_ops \<Rightarrow> bdev_write L ofs sz buf w)"

lemma dev_write_eq: "dev_write L ofs n buf w = bdev_write L ofs n buf w"
  by (simp add: dev_write_def split: device_operations.split)

section \<open>What the system promises\<close>

text \<open>Bytes written at an offset of a device.\<close>

definition put_bytes :: "(nat \<Rightarrow> u8) \<Rightarrow> nat \<Rightarrow> u8 list \<Rightarrow> nat \<Rightarrow> u8" where
  "put_bytes d ofs bs = (\<lambda>i. if ofs \<le> i \<and> i < ofs + length bs then bs ! (i - ofs) else d i)"

text \<open>
  POSIX's \<open>pwrite\<close>: it writes a non-empty prefix of the buffer, or it fails and writes nothing. It is
  interrupted by signals only finitely often: \<open>budget\<close> bounds how often.
\<close>

definition posix_pwrite :: "'w lib \<Rightarrow> ('w \<Rightarrow> nat \<Rightarrow> u8) \<Rightarrow> ('w \<Rightarrow> nat) \<Rightarrow> bool" where
  "posix_pwrite L disk budget \<longleftrightarrow> (\<forall>fd buf ofs s ret errno s'. buf \<noteq> [] \<longrightarrow>
     sys_pwrite L fd buf ofs s = (ret, errno, s') \<longrightarrow> budget s' \<le> budget s \<and>
     (0 < ret \<and> nat ret \<le> length buf \<and> disk s' = put_bytes (disk s) (unat ofs) (take (nat ret) buf)
      \<or> ret < 0 \<and> disk s' = disk s \<and> (errno = EINTR \<longrightarrow> budget s' < budget s)))"

lemma put_bytes_Nil [simp]: "put_bytes d ofs [] = d"
  by (auto simp: put_bytes_def fun_eq_iff)

lemma put_bytes_append: "put_bytes (put_bytes d ofs xs) (ofs + length xs) ys = put_bytes d ofs (xs @ ys)"
  by (auto simp: put_bytes_def fun_eq_iff nth_append)

lemma put_bytes_outside: "i < ofs \<or> ofs + length bs \<le> i \<Longrightarrow> put_bytes d ofs bs i = d i"
  by (auto simp: put_bytes_def)

lemma pwrite_loop_posix:
  assumes "posix_pwrite L disk budget" "unat ofs + length buf < 2 ^ 64"
  shows "\<exists>r s' n. pwrite_loop L fd buf ofs s = Some (r, s') \<and> budget s' \<le> budget s \<and> n \<le> length buf
     \<and> disk s' = put_bytes (disk s) (unat ofs) (take n buf) \<and> (r = 0 \<and> n = length buf \<or> r < 0)"
  using assms(2)
proof (induction "length buf + budget s" arbitrary: buf ofs s rule: less_induct)
  case less
  show ?case
  proof (cases "buf = []")
    case True
    then show ?thesis by (subst pwrite_loop.simps) simp
  next
    case False
    obtain ret errno s1 where c: "sys_pwrite L fd buf ofs s = (ret, errno, s1)"
      by (cases "sys_pwrite L fd buf ofs s") auto
    have law: "budget s1 \<le> budget s" "0 < ret \<and> nat ret \<le> length buf \<and>
         disk s1 = put_bytes (disk s) (unat ofs) (take (nat ret) buf)
       \<or> ret < 0 \<and> disk s1 = disk s \<and> (errno = EINTR \<longrightarrow> budget s1 < budget s)"
      using assms(1) False c unfolding posix_pwrite_def by blast+
    consider "0 < ret" | "ret < 0" "errno = EINTR" | "ret < 0" "errno \<noteq> EINTR" using law(2) by auto
    then show ?thesis
    proof cases
      case 1
      then have r: "nat ret \<le> length buf" "disk s1 = put_bytes (disk s) (unat ofs) (take (nat ret) buf)"
        using law(2) by auto
      have o: "unat (ofs + of_int ret) = unat ofs + nat ret"
      proof -
        have "unat (of_nat (nat ret) :: u64) = nat ret" using r(1) less.prems by (intro of_nat_inverse) auto
        moreover have "(of_int ret :: u64) = of_nat (nat ret)" using 1 by simp
        ultimately show ?thesis using less.prems r(1) by (simp add: unat_word_ariths)
      qed
      have run: "pwrite_loop L fd buf ofs s = pwrite_loop L fd (drop (nat ret) buf) (ofs + of_int ret) s1"
        using False c 1 r(1) by (subst pwrite_loop.simps) simp
      have "\<exists>r s' n. pwrite_loop L fd (drop (nat ret) buf) (ofs + of_int ret) s1 = Some (r, s') \<and> budget s' \<le> budget s1
         \<and> n \<le> length (drop (nat ret) buf)
         \<and> disk s' = put_bytes (disk s1) (unat (ofs + of_int ret)) (take n (drop (nat ret) buf))
         \<and> (r = 0 \<and> n = length (drop (nat ret) buf) \<or> r < 0)"
        by (rule less.hyps) (use 1 law(1) False r(1) o less.prems in auto)
      then obtain r' s' n where s': "pwrite_loop L fd buf ofs s = Some (r', s')" "budget s' \<le> budget s"
        "n \<le> length buf - nat ret" "r' = 0 \<and> n = length buf - nat ret \<or> r' < 0"
        "disk s' = put_bytes (disk s1) (unat ofs + nat ret) (take n (drop (nat ret) buf))"
        using run o law(1) by auto
      have "disk s' = put_bytes (disk s) (unat ofs) (take (nat ret) buf @ take n (drop (nat ret) buf))"
        using put_bytes_append [of "disk s" "unat ofs" "take (nat ret) buf"] r s'(5) by simp
      then have "disk s' = put_bytes (disk s) (unat ofs) (take (nat ret + n) buf)" by (simp add: take_add)
      moreover have "nat ret + n \<le> length buf" using s'(3) r(1) by simp
      ultimately show ?thesis using s'(1,2,4) r(1) by (intro exI [of _ r'] exI [of _ s'] exI [of _ "nat ret + n"]) auto
    next
      case 2
      then have d: "disk s1 = disk s" "budget s1 < budget s" using law(2) by auto
      have "pwrite_loop L fd buf ofs s = pwrite_loop L fd buf ofs s1"
        using False c 2 by (subst pwrite_loop.simps) simp
      then show ?thesis using less.hyps [of buf s1 ofs] d less.prems by fastforce
    next
      case 3
      then have "disk s1 = disk s" using law(2) by auto
      moreover have "pwrite_loop L fd buf ofs s = Some (ret, s1)"
        using False c 3 by (subst pwrite_loop.simps) simp
      ultimately show ?thesis using 3 law(1) by (intro exI [of _ ret] exI [of _ s1] exI [of _ 0]) simp
    qed
  qed
qed

text \<open>A system for concrete runs: a device that takes at most three bytes at a time.\<close>

record toy =
  toy_disk :: "nat \<Rightarrow> u8"
  toy_signals :: nat

definition toy_pwrite :: "int \<Rightarrow> u8 list \<Rightarrow> u64 \<Rightarrow> toy \<Rightarrow> int \<times> int \<times> toy" where
  "toy_pwrite fd buf ofs s =
     (if toy_signals s > 0 then (-1, EINTR, s\<lparr>toy_signals := toy_signals s - 1\<rparr>)
      else (let n = min 3 (length buf) in
        (int n, 0, s\<lparr>toy_disk := put_bytes (toy_disk s) (unat ofs) (take n buf)\<rparr>)))"

definition toy_lib :: "toy lib" where
  "toy_lib = \<lparr>z_crc32 = crc_zlib, z_deflate = (\<lambda>_ _. (False, [])), sys_pwrite = toy_pwrite,
     sys_memerase = (\<lambda>_ _ _ s. (0, s)), sys_memerase64 = (\<lambda>_ _ _ s. (0, s))\<rparr>"

lemma toy_posix: "posix_pwrite toy_lib toy_disk toy_signals"
  by (auto simp: posix_pwrite_def toy_lib_def toy_pwrite_def Let_def split: if_splits)

lemma dev_write_posix:
  assumes "posix_pwrite L disk budget" "sz \<le> length buf" "unat ofs + sz < 2 ^ 64"
  shows "\<exists>err s n. dev_write L ofs sz buf w = Ok (err, w\<lparr>os := s\<rparr>) \<and> n \<le> sz
     \<and> disk s = put_bytes (disk (os w)) (unat ofs) (take n buf)
     \<and> (err = 0 \<and> n = sz \<or> err = - EIO)"
proof -
  have l: "length (take sz buf) = sz" using assms(2) by simp
  obtain r s' n where p: "pwrite_loop L (sb_fd (sb w)) (take sz buf) ofs (os w) = Some (r, s')" "n \<le> sz"
    "disk s' = put_bytes (disk (os w)) (unat ofs) (take n buf)" "r = 0 \<and> n = sz \<or> r < 0"
    using pwrite_loop_posix [OF assms(1), of ofs "take sz buf" "sb_fd (sb w)" "os w"] assms(3)
    unfolding l by (auto simp: min_absorb1)
  have "dev_write L ofs sz buf w = Ok (if r < 0 then - EIO else 0, w\<lparr>os := s'\<rparr>)"
    using p(1) assms(2) by (simp add: dev_write_def bdev_write_def safe_pwrite_def split: device_operations.split)
  then show ?thesis using p(2-4) by (intro exI [of _ "if r < 0 then - EIO else 0"] exI [of _ s'] exI [of _ n]) auto
qed

section \<open>Properties\<close>

text \<open>
  C17: over a system that keeps to POSIX, a device write always comes back, however often it is
  interrupted or cut short. It returns 0 with all of the data on the device, or \<open>-EIO\<close> with a prefix
  of it; no byte outside the written range changes, and nothing but the system's state does.
\<close>

theorem dev_write_writes:
  assumes "posix_pwrite L disk budget" "sz \<le> length buf" "unat ofs + sz < 2 ^ 64"
  shows "\<exists>err s n. dev_write L ofs sz buf w = Ok (err, w\<lparr>os := s\<rparr>) \<and> n \<le> sz
     \<and> disk s = put_bytes (disk (os w)) (unat ofs) (take n buf)
     \<and> (err = 0 \<and> n = sz \<or> err = - EIO)"
  by (rule dev_write_posix [OF assms])

definition toy_super :: super_block where
  "toy_super = \<lparr>sb_fd = 3, sb_fssize = 0, sb_segsize = 0, sb_erasesize = 0, sb_blocksize = 4096,
     sb_blocksize_bits = 12, sb_writesize = 1, sb_no_segs = 0, sb_journal_seg = replicate 16 0,
     sb_used_bytes = 0, sb_lastseg = 0,
     sb_area = replicate LOGFS_NO_AREAS \<lparr>a_segno = 0, a_used_bytes = 0, a_buf = None\<rparr>,
     sb_segment_entry = [], sb_erase_buf = None, sb_ofs1 = 0, sb_ofs2 = 0, sb_ino_tree = btree_init,
     sb_dev_ops = Bdev_ops\<rparr>"

definition toy_world :: "toy world" where
  "toy_world = \<lparr>sb = toy_super, hp = \<lparr>mem = (\<lambda>_. None), ticks = 0, strategy = bump\<rparr>,
     os = \<lparr>toy_disk = (\<lambda>_. 0), toy_signals = 2\<rparr>\<rparr>"

lemma dev_write_writes_witness:
  "\<exists>err s n. dev_write toy_lib 100 5 [1, 2, 3, 4, 5, 6] toy_world = Ok (err, toy_world\<lparr>os := s\<rparr>) \<and> n \<le> 5
     \<and> toy_disk s = put_bytes (toy_disk (os toy_world)) (unat (100 :: u64)) (take n [1, 2, 3, 4, 5, 6])
     \<and> (err = 0 \<and> n = 5 \<or> err = - EIO)"
  by (rule dev_write_writes [OF toy_posix]) simp_all



end
