(* ===== verification/Inode.thy ===== *)
theory Inode
  imports Main Device
begin

text \<open>
  readwrite.c, first part: finding or creating an inode and a block of a file. The inode tree of the
  super block maps inode numbers to inodes; every inode has a tree of blocks per level.
\<close>

definition new_inode :: inode where
  "new_inode = \<lparr>i_block_tree = replicate LOGFS_MAX_LEVELS btree_init, i_di = zero_inode\<rparr>"

text \<open>Reading and writing an object through its pointer.\<close>

definition inode_at :: "fsheap \<Rightarrow> ulong \<Rightarrow> inode option" where
  "inode_at h p = (case mem h p of Some (Ext (Inode i)) \<Rightarrow> Some i | _ \<Rightarrow> None)"

definition block_at :: "fsheap \<Rightarrow> ulong \<Rightarrow> u64 list option" where
  "block_at h p = (case mem h p of Some (Ext (Block ws)) \<Rightarrow> Some ws | _ \<Rightarrow> None)"

definition put_obj :: "ulong \<Rightarrow> fsobj \<Rightarrow> fsheap \<Rightarrow> fsheap" where
  "put_obj p x h = h\<lparr>mem := (mem h)(p \<mapsto> Ext x)\<rparr>"

definition upd_inode :: "ulong \<Rightarrow> (inode \<Rightarrow> inode) \<Rightarrow> 'w world \<Rightarrow> 'w world result" where
  "upd_inode p f w = and_then (lift (inode_at (hp w) p)) (\<lambda>i.
     Ok (w\<lparr>hp := put_obj p (Inode (f i)) (hp w)\<rparr>))"

text \<open>The result is a pointer, NULL (0) where the tree could not grow.\<close>

definition find_or_create_inode :: "u64 \<Rightarrow> 'w world \<Rightarrow> (ulong \<times> 'w world) result" where
  "find_or_create_inode ino w =
     and_then (lift (btree_lookup64 (sb_ino_tree (sb w), hp w) ino)) (\<lambda>inode.
       if inode \<noteq> 0 then Ok (inode, w)
       else and_then (zalloc (Inode new_inode) (hp w)) (\<lambda>(inode, h).
         and_then (lift (btree_insert64 (sb_ino_tree (sb w), h) ino inode)) (\<lambda>(err, tree, h).
           Ok (if err \<noteq> 0 then 0 else inode, w\<lparr>hp := h, sb := (sb w)\<lparr>sb_ino_tree := tree\<rparr>\<rparr>))))"

definition block_longs :: "super_block \<Rightarrow> nat" where
  "block_longs s = unat (sb_blocksize s) div 8"

definition find_or_create_block :: "ulong \<Rightarrow> u64 \<Rightarrow> nat \<Rightarrow> 'w world \<Rightarrow> (ulong \<times> 'w world) result" where
  "find_or_create_block inode bix level w =
     and_then (lift (inode_at (hp w) inode)) (\<lambda>i.
       if level \<ge> LOGFS_MAX_LEVELS then Stuck
       else and_then (lift (btree_lookup64 (i_block_tree i ! level, hp w) bix)) (\<lambda>block.
         if block \<noteq> 0 then Ok (block, w)
         else and_then (zalloc (Block (replicate (block_longs (sb w)) 0)) (hp w)) (\<lambda>(block, h).
           and_then (lift (btree_insert64 (i_block_tree i ! level, h) bix block)) (\<lambda>(err, tree, h).
             and_then (upd_inode inode (\<lambda>i. i\<lparr>i_block_tree := (i_block_tree i)[level := tree]\<rparr>)
                         (w\<lparr>hp := h\<rparr>)) (\<lambda>w.
               Ok (if err \<noteq> 0 then 0 else block, w))))))"

section \<open>Who owns what\<close>

text \<open>
  Every object of the heap that the program can reach has one owner: a tree owns its nodes, the inode
  tree's entries own the inodes, the entries of a block tree own the blocks.
\<close>

datatype owner = Ino_tree | Inode_of u64 | Block_tree u64 nat | Block_of u64 nat u64

record ghost =
  own :: "ulong \<Rightarrow> owner option"
  ino_tower :: "level list"
  blk_tower :: "u64 \<Rightarrow> nat \<Rightarrow> level list"

text \<open>The trees of an inode, and its blocks.\<close>

definition inode_ok :: "fsheap \<Rightarrow> (nat \<Rightarrow> level list) \<Rightarrow> inode \<Rightarrow> bool" where
  "inode_ok h Ts i \<longleftrightarrow> length (i_block_tree i) = LOGFS_MAX_LEVELS \<and> di_ok (i_di i)
     \<and> (\<forall>l < LOGFS_MAX_LEVELS. tree btree_geo64 h (i_block_tree i ! l) (Ts l))"

definition fs_ok :: "nat \<Rightarrow> fsheap \<Rightarrow> btree_head \<Rightarrow> ghost \<Rightarrow> bool" where
  "fs_ok n h head G \<longleftrightarrow> alloc_ok h
   \<and> (\<forall>p. own G p \<noteq> None \<longrightarrow> mem h p \<noteq> None)
   \<and> tree btree_geo64 h head (ino_tower G)
   \<and> (\<forall>p. p \<in> set (addrs (ino_tower G)) \<longleftrightarrow> own G p = Some Ino_tree)
   \<and> (\<forall>ino p. dict (ino_tower G) [ino] = Some p \<longleftrightarrow> own G p = Some (Inode_of ino))
   \<and> (\<forall>ino p. own G p = Some (Inode_of ino) \<longrightarrow>
        (\<exists>i. mem h p = Some (Ext (Inode i)) \<and> inode_ok h (blk_tower G ino) i))
   \<and> (\<forall>ino l p. p \<in> set (addrs (blk_tower G ino l)) \<longleftrightarrow> own G p = Some (Block_tree ino l))
   \<and> (\<forall>ino l b p. dict (blk_tower G ino l) [b] = Some p \<longleftrightarrow> own G p = Some (Block_of ino l b))
   \<and> (\<forall>ino l b p. own G p = Some (Block_of ino l b) \<longrightarrow>
        (\<exists>ws. mem h p = Some (Ext (Block ws)) \<and> length ws = n))
   \<and> (\<forall>ino. dict (ino_tower G) [ino] = None \<longrightarrow> (\<forall>l. blk_tower G ino l = []))"

section \<open>Trees in a heap with other objects\<close>

lemma tree_cong:
  assumes "tree g h head T" "\<And>p. p \<in> set (addrs T) \<Longrightarrow> mem h' p = mem h p"
  shows "tree g h' head T"
proof -
  have "nd g h' (fst n) = nd g h (fst n)" if "lv \<in> set T" "n \<in> set lv" for lv n
    using that assms(2) [of "fst n"] by (intro nd_mem) (auto simp: addrs_def)
  then have "tower_in g h' T" if "tower_in g h T"
    using that by (simp add: tower_in_def level_in_def lnode_in_def)
  then show ?thesis using assms(1) by (auto simp: tree_def rep_def split: if_splits)
qed

lemma zalloc_cases:
  assumes "alloc_ok h"
  obtains (crash) "zalloc obj h = Stuck" "strategy h (ticks h) (mem h) = None"
  | (got) p where "zalloc obj h = Ok (p, h\<lparr>ticks := Suc (ticks h), mem := (mem h)(p \<mapsto> Ext obj)\<rparr>)"
      "p \<noteq> 0" "mem h p = None" "alloc_ok (h\<lparr>ticks := Suc (ticks h), mem := (mem h)(p \<mapsto> Ext obj)\<rparr>)"
  using assms by (cases "strategy h (ticks h) (mem h)") (auto simp: zalloc_def alloc_ok_def)

text \<open>A new object, entered into a tree: what else is in the heap stays as it is.\<close>

lemma tree_add:
  fixes h :: fsheap and obj :: fsobj
  assumes al: "alloc_ok h" and t: "tree btree_geo64 h head T" and new: "dict T [k] = None"
    and p: "p \<noteq> 0" "mem h p = None"
  defines "h1 \<equiv> h\<lparr>ticks := Suc (ticks h), mem := (mem h)(p \<mapsto> Ext obj)\<rparr>"
  shows "\<exists>err head' h2 T'. btree_insert64 (head, h1) k p = Some (err, head', h2) \<and> tree btree_geo64 h2 head' T'
     \<and> alloc_ok h2 \<and> (if err = 0 then dict T' = (dict T)([k] \<mapsto> p) else err = - ENOMEM \<and> dict T' = dict T)
     \<and> mem h2 p = Some (Ext obj) \<and> p \<notin> set (addrs T) \<and> p \<notin> set (addrs T')
     \<and> (\<forall>q. mem h q \<noteq> None \<and> q \<notin> set (addrs T) \<longrightarrow> q \<notin> set (addrs T') \<and> mem h2 q = mem h q)
     \<and> (\<forall>q \<in> set (addrs T'). mem h2 q \<noteq> None) \<and> strategy h2 = strategy h"
proof -
  have pT: "p \<notin> set (addrs T)" using tree_mem [OF t] p(2) by blast
  have t1: "tree btree_geo64 h1 head T" by (rule tree_cong [OF t]) (use pT in \<open>auto simp: h1_def\<close>)
  have al1: "alloc_ok h1" using al by (simp add: alloc_ok_def h1_def)
  have n: "[k] \<notin> fst ` set (leaves T)" using new by (simp add: dict_def map_of_eq_None_iff)
  obtain err head' h2 T' where i: "btree_insert btree_geo64 head h1 (Buf [k]) p = Some (err, head', h2)"
    "insert_result btree_geo64 h1 head T [k] p err head' h2 T'"
    using insert_tree [OF geo64_ok al1 t1, of "Buf [k]" "[k]" p] p(1) n by auto
  have r: "tree btree_geo64 h2 head' T'" "changes (set (addrs T)) (set (addrs T')) h1 h2"
    using i(2) by (simp_all add: insert_result_def)
  have d: "if err = 0 then dict T' = (dict T)([k] \<mapsto> p) else err = - ENOMEM \<and> dict T' = dict T"
    using i(2) dict_ins_at [OF tree_leaves_desc [OF t] n] by (auto simp: insert_result_def dict_def)
  have out: "q \<notin> set (addrs T') \<and> mem h2 q = mem h1 q" if "q \<notin> set (addrs T)" "mem h1 q \<noteq> None" for q
    using changes_outside [OF r(2) that] by simp
  have "mem h2 p = Some (Ext obj)" "p \<notin> set (addrs T')" using out [OF pT] by (simp_all add: h1_def)
  moreover have "q \<notin> set (addrs T') \<and> mem h2 q = mem h q" if "mem h q \<noteq> None" "q \<notin> set (addrs T)" for q
    using out [OF that(2)] that p(2) by (auto simp: h1_def split: if_splits)
  moreover have "mem h2 q \<noteq> None" if "q \<in> set (addrs T')" for q using tree_mem [OF r(1) that] .
  moreover have "strategy h2 = strategy h" using r(2) by (simp add: changes_def h1_def)
  ultimately show ?thesis
    using i(1) r(1) alloc_ok_changes [OF al1 r(2)] d pT
    by (intro exI [of _ err] exI [of _ head'] exI [of _ h2] exI [of _ T']) (simp add: btree_insert64_def)
qed

lemma lookup64_dict:
  "tree btree_geo64 h head T \<Longrightarrow> btree_lookup64 (head, h) k = Some (case dict T [k] of None \<Rightarrow> 0 | Some v \<Rightarrow> v)"
  using lookup_tree [OF geo64_ok, of h head T "Buf [k]" "[k]"] by (simp add: btree_lookup64_def dict_def found_def)

lemma dict_nz: "tree g h head T \<Longrightarrow> dict T k = Some v \<Longrightarrow> v \<noteq> 0"
  using tree_entry [of g h head T k v] by (auto simp: dict_def dest: map_of_SomeD)

lemma dict_Nil [simp]: "dict [] = Map.empty"
  by (simp add: dict_def)

section \<open>The file system's heap\<close>

lemma fs_okD:
  assumes "fs_ok n h head G"
  shows "alloc_ok h" "own G p \<noteq> None \<Longrightarrow> mem h p \<noteq> None" "tree btree_geo64 h head (ino_tower G)"
    "p \<in> set (addrs (ino_tower G)) \<longleftrightarrow> own G p = Some Ino_tree"
    "dict (ino_tower G) [ino] = Some p \<longleftrightarrow> own G p = Some (Inode_of ino)"
    "own G p = Some (Inode_of ino) \<Longrightarrow> \<exists>i. mem h p = Some (Ext (Inode i)) \<and> inode_ok h (blk_tower G ino) i"
    "p \<in> set (addrs (blk_tower G ino l)) \<longleftrightarrow> own G p = Some (Block_tree ino l)"
    "dict (blk_tower G ino l) [b] = Some p \<longleftrightarrow> own G p = Some (Block_of ino l b)"
    "own G p = Some (Block_of ino l b) \<Longrightarrow> \<exists>ws. mem h p = Some (Ext (Block ws)) \<and> length ws = n"
    "dict (ino_tower G) [ino] = None \<Longrightarrow> blk_tower G ino l = []"
  using assms unfolding fs_ok_def by simp_all

text \<open>An inode is entered into the inode tree (or the tree could not grow).\<close>

lemma fs_ok_new_inode:
  assumes ok: "fs_ok n h head G" and t': "tree btree_geo64 h2 head' T'" and al: "alloc_ok h2"
    and p: "p \<noteq> 0" "mem h p = None" "mem h2 p = Some (Ext (Inode new_inode))" "p \<notin> set (addrs T')"
    and d: "if added then dict T' = (dict (ino_tower G))([ino] \<mapsto> p) else dict T' = dict (ino_tower G)"
    and none: "dict (ino_tower G) [ino] = None"
    and out: "\<And>q. mem h q \<noteq> None \<Longrightarrow> q \<notin> set (addrs (ino_tower G)) \<Longrightarrow> q \<notin> set (addrs T') \<and> mem h2 q = mem h q"
  defines "G' \<equiv> G\<lparr>own := (\<lambda>q. if q \<in> set (addrs T') then Some Ino_tree
      else if q = p \<and> added then Some (Inode_of ino)
      else if own G q = Some Ino_tree then None else own G q), ino_tower := T'\<rparr>"
  shows "fs_ok n h2 head' G'"
proof -
  note D = fs_okD [OF ok]
  have keep: "q \<notin> set (addrs T') \<and> q \<noteq> p \<and> mem h2 q = mem h q \<and> own G' q = own G q"
    if "own G q = Some x" "x \<noteq> Ino_tree" for q x
  proof -
    have m: "mem h q \<noteq> None" using D(2) that(1) by simp
    have "q \<notin> set (addrs (ino_tower G))" using D(4) that by simp
    then have "q \<notin> set (addrs T') \<and> mem h2 q = mem h q" using out [OF m] by blast
    then show ?thesis using m p(2) that by (auto simp: G'_def)
  qed
  have prev: "own G q = Some x" if "own G' q = Some x" "x \<noteq> Ino_tree" "x \<noteq> Inode_of ino" for q x
    using that by (auto simp: G'_def split: if_splits)
  have iff: "own G' q = Some x \<longleftrightarrow> own G q = Some x" if "x \<noteq> Ino_tree" "x \<noteq> Inode_of ino" for q x
    using keep [of q x] prev [of q x] that by auto
  have trees: "tree btree_geo64 h2 hd (blk_tower G i l)" if "tree btree_geo64 h hd (blk_tower G i l)" for hd i l
    by (rule tree_cong [OF that]) (use D(7) keep in auto)
  have inodes: "inode_ok h2 (blk_tower G i) x" if "inode_ok h (blk_tower G i) x" for i x
    using that trees by (auto simp: inode_ok_def)
  have fresh: "own G p = None" using D(2) [of p] p(2) by (cases "own G p") auto
  have notold: "own G q \<noteq> Some (Inode_of ino)" for q using none D(5) [of ino q] by simp
  have towers: "blk_tower G' = blk_tower G" "ino_tower G' = T'" by (simp_all add: G'_def)
  have nodes: "q \<in> set (addrs T') \<longleftrightarrow> own G' q = Some Ino_tree" for q
    using fresh by (auto simp: G'_def)
  have inoptr: "dict T' [i] = Some q \<longleftrightarrow> own G' q = Some (Inode_of i)" for i q
  proof (cases "i = ino")
    case True
    show ?thesis
      using d none notold [of q] p(4) unfolding True by (auto simp: G'_def split: if_splits)
  next
    case False
    then show ?thesis using d D(5) [of i q] iff [of "Inode_of i" q] by (auto split: if_splits)
  qed
  have objs: "\<exists>x. mem h2 q = Some (Ext (Inode x)) \<and> inode_ok h2 (blk_tower G i) x"
    if "own G' q = Some (Inode_of i)" for q i
  proof (cases "i = ino")
    case True
    have q: "q = p" using that notold [of q] unfolding True by (auto simp: G'_def split: if_splits)
    have "blk_tower G ino l = []" for l using D(10) [OF none] .
    then have "inode_ok h2 (blk_tower G ino) new_inode"
      by (simp add: inode_ok_def new_inode_def tree_def)
    then show ?thesis using q p(3) True by auto
  next
    case False
    then have o1: "own G q = Some (Inode_of i)" using that iff by simp
    then obtain x where "mem h q = Some (Ext (Inode x))" "inode_ok h (blk_tower G i) x" using D(6) by blast
    then show ?thesis using keep [OF o1] inodes by auto
  qed
  have blocks: "\<exists>ws. mem h2 q = Some (Ext (Block ws)) \<and> length ws = n" if "own G' q = Some (Block_of i l b)" for q i l b
    using D(9) [of q i l b] keep [of q "Block_of i l b"] that iff [of "Block_of i l b" q] by auto
  have owned: "mem h2 q \<noteq> None" if o: "own G' q \<noteq> None" for q
  proof -
    obtain x where x: "own G' q = Some x" using o by blast
    show ?thesis
    proof (cases x)
      case Ino_tree
      then show ?thesis using x nodes tree_mem [OF t'] by blast
    next
      case (Inode_of i)
      then show ?thesis using objs x by blast
    next
      case (Block_tree i l)
      then have "own G q = Some (Block_tree i l)" using x iff by simp
      then show ?thesis using keep D(2) by force
    next
      case (Block_of i l b)
      then show ?thesis using blocks x by blast
    qed
  qed
  have empty: "blk_tower G i l = []" if "dict T' [i] = None" for i l
    using that d D(10) [of i l] none by (auto split: if_splits)
  have "q \<in> set (addrs (blk_tower G i l)) \<longleftrightarrow> own G' q = Some (Block_tree i l)" for q i l
    using D(7) iff by simp
  moreover have "dict (blk_tower G i l) [b] = Some q \<longleftrightarrow> own G' q = Some (Block_of i l b)" for q i l b
    using D(8) iff by simp
  ultimately show ?thesis
    unfolding fs_ok_def towers using al owned t' nodes inoptr objs blocks empty by (intro conjI allI impI)
qed

section \<open>What the program sees\<close>

text \<open>\<open>F\<close> names objects of the heap that no structure owns: blocks taken out of their tree.\<close>

definition loose :: "(ulong \<Rightarrow> fsobj obj option) \<Rightarrow> fsheap \<Rightarrow> ghost \<Rightarrow> bool" where
  "loose F h G \<longleftrightarrow> (\<forall>q x. F q = Some x \<longrightarrow> own G q = None \<and> mem h q = Some x)"

definition fs_with :: "(ulong \<Rightarrow> fsobj obj option) \<Rightarrow> 'w world \<Rightarrow> bool" where
  "fs_with F w \<longleftrightarrow> (\<exists>G. fs_ok (block_longs (sb w)) (hp w) (sb_ino_tree (sb w)) G \<and> loose F (hp w) G)"

abbreviation fs_inv :: "'w world \<Rightarrow> bool" where "fs_inv \<equiv> fs_with Map.empty"

lemma fs_invI: "fs_ok (block_longs (sb w)) (hp w) (sb_ino_tree (sb w)) G \<Longrightarrow> fs_with Map.empty w"
  unfolding fs_with_def by (rule exI [of _ G]) (simp add: loose_def)

lemma loose_empty [simp]: "loose Map.empty h G"
  by (simp add: loose_def)

definition ino_ptr :: "'w world \<Rightarrow> u64 \<Rightarrow> ulong option" where
  "ino_ptr w = view64 (sb_ino_tree (sb w), hp w)"

definition inode_of :: "'w world \<Rightarrow> u64 \<Rightarrow> inode option" where
  "inode_of w ino = Option.bind (ino_ptr w ino) (inode_at (hp w))"

text \<open>The inode on the medium's side, and the blocks of the file, by level and index.\<close>

definition di_of :: "'w world \<Rightarrow> u64 \<Rightarrow> disk_inode option" where
  "di_of w ino = map_option i_di (inode_of w ino)"

definition blk_ptr :: "'w world \<Rightarrow> u64 \<Rightarrow> nat \<Rightarrow> u64 \<Rightarrow> ulong option" where
  "blk_ptr w ino l b = Option.bind (inode_of w ino) (\<lambda>i. view64 (i_block_tree i ! l, hp w) b)"

definition blk_of :: "'w world \<Rightarrow> u64 \<Rightarrow> nat \<Rightarrow> u64 \<Rightarrow> u64 list option" where
  "blk_of w ino l b = Option.bind (blk_ptr w ino l b) (block_at (hp w))"

lemma inode_at_Some: "inode_at h p = Some i \<longleftrightarrow> mem h p = Some (Ext (Inode i))"
  by (auto simp: inode_at_def split: option.splits obj.splits fsobj.splits)

lemma block_at_Some: "block_at h p = Some ws \<longleftrightarrow> mem h p = Some (Ext (Block ws))"
  by (auto simp: block_at_def split: option.splits obj.splits fsobj.splits)

text \<open>The view in terms of the owners.\<close>

lemma ino_ptr_own:
  assumes "fs_ok n (hp w) (sb_ino_tree (sb w)) G"
  shows "ino_ptr w ino = Some p \<longleftrightarrow> own G p = Some (Inode_of ino)"
  using fs_okD(5) [OF assms] k64.seen_dict [OF fs_okD(3) [OF assms]] by (simp add: ino_ptr_def)

lemma inode_of_own:
  assumes "fs_ok n (hp w) (sb_ino_tree (sb w)) G" "own G p = Some (Inode_of ino)"
  shows "\<exists>i. inode_of w ino = Some i \<and> mem (hp w) p = Some (Ext (Inode i)) \<and> inode_ok (hp w) (blk_tower G ino) i"
  using fs_okD(6) [OF assms] ino_ptr_own [OF assms(1), of ino p] assms(2)
  by (auto simp: inode_of_def inode_at_Some)

lemma blk_ptr_own:
  assumes ok: "fs_ok n (hp w) (sb_ino_tree (sb w)) G" and l: "l < LOGFS_MAX_LEVELS"
  shows "blk_ptr w ino l b = Some p \<longleftrightarrow> own G p = Some (Block_of ino l b)"
proof (cases "ino_ptr w ino")
  case None
  then have "dict (ino_tower G) [ino] = None"
    using k64.seen_dict [OF fs_okD(3) [OF ok]] by (simp add: ino_ptr_def)
  then have "blk_tower G ino l = []" by (rule fs_okD(10) [OF ok])
  then show ?thesis using None fs_okD(8) [OF ok, of ino l b p] by (simp add: blk_ptr_def inode_of_def)
next
  case (Some q)
  then have "own G q = Some (Inode_of ino)" using ino_ptr_own [OF ok] by simp
  from inode_of_own [OF ok this] obtain i where i: "inode_of w ino = Some i"
    "tree btree_geo64 (hp w) (i_block_tree i ! l) (blk_tower G ino l)" using l by (auto simp: inode_ok_def)
  show ?thesis using i(1) fs_okD(8) [OF ok] k64.seen_dict [OF i(2)] by (simp add: blk_ptr_def)
qed

lemma option_eqI: "(\<And>p. x = Some p \<longleftrightarrow> y = Some p) \<Longrightarrow> x = y"
  by (cases x; cases y) auto

text \<open>
  A step that keeps the owners of the blocks and what they hold keeps the blocks; one that keeps an
  inode's owner and its fields keeps the inode.
\<close>

lemma blk_of_cong:
  assumes "fs_ok n (hp w) (sb_ino_tree (sb w)) G" "fs_ok n' (hp w') (sb_ino_tree (sb w')) G'" "l < LOGFS_MAX_LEVELS"
    "\<And>q. own G' q = Some (Block_of ino l b) \<longleftrightarrow> own G q = Some (Block_of ino l b)"
    "\<And>q. own G q = Some (Block_of ino l b) \<Longrightarrow> mem (hp w') q = mem (hp w) q"
  shows "blk_ptr w' ino l b = blk_ptr w ino l b \<and> blk_of w' ino l b = blk_of w ino l b"
proof -
  have p: "blk_ptr w' ino l b = blk_ptr w ino l b"
    by (rule option_eqI) (simp add: blk_ptr_own [OF assms(1,3)] blk_ptr_own [OF assms(2,3)] assms(4))
  have "mem (hp w') q = mem (hp w) q" if "blk_ptr w ino l b = Some q" for q
    using assms(5) that unfolding blk_ptr_own [OF assms(1,3)] .
  then show ?thesis using p by (cases "blk_ptr w ino l b") (simp_all add: blk_of_def block_at_def)
qed

lemma inode_of_cong:
  assumes "fs_ok n (hp w) (sb_ino_tree (sb w)) G" "fs_ok n' (hp w') (sb_ino_tree (sb w')) G'"
    "\<And>q. own G' q = Some (Inode_of ino) \<longleftrightarrow> own G q = Some (Inode_of ino)"
    "\<And>q. own G q = Some (Inode_of ino) \<Longrightarrow> mem (hp w') q = mem (hp w) q"
  shows "ino_ptr w' ino = ino_ptr w ino \<and> inode_of w' ino = inode_of w ino"
proof -
  have p: "ino_ptr w' ino = ino_ptr w ino"
    by (rule option_eqI) (simp add: ino_ptr_own [OF assms(1)] ino_ptr_own [OF assms(2)] assms(3))
  have "mem (hp w') q = mem (hp w) q" if "ino_ptr w ino = Some q" for q
    using assms(4) that unfolding ino_ptr_own [OF assms(1)] .
  then show ?thesis using p by (cases "ino_ptr w ino") (simp_all add: inode_of_def inode_at_def)
qed

text \<open>
  The outcome of \<open>find_or_create_inode\<close>, in terms of what the program sees: the program crashes where
  \<open>malloc\<close> returns NULL; otherwise it gets the inode, a fresh one if there was none, or NULL where the
  tree could not grow. Everything else is as before.
\<close>

definition same_blocks :: "'w world \<Rightarrow> 'w world \<Rightarrow> bool" where
  "same_blocks w w' \<longleftrightarrow> (\<forall>ino l b. l < LOGFS_MAX_LEVELS \<longrightarrow>
     blk_ptr w' ino l b = blk_ptr w ino l b \<and> blk_of w' ino l b = blk_of w ino l b)"

definition found_inode :: "(ulong \<Rightarrow> fsobj obj option) \<Rightarrow> 'w world \<Rightarrow> u64 \<Rightarrow> ulong \<Rightarrow> 'w world \<Rightarrow> bool" where
  "found_inode F w ino p w' \<longleftrightarrow> fs_with F w' \<and> (\<exists>tree. sb w' = (sb w)\<lparr>sb_ino_tree := tree\<rparr>) \<and> os w' = os w
   \<and> strategy (hp w') = strategy (hp w) \<and> same_blocks w w' \<and> (\<forall>i. i \<noteq> ino \<longrightarrow> ino_ptr w' i = ino_ptr w i \<and> di_of w' i = di_of w i)
   \<and> (case ino_ptr w ino of
        Some q \<Rightarrow> p = q \<and> q \<noteq> 0 \<and> w' = w
      | None \<Rightarrow> (if p = 0 then ino_ptr w' ino = None
                 else ino_ptr w' ino = Some p \<and> di_of w' ino = Some zero_inode))"

lemma find_or_create_inode_result:
  assumes inv: "fs_with F w"
  shows "find_or_create_inode ino w = Stuck \<and> ino_ptr w ino = None
       \<and> strategy (hp w) (ticks (hp w)) (mem (hp w)) = None
     \<or> (\<exists>p w'. find_or_create_inode ino w = Ok (p, w') \<and> found_inode F w ino p w')"
proof -
  obtain G where ok: "fs_ok (block_longs (sb w)) (hp w) (sb_ino_tree (sb w)) G" and lo: "loose F (hp w) G"
    using inv by (auto simp: fs_with_def)
  note D = fs_okD [OF ok]
  have ptr: "ino_ptr w i = dict (ino_tower G) [i]" for i
    using k64.seen_dict [OF D(3)] by (simp add: ino_ptr_def)
  show ?thesis
  proof (cases "ino_ptr w ino")
    case (Some q)
    have "q \<noteq> 0" using dict_nz [OF D(3)] Some ptr by simp
    then have "find_or_create_inode ino w = Ok (q, w)" "found_inode F w ino q w"
      using Some ptr lookup64_dict [OF D(3), of ino] inv
      by (simp_all add: find_or_create_inode_def found_inode_def same_blocks_def)
        (rule exI [of _ "sb_ino_tree (sb w)"], simp)
    then show ?thesis by blast
  next
    case None
    then have none: "dict (ino_tower G) [ino] = None" using ptr by simp
    have lk: "btree_lookup64 (sb_ino_tree (sb w), hp w) ino = Some 0"
      using lookup64_dict [OF D(3), of ino] none by simp
    show ?thesis
    proof (cases rule: zalloc_cases [OF D(1), of "Inode new_inode", case_names crash got])
      case crash
      then show ?thesis using lk None by (simp add: find_or_create_inode_def)
    next
      case (got p)
      obtain err head' h2 T' where a:
        "btree_insert64 (sb_ino_tree (sb w), (hp w)\<lparr>ticks := Suc (ticks (hp w)),
            mem := (mem (hp w))(p \<mapsto> Ext (Inode new_inode))\<rparr>) ino p = Some (err, head', h2)"
        "tree btree_geo64 h2 head' T'" "alloc_ok h2"
        "if err = 0 then dict T' = (dict (ino_tower G))([ino] \<mapsto> p) else err = - ENOMEM \<and> dict T' = dict (ino_tower G)"
        "mem h2 p = Some (Ext (Inode new_inode))" "p \<notin> set (addrs T')"
        "\<forall>q. mem (hp w) q \<noteq> None \<and> q \<notin> set (addrs (ino_tower G)) \<longrightarrow> q \<notin> set (addrs T') \<and> mem h2 q = mem (hp w) q"
        "strategy h2 = strategy (hp w)"
        using tree_add [OF D(1,3) none got(2,3)] by blast
      let ?w = "w\<lparr>hp := h2, sb := (sb w)\<lparr>sb_ino_tree := head'\<rparr>\<rparr>"
      have run: "find_or_create_inode ino w = Ok (if err \<noteq> 0 then 0 else p, ?w)"
        using lk got(1) a(1) by (simp add: find_or_create_inode_def)
      define G' where "G' = G\<lparr>own := (\<lambda>q. if q \<in> set (addrs T') then Some Ino_tree
        else if q = p \<and> err = 0 then Some (Inode_of ino)
        else if own G q = Some Ino_tree then None else own G q), ino_tower := T'\<rparr>"
      have ok': "fs_ok (block_longs (sb w)) h2 head' G'" unfolding G'_def
        by (rule fs_ok_new_inode [OF ok a(2,3) got(2,3) a(5,6) _ none]) (use a(4,7) in \<open>auto split: if_splits\<close>)
      then have okw: "fs_ok (block_longs (sb w)) (hp ?w) (sb_ino_tree (sb ?w)) G'" by simp
      have "block_longs (sb ?w) = block_longs (sb w)" by (simp add: block_longs_def)
      moreover have "loose F (hp ?w) G'"
      proof -
        have "own G' q = None \<and> mem h2 q = Some x" if "F q = Some x" for q x
        proof -
          have q: "own G q = None" "mem (hp w) q = Some x" using lo that by (auto simp: loose_def)
          have "q \<notin> set (addrs (ino_tower G))" using q(1) D(4) [of q] by simp
          then have "q \<notin> set (addrs T')" "mem h2 q = Some x" using a(7) q(2) by auto
          moreover have "q \<noteq> p" using q(2) got(3) by auto
          ultimately show ?thesis using q(1) by (simp add: G'_def)
        qed
        then show ?thesis by (simp add: loose_def)
      qed
      ultimately have inv': "fs_with F ?w" using okw unfolding fs_with_def by auto
      have ptr': "ino_ptr ?w i = dict T' [i]" for i using k64.seen_dict [OF a(2)] by (simp add: ino_ptr_def)
      have old: "mem h2 q = mem (hp w) q \<and> own G' q = own G q" if "own G q = Some x" "x \<noteq> Ino_tree" for q x
      proof -
        have m: "mem (hp w) q \<noteq> None" "q \<notin> set (addrs (ino_tower G))" using D(2,4) that by auto
        then have "q \<notin> set (addrs T')" "mem h2 q = mem (hp w) q" using a(7) by auto
        then show ?thesis using that m(1) got(3) by (auto simp: G'_def)
      qed
      have new: "own G q = Some x" if "own G' q = Some x" "x \<noteq> Ino_tree" "x \<noteq> Inode_of ino" for q x
        using that by (auto simp: G'_def split: if_splits)
      have iff: "own G' q = Some x \<longleftrightarrow> own G q = Some x" if "x \<noteq> Ino_tree" "x \<noteq> Inode_of ino" for q x
        using old [of q x] new [of q x] that by auto
      have blocks: "same_blocks w ?w" unfolding same_blocks_def
      proof (intro allI impI)
        fix i l b assume l: "l < LOGFS_MAX_LEVELS"
        show "blk_ptr ?w i l b = blk_ptr w i l b \<and> blk_of ?w i l b = blk_of w i l b"
        proof (rule blk_of_cong [OF ok okw l])
          show "own G' q = Some (Block_of i l b) \<longleftrightarrow> own G q = Some (Block_of i l b)" for q by (rule iff) simp_all
          show "mem (hp ?w) q = mem (hp w) q" if "own G q = Some (Block_of i l b)" for q
            using old [OF that] by simp
        qed
      qed
      have others: "ino_ptr ?w i = ino_ptr w i \<and> di_of ?w i = di_of w i" if "i \<noteq> ino" for i
      proof -
        have "ino_ptr ?w i = ino_ptr w i \<and> inode_of ?w i = inode_of w i"
        proof (rule inode_of_cong [OF ok okw])
          show "own G' q = Some (Inode_of i) \<longleftrightarrow> own G q = Some (Inode_of i)" for q by (rule iff) (simp_all add: that)
          show "mem (hp ?w) q = mem (hp w) q" if "own G q = Some (Inode_of i)" for q
            using old [OF that] by simp
        qed
        then show ?thesis by (simp add: di_of_def)
      qed
      have fin: "if (if err \<noteq> 0 then 0 else p) = 0 then ino_ptr ?w ino = None
          else ino_ptr ?w ino = Some (if err \<noteq> 0 then 0 else p) \<and> di_of ?w ino = Some zero_inode"
        using a(4,5) got(2) none ptr'
        by (auto simp: di_of_def inode_of_def inode_at_def new_inode_def split: if_splits)
      have sbw: "\<exists>tree. sb ?w = (sb w)\<lparr>sb_ino_tree := tree\<rparr>" by (rule exI [of _ head']) simp
      have "os ?w = os w" "strategy (hp ?w) = strategy (hp w)" using a(8) by simp_all
      then have "found_inode F w ino (if err \<noteq> 0 then 0 else p) ?w"
        unfolding found_inode_def None option.case using inv' sbw blocks others fin by blast
      then show ?thesis using run by blast
    qed
  qed
qed

text \<open>
  The entry of a block in a block tree of an inode changes to \<open>e\<close>: a new block is entered, or the entry
  is taken out (or nothing changes, where the tree could not grow).
\<close>

lemma fs_ok_edit_block:
  assumes ok: "fs_ok n h head G" and q: "own G q = Some (Inode_of ino)" "mem h q = Some (Ext (Inode i))"
    and l: "l < LOGFS_MAX_LEVELS" and t': "tree btree_geo64 h2 head' T'" and al: "alloc_ok h2"
    and p: "\<And>p. e = Some p \<Longrightarrow> mem h p = None \<and> p \<notin> set (addrs T') \<and> (\<exists>ws. mem h2 p = Some (Ext (Block ws)) \<and> length ws = n)"
    and d: "dict T' = (dict (blk_tower G ino l))([b] := e)"
    and out: "\<And>x. mem h x \<noteq> None \<Longrightarrow> x \<notin> set (addrs (blk_tower G ino l)) \<Longrightarrow> x \<notin> set (addrs T') \<and> mem h2 x = mem h x"
  defines "h3 \<equiv> put_obj q (Inode (i\<lparr>i_block_tree := (i_block_tree i)[l := head']\<rparr>)) h2"
    and "G' \<equiv> G\<lparr>own := (\<lambda>x. if x \<in> set (addrs T') then Some (Block_tree ino l)
      else if e = Some x then Some (Block_of ino l b)
      else if own G x = Some (Block_tree ino l) \<or> own G x = Some (Block_of ino l b) then None else own G x),
      blk_tower := (blk_tower G)(ino := (blk_tower G ino)(l := T'))\<rparr>"
  shows "fs_ok n h3 head G'"
    "\<And>x o'. o' \<noteq> Block_tree ino l \<Longrightarrow> o' \<noteq> Block_of ino l b \<Longrightarrow> own G' x = Some o' \<longleftrightarrow> own G x = Some o'"
    "\<And>x o'. own G x = Some o' \<Longrightarrow> o' \<noteq> Block_tree ino l \<Longrightarrow> o' \<noteq> Inode_of ino \<Longrightarrow> mem h3 x = mem h x"
    "\<And>x. own G x = None \<Longrightarrow> mem h x \<noteq> None \<Longrightarrow> own G' x = None \<and> mem h3 x = mem h x"
    "\<And>x. own G x = Some (Block_of ino l b) \<Longrightarrow> own G' x = None"
proof -
  note D = fs_okD [OF ok]
  have fresh: "e \<noteq> Some x" if "own G x = Some o'" for x o' using D(2) [of x] p [of x] that by auto
  have keep: "x \<notin> set (addrs T') \<and> mem h2 x = mem h x" if "own G x = Some o'" "o' \<noteq> Block_tree ino l" for x o'
  proof -
    have "mem h x \<noteq> None" using D(2) that(1) by simp
    moreover have "x \<notin> set (addrs (blk_tower G ino l))" using D(7) that by simp
    ultimately show ?thesis by (rule out)
  qed
  have iff: "own G' x = Some o' \<longleftrightarrow> own G x = Some o'" if "o' \<noteq> Block_tree ino l" "o' \<noteq> Block_of ino l b" for x o'
    using keep [of x o'] fresh [of x o'] that by (auto simp: G'_def)
  then show "\<And>x o'. o' \<noteq> Block_tree ino l \<Longrightarrow> o' \<noteq> Block_of ino l b \<Longrightarrow> own G' x = Some o' \<longleftrightarrow> own G x = Some o'" .
  have m3: "mem h3 x = (if x = q then Some (Ext (Inode (i\<lparr>i_block_tree := (i_block_tree i)[l := head']\<rparr>))) else mem h2 x)" for x
    by (simp add: h3_def put_obj_def)
  have qk: "q \<notin> set (addrs T')" "e \<noteq> Some q" using keep [OF q(1)] fresh [OF q(1)] by simp_all
  have m3': "mem h3 x = mem h x" if "own G x = Some o'" "o' \<noteq> Block_tree ino l" "o' \<noteq> Inode_of ino" for x o'
    using keep [OF that(1,2)] that q(1) by (auto simp: m3)
  then show "\<And>x o'. own G x = Some o' \<Longrightarrow> o' \<noteq> Block_tree ino l \<Longrightarrow> o' \<noteq> Inode_of ino \<Longrightarrow> mem h3 x = mem h x" .
  show "own G' x = None \<and> mem h3 x = mem h x" if "own G x = None" "mem h x \<noteq> None" for x
  proof -
    have "x \<notin> set (addrs (blk_tower G ino l))" using D(7) [of x] that(1) by simp
    then have "x \<notin> set (addrs T')" "mem h2 x = mem h x" using out that(2) by auto
    moreover have "x \<noteq> q" "e \<noteq> Some x" using that q(1) p [of x] by auto
    ultimately show ?thesis using that(1) by (simp add: G'_def m3)
  qed
  show "own G' x = None" if "own G x = Some (Block_of ino l b)" for x
    using keep [OF that] fresh [OF that] that by (simp add: G'_def)
  have t3: "tree btree_geo64 h3 head' T'" by (rule tree_cong [OF t']) (use qk in \<open>auto simp: m3\<close>)
  have t0: "tree btree_geo64 h3 head (ino_tower G)"
    by (rule tree_cong [OF D(3)]) (use D(4) m3' in \<open>auto\<close>)
  have trees: "tree btree_geo64 h3 hd (blk_tower G j m)" if "tree btree_geo64 h hd (blk_tower G j m)" "(j, m) \<noteq> (ino, l)" for hd j m
    by (rule tree_cong [OF that(1)]) (use D(7) m3' that(2) in \<open>auto\<close>)
  have tw: "blk_tower G' j m = (if j = ino \<and> m = l then T' else blk_tower G j m)" "ino_tower G' = ino_tower G" for j m
    by (simp_all add: G'_def)
  have objs: "\<exists>x. mem h3 y = Some (Ext (Inode x)) \<and> inode_ok h3 (blk_tower G' j) x" if o: "own G' y = Some (Inode_of j)" for y j
  proof -
    have o1: "own G y = Some (Inode_of j)" using o iff by simp
    obtain x where x: "mem h y = Some (Ext (Inode x))" "inode_ok h (blk_tower G j) x" using D(6) [OF o1] by blast
    show ?thesis
    proof (cases "j = ino")
      case True
      have "y = q" using o1 q(1) D(5) [of ino] True by (metis option.inject)
      then have xi: "x = i" using x(1) q(2) by simp
      have "inode_ok h3 (blk_tower G' ino) (i\<lparr>i_block_tree := (i_block_tree i)[l := head']\<rparr>)"
        using x(2) True t3 l trees unfolding xi by (auto simp: inode_ok_def tw nth_list_update)
      then show ?thesis using \<open>y = q\<close> True by (simp add: m3)
    next
      case False
      have "inode_ok h3 (blk_tower G' j) x" using x(2) trees False by (simp add: inode_ok_def tw)
      then show ?thesis using m3' [OF o1] False x(1) by simp
    qed
  qed
  have new: "own G' x = Some (Block_of ino l b) \<longleftrightarrow> e = Some x" for x
    using p [of x] by (auto simp: G'_def)
  have blkptr: "dict (blk_tower G' j m) [c] = Some x \<longleftrightarrow> own G' x = Some (Block_of j m c)" for j m c x
  proof (cases "Block_of j m c = Block_of ino l b")
    case True
    then show ?thesis using d new [of x] by (simp add: tw)
  next
    case False
    then show ?thesis using d D(8) [of j m c x] iff [of "Block_of j m c" x] unfolding tw by (auto split: if_splits)
  qed
  have blocks: "\<exists>ws. mem h3 x = Some (Ext (Block ws)) \<and> length ws = n" if o: "own G' x = Some (Block_of j m c)" for x j m c
  proof (cases "Block_of j m c = Block_of ino l b")
    case True
    then have "e = Some x" using o new by simp
    then show ?thesis using p qk by (auto simp: m3)
  next
    case False
    then have o1: "own G x = Some (Block_of j m c)" using o iff by simp
    then show ?thesis using m3' [OF o1] D(9) by simp
  qed
  have nodes: "x \<in> set (addrs (blk_tower G' j m)) \<longleftrightarrow> own G' x = Some (Block_tree j m)" for x j m
  proof (cases "j = ino \<and> m = l")
    case True
    then show ?thesis by (auto simp: G'_def)
  next
    case False
    then show ?thesis using D(7) [of x j m] iff [of "Block_tree j m" x] unfolding tw by auto
  qed
  have inoown: "own G' x = Some (Inode_of j) \<longleftrightarrow> own G x = Some (Inode_of j)"
    "own G' x = Some Ino_tree \<longleftrightarrow> own G x = Some Ino_tree" for x j by (rule iff; simp)+
  have owned: "mem h3 x \<noteq> None" if o: "own G' x \<noteq> None" for x
  proof -
    obtain o' where x: "own G' x = Some o'" using o by blast
    show ?thesis
    proof (cases o')
      case Ino_tree
      then show ?thesis using x inoown(2) [of x] D(4) [of x] tree_mem [OF t0] by auto
    next
      case (Inode_of j)
      then show ?thesis using objs x by blast
    next
      case (Block_tree j m)
      show ?thesis
      proof (cases "j = ino \<and> m = l")
        case True
        then show ?thesis using x Block_tree nodes [of x j m] tree_mem [OF t3] unfolding tw by simp
      next
        case False
        then have o1: "own G x = Some (Block_tree j m)" using x Block_tree iff by simp
        then show ?thesis using m3' [OF o1] False D(2) [of x] by simp
      qed
    next
      case (Block_of j m c)
      then show ?thesis using blocks x by blast
    qed
  qed
  have "blk_tower G' j m = []" if "dict (ino_tower G) [j] = None" for j m
    using that D(10) [OF that] D(5) [of ino q] q(1) unfolding tw by auto
  moreover have "alloc_ok h3" using al by (simp add: alloc_ok_def h3_def put_obj_def)
  ultimately show "fs_ok n h3 head G'"
    unfolding fs_ok_def tw(2) using owned t0 D(4,5) inoown objs blkptr blocks nodes by (intro conjI allI impI) simp_all
qed

text \<open>What the program sees of such a change.\<close>

definition block_edited :: "(ulong \<Rightarrow> fsobj obj option) \<Rightarrow> 'w world \<Rightarrow> u64 \<Rightarrow> nat \<Rightarrow> u64 \<Rightarrow> ulong option \<Rightarrow> 'w world \<Rightarrow> bool" where
  "block_edited F w ino l b e w' \<longleftrightarrow> fs_with F w' \<and> sb w' = sb w \<and> os w' = os w
   \<and> strategy (hp w') = strategy (hp w) \<and> ino_ptr w' = ino_ptr w \<and> di_of w' = di_of w
   \<and> (\<forall>i m c. m < LOGFS_MAX_LEVELS \<and> (i, m, c) \<noteq> (ino, l, b) \<longrightarrow>
        blk_ptr w' i m c = blk_ptr w i m c \<and> blk_of w' i m c = blk_of w i m c)
   \<and> blk_ptr w' ino l b = e"

lemma edit_block:
  assumes ok: "fs_ok (block_longs (sb w)) (hp w) (sb_ino_tree (sb w)) G" and lo: "loose F (hp w) G"
    and q: "ino_ptr w ino = Some q" "inode_at (hp w) q = Some i"
    and l: "l < LOGFS_MAX_LEVELS" and t': "tree btree_geo64 h2 head' T'" and al: "alloc_ok h2"
    and p: "\<And>p. e = Some p \<Longrightarrow> mem (hp w) p = None \<and> p \<notin> set (addrs T')
        \<and> (\<exists>ws. mem h2 p = Some (Ext (Block ws)) \<and> length ws = block_longs (sb w))"
    and d: "dict T' = (dict (blk_tower G ino l))([b] := e)"
    and out: "\<And>x. mem (hp w) x \<noteq> None \<Longrightarrow> x \<notin> set (addrs (blk_tower G ino l)) \<Longrightarrow> x \<notin> set (addrs T') \<and> mem h2 x = mem (hp w) x"
    and s: "strategy h2 = strategy (hp w)"
  defines "w' \<equiv> w\<lparr>hp := put_obj q (Inode (i\<lparr>i_block_tree := (i_block_tree i)[l := head']\<rparr>)) h2\<rparr>"
  shows "block_edited F w ino l b e w'"
    "blk_ptr w ino l b = Some x \<Longrightarrow> block_edited (F(x := mem (hp w) x)) w ino l b e w'"
proof -
  let ?i = "i\<lparr>i_block_tree := (i_block_tree i)[l := head']\<rparr>"
  have qo: "own G q = Some (Inode_of ino)" using q(1) ino_ptr_own [OF ok] by simp
  have qm: "mem (hp w) q = Some (Ext (Inode i))" using q(2) by (simp add: inode_at_Some)
  define G' where "G' = G\<lparr>own := (\<lambda>x. if x \<in> set (addrs T') then Some (Block_tree ino l)
      else if e = Some x then Some (Block_of ino l b)
      else if own G x = Some (Block_tree ino l) \<or> own G x = Some (Block_of ino l b) then None else own G x),
      blk_tower := (blk_tower G)(ino := (blk_tower G ino)(l := T'))\<rparr>"
  note E = fs_ok_edit_block [OF ok qo qm l t' al p d out, folded G'_def]
  have hpw: "hp w' = put_obj q (Inode ?i) h2" "sb w' = sb w" "os w' = os w" by (simp_all add: w'_def)
  have okw: "fs_ok (block_longs (sb w)) (hp w') (sb_ino_tree (sb w')) G'" unfolding hpw by (rule E(1)) blast+
  have iff: "own G' y = Some o' \<longleftrightarrow> own G y = Some o'" if "o' \<noteq> Block_tree ino l" "o' \<noteq> Block_of ino l b" for y o'
    by (rule E(2)) (use that in blast)+
  have mq: "mem (hp w') y = mem (hp w) y" if "own G y = Some o'" "o' \<noteq> Block_tree ino l" "o' \<noteq> Inode_of ino" for y o'
    unfolding hpw by (rule E(3)) (use that in blast)+
  have lo': "own G' y = None \<and> mem (hp w') y = mem (hp w) y" if "own G y = None" "mem (hp w) y \<noteq> None" for y
    unfolding hpw by (rule E(4)) (use that in blast)+
  have blocks: "blk_ptr w' j m c = blk_ptr w j m c \<and> blk_of w' j m c = blk_of w j m c"
    if m: "m < LOGFS_MAX_LEVELS" and ne: "(j, m, c) \<noteq> (ino, l, b)" for j m c
  proof (rule blk_of_cong [OF ok okw m])
    show "own G' y = Some (Block_of j m c) \<longleftrightarrow> own G y = Some (Block_of j m c)" for y
      by (rule iff) (use ne in simp_all)
    show "mem (hp w') y = mem (hp w) y" if "own G y = Some (Block_of j m c)" for y by (rule mq [OF that]) simp_all
  qed
  have ip: "ino_ptr w' j = ino_ptr w j" for j
    by (rule option_eqI) (simp add: ino_ptr_own [OF ok] ino_ptr_own [OF okw] iff)
  have di: "di_of w' j = di_of w j" for j
  proof (cases "j = ino")
    case True
    have "inode_of w ino = Some i" using q by (simp add: inode_of_def)
    moreover have "inode_of w' ino = Some ?i" using ip [of ino] q(1) by (simp add: inode_of_def inode_at_def put_obj_def hpw)
    ultimately show ?thesis using True by (simp add: di_of_def)
  next
    case False
    have "ino_ptr w' j = ino_ptr w j \<and> inode_of w' j = inode_of w j"
    proof (rule inode_of_cong [OF ok okw])
      show "own G' y = Some (Inode_of j) \<longleftrightarrow> own G y = Some (Inode_of j)" for y by (rule iff) simp_all
      show "mem (hp w') y = mem (hp w) y" if "own G y = Some (Inode_of j)" for y
        by (rule mq [OF that]) (use False in simp_all)
    qed
    then show ?thesis by (simp add: di_of_def)
  qed
  have bp: "blk_ptr w' ino l b = e"
    by (rule option_eqI) (use p in \<open>auto simp: blk_ptr_own [OF okw l] G'_def\<close>)
  have fin: "block_edited F' w ino l b e w'" if "loose F' (hp w') G'" for F'
  proof -
    have "fs_with F' w'" using okw that hpw(2) unfolding fs_with_def by auto
    moreover have "ino_ptr w' = ino_ptr w" "di_of w' = di_of w" using ip di by (auto simp: fun_eq_iff)
    moreover have "strategy (hp w') = strategy (hp w)" using s by (simp add: hpw put_obj_def)
    ultimately show ?thesis unfolding block_edited_def using blocks bp hpw(2,3) by blast
  qed
  have loF: "loose F (hp w') G'" using lo lo' by (auto simp: loose_def)
  then show "block_edited F w ino l b e w'" by (rule fin)
  show "block_edited (F(x := mem (hp w) x)) w ino l b e w'" if "blk_ptr w ino l b = Some x"
  proof (rule fin)
    have xo: "own G x = Some (Block_of ino l b)" using that blk_ptr_own [OF ok l] by simp
    have "own G' x = None" by (rule E(5)) (use xo in blast)+
    moreover have "mem (hp w') x = mem (hp w) x" by (rule mq [OF xo]) simp_all
    ultimately show "loose (F(x := mem (hp w) x)) (hp w') G'" using loF by (auto simp: loose_def)
  qed
qed

definition found_block :: "(ulong \<Rightarrow> fsobj obj option) \<Rightarrow> 'w world \<Rightarrow> u64 \<Rightarrow> nat \<Rightarrow> u64 \<Rightarrow> ulong \<Rightarrow> 'w world \<Rightarrow> bool" where
  "found_block F w ino l b p w' \<longleftrightarrow> fs_with F w' \<and> sb w' = sb w \<and> os w' = os w
   \<and> strategy (hp w') = strategy (hp w) \<and> ino_ptr w' = ino_ptr w \<and> di_of w' = di_of w
   \<and> (\<forall>i m c. m < LOGFS_MAX_LEVELS \<and> (i, m, c) \<noteq> (ino, l, b) \<longrightarrow>
        blk_ptr w' i m c = blk_ptr w i m c \<and> blk_of w' i m c = blk_of w i m c)
   \<and> (case blk_ptr w ino l b of
        Some q \<Rightarrow> p = q \<and> q \<noteq> 0 \<and> w' = w
      | None \<Rightarrow> (if p = 0 then blk_ptr w' ino l b = None
                 else blk_ptr w' ino l b = Some p
                    \<and> blk_of w' ino l b = Some (replicate (block_longs (sb w)) 0)))"

lemma find_or_create_block_result:
  assumes inv: "fs_with F w" and q: "ino_ptr w ino = Some q" and l: "l < LOGFS_MAX_LEVELS"
  shows "find_or_create_block q b l w = Stuck \<and> blk_ptr w ino l b = None
       \<and> strategy (hp w) (ticks (hp w)) (mem (hp w)) = None
     \<or> (\<exists>p w'. find_or_create_block q b l w = Ok (p, w') \<and> found_block F w ino l b p w')"
proof -
  obtain G where ok: "fs_ok (block_longs (sb w)) (hp w) (sb_ino_tree (sb w)) G" and lo: "loose F (hp w) G"
    using inv by (auto simp: fs_with_def)
  note D = fs_okD [OF ok]
  have qo: "own G q = Some (Inode_of ino)" using q ino_ptr_own [OF ok] by simp
  obtain i where i: "mem (hp w) q = Some (Ext (Inode i))" "inode_ok (hp w) (blk_tower G ino) i"
    using D(6) [OF qo] by blast
  have t: "tree btree_geo64 (hp w) (i_block_tree i ! l) (blk_tower G ino l)" and li: "l < length (i_block_tree i)"
    using i(2) l by (auto simp: inode_ok_def)
  have ptr: "blk_ptr w ino l b = dict (blk_tower G ino l) [b]"
    by (rule option_eqI) (simp add: blk_ptr_own [OF ok l] D(8))
  have at: "inode_at (hp w) q = Some i" using i(1) by (simp add: inode_at_Some)
  show ?thesis
  proof (cases "blk_ptr w ino l b")
    case (Some x)
    have "x \<noteq> 0" using dict_nz [OF t] Some ptr by simp
    then have "find_or_create_block q b l w = Ok (x, w)" "found_block F w ino l b x w"
      using Some ptr lookup64_dict [OF t, of b] inv at l
      by (simp_all add: find_or_create_block_def found_block_def)
    then show ?thesis by blast
  next
    case None
    then have none: "dict (blk_tower G ino l) [b] = None" using ptr by simp
    have lk: "btree_lookup64 (i_block_tree i ! l, hp w) b = Some 0" using lookup64_dict [OF t, of b] none by simp
    let ?z = "Block (replicate (block_longs (sb w)) 0)"
    show ?thesis
    proof (cases rule: zalloc_cases [OF D(1), of ?z, case_names crash got])
      case crash
      then show ?thesis using lk None at l by (simp add: find_or_create_block_def)
    next
      case (got p)
      obtain err head' h2 T' where a:
        "btree_insert64 (i_block_tree i ! l, (hp w)\<lparr>ticks := Suc (ticks (hp w)),
            mem := (mem (hp w))(p \<mapsto> Ext ?z)\<rparr>) b p = Some (err, head', h2)"
        "tree btree_geo64 h2 head' T'" "alloc_ok h2"
        "if err = 0 then dict T' = (dict (blk_tower G ino l))([b] \<mapsto> p)
         else err = - ENOMEM \<and> dict T' = dict (blk_tower G ino l)"
        "mem h2 p = Some (Ext ?z)" "p \<notin> set (addrs T')"
        "\<forall>x. mem (hp w) x \<noteq> None \<and> x \<notin> set (addrs (blk_tower G ino l)) \<longrightarrow> x \<notin> set (addrs T') \<and> mem h2 x = mem (hp w) x"
        "strategy h2 = strategy (hp w)"
        using tree_add [OF D(1) t none got(2,3)] by blast
      let ?i = "i\<lparr>i_block_tree := (i_block_tree i)[l := head']\<rparr>"
      let ?w = "w\<lparr>hp := put_obj q (Inode ?i) h2\<rparr>" and ?e = "if err = 0 then Some p else None"
      have "q \<notin> set (addrs (blk_tower G ino l))" using qo D(7) by simp
      then have q2: "mem h2 q = Some (Ext (Inode i))" using a(7) i(1) by simp
      then have "inode_at h2 q = Some i" by (simp add: inode_at_Some)
      then have run: "find_or_create_block q b l w = Ok (if err \<noteq> 0 then 0 else p, ?w)"
        using lk got(1) a(1) at l by (simp add: find_or_create_block_def upd_inode_def)
      have ed: "block_edited F w ino l b ?e ?w"
      proof (rule edit_block(1) [OF ok lo q at l a(2,3)])
        show "dict T' = (dict (blk_tower G ino l))([b] := ?e)" using a(4) none by (auto simp: fun_eq_iff split: if_splits)
      qed (use a(5-8) got(3) in \<open>auto split: if_splits\<close>)
      have pq: "p \<noteq> q" using got(3) i(1) by auto
      have "if (if err \<noteq> 0 then 0 else p) = 0 then blk_ptr ?w ino l b = None
          else blk_ptr ?w ino l b = Some (if err \<noteq> 0 then 0 else p)
            \<and> blk_of ?w ino l b = Some (replicate (block_longs (sb w)) 0)"
        using ed got(2) a(5) pq by (simp add: block_edited_def blk_of_def block_at_def put_obj_def)
      then have "found_block F w ino l b (if err \<noteq> 0 then 0 else p) ?w"
        unfolding found_block_def None option.case using ed unfolding block_edited_def by blast
      then show ?thesis using run by blast
    qed
  qed
qed

section \<open>Worlds with the same objects\<close>

lemma fs_ok_cong:
  assumes ok: "fs_ok n h head G" and m: "mem h' = mem h" and s: "strategy h' = strategy h"
  shows "fs_ok n h' head G"
proof -
  have t: "tree btree_geo64 h' hd T = tree btree_geo64 h hd T" for hd T
    using tree_cong [of btree_geo64 h hd T h'] tree_cong [of btree_geo64 h' hd T h] m by auto
  have "inode_ok h' Ts i = inode_ok h Ts i" for Ts i by (simp add: inode_ok_def t)
  then show ?thesis using ok t m s by (simp add: fs_ok_def alloc_ok_def)
qed

text \<open>The program sees the same files: every inode, every block.\<close>

definition same_files :: "'w world \<Rightarrow> 'w world \<Rightarrow> bool" where
  "same_files w w' \<longleftrightarrow> ino_ptr w' = ino_ptr w \<and> di_of w' = di_of w \<and> same_blocks w w'"

lemma same_filesI:
  assumes inv: "fs_with F w" and m: "mem (hp w') = mem (hp w)" "strategy (hp w') = strategy (hp w)"
    and s: "sb_ino_tree (sb w') = sb_ino_tree (sb w)" "sb_blocksize (sb w') = sb_blocksize (sb w)"
  shows "fs_with F w' \<and> same_files w w'"
proof -
  obtain G where ok: "fs_ok (block_longs (sb w)) (hp w) (sb_ino_tree (sb w)) G" and lo: "loose F (hp w) G"
    using inv by (auto simp: fs_with_def)
  have b: "block_longs (sb w') = block_longs (sb w)" using s by (simp add: block_longs_def)
  have ok': "fs_ok (block_longs (sb w)) (hp w') (sb_ino_tree (sb w')) G" using fs_ok_cong [OF ok m] s by simp
  moreover have "loose F (hp w') G" using lo m(1) by (simp add: loose_def)
  ultimately have "fs_with F w'" unfolding fs_with_def b by blast
  moreover have "ino_ptr w' i = ino_ptr w i \<and> inode_of w' i = inode_of w i" for i
    by (rule inode_of_cong [OF ok ok']) (simp_all add: m)
  moreover have "same_blocks w w'" unfolding same_blocks_def
    by (intro allI impI) (rule blk_of_cong [OF ok ok'], simp_all add: m)
  ultimately show ?thesis by (auto simp: same_files_def di_of_def)
qed

text \<open>Writing the fields of an inode through its pointer.\<close>

lemma upd_inode_spec:
  assumes inv: "fs_with F w" and p: "ino_ptr w ino = Some p"
    and f: "\<And>i. i_block_tree (f i) = i_block_tree i" "\<And>i. di_ok (i_di i) \<Longrightarrow> di_ok (i_di (f i))"
  shows "\<exists>w' i. upd_inode p f w = Ok w' \<and> fs_with F w' \<and> sb w' = sb w \<and> os w' = os w
     \<and> inode_of w ino = Some i \<and> di_of w' = (di_of w)(ino \<mapsto> i_di (f i)) \<and> di_ok (i_di (f i))
     \<and> ino_ptr w' = ino_ptr w \<and> same_blocks w w' \<and> strategy (hp w') = strategy (hp w)"
proof -
  obtain G where ok: "fs_ok (block_longs (sb w)) (hp w) (sb_ino_tree (sb w)) G" and lo: "loose F (hp w) G"
    using inv by (auto simp: fs_with_def)
  note D = fs_okD [OF ok]
  have po: "own G p = Some (Inode_of ino)" using p ino_ptr_own [OF ok] by simp
  obtain i where i: "inode_of w ino = Some i" "mem (hp w) p = Some (Ext (Inode i))" "inode_ok (hp w) (blk_tower G ino) i"
    using inode_of_own [OF ok po] by blast
  let ?h = "put_obj p (Inode (f i)) (hp w)" and ?w = "w\<lparr>hp := put_obj p (Inode (f i)) (hp w)\<rparr>"
  have m: "mem ?h x = (if x = p then Some (Ext (Inode (f i))) else mem (hp w) x)" for x by (simp add: put_obj_def)
  have same: "mem ?h x = mem (hp w) x" if "own G x = Some o'" "o' \<noteq> Inode_of ino" for x o'
    using that po by (auto simp: m)
  have t: "tree btree_geo64 ?h hd (blk_tower G j l)" if "tree btree_geo64 (hp w) hd (blk_tower G j l)" for hd j l
    by (rule tree_cong [OF that]) (use D(7) same in auto)
  have t0: "tree btree_geo64 ?h (sb_ino_tree (sb w)) (ino_tower G)"
    by (rule tree_cong [OF D(3)]) (use D(4) same in auto)
  have objs: "\<exists>x. mem ?h y = Some (Ext (Inode x)) \<and> inode_ok ?h (blk_tower G j) x" if o: "own G y = Some (Inode_of j)" for y j
  proof (cases "y = p")
    case True
    then have "j = ino" using o po by simp
    then show ?thesis using True i(3) f t by (auto simp: m inode_ok_def)
  next
    case False
    obtain x where "mem (hp w) y = Some (Ext (Inode x))" "inode_ok (hp w) (blk_tower G j) x" using D(6) [OF o] by blast
    then show ?thesis using False t by (auto simp: m inode_ok_def)
  qed
  have blocks: "\<exists>ws. mem ?h x = Some (Ext (Block ws)) \<and> length ws = block_longs (sb w)"
    if o: "own G x = Some (Block_of j l b)" for x j l b
    using D(9) [OF o] same [OF o] by simp
  have "alloc_ok ?h" using D(1) by (simp add: alloc_ok_def put_obj_def)
  moreover have "mem ?h x \<noteq> None" if "own G x \<noteq> None" for x using D(2) [of x] that by (auto simp: m)
  ultimately have ok': "fs_ok (block_longs (sb w)) ?h (sb_ino_tree (sb w)) G"
    unfolding fs_ok_def using t0 D(4,5,7,8,10) objs blocks by (intro conjI allI impI) simp_all
  then have okw: "fs_ok (block_longs (sb w)) (hp ?w) (sb_ino_tree (sb ?w)) G" by simp
  have "loose F (hp ?w) G" using lo po by (auto simp: loose_def m)
  then have inv': "fs_with F ?w" using okw unfolding fs_with_def by auto
  have at: "inode_at (hp w) p = Some i" using i(2) by (simp add: inode_at_Some)
  have ip: "ino_ptr ?w = ino_ptr w"
    by (rule ext, rule option_eqI) (simp add: ino_ptr_own [OF ok] ino_ptr_own [OF okw])
  have others: "di_of ?w j = di_of w j" if j: "j \<noteq> ino" for j
  proof -
    have "ino_ptr ?w j = ino_ptr w j \<and> inode_of ?w j = inode_of w j"
    proof (rule inode_of_cong [OF ok okw])
      show "mem (hp ?w) x = mem (hp w) x" if "own G x = Some (Inode_of j)" for x
        using same [OF that] j by simp
    qed simp
    then show ?thesis by (simp add: di_of_def)
  qed
  have "di_of ?w ino = Some (i_di (f i))"
    using ip p by (simp add: di_of_def inode_of_def inode_at_def put_obj_def)
  then have di: "di_of ?w = (di_of w)(ino \<mapsto> i_di (f i))" using others by (auto simp: fun_eq_iff)
  have sb': "same_blocks w ?w" unfolding same_blocks_def
  proof (intro allI impI)
    fix j l b assume l: "l < LOGFS_MAX_LEVELS"
    show "blk_ptr ?w j l b = blk_ptr w j l b \<and> blk_of ?w j l b = blk_of w j l b"
    proof (rule blk_of_cong [OF ok okw l])
      show "mem (hp ?w) x = mem (hp w) x" if "own G x = Some (Block_of j l b)" for x
        using same [OF that] by simp
    qed simp
  qed
  have "di_ok (i_di (f i))" using i(3) f(2) by (simp add: inode_ok_def)
  then show ?thesis using at i(1) inv' ip di sb'
    by (intro exI [of _ ?w] exI [of _ i]) (simp add: upd_inode_def put_obj_def)
qed

section \<open>Properties\<close>


text \<open>A concrete heap: empty, and after one inode was created.\<close>

lemma toy_inv: "fs_inv toy_world"
proof -
  have "alloc_ok (hp toy_world)" by (rule bump_ok) (simp add: toy_world_def)
  then have "fs_ok n (hp toy_world) (sb_ino_tree (sb toy_world))
      \<lparr>own = (\<lambda>_. None), ino_tower = [], blk_tower = (\<lambda>_ _. [])\<rparr>" for n
    by (simp add: fs_ok_def tree_def toy_world_def toy_super_def)
  then show ?thesis by (rule fs_invI)
qed

lemma toy_no_inode: "ino_ptr toy_world ino = None"
  by (simp add: ino_ptr_def toy_world_def toy_super_def seen_def btree_init_def btree_lookup_def)


fun ok_val :: "'a result \<Rightarrow> 'a" where
  "ok_val (Ok x) = x"
| "ok_val _ = undefined"

definition toy_world1 :: "toy world" where
  "toy_world1 = snd (ok_val (find_or_create_inode 2 toy_world))"

lemma toy_run1: "find_or_create_inode 2 toy_world = Ok (128, toy_world1)"
proof -
  have "(case find_or_create_inode 2 toy_world of Ok (p, w) \<Rightarrow> p = 128 | _ \<Rightarrow> False)"
    by (simp add: find_or_create_inode_def toy_world_def toy_super_def) code_simp
  then show ?thesis by (auto simp: toy_world1_def split: result.splits prod.splits)
qed

lemma toy_inode1: "fs_inv toy_world1" "ino_ptr toy_world1 2 = Some 128"
  using find_or_create_inode_result [OF toy_inv, of 2] toy_no_inode [of 2] unfolding toy_run1
  by (auto simp: found_inode_def)

text \<open>
  C20: \<open>find_or_create_block\<close>, called with an inode of the file system, keeps the heap well formed and
  gives the block with the index at the level, a zeroed one if there was none, or NULL; every other
  block and all inodes stay as they are.
\<close>

theorem find_or_create_block_correct:
  assumes "fs_inv w" "ino_ptr w ino = Some q" "l < LOGFS_MAX_LEVELS"
  shows "(find_or_create_block q b l w = Stuck \<and> blk_ptr w ino l b = None
          \<and> strategy (hp w) (ticks (hp w)) (mem (hp w)) = None)
     \<or> (\<exists>p w'. find_or_create_block q b l w = Ok (p, w') \<and> fs_inv w' \<and> sb w' = sb w \<and> os w' = os w
          \<and> ino_ptr w' = ino_ptr w \<and> di_of w' = di_of w
          \<and> (\<forall>i m c. m < LOGFS_MAX_LEVELS \<and> (i, m, c) \<noteq> (ino, l, b) \<longrightarrow>
               blk_ptr w' i m c = blk_ptr w i m c \<and> blk_of w' i m c = blk_of w i m c)
          \<and> (case blk_ptr w ino l b of
               Some x \<Rightarrow> p = x \<and> x \<noteq> 0 \<and> w' = w
             | None \<Rightarrow> (if p = 0 then blk_ptr w' ino l b = None
                        else blk_ptr w' ino l b = Some p
                           \<and> blk_of w' ino l b = Some (replicate (block_longs (sb w)) 0))))"
  using find_or_create_block_result [OF assms, of b] unfolding found_block_def by blast

lemma find_or_create_block_correct_witness:
  "find_or_create_block 128 7 1 toy_world1 = Stuck
     \<or> (\<exists>p w'. find_or_create_block 128 7 1 toy_world1 = Ok (p, w') \<and> fs_inv w')"
  using find_or_create_block_correct [OF toy_inode1, of 1 7] by (auto simp: abi_levels)

end
