(* ===== verification/Segment.thy ===== *)
theory Segment
  imports Main Inode
begin

text \<open>
  segment.c: segments are handed out in order, an area per level collects objects in a segment-sized
  buffer, and a full buffer goes to the device. Messages printed on the way are not modelled.
\<close>

section \<open>Segments\<close>

definition set_entry :: "u32 \<Rightarrow> u32 \<Rightarrow> u32 \<Rightarrow> 'w world \<Rightarrow> 'w world result" where
  "set_entry segno ec val w =
     (if unat segno < length (sb_segment_entry (sb w))
      then Ok (w\<lparr>sb := (sb w)\<lparr>sb_segment_entry :=
             (sb_segment_entry (sb w))[unat segno := \<lparr>se_ec_level = ec, se_valid = val\<rparr>]\<rparr>\<rparr>)
      else Stuck)"

text \<open>The \<open>do ... while (err)\<close> loop; \<^term>\<open>None\<close> would be a run that never ends.\<close>

partial_function (option) get_segment_loop :: "'w lib \<Rightarrow> 'w world \<Rightarrow> (u32 \<times> 'w world) result option" where
  "get_segment_loop L w =
     (let segno = sb_lastseg (sb w);
          ofs = ucast segno * ucast (sb_segsize (sb w)) :: u64;
          w1 = w\<lparr>sb := (sb w)\<lparr>sb_lastseg := segno + 1\<rparr>\<rparr> in
      if sb_lastseg (sb w1) > sb_no_segs (sb w1) then Some (fail ''no more free segments'')
      else case dev_erase L ofs (unat (sb_segsize (sb w1))) w1 of
          Exit m \<Rightarrow> Some (Exit m)
        | Stuck \<Rightarrow> Some Stuck
        | Ok r \<Rightarrow>
            (if fst r = 0 then Some (Ok (segno, snd r))
             else case set_entry segno (cpu_to_be32 BADSEG) (cpu_to_be32 RESERVED) (snd r) of
                 Exit m \<Rightarrow> Some (Exit m)
               | Stuck \<Rightarrow> Some Stuck
               | Ok w2 \<Rightarrow> get_segment_loop L w2))"

declare get_segment_loop.simps [code]

definition get_segment :: "'w lib \<Rightarrow> 'w world \<Rightarrow> (u32 \<times> 'w world) result" where
  "get_segment L w = (case get_segment_loop L w of None \<Rightarrow> Stuck | Some r \<Rightarrow> r)"

section \<open>Areas\<close>

definition put_area :: "nat \<Rightarrow> area \<Rightarrow> 'w world \<Rightarrow> 'w world" where
  "put_area i a w = w\<lparr>sb := (sb w)\<lparr>sb_area := (sb_area (sb w))[i := a]\<rparr>\<rparr>"

definition area_at :: "nat \<Rightarrow> 'w world \<Rightarrow> area result" where
  "area_at i w = (if i < length (sb_area (sb w)) then Ok (sb_area (sb w) ! i) else Stuck)"

definition copybuf :: "area \<Rightarrow> u8 list \<Rightarrow> area result" where
  "copybuf a bs = (case a_buf a of
       None \<Rightarrow> Stuck
     | Some m \<Rightarrow>
         (let u = unat (a_used_bytes a) in
          if length m < u + length bs then Stuck
          else Ok (a\<lparr>a_buf := Some (take u m @ bs @ drop (u + length bs) m),
                     a_used_bytes := a_used_bytes a + of_nat (length bs)\<rparr>)))"

definition area_header :: "'w lib \<Rightarrow> u8 \<Rightarrow> u32 \<Rightarrow> segment_header" where
  "area_header L level segno =
     (let sh = \<lparr>sh_crc = 0xffffffff, sh_pad = 0, sh_type = SEG_OSTORE, sh_level = level,
                sh_segno = cpu_to_be32 segno, sh_ec = cpu_to_be32 1, sh_gec = cpu_to_be64 (ucast segno)\<rparr>
      in sh\<lparr>sh_crc := logfs_crc32 L (sh_bytes sh) LOGFS_SEGMENT_HEADERSIZE 4\<rparr>)"

text \<open>\<open>__init_area\<close>: a fresh buffer with the header of a new segment.\<close>

definition init_area_segment :: "'w lib \<Rightarrow> nat \<Rightarrow> u8 \<Rightarrow> 'w world \<Rightarrow> 'w world result" where
  "init_area_segment L i level w =
     and_then (area_at i w) (\<lambda>a.
       if a_buf a = None then Stuck
       else let n = unat (sb_segsize (sb w)) in
         and_then (get_segment L w) (\<lambda>(segno, w).
           if n < LOGFS_SEGMENT_HEADERSIZE then Stuck
           else Ok (put_area i \<lparr>a_segno = segno, a_used_bytes = of_nat LOGFS_SEGMENT_HEADERSIZE,
                  a_buf = Some (sh_bytes (area_header L level segno)
                                @ replicate (n - LOGFS_SEGMENT_HEADERSIZE) 0xff)\<rparr> w)))"

definition init_area :: "'w lib \<Rightarrow> nat \<Rightarrow> u8 \<Rightarrow> 'w world \<Rightarrow> 'w world result" where
  "init_area L i level w =
     and_then (area_at i w) (\<lambda>a.
       if a_buf a \<noteq> None then Ok w
       else (let (ok, h) = malloc_buf (hp w) in
         if \<not> ok then Stuck
         else init_area_segment L i level
                (put_area i (a\<lparr>a_buf := Some (replicate (unat (sb_segsize (sb w))) 0)\<rparr>) (w\<lparr>hp := h\<rparr>))))"

definition finish_area :: "'w lib \<Rightarrow> nat \<Rightarrow> bool \<Rightarrow> u8 \<Rightarrow> 'w world \<Rightarrow> (int \<times> 'w world) result" where
  "finish_area L i final level w =
     and_then (area_at i w) (\<lambda>a. case a_buf a of
         None \<Rightarrow> Stuck
       | Some m \<Rightarrow>
           and_then (dev_write L (ucast (a_segno a) * ucast (sb_segsize (sb w)))
                       (unat (sb_segsize (sb w))) m w) (\<lambda>(err, w).
             if err \<noteq> 0 then Ok (err, w)
             else and_then (set_entry (a_segno a) (ec_level 1 level)
                              (cpu_to_be32 (a_used_bytes a - of_nat LOGFS_SEGMENT_HEADERSIZE)) w) (\<lambda>w.
               if final then Ok (0, w)
               else and_then (init_area_segment L i level w) (\<lambda>w. Ok (0, w)))))"

section \<open>Objects\<close>

text \<open>\<open>grow_inode\<close> of segment.c.\<close>

definition seg_grow_inode :: "u64 \<Rightarrow> nat \<Rightarrow> 'w world \<Rightarrow> (int \<times> 'w world) result" where
  "seg_grow_inode ino len w =
     and_then (find_or_create_inode ino w) (\<lambda>(inode, w).
       if inode = 0 then Ok (- ENOMEM, w)
       else and_then (upd_inode inode (\<lambda>i. i\<lparr>i_di := (i_di i)\<lparr>di_used_bytes :=
                        cpu_to_be64 (of_nat len + be64_to_cpu (di_used_bytes (i_di i)))\<rparr>\<rparr>) w) (\<lambda>w.
         Ok (0, w\<lparr>sb := (sb w)\<lparr>sb_used_bytes := sb_used_bytes (sb w) + of_nat len\<rparr>\<rparr>)))"

definition obj_len :: "super_block \<Rightarrow> u8 \<Rightarrow> nat result" where
  "obj_len s obj_type =
     (if obj_type = OBJ_DENTRY then Ok 266
      else if obj_type = OBJ_INODE then Ok 200
      else if obj_type = OBJ_BLOCK then Ok (unat (sb_blocksize s))
      else Stuck)"

definition make_object_header :: "'w lib \<Rightarrow> u8 list \<Rightarrow> u16 \<Rightarrow> u8 \<Rightarrow> u64 \<Rightarrow> u64 \<Rightarrow> object_header" where
  "make_object_header L buf len type ino bix =
     (let oh = \<lparr>oh_crc = 0, oh_len = cpu_to_be16 len, oh_type = type, oh_compr = COMPR_NONE,
                oh_ino = cpu_to_be64 ino, oh_bix = cpu_to_be64 bix, oh_data_crc = 0\<rparr>
      in oh\<lparr>oh_crc := logfs_crc32 L (oh_bytes oh) (LOGFS_OBJECT_HEADERSIZE - 4) 4,
            oh_data_crc := logfs_crc32 L buf (unat len) 0\<rparr>)"

text \<open>The parts of \<open>logfs_segment_write\<close>: an area with room for a block is made ready; the object is appended.\<close>

definition make_room :: "'w lib \<Rightarrow> nat \<Rightarrow> u8 \<Rightarrow> 'w world \<Rightarrow> (int \<times> 'w world) result" where
  "make_room L i level w =
     and_then (init_area L i level w) (\<lambda>w.
     and_then (area_at i w) (\<lambda>a.
       if unat (a_used_bytes a) + LOGFS_OBJECT_HEADERSIZE + unat (sb_blocksize (sb w)) > unat (sb_segsize (sb w))
       then finish_area L i False level w
       else Ok (0, w)))"

text \<open>\<open>area->segno * sb->segsize\<close> is a product of 32-bit numbers.\<close>

definition append_object :: "nat \<Rightarrow> u8 list \<Rightarrow> u8 list \<Rightarrow> 'w world \<Rightarrow> (u32 \<times> 'w world) result" where
  "append_object i oh data w =
     and_then (area_at i w) (\<lambda>a.
       let ofs = a_segno a * sb_segsize (sb w) + a_used_bytes a in
       and_then (copybuf a oh) (\<lambda>a.
       and_then (copybuf a data) (\<lambda>a. Ok (ofs, put_area i a w))))"

text \<open>The result is the offset of the object on the device, or an error.\<close>

definition logfs_segment_write :: "'w lib \<Rightarrow> u8 list \<Rightarrow> u8 \<Rightarrow> u64 \<Rightarrow> u64 \<Rightarrow> nat \<Rightarrow> 'w world \<Rightarrow>
    (int \<times> 'w world) result" where
  "logfs_segment_write L buf type ino bix level w =
     and_then (obj_len (sb w) type) (\<lambda>obj.
       let len = of_nat obj :: u16;
           level = (if ino = LOGFS_INO_MASTER then level + LOGFS_MAX_LEVELS else level) in
       if level \<ge> LOGFS_NO_AREAS \<or> length buf < unat len then Stuck
       else let oh = make_object_header L buf len type ino bix in
         and_then (make_room L level (of_nat level) w) (\<lambda>(err, w).
           if err \<noteq> 0 then Ok (err, w)
           else and_then (append_object level (oh_bytes oh) (take (unat len) buf) w) (\<lambda>(ofs, w).
             and_then (seg_grow_inode ino (LOGFS_OBJECT_HEADERSIZE + unat len) w) (\<lambda>(err, w).
               if err \<noteq> 0 then Ok (err, w) else Ok (uint ofs, w)))))"

primrec flush_loop :: "'w lib \<Rightarrow> nat \<Rightarrow> nat \<Rightarrow> 'w world \<Rightarrow> (int \<times> 'w world) result" where
  "flush_loop L i 0 w = Ok (0, w)"
| "flush_loop L i (Suc n) w =
     and_then (area_at i w) (\<lambda>a.
     and_then (if a_buf a \<noteq> None then finish_area L i True (of_nat i) w else Ok (0, w)) (\<lambda>(err, w).
       if err \<noteq> 0 then Ok (err, w) else flush_loop L (Suc i) n w))"

definition flush_segments :: "'w lib \<Rightarrow> 'w world \<Rightarrow> (int \<times> 'w world) result" where
  "flush_segments L w = flush_loop L 0 LOGFS_NO_AREAS w"

section \<open>What the device operations leave alone\<close>

text \<open>The operations of the device change the system's state, the erase buffer and the allocator's clock.\<close>

definition erase_ok :: "super_block \<Rightarrow> bool" where
  "erase_ok s \<longleftrightarrow> (\<forall>b. sb_erase_buf s = Some b \<longrightarrow> length b = unat (sb_segsize s))"

lemma erase_ok_updates [simp]:
  "erase_ok (s\<lparr>sb_lastseg := n\<rparr>) = erase_ok s"
  "erase_ok (s\<lparr>sb_segment_entry := es\<rparr>) = erase_ok s"
  "erase_ok (s\<lparr>sb_area := as\<rparr>) = erase_ok s"
  "erase_ok (s\<lparr>sb_used_bytes := u\<rparr>) = erase_ok s"
  "erase_ok (s\<lparr>sb_ino_tree := h\<rparr>) = erase_ok s"
  "erase_ok (s\<lparr>sb_erase_buf := Some b\<rparr>) = (length b = unat (sb_segsize s))"
  by (simp_all add: erase_ok_def)

definition dev_step :: "'w world \<Rightarrow> 'w world \<Rightarrow> bool" where
  "dev_step w w' \<longleftrightarrow> (\<exists>t eb s. w' = w\<lparr>hp := (hp w)\<lparr>ticks := t\<rparr>, sb := (sb w)\<lparr>sb_erase_buf := eb\<rparr>, os := s\<rparr>)
     \<and> (erase_ok (sb w) \<longrightarrow> erase_ok (sb w'))"

lemma dev_stepI:
  "w' = w\<lparr>hp := (hp w)\<lparr>ticks := t\<rparr>, sb := (sb w)\<lparr>sb_erase_buf := eb\<rparr>, os := s\<rparr> \<Longrightarrow>
     (erase_ok (sb w) \<longrightarrow> erase_ok (sb w')) \<Longrightarrow> dev_step w w'"
  unfolding dev_step_def by blast

lemma dev_stepE:
  assumes "dev_step w w'"
  obtains t eb s where "w' = w\<lparr>hp := (hp w)\<lparr>ticks := t\<rparr>, sb := (sb w)\<lparr>sb_erase_buf := eb\<rparr>, os := s\<rparr>"
    "erase_ok (sb w) \<longrightarrow> erase_ok (sb w')"
  using assms unfolding dev_step_def by (elim conjE exE) (rule that)

lemma dev_step_os [simp]: "dev_step w (w\<lparr>os := s\<rparr>)"
  by (rule dev_stepI [where t = "ticks (hp w)" and eb = "sb_erase_buf (sb w)" and s = s]) simp_all

lemma dev_step_trans: "dev_step w w1 \<Longrightarrow> dev_step w1 w2 \<Longrightarrow> dev_step w w2"
proof -
  assume 1: "dev_step w w1" and 2: "dev_step w1 w2"
  obtain t eb s where a: "w1 = w\<lparr>hp := (hp w)\<lparr>ticks := t\<rparr>, sb := (sb w)\<lparr>sb_erase_buf := eb\<rparr>, os := s\<rparr>"
    using 1 unfolding dev_step_def by blast
  obtain t' eb' s' where b: "w2 = w1\<lparr>hp := (hp w1)\<lparr>ticks := t'\<rparr>, sb := (sb w1)\<lparr>sb_erase_buf := eb'\<rparr>, os := s'\<rparr>"
    using 2 unfolding dev_step_def by blast
  have "w2 = w\<lparr>hp := (hp w)\<lparr>ticks := t'\<rparr>, sb := (sb w)\<lparr>sb_erase_buf := eb'\<rparr>, os := s'\<rparr>"
    unfolding b unfolding a by simp
  then show ?thesis by (rule dev_stepI) (use 1 2 in \<open>auto simp: dev_step_def\<close>)
qed

lemma dev_stepD:
  assumes "dev_step w w'"
  shows "mem (hp w') = mem (hp w)" "strategy (hp w') = strategy (hp w)" "sb_ino_tree (sb w') = sb_ino_tree (sb w)"
    "sb_blocksize (sb w') = sb_blocksize (sb w)" "sb_segsize (sb w') = sb_segsize (sb w)"
    "sb_no_segs (sb w') = sb_no_segs (sb w)" "sb_lastseg (sb w') = sb_lastseg (sb w)"
    "sb_segment_entry (sb w') = sb_segment_entry (sb w)" "sb_area (sb w') = sb_area (sb w)"
    "sb_used_bytes (sb w') = sb_used_bytes (sb w)" "sb_dev_ops (sb w') = sb_dev_ops (sb w)"
  using assms by (auto simp: dev_step_def)

lemma bdev_write_step: "bdev_write L ofs n buf w = Ok (err, w') \<Longrightarrow> dev_step w w' \<and> (err = 0 \<or> err = - EIO)"
  by (auto simp: bdev_write_def and_then_Ok)

lemma bdev_write_no_exit [simp]: "bdev_write L ofs n buf w \<noteq> Exit m"
  by (cases "safe_pwrite L (sb_fd (sb w)) buf n ofs (os w)") (auto simp: bdev_write_def)

lemma dev_erase_step: "dev_erase L ofs n w = Ok (err, w') \<Longrightarrow> dev_step w w'"
proof (cases "sb_dev_ops (sb w)")
  case Mtd_ops
  assume "dev_erase L ofs n w = Ok (err, w')"
  then show ?thesis using Mtd_ops by (auto simp: dev_erase_def mtd_erase_def split: if_splits prod.splits)
next
  case Bdev_ops
  assume r: "dev_erase L ofs n w = Ok (err, w')"
  show ?thesis
  proof (cases "sb_erase_buf (sb w)")
    case (Some buf)
    then show ?thesis using r Bdev_ops bdev_write_step [of L ofs n buf w err w'] by (simp add: dev_erase_def bdev_erase_def)
  next
    case None
    let ?buf = "replicate (unat (sb_segsize (sb w))) 0xff :: u8 list"
    let ?w = "w\<lparr>hp := (hp w)\<lparr>ticks := Suc (ticks (hp w))\<rparr>, sb := (sb w)\<lparr>sb_erase_buf := Some ?buf\<rparr>\<rparr>"
    have "bdev_write L ofs n ?buf ?w = Ok (err, w')"
      using r Bdev_ops None by (auto simp: dev_erase_def bdev_erase_def malloc_buf_def fail_def Let_def split: if_splits)
    then have "dev_step ?w w'" by (rule bdev_write_step [THEN conjunct1])
    moreover have "dev_step w ?w"
      by (rule dev_stepI [where t = "Suc (ticks (hp w))" and eb = "Some ?buf" and s = "os w"])
        simp_all
    ultimately show ?thesis by (rule dev_step_trans [rotated])
  qed
qed

lemma dev_erase_exit: "dev_erase L ofs n w = Exit m \<Longrightarrow> m = ''out of memory''"
  by (auto simp: dev_erase_def mtd_erase_def bdev_erase_def malloc_buf_def fail_def Let_def
      split: device_operations.splits if_splits prod.splits option.splits)

section \<open>Handing out segments\<close>

text \<open>Segment \<open>segno\<close> was handed out; the segments before it that could not be erased are marked bad.\<close>

definition bad_entry :: segment_entry where
  "bad_entry = \<lparr>se_ec_level = cpu_to_be32 BADSEG, se_valid = cpu_to_be32 RESERVED\<rparr>"

definition segs_ok :: "'w world \<Rightarrow> bool" where
  "segs_ok w \<longleftrightarrow> sb_lastseg (sb w) \<le> sb_no_segs (sb w) \<and> sb_no_segs (sb w) < 2 ^ 32 - 1
     \<and> length (sb_segment_entry (sb w)) = unat (sb_no_segs (sb w))"

definition handed_out :: "'w world \<Rightarrow> u32 \<Rightarrow> 'w world \<Rightarrow> bool" where
  "handed_out w segno w' \<longleftrightarrow> (erase_ok (sb w) \<longrightarrow> erase_ok (sb w')) \<and> sb_lastseg (sb w) \<le> segno \<and> segno < sb_no_segs (sb w)
     \<and> (\<exists>t eb s es. w' = w\<lparr>hp := (hp w)\<lparr>ticks := t\<rparr>, os := s,
           sb := (sb w)\<lparr>sb_erase_buf := eb, sb_lastseg := segno + 1, sb_segment_entry := es\<rparr>\<rparr>
         \<and> length es = length (sb_segment_entry (sb w))
         \<and> (\<forall>i < length es. es ! i = (if unat (sb_lastseg (sb w)) \<le> i \<and> i < unat segno then bad_entry
              else sb_segment_entry (sb w) ! i)))"

lemma succ_no_wrap: "unat (x :: u32) + 1 < 2 ^ 32 \<Longrightarrow> unat (x + 1) = unat x + 1"
  by (simp add: unat_word_ariths)

lemma handed_out_more:
  assumes "dev_step (w\<lparr>sb := (sb w)\<lparr>sb_lastseg := sb_lastseg (sb w) + 1\<rparr>\<rparr>) w1"
    and "handed_out (w1\<lparr>sb := (sb w1)\<lparr>sb_segment_entry := (sb_segment_entry (sb w))[unat (sb_lastseg (sb w)) := bad_entry]\<rparr>\<rparr>) segno w'"
    and "unat (sb_lastseg (sb w) + 1) = unat (sb_lastseg (sb w)) + 1"
  shows "handed_out w segno w'"
proof -
  let ?w1 = "w\<lparr>sb := (sb w)\<lparr>sb_lastseg := sb_lastseg (sb w) + 1\<rparr>\<rparr>"
  obtain t eb s where raw1: "w1 = ?w1\<lparr>hp := (hp ?w1)\<lparr>ticks := t\<rparr>, sb := (sb ?w1)\<lparr>sb_erase_buf := eb\<rparr>, os := s\<rparr>"
    by (rule dev_stepE [OF assms(1)])
  have w1: "w1 = w\<lparr>hp := (hp w)\<lparr>ticks := t\<rparr>,
      sb := (sb w)\<lparr>sb_lastseg := sb_lastseg (sb w) + 1, sb_erase_buf := eb\<rparr>, os := s\<rparr>" unfolding raw1 by simp
  have r: "sb_lastseg (sb w) + 1 \<le> segno" "segno < sb_no_segs (sb w)"
    using assms(2) w1 by (simp_all add: handed_out_def)
  have er: "erase_ok (sb w) \<longrightarrow> erase_ok (sb w')"
    using assms(1) [unfolded dev_step_def, THEN conjunct2] assms(2) [unfolded handed_out_def, THEN conjunct1]
    by simp
  let ?w2 = "w1\<lparr>sb := (sb w1)\<lparr>sb_segment_entry := (sb_segment_entry (sb w))[unat (sb_lastseg (sb w)) := bad_entry]\<rparr>\<rparr>"
  obtain t2 eb2 s2 es where raw: "w' = ?w2\<lparr>hp := (hp ?w2)\<lparr>ticks := t2\<rparr>, os := s2,
      sb := (sb ?w2)\<lparr>sb_erase_buf := eb2, sb_lastseg := segno + 1, sb_segment_entry := es\<rparr>\<rparr>"
    "length es = length (sb_segment_entry (sb ?w2))"
    "\<forall>i < length es. es ! i = (if unat (sb_lastseg (sb ?w2)) \<le> i \<and> i < unat segno then bad_entry
        else sb_segment_entry (sb ?w2) ! i)"
    using assms(2) unfolding handed_out_def by blast
  have w': "w' = w\<lparr>hp := (hp w)\<lparr>ticks := t2\<rparr>, os := s2,
      sb := (sb w)\<lparr>sb_erase_buf := eb2, sb_lastseg := segno + 1, sb_segment_entry := es\<rparr>\<rparr>"
    "length es = length (sb_segment_entry (sb w))"
    "\<forall>i < length es. es ! i = (if unat (sb_lastseg (sb w)) + 1 \<le> i \<and> i < unat segno then bad_entry
        else (sb_segment_entry (sb w))[unat (sb_lastseg (sb w)) := bad_entry] ! i)"
    using raw unfolding w1 by (simp_all add: assms(3))
  have "unat (sb_lastseg (sb w)) < unat segno" using r(1) assms(3) by (simp add: word_le_nat_alt)
  then have es: "es ! i = (if unat (sb_lastseg (sb w)) \<le> i \<and> i < unat segno then bad_entry else sb_segment_entry (sb w) ! i)"
    if "i < length es" for i using w'(2,3) that by (auto simp: nth_list_update)
  have le: "sb_lastseg (sb w) \<le> segno" using r(1) assms(3) by (simp add: word_le_nat_alt)
  have "\<exists>t eb s es. w' = w\<lparr>hp := (hp w)\<lparr>ticks := t\<rparr>, os := s,
           sb := (sb w)\<lparr>sb_erase_buf := eb, sb_lastseg := segno + 1, sb_segment_entry := es\<rparr>\<rparr>
         \<and> length es = length (sb_segment_entry (sb w))
         \<and> (\<forall>i < length es. es ! i = (if unat (sb_lastseg (sb w)) \<le> i \<and> i < unat segno then bad_entry
              else sb_segment_entry (sb w) ! i))"
    by (rule exI [of _ t2], rule exI [of _ eb2], rule exI [of _ s2], rule exI [of _ es], intro conjI allI impI)
      (use w' in simp, use w' in simp, erule es)
  then show ?thesis unfolding handed_out_def using er le r(2) by blast
qed

lemma get_segment_loop_spec:
  assumes "segs_ok w"
  shows "\<exists>r. get_segment_loop L w = Some r \<and> (case r of
       Ok (segno, w') \<Rightarrow> handed_out w segno w'
     | Exit m \<Rightarrow> m = ''no more free segments'' \<or> m = ''out of memory''
     | Stuck \<Rightarrow> (\<exists>segno w'. (erase_ok (sb w) \<longrightarrow> erase_ok (sb w')) \<and> sb_segsize (sb w') = sb_segsize (sb w) \<and>
          dev_erase L (ucast (segno :: u32) * ucast (sb_segsize (sb w))) (unat (sb_segsize (sb w))) w' = Stuck))"
  using assms
proof (induction "unat (sb_no_segs (sb w)) - unat (sb_lastseg (sb w))" arbitrary: w rule: less_induct)
  case less
  let ?segno = "sb_lastseg (sb w)"
  let ?w1 = "w\<lparr>sb := (sb w)\<lparr>sb_lastseg := ?segno + 1\<rparr>\<rparr>"
  let ?ofs = "ucast ?segno * ucast (sb_segsize (sb w)) :: u64"
  note ok = less.prems [unfolded segs_ok_def]
  have step: "unat (?segno + 1) = unat ?segno + 1"
    by (rule succ_no_wrap) (use ok in \<open>simp add: word_le_nat_alt word_less_nat_alt\<close>)
  show ?case
  proof (cases "?segno + 1 > sb_no_segs (sb w)")
    case True
    then show ?thesis by (subst get_segment_loop.simps) (simp add: Let_def fail_def)
  next
    case False
    then have lt: "unat ?segno < unat (sb_no_segs (sb w))" "?segno < sb_no_segs (sb w)"
      using step by (simp_all add: word_le_nat_alt word_less_nat_alt not_less)
    show ?thesis
    proof (cases "dev_erase L ?ofs (unat (sb_segsize (sb w))) ?w1")
      case (Exit m)
      then show ?thesis using False dev_erase_exit [OF Exit]
        by (subst get_segment_loop.simps) (simp add: Let_def)
    next
      case Stuck
      then have "\<exists>segno w'. (erase_ok (sb w) \<longrightarrow> erase_ok (sb w')) \<and> sb_segsize (sb w') = sb_segsize (sb w) \<and>
          dev_erase L (ucast (segno :: u32) * ucast (sb_segsize (sb w))) (unat (sb_segsize (sb w))) w' = Stuck"
        by (intro exI [of _ ?segno] exI [of _ ?w1]) simp
      then show ?thesis using False Stuck by (subst get_segment_loop.simps) (simp add: Let_def)
    next
      case (Ok r)
      obtain err w1 where r: "r = (err, w1)" by (cases r)
      have ds: "dev_step ?w1 w1" using dev_erase_step Ok r by blast
      note d = dev_stepD [OF ds]
      show ?thesis
      proof (cases "err = 0")
        case True
        obtain t eb s where w1: "w1 = ?w1\<lparr>hp := (hp ?w1)\<lparr>ticks := t\<rparr>, sb := (sb ?w1)\<lparr>sb_erase_buf := eb\<rparr>, os := s\<rparr>"
          by (rule dev_stepE [OF ds])
        have er: "erase_ok (sb w) \<longrightarrow> erase_ok (sb w1)"
          using ds [unfolded dev_step_def, THEN conjunct2] by simp
        have "handed_out w ?segno w1" unfolding handed_out_def
          by (intro conjI er lt(2) order_refl exI [of _ t] exI [of _ eb] exI [of _ s] exI [of _ "sb_segment_entry (sb w)"])
            (subst w1, simp, simp, auto)
        then show ?thesis using False Ok r True by (subst get_segment_loop.simps) (simp add: Let_def)
      next
        case nz: False
        let ?w2 = "w1\<lparr>sb := (sb w1)\<lparr>sb_segment_entry := (sb_segment_entry (sb w))[unat ?segno := bad_entry]\<rparr>\<rparr>"
        have "get_segment_loop L w = get_segment_loop L ?w2"
          using False Ok r nz d lt(1) ok
          by (subst get_segment_loop.simps) (simp add: Let_def set_entry_def bad_entry_def)
        moreover have "segs_ok ?w2" using ok d False by (simp add: segs_ok_def not_less)
        moreover have "unat (sb_no_segs (sb ?w2)) - unat (sb_lastseg (sb ?w2)) < unat (sb_no_segs (sb w)) - unat ?segno"
          using d step lt(1) by simp
        ultimately obtain r' where r': "get_segment_loop L w = Some r'" "case r' of
             Ok (segno, w') \<Rightarrow> handed_out ?w2 segno w'
           | Exit m \<Rightarrow> m = ''no more free segments'' \<or> m = ''out of memory''
           | Stuck \<Rightarrow> (\<exists>segno w'. (erase_ok (sb ?w2) \<longrightarrow> erase_ok (sb w')) \<and> sb_segsize (sb w') = sb_segsize (sb ?w2) \<and>
              dev_erase L (ucast (segno :: u32) * ucast (sb_segsize (sb ?w2))) (unat (sb_segsize (sb ?w2))) w' = Stuck)"
          using less.hyps [of ?w2] by auto
        have er: "erase_ok (sb w) \<longrightarrow> erase_ok (sb ?w2)" using ds [unfolded dev_step_def, THEN conjunct2] by simp
        have "handed_out w segno w'" if "r' = Ok (segno, w')" for segno w'
          using handed_out_more [OF ds _ step] r'(2) that by simp
        moreover have "\<exists>segno w'. (erase_ok (sb w) \<longrightarrow> erase_ok (sb w')) \<and> sb_segsize (sb w') = sb_segsize (sb w) \<and>
          dev_erase L (ucast (segno :: u32) * ucast (sb_segsize (sb w))) (unat (sb_segsize (sb w))) w' = Stuck"
          if stuck: "r' = Stuck"
        proof -
          obtain sn wn where n: "erase_ok (sb ?w2) \<longrightarrow> erase_ok (sb wn)" "sb_segsize (sb wn) = sb_segsize (sb ?w2)"
            "dev_erase L (ucast (sn :: u32) * ucast (sb_segsize (sb ?w2))) (unat (sb_segsize (sb ?w2))) wn = Stuck"
            using r'(2) unfolding stuck result.case by (elim exE conjE) (rule that)
          have "sb_segsize (sb ?w2) = sb_segsize (sb w)" using d(5) by simp
          then show ?thesis using n er by (intro exI [of _ sn] exI [of _ wn]) simp
        qed
        moreover have "m = ''no more free segments'' \<or> m = ''out of memory''" if "r' = Exit m" for m
          using r'(2) that by simp
        ultimately show ?thesis by (intro exI [of _ r'] conjI r'(1)) (simp split: result.split prod.split)
      qed
    qed
  qed
qed

section \<open>The invariant of the areas\<close>

definition area_ok :: "super_block \<Rightarrow> area \<Rightarrow> bool" where
  "area_ok s a \<longleftrightarrow> (\<forall>m. a_buf a = Some m \<longrightarrow> length m = unat (sb_segsize s)
     \<and> LOGFS_SEGMENT_HEADERSIZE \<le> unat (a_used_bytes a) \<and> unat (a_used_bytes a) \<le> unat (sb_segsize s)
     \<and> a_segno a < sb_lastseg s)"

text \<open>
  The buffers fit their segments, every open area writes to a segment that was handed out, no two of
  them to the same one, and a segment has room for a block. \<open>X\<close> names areas that are being set up.
\<close>

definition seg_inv_but :: "nat set \<Rightarrow> 'w world \<Rightarrow> bool" where
  "seg_inv_but X w \<longleftrightarrow> segs_ok w \<and> length (sb_area (sb w)) = LOGFS_NO_AREAS
     \<and> (\<forall>i < LOGFS_NO_AREAS. i \<notin> X \<longrightarrow> area_ok (sb w) (sb_area (sb w) ! i))
     \<and> (\<forall>i < LOGFS_NO_AREAS. \<forall>j < LOGFS_NO_AREAS. i \<notin> X \<and> j \<notin> X \<and> i \<noteq> j
          \<and> a_buf (sb_area (sb w) ! i) \<noteq> None \<and> a_buf (sb_area (sb w) ! j) \<noteq> None
          \<longrightarrow> a_segno (sb_area (sb w) ! i) \<noteq> a_segno (sb_area (sb w) ! j))
     \<and> LOGFS_SEGMENT_HEADERSIZE + LOGFS_OBJECT_HEADERSIZE + unat (sb_blocksize (sb w)) \<le> unat (sb_segsize (sb w))
     \<and> 266 \<le> unat (sb_blocksize (sb w)) \<and> unat (sb_blocksize (sb w)) < 2 ^ 16"

abbreviation seg_inv :: "'w world \<Rightarrow> bool" where "seg_inv \<equiv> seg_inv_but {}"

text \<open>What the segment layer never touches.\<close>

definition seg_frame :: "'w world \<Rightarrow> 'w world \<Rightarrow> bool" where
  "seg_frame w w' \<longleftrightarrow> mem (hp w') = mem (hp w) \<and> strategy (hp w') = strategy (hp w)
     \<and> sb_ino_tree (sb w') = sb_ino_tree (sb w) \<and> sb_blocksize (sb w') = sb_blocksize (sb w)
     \<and> sb_blocksize_bits (sb w') = sb_blocksize_bits (sb w)
     \<and> sb_segsize (sb w') = sb_segsize (sb w) \<and> sb_no_segs (sb w') = sb_no_segs (sb w)
     \<and> sb_used_bytes (sb w') = sb_used_bytes (sb w) \<and> sb_dev_ops (sb w') = sb_dev_ops (sb w)
     \<and> sb_lastseg (sb w) \<le> sb_lastseg (sb w')"

lemma seg_frame_trans: "seg_frame w w1 \<Longrightarrow> seg_frame w1 w2 \<Longrightarrow> seg_frame w w2"
  by (auto simp: seg_frame_def)

lemma dev_step_frame: "dev_step w w' \<Longrightarrow> seg_frame w w'"
  by (auto simp: dev_step_def seg_frame_def)

lemma dev_step_inv: "dev_step w w' \<Longrightarrow> seg_inv_but X w' = seg_inv_but X w"
  by (auto simp: dev_step_def seg_inv_but_def area_ok_def segs_ok_def)

lemma area_ok_mono:
  "area_ok s a \<Longrightarrow> sb_lastseg s \<le> sb_lastseg s' \<Longrightarrow> sb_segsize s' = sb_segsize s \<Longrightarrow> area_ok s' a"
  by (auto simp: area_ok_def)

lemma handed_out_facts:
  assumes "handed_out w segno w'" "seg_inv_but X w"
  shows "seg_frame w w'" "sb_area (sb w') = sb_area (sb w)" "seg_inv_but X w'" "segno < sb_lastseg (sb w')"
    "sb_lastseg (sb w) \<le> segno"
proof -
  have s: "segs_ok w" using assms(2) by (simp add: seg_inv_but_def)
  have lt: "sb_lastseg (sb w) \<le> segno" "segno < sb_no_segs (sb w)" using assms(1) by (simp_all add: handed_out_def)
  have u: "unat (segno + 1) = unat segno + 1"
    by (rule succ_no_wrap) (use lt s in \<open>simp add: segs_ok_def word_less_nat_alt\<close>)
  obtain t eb s' es where w': "w' = w\<lparr>hp := (hp w)\<lparr>ticks := t\<rparr>, os := s',
      sb := (sb w)\<lparr>sb_erase_buf := eb, sb_lastseg := segno + 1, sb_segment_entry := es\<rparr>\<rparr>"
    "length es = length (sb_segment_entry (sb w))"
    using assms(1) unfolding handed_out_def by blast
  have le: "sb_lastseg (sb w) < segno + 1" "segno + 1 \<le> sb_no_segs (sb w)"
    using u lt by (simp_all add: word_le_nat_alt word_less_nat_alt)
  show "sb_area (sb w') = sb_area (sb w)" "segno < sb_lastseg (sb w')" "sb_lastseg (sb w) \<le> segno"
    using w' u lt by (simp_all add: word_less_nat_alt)
  show "seg_frame w w'" using w' le by (auto simp: seg_frame_def)
  have "segs_ok w'" using s w' le by (simp add: segs_ok_def)
  moreover have "area_ok (sb w) a \<Longrightarrow> area_ok (sb w') a" for a
    using le w' by (intro area_ok_mono [of "sb w" a "sb w'"]) auto
  moreover have "sb_blocksize (sb w') = sb_blocksize (sb w)" "sb_segsize (sb w') = sb_segsize (sb w)"
    using w' by simp_all
  ultimately show "seg_inv_but X w'" using assms(2) \<open>sb_area (sb w') = sb_area (sb w)\<close>
    unfolding seg_inv_but_def by simp
qed

lemma seg_inv_put:
  assumes inv: "seg_inv_but {i} w" and i: "i < LOGFS_NO_AREAS" and a: "area_ok (sb w) a"
    and diff: "\<And>j. j < LOGFS_NO_AREAS \<Longrightarrow> j \<noteq> i \<Longrightarrow> a_buf (sb_area (sb w) ! j) \<noteq> None \<Longrightarrow> a_segno (sb_area (sb w) ! j) \<noteq> a_segno a"
  shows "seg_inv (put_area i a w)"
proof -
  have len: "length (sb_area (sb w)) = LOGFS_NO_AREAS" using inv by (simp add: seg_inv_but_def)
  have "area_ok (sb (put_area i a w)) x = area_ok (sb w) x" for x by (simp add: area_ok_def put_area_def)
  moreover have "segs_ok (put_area i a w) = segs_ok w" by (simp add: segs_ok_def put_area_def)
  moreover have "sb_area (sb (put_area i a w)) ! j = (if j = i then a else sb_area (sb w) ! j)" for j
    using len i by (simp add: put_area_def nth_list_update)
  moreover have "length (sb_area (sb (put_area i a w))) = LOGFS_NO_AREAS"
    "sb_blocksize (sb (put_area i a w)) = sb_blocksize (sb w)" "sb_segsize (sb (put_area i a w)) = sb_segsize (sb w)"
    using len by (simp_all add: put_area_def)
  moreover note diff not_sym [OF diff]
  ultimately show ?thesis using inv a unfolding seg_inv_but_def by auto
qed

lemma get_segment_Ok: "segs_ok w \<Longrightarrow> get_segment L w = Ok (segno, w') \<Longrightarrow> handed_out w segno w'"
proof -
  assume ok: "segs_ok w" and run: "get_segment L w = Ok (segno, w')"
  have "get_segment_loop L w = Some (Ok (segno, w'))"
    using run by (simp add: get_segment_def split: option.splits)
  then show ?thesis using get_segment_loop_spec [OF ok, of L] by simp
qed

lemma put_area_frame [simp]: "seg_frame w (put_area i a w)"
  by (simp add: seg_frame_def put_area_def)

text \<open>Opening the next segment for an area.\<close>

definition fresh_area :: "'w lib \<Rightarrow> u8 \<Rightarrow> super_block \<Rightarrow> u32 \<Rightarrow> area" where
  "fresh_area L level s segno = \<lparr>a_segno = segno, a_used_bytes = of_nat LOGFS_SEGMENT_HEADERSIZE,
     a_buf = Some (sh_bytes (area_header L level segno)
                   @ replicate (unat (sb_segsize s) - LOGFS_SEGMENT_HEADERSIZE) 0xff)\<rparr>"

lemma init_area_segment_spec:
  assumes inv: "seg_inv_but {i} w" and i: "i < LOGFS_NO_AREAS" and run: "init_area_segment L i level w = Ok w'"
  shows "seg_frame w w' \<and> seg_inv w' \<and> (\<exists>segno. sb_lastseg (sb w) \<le> segno
     \<and> sb_area (sb w') = (sb_area (sb w))[i := fresh_area L level (sb w) segno])"
proof -
  have ok: "segs_ok w" using inv by (simp add: seg_inv_but_def)
  have len: "length (sb_area (sb w)) = LOGFS_NO_AREAS" using inv by (simp add: seg_inv_but_def)
  obtain segno w1 where g: "get_segment L w = Ok (segno, w1)"
    and w': "w' = put_area i (fresh_area L level (sb w) segno) w1"
    using run i len by (auto simp: init_area_segment_def area_at_def and_then_Ok Let_def fresh_area_def split: if_splits)
  note h = handed_out_facts [OF get_segment_Ok [OF ok g] inv]
  have sz: "LOGFS_SEGMENT_HEADERSIZE \<le> unat (sb_segsize (sb w))" using inv by (simp add: seg_inv_but_def)
  have seg: "sb_segsize (sb w1) = sb_segsize (sb w)" using h(1) by (simp add: seg_frame_def)
  have "area_ok (sb w1) (fresh_area L level (sb w) segno)"
    using h(4) sz seg by (simp add: area_ok_def fresh_area_def abi_sizes)
  moreover have "a_segno (sb_area (sb w1) ! j) \<noteq> segno"
    if "j < LOGFS_NO_AREAS" "j \<noteq> i" "a_buf (sb_area (sb w1) ! j) \<noteq> None" for j
    using inv that h(2,5) by (auto simp: seg_inv_but_def area_ok_def word_le_nat_alt word_less_nat_alt)
  ultimately have "seg_inv w'" unfolding w' by (intro seg_inv_put [OF h(3) i]) (simp_all add: fresh_area_def)
  moreover have "seg_frame w w'" unfolding w' by (rule seg_frame_trans [OF h(1)]) simp
  moreover have "sb_area (sb w') = (sb_area (sb w))[i := fresh_area L level (sb w) segno]"
    using h(2) by (simp add: w' put_area_def)
  ultimately show ?thesis using h(5) by blast
qed

lemma frame_files: "fs_with F w \<Longrightarrow> seg_frame w w' \<Longrightarrow> fs_with F w' \<and> same_files w w'"
  by (rule same_filesI) (auto simp: seg_frame_def)

lemma init_area_spec:
  assumes inv: "seg_inv w" and i: "i < LOGFS_NO_AREAS" and run: "init_area L i level w = Ok w'"
  shows "seg_frame w w' \<and> seg_inv w' \<and> a_buf (sb_area (sb w') ! i) \<noteq> None
     \<and> (if a_buf (sb_area (sb w) ! i) \<noteq> None then w' = w
        else \<exists>segno. sb_lastseg (sb w) \<le> segno
          \<and> sb_area (sb w') = (sb_area (sb w))[i := fresh_area L level (sb w) segno])"
proof (cases "a_buf (sb_area (sb w) ! i)")
  case (Some m)
  then show ?thesis using run i inv by (simp add: init_area_def area_at_def seg_inv_but_def seg_frame_def)
next
  case None
  have len: "length (sb_area (sb w)) = LOGFS_NO_AREAS" using inv by (simp add: seg_inv_but_def)
  let ?w = "put_area i ((sb_area (sb w) ! i)\<lparr>a_buf := Some (replicate (unat (sb_segsize (sb w))) 0)\<rparr>)
      (w\<lparr>hp := (hp w)\<lparr>ticks := Suc (ticks (hp w))\<rparr>\<rparr>)"
  have r: "init_area_segment L i level ?w = Ok w'"
    using run None i len by (auto simp: init_area_def area_at_def malloc_buf_def split: if_splits)
  have "area_ok (sb ?w) = area_ok (sb w)" by (simp add: area_ok_def put_area_def fun_eq_iff)
  moreover have "segs_ok ?w = segs_ok w" by (simp add: segs_ok_def put_area_def)
  moreover have "sb_area (sb ?w) ! j = sb_area (sb w) ! j" if "j \<noteq> i" for j using that by (simp add: put_area_def)
  moreover have "length (sb_area (sb ?w)) = length (sb_area (sb w))" "sb_blocksize (sb ?w) = sb_blocksize (sb w)"
    "sb_segsize (sb ?w) = sb_segsize (sb w)" by (simp_all add: put_area_def)
  ultimately have "seg_inv_but {i} ?w" using inv unfolding seg_inv_but_def by (simp cong: conj_cong)
  from init_area_segment_spec [OF this i r] obtain segno where s: "seg_frame ?w w'" "seg_inv w'"
    "sb_lastseg (sb w) \<le> segno" "sb_area (sb w') = (sb_area (sb ?w))[i := fresh_area L level (sb ?w) segno]"
    by (auto simp: put_area_def)
  have f: "seg_frame w ?w" by (simp add: seg_frame_def put_area_def)
  have "sb_area (sb w') = (sb_area (sb w))[i := fresh_area L level (sb w) segno]"
    using s(4) by (simp add: put_area_def fresh_area_def)
  moreover have "a_buf (sb_area (sb w') ! i) \<noteq> None" using calculation i len by (simp add: fresh_area_def)
  ultimately show ?thesis using None s(2,3) seg_frame_trans [OF f s(1)] by auto
qed

definition entry_set :: "'w world \<Rightarrow> u32 \<Rightarrow> u32 \<Rightarrow> u32 \<Rightarrow> segment_entry list" where
  "entry_set w segno ec v = (sb_segment_entry (sb w))[unat segno := \<lparr>se_ec_level = ec, se_valid = v\<rparr>]"

lemma set_entry_spec:
  "set_entry segno ec v w = Ok w' \<longleftrightarrow> unat segno < length (sb_segment_entry (sb w))
     \<and> w' = w\<lparr>sb := (sb w)\<lparr>sb_segment_entry := entry_set w segno ec v\<rparr>\<rparr>"
  by (auto simp: set_entry_def entry_set_def)

lemma entry_frame: "seg_frame w (w\<lparr>sb := (sb w)\<lparr>sb_segment_entry := es\<rparr>\<rparr>)"
  by (simp add: seg_frame_def)

lemma entry_inv:
  "length es = length (sb_segment_entry (sb w)) \<Longrightarrow>
     seg_inv_but X (w\<lparr>sb := (sb w)\<lparr>sb_segment_entry := es\<rparr>\<rparr>) = seg_inv_but X w"
  by (simp add: seg_inv_but_def area_ok_def segs_ok_def)

lemma seg_inv_weaken: "seg_inv w \<Longrightarrow> seg_inv_but X w"
  by (auto simp: seg_inv_but_def)

text \<open>
  Closing a segment: it goes to the device as a whole, its entry gets the erase count, the level and
  the number of bytes used, and unless it is the last one the area continues in a new segment.
\<close>

lemma finish_area_spec:
  assumes inv: "seg_inv w" and i: "i < LOGFS_NO_AREAS" and m: "a_buf (sb_area (sb w) ! i) = Some m"
    and run: "finish_area L i final level w = Ok (err, w')"
  shows "seg_frame w w' \<and> seg_inv w' \<and> (err = 0 \<or> err = - EIO) \<and> a_buf (sb_area (sb w') ! i) \<noteq> None
     \<and> (if err = 0 \<and> \<not> final then \<exists>segno. sb_area (sb w') = (sb_area (sb w))[i := fresh_area L level (sb w) segno]
        else sb_area (sb w') = sb_area (sb w))"
proof -
  let ?a = "sb_area (sb w) ! i"
  have len: "length (sb_area (sb w)) = LOGFS_NO_AREAS" using inv by (simp add: seg_inv_but_def)
  obtain e w1 where d: "dev_write L (ucast (a_segno ?a) * ucast (sb_segsize (sb w))) (unat (sb_segsize (sb w))) m w = Ok (e, w1)"
    using run m i len by (auto simp: finish_area_def area_at_def and_then_Ok)
  have ds: "dev_step w w1" "e = 0 \<or> e = - EIO" using bdev_write_step d unfolding dev_write_eq by blast+
  note q = dev_stepD [OF ds(1)]
  show ?thesis
  proof (cases "e = 0")
    case False
    then have "err = e" "w' = w1" using run m i len d by (simp_all add: finish_area_def area_at_def)
    then show ?thesis using False ds q(9) m dev_step_frame [OF ds(1)] dev_step_inv [OF ds(1)] inv by auto
  next
    case True
    let ?w2 = "w1\<lparr>sb := (sb w1)\<lparr>sb_segment_entry := entry_set w1 (a_segno ?a) (ec_level 1 level)
        (cpu_to_be32 (a_used_bytes ?a - of_nat LOGFS_SEGMENT_HEADERSIZE))\<rparr>\<rparr>"
    have w2: "seg_frame w ?w2" "seg_inv ?w2"
      using seg_frame_trans [OF dev_step_frame [OF ds(1)] entry_frame] dev_step_inv [OF ds(1)] inv
      by (simp_all add: entry_inv entry_set_def)
    show ?thesis
    proof (cases final)
      case True
      then have "err = 0" "w' = ?w2" using run m i len d \<open>e = 0\<close>
        by (auto simp: finish_area_def area_at_def and_then_Ok set_entry_spec)
      then show ?thesis using True w2 m q(9) by simp
    next
      case False
      then have r: "err = 0" "init_area_segment L i level ?w2 = Ok w'" using run m i len d \<open>e = 0\<close>
        by (auto simp: finish_area_def area_at_def and_then_Ok set_entry_spec)
      from init_area_segment_spec [OF seg_inv_weaken [OF w2(2)] i r(2)] obtain segno where s:
        "seg_frame ?w2 w'" "seg_inv w'" "sb_area (sb w') = (sb_area (sb ?w2))[i := fresh_area L level (sb ?w2) segno]"
        by blast
      have "sb_area (sb w') = (sb_area (sb w))[i := fresh_area L level (sb w) segno]"
        using s(3) q by (simp add: fresh_area_def)
      moreover have "a_buf (sb_area (sb w') ! i) \<noteq> None" using calculation i len by (simp add: fresh_area_def)
      ultimately show ?thesis using r(1) False s(2) seg_frame_trans [OF w2(1) s(1)] by auto
    qed
  qed
qed

end
