(* ===== verification/Segment_Write.thy ===== *)
theory Segment_Write
  imports Main Segment
begin

text \<open>
  What the segment layer guarantees: handing out segments, writing objects, flushing the areas.
\<close>

section \<open>Offsets of segments\<close>

definition seg_ofs :: "super_block \<Rightarrow> u32 \<Rightarrow> nat" where
  "seg_ofs s segno = unat segno * unat (sb_segsize s)"

lemma u32_bound: "unat (x :: u32) \<le> 2 ^ 32 - 1"
proof -
  have "unat x < 2 ^ LENGTH(32)" by (rule unsigned_less)
  then show ?thesis by simp
qed

lemma seg_ofs_u64:
  "unat (ucast segno * ucast (sb_segsize s) :: u64) = seg_ofs s segno"
  "seg_ofs s segno + unat (sb_segsize s) < 2 ^ 64"
proof -
  have "unat segno * unat (sb_segsize s) \<le> (2 ^ 32 - 1) * (2 ^ 32 - 1)" by (intro mult_le_mono u32_bound)
  then have b: "unat segno * unat (sb_segsize s) \<le> 18446744065119617025" by simp
  then show "seg_ofs s segno + unat (sb_segsize s) < 2 ^ 64"
    using u32_bound [of "sb_segsize s"] by (simp add: seg_ofs_def)
  have u: "unat (ucast x :: u64) = unat x" for x :: u32 by (simp add: unsigned_ucast_eq take_bit_nat_eq_self_iff)
      (rule order_le_less_trans [OF u32_bound], simp)
  show "unat (ucast segno * ucast (sb_segsize s) :: u64) = seg_ofs s segno"
    using b by (simp add: u seg_ofs_def unat_word_ariths)
qed

section \<open>The device comes back\<close>

lemma erase_returns:
  fixes segno :: u32
  assumes "posix_pwrite L disk budget" "erase_ok (sb w)"
  shows "dev_erase L (ucast segno * ucast (sb_segsize (sb w))) (unat (sb_segsize (sb w))) w \<noteq> Stuck"
proof (cases "sb_dev_ops (sb w)")
  case Mtd_ops
  then show ?thesis by (simp add: dev_erase_def mtd_erase_def split: prod.split)
next
  case Bdev_ops
  have "bdev_write L (ucast segno * ucast (sb_segsize (sb w))) (unat (sb_segsize (sb w))) buf w1 \<noteq> Stuck"
    if "length buf = unat (sb_segsize (sb w))" for buf w1
    using dev_write_posix [OF assms(1), of "unat (sb_segsize (sb w))" buf "ucast segno * ucast (sb_segsize (sb w))" w1]
      that seg_ofs_u64 [where segno = segno and s = "sb w"] by (auto simp: dev_write_eq)
  then show ?thesis using assms(2) Bdev_ops
    by (auto simp: dev_erase_def bdev_erase_def erase_ok_def malloc_buf_def fail_def Let_def split: option.split)
qed

lemma get_segment_cases:
  assumes "segs_ok w"
  obtains (got) segno w' where "get_segment L w = Ok (segno, w')" "handed_out w segno w'"
  | (out) m where "get_segment L w = Exit m" "m = ''no more free segments'' \<or> m = ''out of memory''"
  | (hangs) segno w' where "get_segment L w = Stuck" "erase_ok (sb w) \<longrightarrow> erase_ok (sb w')"
      "sb_segsize (sb w') = sb_segsize (sb w)"
      "dev_erase L (ucast (segno :: u32) * ucast (sb_segsize (sb w'))) (unat (sb_segsize (sb w'))) w' = Stuck"
proof -
  obtain r where r: "get_segment_loop L w = Some r" "case r of
       Ok (segno, w') \<Rightarrow> handed_out w segno w'
     | Exit m \<Rightarrow> m = ''no more free segments'' \<or> m = ''out of memory''
     | Stuck \<Rightarrow> (\<exists>segno w'. (erase_ok (sb w) \<longrightarrow> erase_ok (sb w')) \<and> sb_segsize (sb w') = sb_segsize (sb w) \<and>
          dev_erase L (ucast (segno :: u32) * ucast (sb_segsize (sb w))) (unat (sb_segsize (sb w))) w' = Stuck)"
    using get_segment_loop_spec [OF assms] by blast
  have g: "get_segment L w = r" using r(1) by (simp add: get_segment_def)
  show thesis
  proof (cases r)
    case (Ok x)
    then show thesis using got r(2) g by (cases x) simp
  next
    case (Exit m)
    then show thesis using out r(2) g by simp
  next
    case Stuck
    then show thesis using hangs r(2) g by auto
  qed
qed

text \<open>
  What a computation gives: a result with a property, or the end of the program with one of the
  messages of \<open>get_segment\<close>; it does not come back only where \<open>B\<close> holds.
\<close>

definition gives :: "bool \<Rightarrow> 'a result \<Rightarrow> ('a \<Rightarrow> bool) \<Rightarrow> bool" where
  "gives B r Q \<longleftrightarrow> (case r of Ok x \<Rightarrow> Q x | Exit m \<Rightarrow> m = ''no more free segments'' \<or> m = ''out of memory'' | Stuck \<Rightarrow> B)"

lemma gives_simps [simp]: "gives B (Ok x) Q = Q x" "gives B Stuck Q = B"
  by (simp_all add: gives_def)

lemma gives_and_then:
  "gives B m P \<Longrightarrow> (\<And>x. m = Ok x \<Longrightarrow> P x \<Longrightarrow> gives B (f x) Q) \<Longrightarrow> gives B (and_then m f) Q"
  by (cases m) (simp_all add: gives_def)

lemma gives_mono: "gives B r P \<Longrightarrow> (B \<Longrightarrow> B') \<Longrightarrow> (\<And>x. r = Ok x \<Longrightarrow> P x \<Longrightarrow> Q x) \<Longrightarrow> gives B' r Q"
  by (cases r) (simp_all add: gives_def)

text \<open>\<open>malloc\<close> returns NULL.\<close>

definition malloc_null :: "'w world \<Rightarrow> bool" where
  "malloc_null w \<longleftrightarrow> strategy (hp w) (ticks (hp w)) (mem (hp w)) = None"

lemma get_segment_gives:
  assumes "segs_ok w" "posix_pwrite L disk budget" "erase_ok (sb w)"
  shows "gives False (get_segment L w) (\<lambda>(segno, w'). handed_out w segno w')"
proof (cases rule: get_segment_cases [OF assms(1), of L, case_names got out hangs])
  case (hangs segno w')
  then show ?thesis using erase_returns [OF assms(2), of w' segno] assms(3) by simp
qed (auto simp: gives_def)

section \<open>Growing an inode\<close>

definition grown :: "nat \<Rightarrow> disk_inode \<Rightarrow> disk_inode" where
  "grown n d = d\<lparr>di_used_bytes := cpu_to_be64 (of_nat n + be64_to_cpu (di_used_bytes d))\<rparr>"

definition old_di :: "'w world \<Rightarrow> u64 \<Rightarrow> disk_inode" where
  "old_di w ino = (case di_of w ino of None \<Rightarrow> zero_inode | Some d \<Rightarrow> d)"

lemma di_of_None: "ino_ptr w ino = None \<Longrightarrow> di_of w ino = None"
  by (simp add: di_of_def inode_of_def)

lemma same_blocks_trans: "same_blocks w w1 \<Longrightarrow> same_blocks w1 w2 \<Longrightarrow> same_blocks w w2"
  by (simp add: same_blocks_def)

lemma found_inode_frame:
  assumes "found_inode F w ino p w'"
  shows "\<exists>tree. sb w' = (sb w)\<lparr>sb_ino_tree := tree\<rparr>" "fs_with F w'" "os w' = os w" "same_blocks w w'"
    "i \<noteq> ino \<Longrightarrow> di_of w' i = di_of w i" "p \<noteq> 0 \<Longrightarrow> ino_ptr w' ino = Some p"
    "p \<noteq> 0 \<Longrightarrow> ino_ptr w ino \<noteq> None \<or> di_of w' ino = Some zero_inode" "ino_ptr w ino \<noteq> None \<Longrightarrow> w' = w"
    "strategy (hp w') = strategy (hp w)"
  using assms by (auto simp: found_inode_def split: option.splits if_splits)

lemma found_inode_ptr: "found_inode F w ino p w' \<Longrightarrow> ino_ptr w j = Some q \<Longrightarrow> ino_ptr w' j = Some q"
  by (cases "j = ino") (auto simp: found_inode_def)

definition inode_grew :: "(ulong \<Rightarrow> fsobj obj option) \<Rightarrow> 'w world \<Rightarrow> u64 \<Rightarrow> nat \<Rightarrow> int \<Rightarrow> 'w world \<Rightarrow> bool" where
  "inode_grew F w ino n err w' \<longleftrightarrow> fs_with F w' \<and> os w' = os w \<and> same_blocks w w'
   \<and> strategy (hp w') = strategy (hp w) \<and> (\<forall>i p. ino_ptr w i = Some p \<longrightarrow> ino_ptr w' i = Some p)
   \<and> (\<forall>i. i \<noteq> ino \<longrightarrow> di_of w' i = di_of w i)
   \<and> (if err = 0 then di_of w' ino = Some (grown n (old_di w ino))
        \<and> (\<exists>tree. sb w' = (sb w)\<lparr>sb_ino_tree := tree, sb_used_bytes := sb_used_bytes (sb w) + of_nat n\<rparr>)
      else err = - ENOMEM \<and> (\<exists>tree. sb w' = (sb w)\<lparr>sb_ino_tree := tree\<rparr>))"

lemma seg_grow_inode_spec:
  assumes inv: "fs_with F w"
  shows "seg_grow_inode ino n w = Stuck \<and> strategy (hp w) (ticks (hp w)) (mem (hp w)) = None
     \<or> (\<exists>err w'. seg_grow_inode ino n w = Ok (err, w') \<and> inode_grew F w ino n err w')"
proof -
  consider "find_or_create_inode ino w = Stuck" "strategy (hp w) (ticks (hp w)) (mem (hp w)) = None"
    | p w1 where "find_or_create_inode ino w = Ok (p, w1)" "found_inode F w ino p w1"
    using find_or_create_inode_result [OF inv, of ino] by (elim disjE exE conjE) blast+
  then show ?thesis
  proof cases
    case 1
    then show ?thesis by (simp add: seg_grow_inode_def)
  next
    case (2 p w1)
    note f = found_inode_frame [OF 2(2)]
    obtain tree where tree: "sb w1 = (sb w)\<lparr>sb_ino_tree := tree\<rparr>" using f(1) by blast
    show ?thesis
    proof (cases "p = 0")
      case True
      have "di_of w1 ino = di_of w ino" if "ino_ptr w ino \<noteq> None" using f(8) [OF that] by simp
      have "inode_grew F w ino n (- ENOMEM) w1" using f(2-5,9) found_inode_ptr [OF 2(2)] tree by (auto simp: inode_grew_def ENOMEM_def)
      then show ?thesis using 2(1) True by (auto simp: seg_grow_inode_def)
    next
      case False
      let ?f = "\<lambda>i. i\<lparr>i_di := grown n (i_di i)\<rparr>"
      obtain w2 i where u: "upd_inode p ?f w1 = Ok w2" "fs_with F w2" "sb w2 = sb w1" "os w2 = os w1"
        "inode_of w1 ino = Some i" "di_of w2 = (di_of w1)(ino \<mapsto> i_di (?f i))" "same_blocks w1 w2" "strategy (hp w2) = strategy (hp w1)" "ino_ptr w2 = ino_ptr w1"
        using upd_inode_spec [OF f(2) f(6) [OF False], of ?f] by (auto simp: grown_def di_ok_def)
      let ?w = "w2\<lparr>sb := (sb w2)\<lparr>sb_used_bytes := sb_used_bytes (sb w2) + of_nat n\<rparr>\<rparr>"
      have run: "seg_grow_inode ino n w = Ok (0, ?w)"
        using 2(1) False u(1) by (simp add: seg_grow_inode_def grown_def)
      have fs: "fs_with F ?w" "same_files w2 ?w" using same_filesI [OF u(2), of ?w] by simp_all
      have "old_di w ino = i_di i"
      proof (cases "ino_ptr w ino")
        case None
        then show ?thesis using f(7) [OF False] u(5) di_of_None [OF None] by (simp add: old_di_def di_of_def)
      next
        case (Some q)
        then show ?thesis using f(8) u(5) by (simp add: old_di_def di_of_def)
      qed
      then have "di_of ?w ino = Some (grown n (old_di w ino))" using fs(2) u(6) by (simp add: same_files_def)
      moreover have "di_of ?w j = di_of w j" if "j \<noteq> ino" for j
        using fs(2) u(6) f(5) [OF that] that by (simp add: same_files_def)
      moreover have "same_blocks w ?w"
        using same_blocks_trans [OF f(4) same_blocks_trans [OF u(7)]] fs(2) by (simp add: same_files_def)
      moreover have "sb ?w = (sb w)\<lparr>sb_ino_tree := tree, sb_used_bytes := sb_used_bytes (sb w) + of_nat n\<rparr>"
        using u(3) tree by simp
      moreover have "os ?w = os w" "strategy (hp ?w) = strategy (hp w)" using u(4,8) f(3,9) by simp_all
      moreover have "ino_ptr ?w j = Some q" if "ino_ptr w j = Some q" for j q
        using fs(2) u(9) found_inode_ptr [OF 2(2) that] by (simp add: same_files_def)
      ultimately have "inode_grew F w ino n 0 ?w" unfolding inode_grew_def if_P [OF refl] using fs(1) by blast
      then show ?thesis using run by blast
    qed
  qed
qed

section \<open>Making room\<close>

text \<open>\<open>malloc\<close> has an answer while the objects of the heap are the present ones.\<close>

definition never_out :: "'w world \<Rightarrow> bool" where
  "never_out w \<longleftrightarrow> (\<forall>t. strategy (hp w) t (mem (hp w)) \<noteq> None)"

lemma frame_never_out: "seg_frame w w' \<Longrightarrow> never_out w' = never_out w"
  by (simp add: seg_frame_def never_out_def)

definition has_room :: "nat \<Rightarrow> 'w world \<Rightarrow> bool" where
  "has_room i w \<longleftrightarrow> a_buf (sb_area (sb w) ! i) \<noteq> None
     \<and> unat (a_used_bytes (sb_area (sb w) ! i)) + LOGFS_OBJECT_HEADERSIZE + unat (sb_blocksize (sb w))
         \<le> unat (sb_segsize (sb w))"

text \<open>\<open>areas_but X\<close>: no area outside \<open>X\<close> changes.\<close>

definition areas_but :: "nat set \<Rightarrow> 'w world \<Rightarrow> 'w world \<Rightarrow> bool" where
  "areas_but X w w' \<longleftrightarrow> (\<forall>j. j \<notin> X \<longrightarrow> sb_area (sb w') ! j = sb_area (sb w) ! j)"

lemma areas_but_refl [simp]: "areas_but X w w"
  by (simp add: areas_but_def)

lemma areas_but_trans: "areas_but X w w1 \<Longrightarrow> areas_but X w1 w2 \<Longrightarrow> areas_but X w w2"
  by (simp add: areas_but_def)

lemma areas_but_update: "sb_area (sb w') = (sb_area (sb w))[i := a] \<Longrightarrow> areas_but {i} w w'"
  by (simp add: areas_but_def)

lemma fresh_has_room:
  assumes "seg_inv w" "seg_frame w w'" "i < LOGFS_NO_AREAS"
    "sb_area (sb w') = (sb_area (sb w))[i := fresh_area L level (sb w) segno]"
  shows "has_room i w'"
  using assms by (simp add: has_room_def seg_inv_but_def seg_frame_def fresh_area_def abi_sizes)

lemma make_room_spec:
  assumes inv: "seg_inv w" and i: "i < LOGFS_NO_AREAS" and run: "make_room L i level w = Ok (err, w')"
  shows "seg_frame w w' \<and> seg_inv w' \<and> (err = 0 \<or> err = - EIO) \<and> areas_but {i} w w' \<and> (err = 0 \<longrightarrow> has_room i w')"
proof -
  obtain w1 where w1: "init_area L i level w = Ok w1" using run by (auto simp: make_room_def and_then_Ok)
  have a: "seg_frame w w1" "seg_inv w1" "a_buf (sb_area (sb w1) ! i) \<noteq> None" "areas_but {i} w w1"
    using init_area_spec [OF inv i w1] by (auto split: if_splits intro: areas_but_update)
  have len: "length (sb_area (sb w1)) = LOGFS_NO_AREAS" using a(2) by (simp add: seg_inv_but_def)
  show ?thesis
  proof (cases "unat (a_used_bytes (sb_area (sb w1) ! i)) + LOGFS_OBJECT_HEADERSIZE + unat (sb_blocksize (sb w1))
      > unat (sb_segsize (sb w1))")
    case False
    then have "err = 0" "w' = w1" using run w1 i len by (simp_all add: make_room_def area_at_def)
    then show ?thesis using a False by (simp add: has_room_def)
  next
    case True
    then have f: "finish_area L i False level w1 = Ok (err, w')"
      using run w1 i len by (simp add: make_room_def area_at_def)
    obtain m where m: "a_buf (sb_area (sb w1) ! i) = Some m" using a(3) by blast
    have s: "seg_frame w1 w'" "seg_inv w'" "err = 0 \<or> err = - EIO"
      "if err = 0 then \<exists>segno. sb_area (sb w') = (sb_area (sb w1))[i := fresh_area L level (sb w1) segno]
       else sb_area (sb w') = sb_area (sb w1)"
      using finish_area_spec [OF a(2) i m f] by simp_all
    have "areas_but {i} w1 w'" using s(4) by (auto simp: areas_but_def split: if_splits)
    moreover have "err = 0 \<longrightarrow> has_room i w'" using s(4) by (auto intro: fresh_has_room [OF a(2) s(1) i])
    ultimately show ?thesis using s(2,3) seg_frame_trans [OF a(1) s(1)] areas_but_trans [OF a(4)] by blast
  qed
qed

text \<open>Under the laws of the system, and while memory lasts, making room always comes back.\<close>

lemma init_area_segment_gives:
  assumes inv: "seg_inv_but {i} w" and i: "i < LOGFS_NO_AREAS" and b: "a_buf (sb_area (sb w) ! i) \<noteq> None"
    and L: "posix_pwrite L disk budget" and e: "erase_ok (sb w)"
  shows "gives B (init_area_segment L i level w) (\<lambda>w'. erase_ok (sb w'))"
proof -
  have s: "segs_ok w" and sz: "LOGFS_SEGMENT_HEADERSIZE \<le> unat (sb_segsize (sb w))"
    and len: "length (sb_area (sb w)) = LOGFS_NO_AREAS" using inv by (simp_all add: seg_inv_but_def)
  have "erase_ok (sb (put_area i a w1))" if "handed_out w segno w1" for segno a w1
    using that e by (simp add: handed_out_def put_area_def)
  then have "gives B (and_then (get_segment L w) (\<lambda>(segno, w1). Ok (put_area i (fresh_area L level (sb w) segno) w1)))
      (\<lambda>w'. erase_ok (sb w'))"
    by (intro gives_and_then [OF gives_mono [OF get_segment_gives [OF s L e]]]) auto
  then show ?thesis using b i len sz by (auto simp: init_area_segment_def area_at_def fresh_area_def Let_def)
qed

lemma init_area_gives:
  assumes inv: "seg_inv w" and i: "i < LOGFS_NO_AREAS" and L: "posix_pwrite L disk budget" and e: "erase_ok (sb w)"
  shows "gives (malloc_null w) (init_area L i level w) (\<lambda>w'. erase_ok (sb w'))"
proof (cases "a_buf (sb_area (sb w) ! i)")
  case (Some m)
  then show ?thesis using i inv e by (simp add: init_area_def area_at_def seg_inv_but_def)
next
  case None
  have len: "length (sb_area (sb w)) = LOGFS_NO_AREAS" using inv by (simp add: seg_inv_but_def)
  let ?w = "put_area i ((sb_area (sb w) ! i)\<lparr>a_buf := Some (replicate (unat (sb_segsize (sb w))) 0)\<rparr>)
      (w\<lparr>hp := (hp w)\<lparr>ticks := Suc (ticks (hp w))\<rparr>\<rparr>)"
  have "area_ok (sb ?w) = area_ok (sb w)" by (simp add: area_ok_def put_area_def fun_eq_iff)
  moreover have "segs_ok ?w = segs_ok w" by (simp add: segs_ok_def put_area_def)
  moreover have "sb_area (sb ?w) ! j = sb_area (sb w) ! j" if "j \<noteq> i" for j using that by (simp add: put_area_def)
  moreover have "length (sb_area (sb ?w)) = length (sb_area (sb w))" "sb_blocksize (sb ?w) = sb_blocksize (sb w)"
    "sb_segsize (sb ?w) = sb_segsize (sb w)" by (simp_all add: put_area_def)
  ultimately have inv': "seg_inv_but {i} ?w" using inv unfolding seg_inv_but_def by (simp cong: conj_cong)
  have "a_buf (sb_area (sb ?w) ! i) \<noteq> None" using i len by (simp add: put_area_def)
  moreover have "erase_ok (sb ?w)" using e by (simp add: put_area_def)
  moreover have "init_area L i level w = (if malloc_null w then Stuck else init_area_segment L i level ?w)"
    using None i len by (simp add: init_area_def area_at_def malloc_buf_def malloc_null_def)
  ultimately show ?thesis using init_area_segment_gives [OF inv' i _ L] by simp
qed

lemma finish_area_gives:
  assumes inv: "seg_inv w" and i: "i < LOGFS_NO_AREAS" and b: "a_buf (sb_area (sb w) ! i) = Some m"
    and L: "posix_pwrite L disk budget" and e: "erase_ok (sb w)"
  shows "gives B (finish_area L i final level w) (\<lambda>(err, w'). erase_ok (sb w'))"
proof -
  let ?a = "sb_area (sb w) ! i"
  have len: "length (sb_area (sb w)) = LOGFS_NO_AREAS" and ok: "segs_ok w" and a: "area_ok (sb w) ?a"
    using inv i by (simp_all add: seg_inv_but_def)
  have m: "length m = unat (sb_segsize (sb w))" "a_segno ?a < sb_lastseg (sb w)" using a b by (simp_all add: area_ok_def)
  obtain err s where d: "dev_write L (ucast (a_segno ?a) * ucast (sb_segsize (sb w))) (unat (sb_segsize (sb w))) m w
      = Ok (err, w\<lparr>os := s\<rparr>)"
    using dev_write_posix [OF L, of "unat (sb_segsize (sb w))" m "ucast (a_segno ?a) * ucast (sb_segsize (sb w))" w]
      m seg_ofs_u64 [where segno = "a_segno ?a" and s = "sb w"] by auto
  let ?w = "w\<lparr>os := s, sb := (sb w)\<lparr>sb_segment_entry := entry_set w (a_segno ?a) (ec_level 1 level)
        (cpu_to_be32 (a_used_bytes ?a - of_nat LOGFS_SEGMENT_HEADERSIZE))\<rparr>\<rparr>"
  have "unat (a_segno ?a) < length (sb_segment_entry (sb w))"
    using ok m(2) by (simp add: segs_ok_def word_le_nat_alt word_less_nat_alt)
  then have run: "finish_area L i final level w = (if err \<noteq> 0 then Ok (err, w\<lparr>os := s\<rparr>)
      else if final then Ok (0, ?w) else and_then (init_area_segment L i level ?w) (\<lambda>w. Ok (0, w)))"
    using b i len d by (simp add: finish_area_def area_at_def set_entry_def entry_set_def)
  have "seg_inv_but {i} ?w"
    using seg_inv_weaken [OF inv, of "{i}"] entry_inv [of _ "w\<lparr>os := s\<rparr>" "{i}"] dev_step_inv [OF dev_step_os [of w s], of "{i}"]
    by (simp add: entry_set_def)
  then have "gives B (init_area_segment L i level ?w) (\<lambda>w'. erase_ok (sb w'))"
    by (rule init_area_segment_gives [OF _ i _ L]) (use b e in simp_all)
  then have "gives B (and_then (init_area_segment L i level ?w) (\<lambda>w. Ok (0 :: int, w))) (\<lambda>(err, w'). erase_ok (sb w'))"
    by (rule gives_and_then) simp
  then show ?thesis using e unfolding run by simp
qed

lemma make_room_gives:
  assumes inv: "seg_inv w" and i: "i < LOGFS_NO_AREAS" and L: "posix_pwrite L disk budget" and e: "erase_ok (sb w)"
  shows "gives (malloc_null w) (make_room L i level w) (\<lambda>(err, w'). erase_ok (sb w'))"
  unfolding make_room_def
proof (rule gives_and_then [OF init_area_gives [OF inv i L e]])
  fix w1 assume r: "init_area L i level w = Ok w1" and e1: "erase_ok (sb w1)"
  have a: "seg_inv w1" "a_buf (sb_area (sb w1) ! i) \<noteq> None" using init_area_spec [OF inv i r] by simp_all
  obtain m where m: "a_buf (sb_area (sb w1) ! i) = Some m" using a(2) by blast
  have "length (sb_area (sb w1)) = LOGFS_NO_AREAS" using a(1) by (simp add: seg_inv_but_def)
  then show "gives (malloc_null w) (and_then (area_at i w1) (\<lambda>a.
      if unat (sb_segsize (sb w1)) < unat (a_used_bytes a) + LOGFS_OBJECT_HEADERSIZE + unat (sb_blocksize (sb w1))
      then finish_area L i False level w1 else Ok (0, w1))) (\<lambda>(err, w'). erase_ok (sb w'))"
    using i e1 finish_area_gives [OF a(1) i m L e1] by (simp add: area_at_def)
qed

section \<open>Appending an object\<close>

lemma copybuf_fits:
  assumes "a_buf a = Some m" "unat (a_used_bytes a) + length bs \<le> length m" "length m < 2 ^ 32"
  shows "\<exists>a'. copybuf a bs = Ok a' \<and> a_segno a' = a_segno a \<and> unat (a_used_bytes a') = unat (a_used_bytes a) + length bs
     \<and> a_buf a' = Some (take (unat (a_used_bytes a)) m @ bs @ drop (unat (a_used_bytes a) + length bs) m)"
proof -
  have "unat (of_nat (length bs) :: u32) = length bs" using assms(2,3) by (intro of_nat_inverse) auto
  then have "unat (a_used_bytes a + of_nat (length bs)) = unat (a_used_bytes a) + length bs"
    using assms(2,3) by (simp add: unat_word_ariths)
  then show ?thesis using assms(1,2) by (simp add: copybuf_def Let_def)
qed

text \<open>Where the object lies in the buffer of its area.\<close>

definition holds_at :: "area \<Rightarrow> nat \<Rightarrow> u8 list \<Rightarrow> bool" where
  "holds_at a u bs \<longleftrightarrow> (\<exists>m. a_buf a = Some m \<and> u + length bs \<le> length m \<and> take (length bs) (drop u m) = bs)"

lemma append_object_spec:
  assumes inv: "seg_inv w" and i: "i < LOGFS_NO_AREAS" and room: "has_room i w"
    and l: "length oh = LOGFS_OBJECT_HEADERSIZE" "length data \<le> unat (sb_blocksize (sb w))"
  defines "a \<equiv> sb_area (sb w) ! i" and "n \<equiv> LOGFS_OBJECT_HEADERSIZE + length data"
  shows "\<exists>a'. append_object i oh data w = Ok (a_segno a * sb_segsize (sb w) + a_used_bytes a, put_area i a' w)
     \<and> seg_inv (put_area i a' w) \<and> a_segno a' = a_segno a \<and> unat (a_used_bytes a') = unat (a_used_bytes a) + n
     \<and> holds_at a' (unat (a_used_bytes a)) (oh @ data)
     \<and> (\<forall>bs v. holds_at a v bs \<and> v + length bs \<le> unat (a_used_bytes a) \<longrightarrow> holds_at a' v bs)"
proof -
  obtain m where m: "a_buf a = Some m" using room by (auto simp: has_room_def a_def)
  have ok: "area_ok (sb w) a" and len: "length (sb_area (sb w)) = LOGFS_NO_AREAS"
    using inv i by (simp_all add: seg_inv_but_def a_def)
  let ?u = "unat (a_used_bytes a)"
  have lm: "length m = unat (sb_segsize (sb w))" using ok m by (simp add: area_ok_def)
  have fit: "?u + n \<le> length m" using room l lm by (simp add: has_room_def n_def a_def)
  have sz: "length m < 2 ^ 32" using u32_bound [of "sb_segsize (sb w)"] lm by simp
  obtain a1 where a1: "copybuf a oh = Ok a1" "a_segno a1 = a_segno a" "unat (a_used_bytes a1) = ?u + length oh"
    "a_buf a1 = Some (take ?u m @ oh @ drop (?u + length oh) m)"
    using copybuf_fits [OF m, of oh] fit sz l by (auto simp: n_def)
  have "length (take ?u m @ oh @ drop (?u + length oh) m) = length m" using fit l by (simp add: n_def)
  then obtain a2 where a2: "copybuf a1 data = Ok a2" "a_segno a2 = a_segno a" "unat (a_used_bytes a2) = ?u + n"
    "a_buf a2 = Some (take (?u + length oh) (take ?u m @ oh @ drop (?u + length oh) m) @ data
        @ drop (?u + n) (take ?u m @ oh @ drop (?u + length oh) m))"
    using copybuf_fits [OF a1(4), of data] a1(2,3) fit sz l by (auto simp: n_def add.assoc)
  have buf: "a_buf a2 = Some (take ?u m @ (oh @ data) @ drop (?u + n) m)"
    using a2(4) fit l by (simp add: n_def drop_drop add.commute add.left_commute min_absorb2)
  have lens: "length (take ?u m @ (oh @ data) @ drop (?u + n) m) = length m" using fit l by (simp add: n_def)
  have "area_ok (sb w) a2" using ok m a2(2,3) buf lens fit lm by (simp add: area_ok_def)
  moreover have "a_segno (sb_area (sb w) ! j) \<noteq> a_segno a2"
    if "j < LOGFS_NO_AREAS" "j \<noteq> i" "a_buf (sb_area (sb w) ! j) \<noteq> None" for j
    using inv that i m a2(2) by (simp add: seg_inv_but_def a_def)
  ultimately have inv': "seg_inv (put_area i a2 w)" by (intro seg_inv_put [OF seg_inv_weaken [OF inv] i])
  have run: "append_object i oh data w = Ok (a_segno a * sb_segsize (sb w) + a_used_bytes a, put_area i a2 w)"
    using i len a1(1) a2(1) by (simp add: append_object_def area_at_def a_def Let_def)
  have here: "holds_at a2 ?u (oh @ data)" using buf lens fit l by (simp add: holds_at_def n_def)
  have "holds_at a2 v bs" if "holds_at a v bs" "v + length bs \<le> ?u" for bs v
  proof -
    have "take (length bs) (drop v m) = bs" using that(1) m by (simp add: holds_at_def)
    moreover have "take (length bs) (drop v (take ?u m @ xs)) = take (length bs) (drop v m)" for xs
      using that(2) fit by (simp add: take_drop min_def)
    ultimately show ?thesis using buf lens that fit m by (auto simp: holds_at_def)
  qed
  then show ?thesis using run inv' a2(2,3) here by blast
qed

section \<open>Writing an object\<close>

text \<open>The geometry, the device and the allocator.\<close>

definition same_geo :: "'w world \<Rightarrow> 'w world \<Rightarrow> bool" where
  "same_geo w w' \<longleftrightarrow> sb_blocksize (sb w') = sb_blocksize (sb w) \<and> sb_blocksize_bits (sb w') = sb_blocksize_bits (sb w)
     \<and> sb_segsize (sb w') = sb_segsize (sb w) \<and> sb_no_segs (sb w') = sb_no_segs (sb w)
     \<and> sb_dev_ops (sb w') = sb_dev_ops (sb w) \<and> strategy (hp w') = strategy (hp w)"

lemma same_geo_refl [simp]: "same_geo w w"
  by (simp add: same_geo_def)

lemma same_geo_trans: "same_geo w w1 \<Longrightarrow> same_geo w1 w2 \<Longrightarrow> same_geo w w2"
  by (simp add: same_geo_def)

lemma frame_geo: "seg_frame w w' \<Longrightarrow> same_geo w w'"
  by (simp add: seg_frame_def same_geo_def)

lemma geo_seg_ofs: "same_geo w w' \<Longrightarrow> seg_ofs (sb w') = seg_ofs (sb w)"
  by (simp add: same_geo_def seg_ofs_def fun_eq_iff)

lemma inode_grew_frame:
  assumes "inode_grew F w ino n err w'"
  shows "seg_inv_but X w' = seg_inv_but X w" "sb_area (sb w') = sb_area (sb w)" "same_geo w w'"
    "erase_ok (sb w') = erase_ok (sb w)" "sb_segment_entry (sb w') = sb_segment_entry (sb w)"
  using assms by (auto simp: inode_grew_def seg_inv_but_def area_ok_def segs_ok_def same_geo_def split: if_splits)

definition area_no :: "u64 \<Rightarrow> nat \<Rightarrow> nat" where
  "area_no ino level = (if ino = LOGFS_INO_MASTER then level + LOGFS_MAX_LEVELS else level)"

lemma area_no_bound: "level < LOGFS_MAX_LEVELS \<Longrightarrow> area_no ino level < LOGFS_NO_AREAS"
  by (simp add: area_no_def abi_levels)

text \<open>
  The bytes \<open>bs\<close> lie at the end of the area, and the program has their offset; they are accounted to
  the inode.
\<close>

definition object_placed :: "u8 list \<Rightarrow> u64 \<Rightarrow> nat \<Rightarrow> 'w world \<Rightarrow> int \<Rightarrow> 'w world \<Rightarrow> bool" where
  "object_placed bs ino level w ofs w' \<longleftrightarrow>
     (let a = sb_area (sb w') ! area_no ino level; u = unat (a_used_bytes a) - length bs in
       holds_at a u bs \<and> unat (a_used_bytes a) = u + length bs
       \<and> ofs = int ((seg_ofs (sb w) (a_segno a) + u) mod 2 ^ 32)
       \<and> sb_used_bytes (sb w') = sb_used_bytes (sb w) + of_nat (length bs))"

definition object_written :: "u8 list \<Rightarrow> u64 \<Rightarrow> nat \<Rightarrow> 'w world \<Rightarrow> int \<Rightarrow> 'w world \<Rightarrow> bool" where
  "object_written bs ino level w ofs w' \<longleftrightarrow> object_placed bs ino level w ofs w'
     \<and> di_of w' ino = Some (grown (length bs) (old_di w ino))"

definition write_frame :: "(ulong \<Rightarrow> fsobj obj option) \<Rightarrow> u64 \<Rightarrow> nat \<Rightarrow> 'w world \<Rightarrow> 'w world \<Rightarrow> bool" where
  "write_frame F ino level w w' \<longleftrightarrow> fs_with F w' \<and> seg_inv w' \<and> same_geo w w' \<and> same_blocks w w'
     \<and> (\<forall>i p. ino_ptr w i = Some p \<longrightarrow> ino_ptr w' i = Some p)
     \<and> (\<forall>i. i \<noteq> ino \<longrightarrow> di_of w' i = di_of w i) \<and> areas_but {area_no ino level} w w'"

definition object_bytes :: "'w lib \<Rightarrow> u8 list \<Rightarrow> nat \<Rightarrow> u8 \<Rightarrow> u64 \<Rightarrow> u64 \<Rightarrow> u8 list" where
  "object_bytes L buf n type ino bix = oh_bytes (make_object_header L buf (of_nat n) type ino bix) @ take n buf"

lemma old_di_same: "same_files w w' \<Longrightarrow> old_di w' ino = old_di w ino"
  by (simp add: old_di_def same_files_def)

lemma obj_len_bound: "seg_inv w \<Longrightarrow> obj_len (sb w) type = Ok n \<Longrightarrow> n \<le> unat (sb_blocksize (sb w)) \<and> n < 2 ^ 16"
  by (auto simp: obj_len_def seg_inv_but_def split: if_splits)

lemma segment_write_spec:
  assumes fs: "fs_with F w" and inv: "seg_inv w" and n: "obj_len (sb w) type = Ok n" "n \<le> length buf"
    and l: "level < LOGFS_MAX_LEVELS" and run: "logfs_segment_write L buf type ino bix level w = Ok (ofs, w')"
  shows "write_frame F ino level w w' \<and> (if ofs < 0 then ofs = - EIO \<or> ofs = - ENOMEM
     else object_written (object_bytes L buf n type ino bix) ino level w ofs w')"
proof -
  let ?i = "area_no ino level"
  let ?oh = "oh_bytes (make_object_header L buf (of_nat n) type ino bix)"
  note i = area_no_bound [OF l, of ino]
  note nb = obj_len_bound [OF inv n(1)]
  have len: "unat (of_nat n :: u16) = n" by (rule of_nat_inverse) (use nb in simp_all)
  obtain err w1 where r: "make_room L ?i (of_nat ?i) w = Ok (err, w1)"
    using run n i len by (auto simp: logfs_segment_write_def area_no_def and_then_Ok Let_def not_le)
  note m = make_room_spec [OF inv i r]
  have f1: "fs_with F w1" "same_files w w1" using frame_files [OF fs] m by blast+
  have m1: "seg_frame w w1" "seg_inv w1" "areas_but {?i} w w1" "same_geo w w1" using m frame_geo by auto
  show ?thesis
  proof (cases "err = 0")
    case False
    then have "ofs = err" "w' = w1"
      using run n i len r by (auto simp: logfs_segment_write_def area_no_def and_then_Ok Let_def not_le)
    moreover have "err < 0" using m False by (auto simp: EIO_def)
    ultimately show ?thesis using f1 m1 m False by (auto simp: write_frame_def same_files_def)
  next
    case True
    let ?a = "sb_area (sb w1) ! ?i"
    have loh: "length ?oh = LOGFS_OBJECT_HEADERSIZE" by (simp add: abi_sizes)
    have bs: "sb_blocksize (sb w1) = sb_blocksize (sb w)" using m1(1) by (simp add: seg_frame_def)
    have lt: "length (take n buf) = n" using n(2) by simp
    obtain a' where a': "append_object ?i ?oh (take n buf) w1 = Ok (a_segno ?a * sb_segsize (sb w1) + a_used_bytes ?a, put_area ?i a' w1)"
      "seg_inv (put_area ?i a' w1)" "a_segno a' = a_segno ?a"
      "unat (a_used_bytes a') = unat (a_used_bytes ?a) + (LOGFS_OBJECT_HEADERSIZE + n)"
      "holds_at a' (unat (a_used_bytes ?a)) (?oh @ take n buf)"
      using append_object_spec [OF m1(2) i _ loh, of "take n buf"] m True nb bs lt by auto
    let ?w2 = "put_area ?i a' w1"
    have f2: "fs_with F ?w2" "same_files w1 ?w2" using frame_files [OF f1(1) put_area_frame] by blast+
    obtain err2 where g: "seg_grow_inode ino (LOGFS_OBJECT_HEADERSIZE + n) ?w2 = Ok (err2, w')"
      and ofs: "ofs = (if err2 \<noteq> 0 then err2 else uint (a_segno ?a * sb_segsize (sb w1) + a_used_bytes ?a))"
      using run n i len r True a'(1) by (auto simp: logfs_segment_write_def area_no_def and_then_Ok Let_def not_le split: if_splits)
    have gr: "inode_grew F ?w2 ino (LOGFS_OBJECT_HEADERSIZE + n) err2 w'"
      using seg_grow_inode_spec [OF f2(1), of ino "LOGFS_OBJECT_HEADERSIZE + n"] g by auto
    note gf = inode_grew_frame [OF gr]
    have li: "?i < length (sb_area (sb w1))" using m1(2) i by (simp add: seg_inv_but_def)
    have frame: "write_frame F ino level w w'" unfolding write_frame_def
    proof (intro conjI)
      show "fs_with F w'" using gr by (simp add: inode_grew_def)
      show "seg_inv w'" using gf(1) a'(2) by simp
      show "same_geo w w'" using same_geo_trans [OF m1(4) same_geo_trans [OF frame_geo [OF put_area_frame] gf(3)]] .
      show "same_blocks w w'" using gr f1(2) f2(2) by (auto simp: inode_grew_def same_files_def same_blocks_def)
      show "\<forall>j q. ino_ptr w j = Some q \<longrightarrow> ino_ptr w' j = Some q" using gr f1(2) f2(2) by (simp add: inode_grew_def same_files_def)
      show "\<forall>j. j \<noteq> ino \<longrightarrow> di_of w' j = di_of w j" using gr f1(2) f2(2) by (auto simp: inode_grew_def same_files_def)
      show "areas_but {?i} w w'" using m1(3) gf(2) by (simp add: areas_but_def put_area_def)
    qed
    show ?thesis
    proof (cases "err2 = 0")
      case False
      then show ?thesis using frame ofs gr by (auto simp: inode_grew_def ENOMEM_def)
    next
      case True
      have old: "old_di ?w2 ino = old_di w ino" using old_di_same [OF f1(2)] old_di_same [OF f2(2)] by simp
      have at: "sb_area (sb w') ! ?i = a'" using gf(2) li by (simp add: put_area_def)
      have lb: "length (object_bytes L buf n type ino bix) = LOGFS_OBJECT_HEADERSIZE + n"
        using loh lt by (simp add: object_bytes_def)
      have "uint (a_segno ?a * sb_segsize (sb w1) + a_used_bytes ?a)
          = int ((seg_ofs (sb w) (a_segno a') + unat (a_used_bytes ?a)) mod 2 ^ 32)"
        using a'(3) m1(1)
        by (simp add: seg_ofs_def seg_frame_def uint_nat unat_word_ariths mod_simps)
      moreover have "sb_used_bytes (sb w') = sb_used_bytes (sb w) + of_nat (LOGFS_OBJECT_HEADERSIZE + n)"
      proof -
        obtain tree where "sb w' = (sb ?w2)\<lparr>sb_ino_tree := tree,
            sb_used_bytes := sb_used_bytes (sb ?w2) + of_nat (LOGFS_OBJECT_HEADERSIZE + n)\<rparr>"
          using gr True unfolding inode_grew_def by (simp only: if_P [OF refl]) blast
        then have "sb_used_bytes (sb w') = sb_used_bytes (sb ?w2) + of_nat (LOGFS_OBJECT_HEADERSIZE + n)" by simp
        then show ?thesis using m1(1) by (simp add: put_area_def seg_frame_def)
      qed
      moreover have "di_of w' ino = Some (grown (LOGFS_OBJECT_HEADERSIZE + n) (old_di w ino))"
        using gr True old by (simp add: inode_grew_def)
      moreover have "ofs = uint (a_segno ?a * sb_segsize (sb w1) + a_used_bytes ?a)" using ofs True by simp
      ultimately have "object_written (object_bytes L buf n type ino bix) ino level w ofs w' \<and> 0 \<le> ofs"
        using a'(4,5) unfolding object_written_def object_placed_def at lb Let_def by (simp add: object_bytes_def)
      then show ?thesis using frame by simp
    qed
  qed
qed

section \<open>Flushing\<close>

definition in_seg :: "super_block \<Rightarrow> u32 \<Rightarrow> nat \<Rightarrow> bool" where
  "in_seg s segno x \<longleftrightarrow> seg_ofs s segno \<le> x \<and> x < seg_ofs s segno + unat (sb_segsize s)"

lemma seg_ofs_step: "unat a < unat b \<Longrightarrow> seg_ofs s a + unat (sb_segsize s) \<le> seg_ofs s b"
proof -
  assume "unat a < unat b"
  then have "(unat a + 1) * unat (sb_segsize s) \<le> unat b * unat (sb_segsize s)" by (intro mult_le_mono1) simp
  then show ?thesis by (simp add: seg_ofs_def)
qed

lemma in_seg_unique: "in_seg s a x \<Longrightarrow> in_seg s b x \<Longrightarrow> a = b"
  using seg_ofs_step [of a b s] seg_ofs_step [of b a s] word_unat_eq_iff [of a b]
  by (cases "unat a" "unat b" rule: linorder_cases) (auto simp: in_seg_def)

definition on_disk :: "(nat \<Rightarrow> u8) \<Rightarrow> nat \<Rightarrow> u8 list \<Rightarrow> bool" where
  "on_disk d ofs bs \<longleftrightarrow> (\<forall>k < length bs. d (ofs + k) = bs ! k)"

text \<open>The segment of area \<open>i\<close> is on the device and accounted for.\<close>

definition closed :: "('w \<Rightarrow> nat \<Rightarrow> u8) \<Rightarrow> 'w world \<Rightarrow> nat \<Rightarrow> 'w world \<Rightarrow> bool" where
  "closed disk w i w' \<longleftrightarrow> (let a = sb_area (sb w) ! i in \<forall>m. a_buf a = Some m \<longrightarrow>
     on_disk (disk (os w')) (seg_ofs (sb w) (a_segno a)) m
     \<and> sb_segment_entry (sb w') ! unat (a_segno a)
         = \<lparr>se_ec_level = ec_level 1 (of_nat i), se_valid = cpu_to_be32 (a_used_bytes a - of_nat LOGFS_SEGMENT_HEADERSIZE)\<rparr>)"

definition in_open :: "'w world \<Rightarrow> nat set \<Rightarrow> u32 \<Rightarrow> bool" where
  "in_open w I segno \<longleftrightarrow> (\<exists>j \<in> I. a_buf (sb_area (sb w) ! j) \<noteq> None \<and> a_segno (sb_area (sb w) ! j) = segno)"

definition flush_frame :: "('w \<Rightarrow> nat \<Rightarrow> u8) \<Rightarrow> nat set \<Rightarrow> 'w world \<Rightarrow> 'w world \<Rightarrow> bool" where
  "flush_frame disk I w w' \<longleftrightarrow> seg_inv w' \<and> seg_frame w w' \<and> sb_area (sb w') = sb_area (sb w)
     \<and> (\<forall>x. (\<forall>segno. in_open w I segno \<longrightarrow> \<not> in_seg (sb w) segno x) \<longrightarrow> disk (os w') x = disk (os w) x)
     \<and> (\<forall>segno. \<not> in_open w I segno \<longrightarrow> sb_segment_entry (sb w') ! unat segno = sb_segment_entry (sb w) ! unat segno)"

lemma finish_final:
  assumes inv: "seg_inv w" and i: "i < LOGFS_NO_AREAS" and b: "a_buf (sb_area (sb w) ! i) = Some m"
    and L: "posix_pwrite L disk budget"
  shows "\<exists>err w'. finish_area L i True (of_nat i) w = Ok (err, w') \<and> (err = 0 \<or> err = - EIO)
     \<and> flush_frame disk {i} w w' \<and> (err = 0 \<longrightarrow> closed disk w i w')"
proof -
  let ?a = "sb_area (sb w) ! i"
  have len: "length (sb_area (sb w)) = LOGFS_NO_AREAS" and ok: "segs_ok w" and a: "area_ok (sb w) ?a"
    using inv i by (simp_all add: seg_inv_but_def)
  have m: "length m = unat (sb_segsize (sb w))" "a_segno ?a < sb_lastseg (sb w)" using a b by (simp_all add: area_ok_def)
  obtain err s k where d: "dev_write L (ucast (a_segno ?a) * ucast (sb_segsize (sb w))) (unat (sb_segsize (sb w))) m w
      = Ok (err, w\<lparr>os := s\<rparr>)" "disk s = put_bytes (disk (os w)) (seg_ofs (sb w) (a_segno ?a)) (take k m)"
      "k \<le> length m" "err = 0 \<and> k = length m \<or> err = - EIO"
    using dev_write_posix [OF L, of "unat (sb_segsize (sb w))" m "ucast (a_segno ?a) * ucast (sb_segsize (sb w))" w]
      m seg_ofs_u64 [where segno = "a_segno ?a" and s = "sb w"] by auto
  let ?es = "entry_set w (a_segno ?a) (ec_level 1 (of_nat i)) (cpu_to_be32 (a_used_bytes ?a - of_nat LOGFS_SEGMENT_HEADERSIZE))"
  let ?w = "w\<lparr>os := s, sb := (sb w)\<lparr>sb_segment_entry := ?es\<rparr>\<rparr>"
  have sl: "unat (a_segno ?a) < length (sb_segment_entry (sb w))"
    using ok m(2) by (simp add: segs_ok_def word_le_nat_alt word_less_nat_alt)
  then have run: "finish_area L i True (of_nat i) w = (if err \<noteq> 0 then Ok (err, w\<lparr>os := s\<rparr>) else Ok (0, ?w))"
    using b i len d(1) by (simp add: finish_area_def area_at_def set_entry_def entry_set_def)
  have open_i: "in_open w {i} segno \<longleftrightarrow> segno = a_segno ?a" for segno using b by (auto simp: in_open_def)
  have disk: "disk s x = disk (os w) x" if "\<not> in_seg (sb w) (a_segno ?a) x" for x
    unfolding d(2) by (rule put_bytes_outside) (use that d(3) m(1) in \<open>auto simp: in_seg_def\<close>)
  have "seg_inv (w\<lparr>os := s\<rparr>)" "seg_frame w (w\<lparr>os := s\<rparr>)"
    using dev_step_inv [OF dev_step_os [of w s]] inv by (auto simp: seg_frame_def)
  moreover from this(1) have "seg_inv ?w" using entry_inv [of ?es "w\<lparr>os := s\<rparr>" "{}"] by (simp add: entry_set_def)
  moreover have "seg_frame w ?w" by (simp add: seg_frame_def)
  moreover have "?es ! unat segno = sb_segment_entry (sb w) ! unat segno" if "segno \<noteq> a_segno ?a" for segno
    using that by (simp add: entry_set_def nth_list_update word_unat_eq_iff)
  ultimately have fr: "flush_frame disk {i} w (w\<lparr>os := s\<rparr>)" "flush_frame disk {i} w ?w"
    using disk by (simp_all add: flush_frame_def open_i)
  show ?thesis
  proof (cases "err = 0")
    case True
    then have "disk s = put_bytes (disk (os w)) (seg_ofs (sb w) (a_segno ?a)) m" using d(2,4) by (auto simp: EIO_def)
    then have "closed disk w i ?w" using b sl by (simp add: closed_def on_disk_def put_bytes_def entry_set_def Let_def)
    then show ?thesis using run True fr by auto
  next
    case False
    then show ?thesis using run d(4) fr by auto
  qed
qed

lemma flush_frame_trans:
  assumes "flush_frame disk I w w1" "flush_frame disk J w1 w2"
  shows "flush_frame disk (I \<union> J) w w2"
proof -
  have "in_open w1 X = in_open w X" "in_seg (sb w1) = in_seg (sb w)" for X
    using assms(1) by (simp_all add: flush_frame_def in_open_def in_seg_def seg_ofs_def seg_frame_def fun_eq_iff)
  moreover have "in_open w (I \<union> J) segno \<longleftrightarrow> in_open w I segno \<or> in_open w J segno" for segno by (auto simp: in_open_def)
  ultimately show ?thesis using assms seg_frame_trans [of w w1 w2] by (simp add: flush_frame_def)
qed

lemma flush_loop_spec:
  assumes L: "posix_pwrite L disk budget"
  shows "seg_inv w \<Longrightarrow> i + n \<le> LOGFS_NO_AREAS \<Longrightarrow>
     \<exists>err w'. flush_loop L i n w = Ok (err, w') \<and> (err = 0 \<or> err = - EIO) \<and> flush_frame disk {i..<i + n} w w'
       \<and> (err = 0 \<longrightarrow> (\<forall>j \<in> {i..<i + n}. closed disk w j w'))"
proof (induction n arbitrary: i w)
  case 0
  then show ?case by (simp add: flush_frame_def seg_frame_def)
next
  case (Suc n)
  have i: "i < LOGFS_NO_AREAS" and len: "length (sb_area (sb w)) = LOGFS_NO_AREAS"
    using Suc.prems by (simp_all add: seg_inv_but_def)
  have un: "{i..<i + Suc n} = {i} \<union> {Suc i..<Suc i + n}" by auto
  obtain err w1 where f: "(if a_buf (sb_area (sb w) ! i) \<noteq> None then finish_area L i True (of_nat i) w else Ok (0, w)) = Ok (err, w1)"
    "err = 0 \<or> err = - EIO" "flush_frame disk {i} w w1" "err = 0 \<longrightarrow> closed disk w i w1"
  proof (cases "a_buf (sb_area (sb w) ! i)")
    case None
    then show ?thesis using that [of 0 w] Suc.prems(1) by (simp add: flush_frame_def seg_frame_def closed_def)
  next
    case (Some m)
    show ?thesis using finish_final [OF Suc.prems(1) i Some L] that Some by auto
  qed
  have inv1: "seg_inv w1" "sb_area (sb w1) = sb_area (sb w)" "seg_ofs (sb w1) = seg_ofs (sb w)" "in_seg (sb w1) = in_seg (sb w)"
    using f(3) by (simp_all add: flush_frame_def seg_frame_def seg_ofs_def in_seg_def fun_eq_iff)
  show ?case
  proof (cases "err = 0")
    case False
    then have "flush_loop L i (Suc n) w = Ok (err, w1)" using i len f(1) by (simp add: area_at_def)
    moreover have "flush_frame disk {i..<i + Suc n} w w1" unfolding un
      by (rule flush_frame_trans [OF f(3)]) (use inv1(1) in \<open>simp add: flush_frame_def seg_frame_def\<close>)
    ultimately show ?thesis using False f(2) by blast
  next
    case True
    obtain err2 w2 where r: "flush_loop L (Suc i) n w1 = Ok (err2, w2)" "err2 = 0 \<or> err2 = - EIO"
      "flush_frame disk {Suc i..<Suc i + n} w1 w2" "err2 = 0 \<longrightarrow> (\<forall>j \<in> {Suc i..<Suc i + n}. closed disk w1 j w2)"
      using Suc.IH [OF inv1(1), of "Suc i"] Suc.prems(2) by auto
    have run: "flush_loop L i (Suc n) w = Ok (err2, w2)" using i len f(1) True r(1) by (simp add: area_at_def)
    have fr: "flush_frame disk {i..<i + Suc n} w w2" unfolding un by (rule flush_frame_trans [OF f(3) r(3)])
    have ci: "closed disk w i w2" unfolding closed_def Let_def
    proof (intro allI impI conjI)
      fix m assume m: "a_buf (sb_area (sb w) ! i) = Some m"
      let ?s = "a_segno (sb_area (sb w) ! i)"
      have c: "on_disk (disk (os w1)) (seg_ofs (sb w) ?s) m" "sb_segment_entry (sb w1) ! unat ?s
         = \<lparr>se_ec_level = ec_level 1 (of_nat i),
            se_valid = cpu_to_be32 (a_used_bytes (sb_area (sb w) ! i) - of_nat LOGFS_SEGMENT_HEADERSIZE)\<rparr>"
        using f(4) True m by (simp_all add: closed_def Let_def)
      have lm: "length m = unat (sb_segsize (sb w))" using Suc.prems(1) i m by (simp add: seg_inv_but_def area_ok_def)
      have notin: "\<not> in_open w1 {Suc i..<Suc i + n} ?s"
        using Suc.prems inv1(2) m i by (fastforce simp: in_open_def seg_inv_but_def)
      then show "sb_segment_entry (sb w2) ! unat ?s = \<lparr>se_ec_level = ec_level 1 (of_nat i),
            se_valid = cpu_to_be32 (a_used_bytes (sb_area (sb w) ! i) - of_nat LOGFS_SEGMENT_HEADERSIZE)\<rparr>"
        using r(3) c(2) by (simp add: flush_frame_def)
      have "disk (os w2) (seg_ofs (sb w) ?s + k) = disk (os w1) (seg_ofs (sb w) ?s + k)" if "k < length m" for k
      proof -
        have "in_seg (sb w) ?s (seg_ofs (sb w) ?s + k)" using that lm by (simp add: in_seg_def)
        then have "\<not> in_seg (sb w1) segno (seg_ofs (sb w) ?s + k)" if "in_open w1 {Suc i..<Suc i + n} segno" for segno
          using that notin in_seg_unique inv1(4) by metis
        then show ?thesis using r(3) by (simp add: flush_frame_def)
      qed
      then show "on_disk (disk (os w2)) (seg_ofs (sb w) ?s) m" using c(1) by (simp add: on_disk_def)
    qed
    have "closed disk w j w2" if "err2 = 0" "j \<in> {Suc i..<Suc i + n}" for j
      using r(4) that inv1(2,3) by (simp add: closed_def)
    then have "err2 = 0 \<longrightarrow> (\<forall>j \<in> {i..<i + Suc n}. closed disk w j w2)" unfolding un using ci by blast
    then show ?thesis using run r(2) fr by blast
  qed
qed

lemma segment_write_gives:
  assumes fs: "fs_with F w" and inv: "seg_inv w" and n: "obj_len (sb w) type = Ok n" "n \<le> length buf"
    and l: "level < LOGFS_MAX_LEVELS" and L: "posix_pwrite L disk budget" and e: "erase_ok (sb w)"
  shows "gives (\<exists>w1. seg_frame w w1 \<and> malloc_null w1) (logfs_segment_write L buf type ino bix level w)
     (\<lambda>(ofs, w'). erase_ok (sb w'))"
proof -
  let ?i = "area_no ino level" and ?B = "\<exists>w1. seg_frame w w1 \<and> malloc_null w1"
  let ?oh = "oh_bytes (make_object_header L buf (of_nat n) type ino bix)"
  note i = area_no_bound [OF l, of ino]
  note nb = obj_len_bound [OF inv n(1)]
  have len: "unat (of_nat n :: u16) = n" by (rule of_nat_inverse) (use nb in simp_all)
  have refl: "seg_frame w w" by (simp add: seg_frame_def)
  have mr: "gives ?B (make_room L ?i (of_nat ?i) w) (\<lambda>(err, w'). erase_ok (sb w'))"
    by (rule gives_mono [OF make_room_gives [OF inv i L e]]) (use refl in auto)
  have "gives ?B (and_then (make_room L ?i (of_nat ?i) w) (\<lambda>(err, w).
           if err \<noteq> 0 then Ok (err, w)
           else and_then (append_object ?i ?oh (take n buf) w) (\<lambda>(ofs, w).
             and_then (seg_grow_inode ino (LOGFS_OBJECT_HEADERSIZE + n) w) (\<lambda>(err, w).
               if err \<noteq> 0 then Ok (err, w) else Ok (uint ofs, w))))) (\<lambda>(ofs, w'). erase_ok (sb w'))"
  proof (rule gives_and_then [OF mr], clarify)
    fix err w1 assume r: "make_room L ?i (of_nat ?i) w = Ok (err, w1)" and e1: "erase_ok (sb w1)"
    note m = make_room_spec [OF inv i r]
    have fs1: "fs_with F w1" using frame_files [OF fs] m by blast
    show "gives ?B (if err \<noteq> 0 then Ok (err, w1)
           else and_then (append_object ?i ?oh (take n buf) w1) (\<lambda>(ofs, w).
             and_then (seg_grow_inode ino (LOGFS_OBJECT_HEADERSIZE + n) w) (\<lambda>(err, w).
               if err \<noteq> 0 then Ok (err, w) else Ok (uint ofs, w)))) (\<lambda>(ofs, w'). erase_ok (sb w'))"
    proof (cases "err = 0")
      case True
      have loh: "length ?oh = LOGFS_OBJECT_HEADERSIZE" by (simp add: abi_sizes)
      have bs: "sb_blocksize (sb w1) = sb_blocksize (sb w)" using m by (simp add: seg_frame_def)
      obtain o' a' where a': "append_object ?i ?oh (take n buf) w1 = Ok (o', put_area ?i a' w1)"
        using append_object_spec [of w1 ?i ?oh "take n buf"] m True i loh n(2) nb bs by auto
      let ?w2 = "put_area ?i a' w1"
      have f2: "fs_with F ?w2" using frame_files [OF fs1 put_area_frame] by blast
      have fr: "seg_frame w ?w2" by (rule seg_frame_trans [of w w1]) (use m in simp_all)
      have e2: "erase_ok (sb ?w2)" using e1 by (simp add: put_area_def)
      consider "seg_grow_inode ino (LOGFS_OBJECT_HEADERSIZE + n) ?w2 = Stuck" "malloc_null ?w2"
        | err2 w3 where "seg_grow_inode ino (LOGFS_OBJECT_HEADERSIZE + n) ?w2 = Ok (err2, w3)"
            "inode_grew F ?w2 ino (LOGFS_OBJECT_HEADERSIZE + n) err2 w3"
        using seg_grow_inode_spec [OF f2, of ino "LOGFS_OBJECT_HEADERSIZE + n"] unfolding malloc_null_def
        by (elim disjE exE conjE) blast+
      then show ?thesis
      proof cases
        case 1
        then show ?thesis using True a' fr by auto
      next
        case (2 err2 w3)
        then show ?thesis using True a' e2 inode_grew_frame(4) [OF 2(2)] by simp
      qed
    qed (use e1 in simp)
  qed
  moreover have "logfs_segment_write L buf type ino bix level w = and_then (make_room L ?i (of_nat ?i) w) (\<lambda>(err, w).
           if err \<noteq> 0 then Ok (err, w)
           else and_then (append_object ?i ?oh (take n buf) w) (\<lambda>(ofs, w).
             and_then (seg_grow_inode ino (LOGFS_OBJECT_HEADERSIZE + n) w) (\<lambda>(err, w).
               if err \<noteq> 0 then Ok (err, w) else Ok (uint ofs, w))))"
    using n i unfolding logfs_segment_write_def n(1) and_then_simps Let_def len area_no_def [symmetric] by simp
  ultimately show ?thesis by simp
qed

section \<open>Properties\<close>


text \<open>A small geometry for concrete runs, with an allocator that takes the first free place.\<close>

definition pool :: "nat \<Rightarrow> (ulong \<Rightarrow> fsobj obj option) \<Rightarrow> ulong option" where
  "pool t m = find (\<lambda>p. m p = None) [128, 256, 384, 512, 640, 768, 896, 1024]"

lemma pool_ok: "strategy h = pool \<Longrightarrow> alloc_ok h"
  by (auto simp: alloc_ok_def pool_def split: if_splits)

definition seg_world :: "toy world" where
  "seg_world = toy_world\<lparr>hp := (hp toy_world)\<lparr>strategy := pool\<rparr>, sb := (sb toy_world)\<lparr>sb_segsize := 512, sb_blocksize := 266, sb_no_segs := 4,
     sb_segment_entry := replicate 4 \<lparr>se_ec_level = 0, se_valid = 0\<rparr>, sb_dev_ops := Mtd_ops\<rparr>\<rparr>"

lemma seg_world_ok: "segs_ok seg_world" "erase_ok (sb seg_world)" "seg_inv seg_world" "fs_inv seg_world" "never_out seg_world"
proof -
  show "segs_ok seg_world" "erase_ok (sb seg_world)" "never_out seg_world"
    by (simp_all add: segs_ok_def erase_ok_def never_out_def seg_world_def toy_world_def toy_super_def pool_def)
  then show "seg_inv seg_world"
    by (simp add: seg_inv_but_def seg_world_def toy_world_def toy_super_def area_ok_def abi_sizes abi_levels)
  have "alloc_ok (hp seg_world)" by (rule pool_ok) (simp add: seg_world_def)
  then have "fs_ok n (hp seg_world) (sb_ino_tree (sb seg_world))
      \<lparr>own = (\<lambda>_. None), ino_tower = [], blk_tower = (\<lambda>_ _. [])\<rparr>" for n
    by (simp add: fs_ok_def tree_def seg_world_def toy_world_def toy_super_def)
  then show "fs_inv seg_world" by (rule fs_invI)
qed


text \<open>
  C22: \<open>logfs_segment_write\<close> keeps the invariants of the heap and of the areas. Where it succeeds, the
  header and the data of the object lie in the buffer of the area of the level, right before its end;
  the offset it returns is their offset on the device modulo \<open>2^32\<close>, and the inode and the super block
  count the bytes. No other area, inode or block changes. An error is \<open>-EIO\<close> or \<open>-ENOMEM\<close>.
\<close>

theorem logfs_segment_write_correct:
  assumes "fs_inv w" "seg_inv w" "obj_len (sb w) type = Ok n" "n \<le> length buf" "level < LOGFS_MAX_LEVELS"
    "logfs_segment_write L buf type ino bix level w = Ok (ofs, w')"
  shows "fs_inv w' \<and> seg_inv w' \<and> same_blocks w w' \<and> (\<forall>i. i \<noteq> ino \<longrightarrow> di_of w' i = di_of w i)
     \<and> areas_but {area_no ino level} w w'
     \<and> (if ofs < 0 then ofs = - EIO \<or> ofs = - ENOMEM
        else \<exists>u. let a = sb_area (sb w') ! area_no ino level; len = LOGFS_OBJECT_HEADERSIZE + n in
            holds_at a u (oh_bytes (make_object_header L buf (of_nat n) type ino bix) @ take n buf)
          \<and> unat (a_used_bytes a) = u + len
          \<and> ofs = int ((seg_ofs (sb w) (a_segno a) + u) mod 2 ^ 32)
          \<and> di_of w' ino = Some (grown len (case di_of w ino of None \<Rightarrow> zero_inode | Some d \<Rightarrow> d))
          \<and> sb_used_bytes (sb w') = sb_used_bytes (sb w) + of_nat len)"
  using segment_write_spec [OF assms] assms(4)
  by (auto simp: write_frame_def object_written_def object_placed_def object_bytes_def old_di_def Let_def abi_sizes)

definition seg_lib :: "toy lib" where
  "seg_lib = toy_lib\<lparr>z_crc32 := (\<lambda>_ _. 0)\<rparr>"

lemma seg_lib_posix: "posix_pwrite seg_lib toy_disk toy_signals"
  using toy_posix by (simp add: posix_pwrite_def seg_lib_def)

definition seg_world1 :: "toy world" where
  "seg_world1 = snd (ok_val (logfs_segment_write seg_lib (replicate 266 7) OBJ_DENTRY 5 0 0 seg_world))"

lemma seg_run1: "logfs_segment_write seg_lib (replicate 266 7) OBJ_DENTRY 5 0 0 seg_world = Ok (24, seg_world1)"
proof -
  have "(case logfs_segment_write seg_lib (replicate 266 7) OBJ_DENTRY 5 0 0 seg_world of Ok (ofs, w) \<Rightarrow> ofs = 24 | _ \<Rightarrow> False)"
    by code_simp
  then show ?thesis by (auto simp: seg_world1_def split: result.splits prod.splits)
qed

lemma logfs_segment_write_correct_witness:
  "fs_inv seg_world1 \<and> seg_inv seg_world1 \<and> areas_but {0} seg_world seg_world1
     \<and> di_of seg_world1 5 = Some (grown 294 (case di_of seg_world 5 of None \<Rightarrow> zero_inode | Some d \<Rightarrow> d))"
  using logfs_segment_write_correct [OF seg_world_ok(4,3) _ _ _ seg_run1, of 266]
  by (auto simp: obj_len_def OBJ_DENTRY_def area_no_def LOGFS_INO_MASTER_def abi_levels abi_sizes Let_def)

text \<open>
  C23: the offset that \<open>logfs_segment_write\<close> returns is where the object lies on the device exactly if
  that is below 4 GiB: beyond, \<open>segno * segsize\<close>, a product of 32-bit numbers, is truncated.
\<close>

theorem segment_write_offset:
  assumes "fs_inv w" "seg_inv w" "obj_len (sb w) type = Ok n" "n \<le> length buf" "level < LOGFS_MAX_LEVELS"
    "logfs_segment_write L buf type ino bix level w = Ok (ofs, w')" "0 \<le> ofs"
  shows "\<exists>u. let a = sb_area (sb w') ! area_no ino level; place = seg_ofs (sb w') (a_segno a) + u in
      holds_at a u (oh_bytes (make_object_header L buf (of_nat n) type ino bix) @ take n buf)
      \<and> (ofs = int place \<longleftrightarrow> place < 2 ^ 32)"
proof -
  have s: "object_written (object_bytes L buf n type ino bix) ino level w ofs w'" "same_geo w w'"
    using segment_write_spec [OF assms(1-6)] assms(7) by (simp_all add: write_frame_def)
  have iff: "int (x mod 2 ^ 32) = int x \<longleftrightarrow> x < 2 ^ 32" for x :: nat
    by (simp only: of_nat_eq_iff mod_eq_self_iff_div_eq_0 div_eq_0_iff) simp
  show ?thesis using s(1) iff geo_seg_ofs [OF s(2)]
    by (intro exI [of _ "unat (a_used_bytes (sb_area (sb w') ! area_no ino level)) - length (object_bytes L buf n type ino bix)"])
      (simp add: object_written_def object_placed_def object_bytes_def Let_def)
qed

lemma segment_write_offset_witness:
  "\<exists>u. let a = sb_area (sb seg_world1) ! 0; place = seg_ofs (sb seg_world1) (a_segno a) + u in
      holds_at a u (oh_bytes (make_object_header seg_lib (replicate 266 7) 266 OBJ_DENTRY 5 0) @ replicate 266 7)
      \<and> (24 = int place \<longleftrightarrow> place < 2 ^ 32)"
  using segment_write_offset [OF seg_world_ok(4,3) _ _ _ seg_run1, of 266]
  by (simp add: obj_len_def OBJ_DENTRY_def area_no_def LOGFS_INO_MASTER_def abi_levels)

text \<open>
  C24: over a system that keeps to POSIX and while memory lasts, \<open>logfs_segment_write\<close> always comes back:
  it returns, or ends the program with one of the messages of \<open>get_segment\<close>.
\<close>

theorem logfs_segment_write_returns:
  assumes "fs_inv w" "seg_inv w" "obj_len (sb w) type = Ok n" "n \<le> length buf" "level < LOGFS_MAX_LEVELS"
    "posix_pwrite L disk budget" "erase_ok (sb w)" "never_out w"
  shows "(\<exists>ofs w'. logfs_segment_write L buf type ino bix level w = Ok (ofs, w'))
     \<or> logfs_segment_write L buf type ino bix level w = Exit ''no more free segments''
     \<or> logfs_segment_write L buf type ino bix level w = Exit ''out of memory''"
proof -
  have "\<not> malloc_null w1" if "seg_frame w w1" for w1
    using assms(8) frame_never_out [OF that] by (simp add: never_out_def malloc_null_def)
  then show ?thesis using segment_write_gives [OF assms(1-7), of ino bix]
    by (cases "logfs_segment_write L buf type ino bix level w") (auto simp: gives_def)
qed

lemma logfs_segment_write_returns_witness:
  "(\<exists>ofs w'. logfs_segment_write toy_lib (replicate 266 7) OBJ_DENTRY 5 0 0 seg_world = Ok (ofs, w'))
     \<or> logfs_segment_write toy_lib (replicate 266 7) OBJ_DENTRY 5 0 0 seg_world = Exit ''no more free segments''
     \<or> logfs_segment_write toy_lib (replicate 266 7) OBJ_DENTRY 5 0 0 seg_world = Exit ''out of memory''"
  by (rule logfs_segment_write_returns [OF seg_world_ok(4,3) _ _ _ toy_posix seg_world_ok(2,5), of _ 266])
    (simp_all add: obj_len_def OBJ_DENTRY_def abi_levels)

text \<open>
  C25: \<open>flush_segments\<close> always comes back over a system that keeps to POSIX. Where it returns 0, the
  buffer of every open area is on the device at the place of its segment, and the segment's entry holds
  the level and the number of bytes used; bytes of other segments and their entries stay as they were.
  It never fails otherwise than with \<open>-EIO\<close>.
\<close>

theorem flush_segments_correct:
  assumes "seg_inv w" "posix_pwrite L disk budget"
  shows "\<exists>err w'. flush_segments L w = Ok (err, w') \<and> (err = 0 \<or> err = - EIO) \<and> seg_inv w'
     \<and> mem (hp w') = mem (hp w) \<and> sb_area (sb w') = sb_area (sb w)
     \<and> (err = 0 \<longrightarrow> (\<forall>i < LOGFS_NO_AREAS. let a = sb_area (sb w) ! i in \<forall>m. a_buf a = Some m \<longrightarrow>
           on_disk (disk (os w')) (seg_ofs (sb w) (a_segno a)) m
           \<and> sb_segment_entry (sb w') ! unat (a_segno a)
               = \<lparr>se_ec_level = ec_level 1 (of_nat i),
                  se_valid = cpu_to_be32 (a_used_bytes a - of_nat LOGFS_SEGMENT_HEADERSIZE)\<rparr>))
     \<and> (\<forall>x. (\<forall>segno. in_open w {..<LOGFS_NO_AREAS} segno \<longrightarrow> \<not> in_seg (sb w) segno x) \<longrightarrow> disk (os w') x = disk (os w) x)
     \<and> (\<forall>segno. \<not> in_open w {..<LOGFS_NO_AREAS} segno \<longrightarrow>
           sb_segment_entry (sb w') ! unat segno = sb_segment_entry (sb w) ! unat segno)"
proof -
  obtain err w' where r: "flush_loop L 0 LOGFS_NO_AREAS w = Ok (err, w')" "err = 0 \<or> err = - EIO"
    "flush_frame disk {..<LOGFS_NO_AREAS} w w'" "err = 0 \<longrightarrow> (\<forall>j \<in> {..<LOGFS_NO_AREAS}. closed disk w j w')"
    using flush_loop_spec [OF assms(2,1), of 0 LOGFS_NO_AREAS] by (auto simp: atLeast0LessThan)
  show ?thesis
    by (rule exI [of _ err], rule exI [of _ w'])
      (use r in \<open>simp add: flush_segments_def flush_frame_def seg_frame_def closed_def\<close>)
qed

lemma flush_segments_correct_witness:
  "\<exists>err w'. flush_segments toy_lib seg_world1 = Ok (err, w') \<and> seg_inv w'
     \<and> (err = 0 \<longrightarrow> sb_segment_entry (sb w') ! 0 = \<lparr>se_ec_level = ec_level 1 0, se_valid = cpu_to_be32 294\<rparr>)"
proof -
  have inv: "seg_inv seg_world1"
    using segment_write_spec [OF seg_world_ok(4,3) _ _ _ seg_run1, of 266]
    by (simp add: obj_len_def OBJ_DENTRY_def abi_levels write_frame_def)
  have a: "(case logfs_segment_write seg_lib (replicate 266 7) OBJ_DENTRY 5 0 0 seg_world of Ok (ofs, w) \<Rightarrow>
      a_segno (sb_area (sb w) ! 0) = 0 \<and> a_used_bytes (sb_area (sb w) ! 0) = 318 \<and> a_buf (sb_area (sb w) ! 0) \<noteq> None | _ \<Rightarrow> False)"
    by code_simp
  obtain m where m: "a_segno (sb_area (sb seg_world1) ! 0) = 0" "a_used_bytes (sb_area (sb seg_world1) ! 0) = 318"
    "a_buf (sb_area (sb seg_world1) ! 0) = Some m" using a by (auto simp: seg_run1)
  obtain err w' where f: "flush_segments toy_lib seg_world1 = Ok (err, w')" "seg_inv w'"
    "err = 0 \<longrightarrow> (\<forall>i < LOGFS_NO_AREAS. let a = sb_area (sb seg_world1) ! i in \<forall>m. a_buf a = Some m \<longrightarrow>
       on_disk (toy_disk (os w')) (seg_ofs (sb seg_world1) (a_segno a)) m
       \<and> sb_segment_entry (sb w') ! unat (a_segno a) = \<lparr>se_ec_level = ec_level 1 (of_nat i),
            se_valid = cpu_to_be32 (a_used_bytes a - of_nat LOGFS_SEGMENT_HEADERSIZE)\<rparr>)"
    using flush_segments_correct [OF inv toy_posix] by blast
  have "err = 0 \<longrightarrow> sb_segment_entry (sb w') ! 0 = \<lparr>se_ec_level = ec_level 1 0, se_valid = cpu_to_be32 294\<rparr>"
    using f(3) m by (auto simp: abi_levels abi_sizes Let_def dest: spec [of _ 0])
  then show ?thesis using f(1,2) by blast
qed

end
