(* ===== verification/Readwrite.thy ===== *)
theory Readwrite
  imports Main Segment_Write
begin

text \<open>
  readwrite.c, second part: where a block of a file goes. The first 16 blocks are written at once and
  their offsets kept in the inode; the offset of every other block goes into an indirect block, which
  is collected in a tree of the inode and written when the file is flushed.

  A shift by more than the width, or of an \<open>int\<close> beyond its sign, is undefined in C: \<^term>\<open>Stuck\<close>.
\<close>

section \<open>Block indices\<close>

text \<open>\<open>__get_bits\<close>\<close>

definition get_bits_of :: "u64 \<Rightarrow> nat \<Rightarrow> nat \<Rightarrow> u64 result" where
  "get_bits_of val skip no =
     (if skip * no \<ge> 64 \<or> no = 0 \<or> no > 64 then Stuck
      else Ok (drop_bit (64 - no) (push_bit (64 - no) (drop_bit (skip * no) val))))"

definition get_bits :: "super_block \<Rightarrow> u64 \<Rightarrow> nat \<Rightarrow> u64 result" where
  "get_bits s bix level = get_bits_of bix level (sb_blocksize_bits s - 3)"

definition child_no :: "super_block \<Rightarrow> u64 \<Rightarrow> int" where
  "child_no s bix = sint (ucast (bix AND (of_nat (unat (sb_blocksize s) div 8) - 1)) :: u32)"

definition bixmask :: "super_block \<Rightarrow> nat \<Rightarrow> u64 result" where
  "bixmask s level =
     (if level = 0 then Ok 0
      else if (sb_blocksize_bits s - 3) * level \<ge> 31 then Stuck
      else Ok (push_bit ((sb_blocksize_bits s - 3) * level) 1 - 1))"

definition maxbix :: "u8 \<Rightarrow> u64 result" where
  "maxbix height = (if LOGFS_BLOCK_BITS * unat height \<ge> 64 then Stuck else Ok (push_bit (LOGFS_BLOCK_BITS * unat height) 1))"

lemma maxbix_small: "maxbix h = Ok m \<longleftrightarrow> unat h < 8 \<and> m = push_bit (9 * unat h) 1"
  by (auto simp: maxbix_def LOGFS_BLOCK_BITS_def)

lemma u8_succ: "unat (h :: u8) < 8 \<Longrightarrow> unat (h + 1) = unat h + 1"
  by (simp add: unat_word_ariths)

text \<open>The loop of \<open>grow_inode\<close>, on the height of the inode.\<close>

function grow_height :: "u64 \<Rightarrow> u8 \<Rightarrow> u8 result" where
  "grow_height bix h =
     (case maxbix h of Ok m \<Rightarrow> if bix > m then grow_height bix (h + 1) else Ok h | Exit s \<Rightarrow> Exit s | Stuck \<Rightarrow> Stuck)"
  by pat_completeness auto

termination
  by (relation "measure (\<lambda>(bix, h). 8 - unat h)") (auto simp: maxbix_small u8_succ)

declare grow_height.simps [simp del]

text \<open>\<open>grow_inode\<close> of readwrite.c.\<close>

definition rw_grow_inode :: "ulong \<Rightarrow> u64 \<Rightarrow> nat \<Rightarrow> 'w world \<Rightarrow> 'w world result" where
  "rw_grow_inode inode bix level w =
     (if level \<noteq> 0 then Ok w
      else and_then (lift (inode_at (hp w) inode)) (\<lambda>i.
           and_then (grow_height bix (di_height (i_di i))) (\<lambda>h.
             upd_inode inode (\<lambda>i. i\<lparr>i_di := (i_di i)\<lparr>di_height := h\<rparr>\<rparr>) w)))"

section \<open>Writing a block\<close>

definition set_data :: "ulong \<Rightarrow> nat \<Rightarrow> u64 \<Rightarrow> 'w world \<Rightarrow> 'w world result" where
  "set_data inode n v w =
     (if n \<ge> LOGFS_EMBEDDED_FIELDS then Stuck
      else upd_inode inode (\<lambda>i. i\<lparr>i_di := (i_di i)\<lparr>di_data := (di_data (i_di i))[n := v]\<rparr>\<rparr>) w)"

definition set_block_word :: "ulong \<Rightarrow> nat \<Rightarrow> u64 \<Rightarrow> 'w world \<Rightarrow> 'w world result" where
  "set_block_word block n v w =
     and_then (lift (block_at (hp w) block)) (\<lambda>ws.
       if n \<ge> length ws then Stuck else Ok (w\<lparr>hp := put_obj block (Block (ws[n := v])) (hp w)\<rparr>))"

definition write_direct :: "'w lib \<Rightarrow> ulong \<Rightarrow> u64 \<Rightarrow> u64 \<Rightarrow> u8 \<Rightarrow> u8 list \<Rightarrow> 'w world \<Rightarrow> (int \<times> 'w world) result" where
  "write_direct L inode ino bix type buf w =
     and_then (logfs_segment_write L buf type ino bix 0 w) (\<lambda>(ofs, w).
       if ofs < 0 then Ok (ofs, w)
       else and_then (set_data inode (unat bix) (cpu_to_be64 (of_int ofs)) w) (\<lambda>w. Ok (0, w)))"

definition write_loop :: "'w lib \<Rightarrow> ulong \<Rightarrow> u64 \<Rightarrow> u64 \<Rightarrow> nat \<Rightarrow> u8 \<Rightarrow> u8 list \<Rightarrow> 'w world \<Rightarrow>
    (int \<times> 'w world) result" where
  "write_loop L inode ino bix level type buf w =
     and_then (bixmask (sb w) (level + 1)) (\<lambda>mask_bits.
     and_then (find_or_create_block inode (bix OR mask_bits) (level + 1) w) (\<lambda>(iblock, w).
       if iblock = 0 then Ok (- ENOMEM, w)
       else and_then (logfs_segment_write L buf type ino bix level w) (\<lambda>(ofs, w).
         if ofs < 0 then Ok (ofs, w)
         else and_then (get_bits (sb w) bix level) (\<lambda>n.
              and_then (set_block_word iblock (unat n) (cpu_to_be64 (of_int ofs)) w) (\<lambda>w. Ok (0, w))))))"

definition logfs_file_write :: "'w lib \<Rightarrow> u64 \<Rightarrow> u64 \<Rightarrow> nat \<Rightarrow> u8 \<Rightarrow> u8 list \<Rightarrow> 'w world \<Rightarrow> (int \<times> 'w world) result" where
  "logfs_file_write L ino bix level type buf w =
     and_then (find_or_create_inode ino w) (\<lambda>(inode, w).
       if inode = 0 then Ok (- ENOMEM, w)
       else if level = 0 \<and> bix < of_nat I0_BLOCKS then write_direct L inode ino bix type buf w
       else and_then (rw_grow_inode inode bix level w) (\<lambda>w. write_loop L inode ino bix level type buf w))"

section \<open>Flushing a file\<close>

definition free_obj :: "ulong \<Rightarrow> 'w world \<Rightarrow> 'w world result" where
  "free_obj p w = (case mem (hp w) p of
       Some (Ext x) \<Rightarrow> Ok (w\<lparr>hp := (hp w)\<lparr>mem := (mem (hp w))(p := None)\<rparr>\<rparr>)
     | _ \<Rightarrow> Stuck)"

text \<open>The last block of a level is taken out of its tree: its index and its pointer, NULL if there is none.\<close>

definition take_last_block :: "ulong \<Rightarrow> nat \<Rightarrow> 'w world \<Rightarrow> (u64 \<times> ulong \<times> 'w world) result" where
  "take_last_block inode level w =
     and_then (lift (inode_at (hp w) inode)) (\<lambda>i.
       if level \<ge> LOGFS_MAX_LEVELS then Stuck
       else and_then (lift (btree_last64 (i_block_tree i ! level, hp w))) (\<lambda>bix.
            and_then (lift (btree_remove64 (i_block_tree i ! level, hp w) bix)) (\<lambda>(iblock, tree, h).
            and_then (upd_inode inode (\<lambda>i. i\<lparr>i_block_tree := (i_block_tree i)[level := tree]\<rparr>) (w\<lparr>hp := h\<rparr>)) (\<lambda>w.
              Ok (bix, iblock, w)))))"

text \<open>One round of the inner loop of \<open>logfs_file_flush\<close>: whether it goes on, and the error.\<close>

definition flush_step :: "'w lib \<Rightarrow> ulong \<Rightarrow> u64 \<Rightarrow> nat \<Rightarrow> 'w world \<Rightarrow> (bool \<times> int \<times> 'w world) result" where
  "flush_step L inode ino level w =
     and_then (take_last_block inode level w) (\<lambda>(bix, iblock, w).
       if iblock = 0 then Ok (False, 0, w)
       else and_then (lift (block_at (hp w) iblock)) (\<lambda>ws.
            and_then (logfs_file_write L ino bix level OBJ_BLOCK (array_bytes ws) w) (\<lambda>(err, w).
              if err \<noteq> 0 then Ok (False, err, w)
              else and_then (free_obj iblock w) (\<lambda>w. Ok (True, 0, w)))))"

partial_function (option) flush_level :: "'w lib \<Rightarrow> ulong \<Rightarrow> u64 \<Rightarrow> nat \<Rightarrow> 'w world \<Rightarrow> (int \<times> 'w world) result option" where
  "flush_level L inode ino level w =
     (case flush_step L inode ino level w of
        Ok r \<Rightarrow> (if fst r then flush_level L inode ino level (snd (snd r)) else Some (Ok (snd r)))
      | Exit m \<Rightarrow> Some (Exit m)
      | Stuck \<Rightarrow> Some Stuck)"

declare flush_level.simps [code]

text \<open>The outer loop; the result holds the level it ended at.\<close>

partial_function (option) flush_levels :: "'w lib \<Rightarrow> ulong \<Rightarrow> u64 \<Rightarrow> nat \<Rightarrow> 'w world \<Rightarrow>
    (int \<times> nat \<times> 'w world) result option" where
  "flush_levels L inode ino level w =
     (case inode_at (hp w) inode of
        None \<Rightarrow> Some Stuck
      | Some i \<Rightarrow>
          (if level < unat (di_height (i_di i))
           then (case flush_level L inode ino level w of
                   None \<Rightarrow> None
                 | Some r \<Rightarrow> (case r of
                       Ok x \<Rightarrow> (if fst x \<noteq> 0 then Some (Ok (fst x, level, snd x))
                                else flush_levels L inode ino (Suc level) (snd x))
                     | Exit m \<Rightarrow> Some (Exit m)
                     | Stuck \<Rightarrow> Some Stuck))
           else Some (Ok (0, level, w))))"

declare flush_levels.simps [code]

definition logfs_file_flush :: "'w lib \<Rightarrow> u64 \<Rightarrow> 'w world \<Rightarrow> (int \<times> 'w world) result" where
  "logfs_file_flush L ino w =
     and_then (find_or_create_inode ino w) (\<lambda>(inode, w).
       if inode = 0 then Stuck
       else and_then (lift (inode_at (hp w) inode)) (\<lambda>i.
         if di_height (i_di i) = 0 then Ok (0, w)
         else (case flush_levels L inode ino 1 w of
             None \<Rightarrow> Stuck
           | Some r \<Rightarrow> and_then r (\<lambda>(err, level, w).
               if err \<noteq> 0 then Ok (err, w)
               else and_then (lift (inode_at (hp w) inode)) (\<lambda>i.
                 if level \<noteq> unat (di_height (i_di i)) then Stuck
                 else and_then (take_last_block inode level w) (\<lambda>(bix, iblock, w).
                   if iblock = 0 then Stuck
                   else and_then (lift (block_at (hp w) iblock)) (\<lambda>ws.
                        and_then (logfs_segment_write L (array_bytes ws) OBJ_BLOCK ino bix level w) (\<lambda>(ofs, w).
                          if ofs < 0 then Ok (ofs, w)
                          else and_then (set_data inode INDIRECT_INDEX (cpu_to_be64 (of_int ofs)) w) (\<lambda>w. Ok (0, w))))))))))"

section \<open>Block indices in arithmetic\<close>

lemma get_bits_of_value:
  assumes "skip * no < 64" "0 < no" "no \<le> 64"
  shows "\<exists>n. get_bits_of val skip no = Ok n \<and> unat n = unat val div 2 ^ (skip * no) mod 2 ^ no"
proof -
  let ?x = "drop_bit (skip * no) val"
  have "drop_bit (64 - no) (push_bit (64 - no) ?x) = take_bit no ?x"
    by (rule bit_word_eqI) (use assms in \<open>auto simp: bit_simps\<close>)
  moreover have "unat (take_bit no ?x) = take_bit no (drop_bit (skip * no) (unat val))"
    by (rule bit_eqI) (auto simp: bit_simps bit_unsigned_iff)
  then have "unat (take_bit no ?x) = unat val div 2 ^ (skip * no) mod 2 ^ no"
    by (simp only: take_bit_eq_mod drop_bit_eq_div)
  ultimately show ?thesis using assms by (simp add: get_bits_of_def)
qed

lemma or_mask_nat: "n OR mask k = n div 2 ^ k * 2 ^ k + (2 ^ k - 1)" for n :: nat
proof -
  have "n OR mask k = push_bit k (drop_bit k n) OR mask k" by (rule bit_eqI) (auto simp: bit_simps)
  also have "\<dots> = push_bit k (drop_bit k n) + mask k" by (rule disjunctive_add [symmetric]) (auto simp: bit_simps)
  finally show ?thesis by (simp add: push_bit_eq_mult drop_bit_eq_div mask_eq_exp_minus_1)
qed

lemma bixmask_value:
  assumes "sb_blocksize_bits s = 12"
  shows "bixmask s level = (if level \<ge> 4 then Stuck else Ok (mask (9 * level)))"
proof -
  have "level \<in> {0, 1, 2, 3} \<or> 4 \<le> level" by auto
  then show ?thesis using assms by (auto simp: bixmask_def mask_eq_exp_minus_1)
qed

lemma unat_or_mask:
  assumes "k \<le> 64"
  shows "unat (bix OR mask k :: u64) = unat bix div 2 ^ k * 2 ^ k + (2 ^ k - 1)"
proof -
  have "unat (mask k :: u64) = mask k" by (rule bit_eqI) (use assms in \<open>auto simp: bit_simps bit_unsigned_iff\<close>)
  then show ?thesis by (simp add: unsigned_or_eq or_mask_nat)
qed

lemma pow_512: "2 ^ (9 * k) = (512 :: nat) ^ k"
  by (simp add: power_mult)

lemma maxbix_value: "unat h < 8 \<Longrightarrow> maxbix h = Ok (push_bit (9 * unat h) 1) \<and> unat (push_bit (9 * unat h) 1 :: u64) = 512 ^ unat h"
proof -
  assume h: "unat h < 8"
  have "unat (push_bit (9 * unat h) 1 :: u64) = 2 ^ (9 * unat h)"
    using h unat_2p [of "9 * unat h", where 'a = 64] by (simp add: push_bit_eq_mult)
  then show ?thesis using h by (simp add: maxbix_small pow_512)
qed

text \<open>The height \<open>grow_inode\<close> settles on.\<close>

lemma grow_height_step:
  assumes "unat h < 8"
  shows "grow_height bix h = (if 512 ^ unat h < unat bix then grow_height bix (h + 1) else Ok h)"
  using maxbix_value [OF assms] by (subst grow_height.simps) (simp add: word_less_nat_alt)

lemma grow_height_run:
  assumes "unat bix \<le> 2 ^ 63" "unat h < 8"
  shows "\<exists>h'. grow_height bix h = Ok h' \<and> h \<le> h' \<and> unat h' < 8 \<and> unat bix \<le> 512 ^ unat h'
     \<and> (\<forall>k. unat h \<le> k \<and> k < unat h' \<longrightarrow> 512 ^ k < unat bix)"
  using assms(2)
proof (induction "8 - unat h" arbitrary: h rule: less_induct)
  case less
  show ?case
  proof (cases "512 ^ unat h < unat bix")
    case False
    then show ?thesis using grow_height_step [OF less.prems, of bix] less.prems by auto
  next
    case True
    have "unat h \<noteq> 7" using True assms(1) by auto
    then have h: "unat h < 7" using less.prems by simp
    have u: "unat (h + 1) = unat h + 1" by (rule u8_succ [OF less.prems])
    have dec: "8 - unat (h + 1) < 8 - unat h" "unat (h + 1) < 8" using h u by simp_all
    obtain h' where r: "grow_height bix (h + 1) = Ok h'" "h + 1 \<le> h'" "unat h' < 8" "unat bix \<le> 512 ^ unat h'"
      "\<forall>k. unat (h + 1) \<le> k \<and> k < unat h' \<longrightarrow> 512 ^ k < unat bix"
      using less.hyps [OF dec] by blast
    have "512 ^ k < unat bix" if "unat h \<le> k" "k < unat h'" for k
      using that r(5) u True by (cases "k = unat h") auto
    then show ?thesis using r(1-4) True grow_height_step [OF less.prems, of bix] u by (auto simp: word_le_nat_alt)
  qed
qed

section \<open>Changing an inode or a block\<close>

text \<open>Nothing but blocks of one file and level, and nothing of the other parts of the state.\<close>

definition blocks_but :: "(u64 \<times> nat \<times> u64) set \<Rightarrow> 'w world \<Rightarrow> 'w world \<Rightarrow> bool" where
  "blocks_but X w w' \<longleftrightarrow> (\<forall>i m c. m < LOGFS_MAX_LEVELS \<and> (i, m, c) \<notin> X \<longrightarrow>
     blk_ptr w' i m c = blk_ptr w i m c \<and> blk_of w' i m c = blk_of w i m c)"

lemma blocks_but_trans: "blocks_but X w w1 \<Longrightarrow> blocks_but Y w1 w2 \<Longrightarrow> blocks_but (X \<union> Y) w w2"
  by (simp add: blocks_but_def)

lemma same_blocks_but: "same_blocks w w' = blocks_but {} w w'"
  by (auto simp: same_blocks_def blocks_but_def)

definition rest_same :: "'w world \<Rightarrow> 'w world \<Rightarrow> bool" where
  "rest_same w w' \<longleftrightarrow> sb w' = sb w \<and> os w' = os w \<and> strategy (hp w') = strategy (hp w) \<and> ino_ptr w' = ino_ptr w"

lemma rest_same_frame:
  assumes "rest_same w w'"
  shows "seg_inv_but X w' = seg_inv_but X w" "same_geo w w'" "sb_area (sb w') = sb_area (sb w)"
  using assms by (simp_all add: rest_same_def seg_inv_but_def segs_ok_def same_geo_def)

lemma set_data_spec:
  assumes "fs_with F w" "ino_ptr w ino = Some p" "n < LOGFS_EMBEDDED_FIELDS"
  shows "\<exists>w' i. set_data p n v w = Ok w' \<and> fs_with F w' \<and> rest_same w w' \<and> same_blocks w w' \<and> inode_of w ino = Some i
     \<and> di_of w' = (di_of w)(ino \<mapsto> (i_di i)\<lparr>di_data := (di_data (i_di i))[n := v]\<rparr>)"
proof -
  let ?f = "\<lambda>i. i\<lparr>i_di := (i_di i)\<lparr>di_data := (di_data (i_di i))[n := v]\<rparr>\<rparr>"
  show ?thesis using upd_inode_spec [OF assms(1,2), of ?f] assms(3)
    by (fastforce simp: set_data_def di_ok_def rest_same_def)
qed

lemma rw_grow_inode_spec:
  assumes "fs_with F w" "ino_ptr w ino = Some p" "unat bix \<le> 2 ^ 63"
    "\<forall>i. inode_of w ino = Some i \<longrightarrow> unat (di_height (i_di i)) < 8"
  shows "\<exists>w' i h. rw_grow_inode p bix level w = Ok w' \<and> fs_with F w' \<and> rest_same w w' \<and> same_blocks w w' \<and> inode_of w ino = Some i
     \<and> (if level = 0 then grow_height bix (di_height (i_di i)) = Ok h else h = di_height (i_di i))
     \<and> di_of w' = (di_of w)(ino \<mapsto> (i_di i)\<lparr>di_height := h\<rparr>)"
proof -
  obtain i where i: "inode_of w ino = Some i" "inode_at (hp w) p = Some i"
    using upd_inode_spec [OF assms(1,2), of "\<lambda>i. i"] assms(2) by (auto simp: inode_of_def)
  show ?thesis
  proof (cases "level = 0")
    case False
    have "di_of w = (di_of w)(ino \<mapsto> i_di i)" using i(1) by (auto simp: di_of_def fun_eq_iff)
    then show ?thesis using False assms(1) i(1)
      by (intro exI [of _ w] exI [of _ i] exI [of _ "di_height (i_di i)"]) (simp add: rw_grow_inode_def rest_same_def same_blocks_def)
  next
    case True
    obtain h where h: "grow_height bix (di_height (i_di i)) = Ok h"
      using grow_height_run [OF assms(3)] assms(4) i(1) by blast
    let ?f = "\<lambda>i. i\<lparr>i_di := (i_di i)\<lparr>di_height := h\<rparr>\<rparr>"
    obtain w' where "upd_inode p ?f w = Ok w'" "fs_with F w'" "rest_same w w'" "same_blocks w w'"
      "di_of w' = (di_of w)(ino \<mapsto> i_di (?f i))"
      using upd_inode_spec [OF assms(1,2), of ?f] i(1) by (auto simp: di_ok_def rest_same_def)
    then show ?thesis using True i h
      by (intro exI [of _ w'] exI [of _ i] exI [of _ h]) (simp add: rw_grow_inode_def)
  qed
qed

lemma set_block_word_spec:
  assumes inv: "fs_with F w" and p: "blk_ptr w ino l b = Some p" and l: "l < LOGFS_MAX_LEVELS" and n: "n < block_longs (sb w)"
  shows "\<exists>w' ws. set_block_word p n v w = Ok w' \<and> fs_with F w' \<and> rest_same w w' \<and> di_of w' = di_of w
     \<and> blocks_but {(ino, l, b)} w w' \<and> blk_ptr w' ino l b = Some p
     \<and> blk_of w ino l b = Some ws \<and> length ws = block_longs (sb w) \<and> blk_of w' ino l b = Some (ws[n := v])"
proof -
  obtain G where ok: "fs_ok (block_longs (sb w)) (hp w) (sb_ino_tree (sb w)) G" and lo: "loose F (hp w) G"
    using inv by (auto simp: fs_with_def)
  note D = fs_okD [OF ok]
  have po: "own G p = Some (Block_of ino l b)" using p blk_ptr_own [OF ok l] by simp
  obtain ws where ws: "mem (hp w) p = Some (Ext (Block ws))" "length ws = block_longs (sb w)" using D(9) [OF po] by blast
  let ?h = "put_obj p (Block (ws[n := v])) (hp w)" and ?w = "w\<lparr>hp := put_obj p (Block (ws[n := v])) (hp w)\<rparr>"
  have m: "mem ?h x = (if x = p then Some (Ext (Block (ws[n := v]))) else mem (hp w) x)" for x by (simp add: put_obj_def)
  have same: "mem ?h x = mem (hp w) x" if "own G x = Some o'" "o' \<noteq> Block_of ino l b" for x o'
    using that po by (auto simp: m)
  have t: "tree btree_geo64 ?h hd (blk_tower G j k)" if "tree btree_geo64 (hp w) hd (blk_tower G j k)" for hd j k
    by (rule tree_cong [OF that]) (use D(7) same in auto)
  have t0: "tree btree_geo64 ?h (sb_ino_tree (sb w)) (ino_tower G)"
    by (rule tree_cong [OF D(3)]) (use D(4) same in auto)
  have objs: "\<exists>x. mem ?h y = Some (Ext (Inode x)) \<and> inode_ok ?h (blk_tower G j) x" if o: "own G y = Some (Inode_of j)" for y j
    using D(6) [OF o] same [OF o] t by (auto simp: inode_ok_def)
  have blocks: "\<exists>ws. mem ?h x = Some (Ext (Block ws)) \<and> length ws = block_longs (sb w)"
    if o: "own G x = Some (Block_of j k c)" for x j k c
    using D(9) [OF o] ws(2) by (auto simp: m)
  have "alloc_ok ?h" using D(1) by (simp add: alloc_ok_def put_obj_def)
  moreover have "mem ?h x \<noteq> None" if "own G x \<noteq> None" for x using D(2) [of x] that by (auto simp: m)
  ultimately have ok': "fs_ok (block_longs (sb w)) ?h (sb_ino_tree (sb w)) G"
    unfolding fs_ok_def using t0 D(4,5,7,8,10) objs blocks by (intro conjI allI impI) simp_all
  then have okw: "fs_ok (block_longs (sb w)) (hp ?w) (sb_ino_tree (sb ?w)) G" by simp
  have "loose F (hp ?w) G" using lo po by (auto simp: loose_def m)
  then have inv': "fs_with F ?w" using okw unfolding fs_with_def by auto
  have inos: "ino_ptr ?w j = ino_ptr w j \<and> inode_of ?w j = inode_of w j" for j
    by (rule inode_of_cong [OF ok okw]) (use same in auto)
  then have di: "di_of ?w = di_of w" "ino_ptr ?w = ino_ptr w" by (auto simp: di_of_def fun_eq_iff)
  have bb: "blocks_but {(ino, l, b)} w ?w" unfolding blocks_but_def
  proof (intro allI impI)
    fix i k c assume x: "k < LOGFS_MAX_LEVELS \<and> (i, k, c) \<notin> {(ino, l, b)}"
    then have k: "k < LOGFS_MAX_LEVELS" by simp
    show "blk_ptr ?w i k c = blk_ptr w i k c \<and> blk_of ?w i k c = blk_of w i k c"
      by (rule blk_of_cong [OF ok okw k]) (use same x in auto)
  qed
  have bp: "blk_ptr ?w ino l b = Some p" using po blk_ptr_own [OF okw l] by simp
  have "blk_of w ino l b = Some ws" "blk_of ?w ino l b = Some (ws[n := v])"
    using p bp ws(1) by (simp_all add: blk_of_def block_at_def put_obj_def)
  moreover have "block_at (hp w) p = Some ws" using ws(1) by (simp add: block_at_Some)
  then have "set_block_word p n v w = Ok ?w" using ws(2) n by (simp add: set_block_word_def)
  moreover have "rest_same w ?w" using di(2) by (simp add: rest_same_def put_obj_def)
  ultimately show ?thesis using inv' di(1) bb bp ws(2) by blast
qed

section \<open>What writing a block does\<close>

lemma ptr_inode:
  assumes "fs_with F w" "ino_ptr w ino = Some p"
  shows "\<exists>i. inode_of w ino = Some i \<and> inode_at (hp w) p = Some i \<and> di_of w ino = Some (i_di i) \<and> old_di w ino = i_di i"
  using upd_inode_spec [OF assms, of "\<lambda>i. i"] assms(2) by (auto simp: inode_of_def di_of_def old_di_def)

lemma found_old_di:
  assumes "fs_with F w" "found_inode F w ino p w1" "p \<noteq> 0"
  shows "di_of w1 ino = Some (old_di w ino)"
proof (cases "ino_ptr w ino")
  case None
  then show ?thesis using assms(2,3) di_of_None [OF None] by (simp add: found_inode_def old_di_def)
next
  case (Some q)
  then have "w1 = w" using found_inode_frame(8) [OF assms(2)] by simp
  then show ?thesis using ptr_inode [OF assms(1) Some] by auto
qed

definition file_frame :: "(ulong \<Rightarrow> fsobj obj option) \<Rightarrow> u64 \<Rightarrow> nat \<Rightarrow> 'w world \<Rightarrow> 'w world \<Rightarrow> bool" where
  "file_frame F ino level w w' \<longleftrightarrow> fs_with F w' \<and> seg_inv w' \<and> same_geo w w'
     \<and> (\<forall>i p. ino_ptr w i = Some p \<longrightarrow> ino_ptr w' i = Some p)
     \<and> (\<forall>i. i \<noteq> ino \<longrightarrow> di_of w' i = di_of w i) \<and> areas_but {area_no ino level} w w'"

lemma file_frame_trans: "file_frame F ino level w w1 \<Longrightarrow> file_frame F ino level w1 w2 \<Longrightarrow> file_frame F ino level w w2"
  by (auto simp: file_frame_def intro: same_geo_trans areas_but_trans)

lemma write_file_frame: "write_frame F ino level w w' \<Longrightarrow> file_frame F ino level w w' \<and> same_blocks w w'"
  by (simp add: write_frame_def file_frame_def)

lemma rest_file_frame:
  "fs_with F w' \<Longrightarrow> seg_inv w \<Longrightarrow> rest_same w w' \<Longrightarrow> (\<And>i. i \<noteq> ino \<Longrightarrow> di_of w' i = di_of w i) \<Longrightarrow> file_frame F ino level w w'"
  using rest_same_frame [of w w'] by (simp add: file_frame_def rest_same_def areas_but_def)

lemma found_file_frame:
  assumes "found_inode F w ino p w'" "seg_inv w"
  shows "file_frame F ino level w w'"
proof -
  note f = found_inode_frame [OF assms(1)]
  obtain tree where tree: "sb w' = (sb w)\<lparr>sb_ino_tree := tree\<rparr>" using f(1) by blast
  have "seg_inv w'" using assms(2) tree by (simp add: seg_inv_but_def segs_ok_def area_ok_def)
  then show ?thesis using f(2,5,9) tree found_inode_ptr [OF assms(1)]
    by (auto simp: file_frame_def same_geo_def areas_but_def)
qed

text \<open>Placing an object does not depend on what the other parts of the state are.\<close>

lemma placed_cong:
  "object_placed bs ino level w ofs w1 \<Longrightarrow> sb_area (sb w2) = sb_area (sb w1) \<Longrightarrow> sb_used_bytes (sb w2) = sb_used_bytes (sb w1) \<Longrightarrow>
     sb_used_bytes (sb v) = sb_used_bytes (sb w) \<Longrightarrow> same_geo v w \<Longrightarrow> object_placed bs ino level v ofs w2"
  using geo_seg_ofs [of v w] by (simp add: object_placed_def)

definition written_direct :: "u8 list \<Rightarrow> u64 \<Rightarrow> u64 \<Rightarrow> 'w world \<Rightarrow> int \<Rightarrow> 'w world \<Rightarrow> bool" where
  "written_direct bs ino bix w ofs w' \<longleftrightarrow> object_placed bs ino 0 w ofs w' \<and> same_blocks w w'
     \<and> (let d = grown (length bs) (old_di w ino) in
         di_of w' ino = Some (d\<lparr>di_data := (di_data d)[unat bix := cpu_to_be64 (of_int ofs)]\<rparr>))"

lemma object_bytes_pos: "object_placed bs ino level w ofs w' \<Longrightarrow> 0 \<le> ofs"
  by (simp add: object_placed_def Let_def)

lemma write_direct_spec:
  assumes fs: "fs_with F w" "seg_inv w" "obj_len (sb w) type = Ok n" "n \<le> length buf" and p: "ino_ptr w ino = Some p"
    and b: "bix < of_nat I0_BLOCKS" and run: "write_direct L p ino bix type buf w = Ok (err, w')"
  shows "file_frame F ino 0 w w' \<and> (if err = 0 then \<exists>ofs. written_direct (object_bytes L buf n type ino bix) ino bix w ofs w'
     else err = - EIO \<or> err = - ENOMEM)"
proof -
  have l0: "0 < LOGFS_MAX_LEVELS" by (simp add: abi_levels)
  obtain ofs w1 where s: "logfs_segment_write L buf type ino bix 0 w = Ok (ofs, w1)"
    and r: "(if ofs < 0 then Ok (ofs, w1) else and_then (set_data p (unat bix) (cpu_to_be64 (of_int ofs)) w1) (\<lambda>w. Ok (0, w))) = Ok (err, w')"
    using run by (auto simp: write_direct_def and_then_Ok)
  note sp = segment_write_spec [OF fs l0 s]
  have f1: "file_frame F ino 0 w w1" "same_blocks w w1" using write_file_frame [of F ino 0 w w1] sp by blast+
  show ?thesis
  proof (cases "ofs < 0")
    case True
    then show ?thesis using r sp f1 by (auto simp: EIO_def ENOMEM_def)
  next
    case False
    have o: "object_written (object_bytes L buf n type ino bix) ino 0 w ofs w1" using sp False by simp
    have p1: "ino_ptr w1 ino = Some p" "fs_with F w1" "seg_inv w1" using f1(1) p by (simp_all add: file_frame_def)
    have bn: "unat bix < LOGFS_EMBEDDED_FIELDS" using b by (simp add: abi_sizes word_less_nat_alt)
    obtain w2 i where d: "set_data p (unat bix) (cpu_to_be64 (of_int ofs)) w1 = Ok w2" "fs_with F w2" "rest_same w1 w2"
      "same_blocks w1 w2" "inode_of w1 ino = Some i"
      "di_of w2 = (di_of w1)(ino \<mapsto> (i_di i)\<lparr>di_data := (di_data (i_di i))[unat bix := cpu_to_be64 (of_int ofs)]\<rparr>)"
      using set_data_spec [OF p1(2,1) bn] by blast
    have e: "err = 0" "w' = w2" using r d(1) False by simp_all
    have "file_frame F ino 0 w1 w2" by (rule rest_file_frame [OF d(2) p1(3) d(3)]) (simp add: d(6))
    then have fr: "file_frame F ino 0 w w2" using file_frame_trans f1(1) by blast
    have "i_di i = grown (length (object_bytes L buf n type ino bix)) (old_di w ino)"
      using o d(5) by (simp add: object_written_def di_of_def)
    then have "di_of w2 ino = Some (let d = grown (length (object_bytes L buf n type ino bix)) (old_di w ino)
        in d\<lparr>di_data := (di_data d)[unat bix := cpu_to_be64 (of_int ofs)]\<rparr>)" using d(6) by (simp add: Let_def)
    moreover have "object_placed (object_bytes L buf n type ino bix) ino 0 w ofs w2"
      by (rule placed_cong [of _ ino 0 w ofs w1]) (use o d(3) in \<open>simp_all add: object_written_def rest_same_def\<close>)
    moreover have "same_blocks w w2" using same_blocks_trans f1(2) d(4) by blast
    ultimately show ?thesis using fr e by (auto simp: written_direct_def Let_def)
  qed
qed

text \<open>Blocks of 4 KiB: the geometry \<open>mkfs\<close> insists on.\<close>

definition geo_4k :: "super_block \<Rightarrow> bool" where
  "geo_4k s \<longleftrightarrow> sb_blocksize_bits s = 12 \<and> sb_blocksize s = 4096"

lemma same_geo_4k: "same_geo w w' \<Longrightarrow> geo_4k (sb w) \<Longrightarrow> geo_4k (sb w')"
  by (simp add: same_geo_def geo_4k_def)

definition parent_bix :: "u64 \<Rightarrow> nat \<Rightarrow> u64" where
  "parent_bix bix level = bix OR mask (9 * (level + 1))"

definition slot_of :: "u64 \<Rightarrow> nat \<Rightarrow> nat" where
  "slot_of bix level = unat bix div 512 ^ level mod 512"

definition old_words :: "'w world \<Rightarrow> u64 \<Rightarrow> nat \<Rightarrow> u64 \<Rightarrow> u64 list" where
  "old_words w ino l b = (case blk_of w ino l b of None \<Rightarrow> replicate 512 0 | Some ws \<Rightarrow> ws)"

definition entered :: "u64 \<Rightarrow> u64 \<Rightarrow> nat \<Rightarrow> 'w world \<Rightarrow> int \<Rightarrow> 'w world \<Rightarrow> bool" where
  "entered ino bix level w ofs w' \<longleftrightarrow> blk_of w' ino (level + 1) (parent_bix bix level)
     = Some ((old_words w ino (level + 1) (parent_bix bix level))[slot_of bix level := cpu_to_be64 (of_int ofs)])"

lemma get_bits_slot:
  assumes "geo_4k s" "level < 4"
  shows "\<exists>n. get_bits s bix level = Ok n \<and> unat n = slot_of bix level"
proof -
  have "2 ^ (level * 9) = (512 :: nat) ^ level" using pow_512 [of level] by (simp add: mult.commute)
  then show ?thesis using get_bits_of_value [of level 9 bix] assms
    by (auto simp: get_bits_def geo_4k_def slot_of_def)
qed

lemma found_block_rest: "found_block F w ino l b p w' \<Longrightarrow> rest_same w w' \<and> fs_with F w' \<and> di_of w' = di_of w \<and> blocks_but {(ino, l, b)} w w'"
  by (simp add: found_block_def rest_same_def blocks_but_def)

lemma found_block_words:
  assumes "fs_with F w" "geo_4k (sb w)" "l < LOGFS_MAX_LEVELS" "found_block F w ino l b p w'" "p \<noteq> 0"
  shows "blk_ptr w' ino l b = Some p \<and> blk_of w' ino l b = Some (old_words w ino l b)"
proof (cases "blk_ptr w ino l b")
  case None
  then have "old_words w ino l b = replicate 512 0" by (simp add: old_words_def blk_of_def)
  moreover have "block_longs (sb w) = 512" using assms(2) by (simp add: block_longs_def geo_4k_def)
  ultimately show ?thesis using None assms(4,5) by (simp add: found_block_def)
next
  case (Some q)
  then have w': "w' = w" "p = q" using assms(4) by (simp_all add: found_block_def)
  have n: "0 < block_longs (sb w)" using assms(2) by (simp add: geo_4k_def block_longs_def)
  obtain ws where "blk_of w ino l b = Some ws" using set_block_word_spec [OF assms(1) Some assms(3) n] by blast
  then show ?thesis using Some w' by (simp add: old_words_def)
qed

lemma write_loop_spec:
  assumes fs: "fs_with F w" and inv: "seg_inv w" and n: "obj_len (sb w) type = Ok n" "n \<le> length buf"
    and p: "ino_ptr w ino = Some p" and g: "geo_4k (sb w)"
    and run: "write_loop L p ino bix level type buf w = Ok (err, w')"
  shows "file_frame F ino level w w' \<and> level + 1 < 4 \<and> blocks_but {(ino, level + 1, parent_bix bix level)} w w'
     \<and> (if err = 0 then \<exists>ofs. object_placed (object_bytes L buf n type ino bix) ino level w ofs w'
            \<and> di_of w' ino = Some (grown (length (object_bytes L buf n type ino bix)) (old_di w ino))
            \<and> entered ino bix level w ofs w'
        else err = - EIO \<or> err = - ENOMEM)"
proof -
  let ?b = "parent_bix bix level" and ?bs = "object_bytes L buf n type ino bix"
  have b12: "sb_blocksize_bits (sb w) = 12" using g by (simp add: geo_4k_def)
  have l3: "level + 1 < 4" using run bixmask_value [OF b12, of "level + 1"] by (auto simp: write_loop_def split: if_splits)
  have l: "level + 1 < LOGFS_MAX_LEVELS" "level < LOGFS_MAX_LEVELS" using l3 by (simp_all add: abi_levels)
  have bm: "bixmask (sb w) (level + 1) = Ok (mask (9 * (level + 1)))" using bixmask_value [OF b12, of "level + 1"] l3 by simp
  obtain q w1 where f: "find_or_create_block p ?b (level + 1) w = Ok (q, w1)" "found_block F w ino (level + 1) ?b q w1"
    using find_or_create_block_result [OF fs p l(1), of ?b] run bm by (auto simp: write_loop_def parent_bix_def)
  note fb = found_block_rest [OF f(2)]
  have fr1: "file_frame F ino level w w1" by (rule rest_file_frame [OF _ inv]) (use fb in simp_all)
  have r1: "sb w1 = sb w" using fb by (simp add: rest_same_def)
  show ?thesis
  proof (cases "q = 0")
    case True
    then have "err = - ENOMEM" "w' = w1" using run bm f(1) by (simp_all add: write_loop_def parent_bix_def)
    then show ?thesis using fr1 fb l3 by (simp add: ENOMEM_def)
  next
    case False
    note fw = found_block_words [OF fs g l(1) f(2) False]
    obtain ofs w2 where s: "logfs_segment_write L buf type ino bix level w1 = Ok (ofs, w2)"
      and r: "(if ofs < 0 then Ok (ofs, w2) else and_then (get_bits (sb w2) bix level) (\<lambda>m.
          and_then (set_block_word q (unat m) (cpu_to_be64 (of_int ofs)) w2) (\<lambda>w. Ok (0, w)))) = Ok (err, w')"
      using run bm f(1) False by (auto simp: write_loop_def and_then_Ok parent_bix_def)
    have inv1: "fs_with F w1" "seg_inv w1" using fr1 by (simp_all add: file_frame_def)
    have n1: "obj_len (sb w1) type = Ok n" using n(1) r1 by simp
    note sp = segment_write_spec [OF inv1 n1 n(2) l(2) s]
    have fr2: "file_frame F ino level w1 w2" "same_blocks w1 w2" using write_file_frame [of F ino level w1 w2] sp by blast+
    have fr12: "file_frame F ino level w w2" using file_frame_trans fr1 fr2(1) by blast
    have bb: "blocks_but {(ino, level + 1, ?b)} w w2"
      using blocks_but_trans [of _ w w1 "{}" w2] fb fr2(2) by (simp add: same_blocks_but)
    show ?thesis
    proof (cases "ofs < 0")
      case True
      then show ?thesis using r sp fr12 bb l3 by (auto simp: EIO_def ENOMEM_def)
    next
      case ofs: False
      have g2: "geo_4k (sb w2)" using same_geo_4k g fr12 by (auto simp: file_frame_def)
      obtain m where m: "get_bits (sb w2) bix level = Ok m" "unat m = slot_of bix level"
        using get_bits_slot [OF g2, of level bix] l3 by auto
      have q2: "blk_ptr w2 ino (level + 1) ?b = Some q" "blk_of w2 ino (level + 1) ?b = Some (old_words w ino (level + 1) ?b)"
        using fw fr2(2) l(1) by (simp_all add: same_blocks_def)
      have sl: "slot_of bix level < block_longs (sb w2)" using g2 by (simp add: slot_of_def geo_4k_def block_longs_def)
      have inv2: "fs_with F w2" "seg_inv w2" using fr2(1) by (simp_all add: file_frame_def)
      obtain w3 where w3: "set_block_word q (slot_of bix level) (cpu_to_be64 (of_int ofs)) w2 = Ok w3" "fs_with F w3" "rest_same w2 w3"
        "di_of w3 = di_of w2" "blocks_but {(ino, level + 1, ?b)} w2 w3"
        "blk_of w3 ino (level + 1) ?b = Some ((old_words w ino (level + 1) ?b)[slot_of bix level := cpu_to_be64 (of_int ofs)])"
        using set_block_word_spec [OF inv2(1) q2(1) l(1) sl, of "cpu_to_be64 (of_int ofs)"] q2(2) by auto
      have e: "err = 0" "w' = w3" using r m w3(1) ofs by simp_all
      have "file_frame F ino level w2 w3" by (rule rest_file_frame [OF w3(2) inv2(2) w3(3)]) (simp add: w3(4))
      then have fr: "file_frame F ino level w w3" using file_frame_trans fr12 by blast
      have bb3: "blocks_but {(ino, level + 1, ?b)} w w3" using blocks_but_trans [OF bb w3(5)] by simp
      have o: "object_written ?bs ino level w1 ofs w2" using sp ofs by simp
      have "object_placed ?bs ino level w ofs w3"
        by (rule placed_cong [of _ ino level w1 ofs w2])
          (use o w3(3) r1 fr1 in \<open>simp_all add: object_written_def rest_same_def file_frame_def\<close>)
      moreover have "old_di w1 ino = old_di w ino" using fb by (simp add: old_di_def)
      then have "di_of w3 ino = Some (grown (length ?bs) (old_di w ino))" using o w3(4) by (simp add: object_written_def)
      moreover have "entered ino bix level w ofs w3" using w3(6) by (simp add: entered_def)
      ultimately show ?thesis using e fr l3 bb3 by auto
    qed
  qed
qed

text \<open>The outcome of \<open>logfs_file_write\<close>.\<close>

definition written_indirect :: "u8 list \<Rightarrow> u64 \<Rightarrow> u64 \<Rightarrow> nat \<Rightarrow> 'w world \<Rightarrow> int \<Rightarrow> 'w world \<Rightarrow> bool" where
  "written_indirect bs ino bix level w ofs w' \<longleftrightarrow> object_placed bs ino level w ofs w'
     \<and> level + 1 < 4 \<and> blocks_but {(ino, level + 1, parent_bix bix level)} w w' \<and> entered ino bix level w ofs w'
     \<and> (\<exists>h. (if level = 0 then grow_height bix (di_height (old_di w ino)) = Ok h else h = di_height (old_di w ino))
          \<and> unat h < 8 \<and> di_of w' ino = Some (grown (length bs) ((old_di w ino)\<lparr>di_height := h\<rparr>)))"

lemma rest_same_area: "rest_same w w' \<Longrightarrow> sb_used_bytes (sb w') = sb_used_bytes (sb w)"
  by (simp add: rest_same_def)

lemma same_blocks_words: "same_blocks w w' \<Longrightarrow> l < LOGFS_MAX_LEVELS \<Longrightarrow> old_words w' ino l b = old_words w ino l b"
  by (simp add: same_blocks_def old_words_def)

lemma file_write_spec:
  assumes fs: "fs_with F w" and inv: "seg_inv w" and n: "obj_len (sb w) type = Ok n" "n \<le> length buf"
    and g: "geo_4k (sb w)" and h8: "unat (di_height (old_di w ino)) < 8" and b63: "unat bix \<le> 2 ^ 63"
    and run: "logfs_file_write L ino bix level type buf w = Ok (err, w')"
  shows "file_frame F ino level w w' \<and> (if err = 0 then \<exists>ofs. (if level = 0 \<and> bix < of_nat I0_BLOCKS
            then written_direct (object_bytes L buf n type ino bix) ino bix w ofs w'
            else written_indirect (object_bytes L buf n type ino bix) ino bix level w ofs w')
         else err = - EIO \<or> err = - ENOMEM)"
proof -
  let ?bs = "object_bytes L buf n type ino bix"
  obtain p w1 where f: "find_or_create_inode ino w = Ok (p, w1)" "found_inode F w ino p w1"
    using find_or_create_inode_result [OF fs, of ino] run by (auto simp: logfs_file_write_def)
  note ff = found_inode_frame [OF f(2)]
  have fr1: "file_frame F ino level w w1" by (rule found_file_frame [OF f(2) inv])
  have g1: "same_geo w w1" using fr1 by (simp add: file_frame_def)
  obtain tree where s1: "sb w1 = (sb w)\<lparr>sb_ino_tree := tree\<rparr>" using ff(1) by blast
  have "obj_len (sb w1) type = obj_len (sb w) type" by (simp add: s1 obj_len_def)
  then have n1: "obj_len (sb w1) type = Ok n" and u1: "sb_used_bytes (sb w1) = sb_used_bytes (sb w)"
    using n(1) s1 by simp_all
  show ?thesis
  proof (cases "p = 0")
    case True
    then have "err = - ENOMEM" "w' = w1" using run f(1) by (simp_all add: logfs_file_write_def)
    then show ?thesis using fr1 by (simp add: ENOMEM_def)
  next
    case False
    have p1: "ino_ptr w1 ino = Some p" "fs_with F w1" "seg_inv w1" using ff(6) False fr1 by (simp_all add: file_frame_def)
    have d1: "di_of w1 ino = Some (old_di w ino)" by (rule found_old_di [OF fs f(2) False])
    then have o1: "old_di w1 ino = old_di w ino" by (simp add: old_di_def)
    show ?thesis
    proof (cases "level = 0 \<and> bix < of_nat I0_BLOCKS")
      case True
      then have r: "write_direct L p ino bix type buf w1 = Ok (err, w')" using run f(1) False by (simp add: logfs_file_write_def)
      note wd = write_direct_spec [OF p1(2,3) n1 n(2) p1(1) _ r]
      have fr: "file_frame F ino level w w'" using file_frame_trans [OF fr1, of w'] wd True by simp
      have "written_direct ?bs ino bix w ofs w'" if "written_direct ?bs ino bix w1 ofs w'" for ofs
        using that o1 ff(4) same_blocks_trans placed_cong [OF _ refl refl u1 [symmetric] g1]
        by (auto simp: written_direct_def)
      then show ?thesis using fr wd True by (auto split: if_splits)
    next
      case ind: False
      obtain w2 where gi: "rw_grow_inode p bix level w1 = Ok w2" and r: "write_loop L p ino bix level type buf w2 = Ok (err, w')"
        using run f(1) False ind by (auto simp: logfs_file_write_def and_then_Ok)
      have hh: "\<forall>i. inode_of w1 ino = Some i \<longrightarrow> unat (di_height (i_di i)) < 8" using h8 d1 by (auto simp: di_of_def)
      obtain i h where d: "fs_with F w2" "rest_same w1 w2" "same_blocks w1 w2" "inode_of w1 ino = Some i"
        "if level = 0 then grow_height bix (di_height (i_di i)) = Ok h else h = di_height (i_di i)"
        "di_of w2 = (di_of w1)(ino \<mapsto> (i_di i)\<lparr>di_height := h\<rparr>)"
        using rw_grow_inode_spec [OF p1(2,1) b63 hh, of level] gi by auto
      have i: "i_di i = old_di w ino" using d(4) d1 by (simp add: di_of_def)
      have fr2: "file_frame F ino level w1 w2" by (rule rest_file_frame [OF d(1) p1(3) d(2)]) (simp add: d(6))
      have fr12: "file_frame F ino level w w2" using file_frame_trans fr1 fr2 by blast
      have s2: "sb w2 = sb w1" "ino_ptr w2 ino = Some p" using d(2) p1(1) by (simp_all add: rest_same_def)
      have g2: "geo_4k (sb w2)" "same_geo w w2" using same_geo_4k [OF _ g] fr12 by (simp_all add: file_frame_def)
      have n2: "obj_len (sb w2) type = Ok n" using n1 s2(1) by simp
      have inv2: "seg_inv w2" using fr2 by (simp add: file_frame_def)
      note wl = write_loop_spec [OF d(1) inv2 n2 n(2) s2(2) g2(1) r]
      have fr: "file_frame F ino level w w'" using file_frame_trans [OF fr12, of w'] wl by simp
      have h': "unat h < 8" using d(5) i h8 grow_height_run [OF b63 h8] by (auto split: if_splits)
      have sb: "same_blocks w w2" by (rule same_blocks_trans [OF ff(4) d(3)])
      have bb: "blocks_but {(ino, level + 1, parent_bix bix level)} w w'"
        using blocks_but_trans [of "{}" w w2 "{(ino, level + 1, parent_bix bix level)}" w'] sb wl by (simp add: same_blocks_but)
      have l: "level + 1 < LOGFS_MAX_LEVELS" using wl by (simp add: abi_levels)
      have od: "old_di w2 ino = (old_di w ino)\<lparr>di_height := h\<rparr>" using d(6) i by (simp add: old_di_def)
      have "written_indirect ?bs ino bix level w ofs w'" if "err = 0" "object_placed ?bs ino level w2 ofs w'"
        "di_of w' ino = Some (grown (length ?bs) (old_di w2 ino))" "entered ino bix level w2 ofs w'" for ofs
      proof -
        have "object_placed ?bs ino level w ofs w'"
          by (rule placed_cong [OF that(2) refl refl]) (use u1 s2(1) g2(2) in simp_all)
        moreover have "entered ino bix level w ofs w'" using that(4) same_blocks_words [OF sb l] by (simp add: entered_def)
        ultimately show ?thesis using that(3) od wl bb h' d(5) i by (auto simp: written_indirect_def)
      qed
      then show ?thesis using fr wl ind by (auto split: if_splits)
    qed
  qed
qed

section \<open>Writing a block comes back\<close>

text \<open>\<open>malloc\<close> returned NULL in a well-formed heap that holds the inodes of \<open>w\<close>.\<close>

definition ran_out :: "(ulong \<Rightarrow> fsobj obj option) \<Rightarrow> 'w world \<Rightarrow> bool" where
  "ran_out F (w :: 'w world) \<longleftrightarrow> (\<exists>w1 :: 'w world. fs_with F w1 \<and> strategy (hp w1) = strategy (hp w)
     \<and> (\<forall>i p. ino_ptr w i = Some p \<longrightarrow> ino_ptr w1 i = Some p) \<and> malloc_null w1)"

lemma ran_outI: "fs_with F w \<Longrightarrow> malloc_null w \<Longrightarrow> ran_out F w"
  unfolding ran_out_def by blast

lemma ran_out_frame: "file_frame F ino level w w1 \<Longrightarrow> ran_out F w1 \<Longrightarrow> ran_out F w"
  unfolding ran_out_def file_frame_def same_geo_def by auto

lemma ran_out_seg:
  assumes "fs_with F w" "\<exists>w1. seg_frame w w1 \<and> malloc_null w1"
  shows "ran_out F w"
proof -
  obtain w1 where w1: "seg_frame w w1" "malloc_null w1" using assms(2) by blast
  have "fs_with F w1" "ino_ptr w1 = ino_ptr w" using frame_files [OF assms(1) w1(1)] by (simp_all add: same_files_def)
  then show ?thesis using w1 unfolding ran_out_def seg_frame_def by auto
qed

lemma find_inode_gives:
  assumes "fs_with F w"
  shows "gives (ran_out F w) (find_or_create_inode ino w) (\<lambda>(p, w1). found_inode F w ino p w1)"
  using find_or_create_inode_result [OF assms, of ino] ran_outI [OF assms]
  by (elim disjE exE conjE) (simp_all add: malloc_null_def)

lemma find_block_gives:
  assumes "fs_with F w" "ino_ptr w ino = Some p" "l < LOGFS_MAX_LEVELS"
  shows "gives (ran_out F w) (find_or_create_block p b l w) (\<lambda>(q, w1). found_block F w ino l b q w1)"
  using find_or_create_block_result [OF assms, of b] ran_outI [OF assms(1)]
  by (elim disjE exE conjE) (simp_all add: malloc_null_def)

lemma write_direct_gives:
  assumes fs: "fs_with F w" "seg_inv w" "obj_len (sb w) type = Ok n" "n \<le> length buf" and p: "ino_ptr w ino = Some p"
    and b: "bix < of_nat I0_BLOCKS" and L: "posix_pwrite L disk budget" and e: "erase_ok (sb w)"
  shows "gives (ran_out F w) (write_direct L p ino bix type buf w) (\<lambda>(err, w'). erase_ok (sb w'))"
  unfolding write_direct_def
proof (rule gives_and_then [OF gives_mono [OF segment_write_gives [OF fs _ L e]]])
  show "0 < LOGFS_MAX_LEVELS" by (simp add: abi_levels)
  show "ran_out F w" if "\<exists>w1. seg_frame w w1 \<and> malloc_null w1" by (rule ran_out_seg [OF fs(1) that])
  fix x assume r: "logfs_segment_write L buf type ino bix 0 w = Ok x" and ex: "case x of (ofs, w') \<Rightarrow> erase_ok (sb w')"
  obtain ofs w1 where x: "x = (ofs, w1)" by (cases x)
  have "0 < LOGFS_MAX_LEVELS" by (simp add: abi_levels)
  note sp = segment_write_spec [OF fs this r [unfolded x]]
  have f1: "file_frame F ino 0 w w1" using write_file_frame [of F ino 0 w w1] sp by blast
  have p1: "ino_ptr w1 ino = Some p" "fs_with F w1" using f1 p by (simp_all add: file_frame_def)
  have bn: "unat bix < LOGFS_EMBEDDED_FIELDS" using b by (simp add: abi_sizes word_less_nat_alt)
  obtain w2 where "set_data p (unat bix) (cpu_to_be64 (of_int ofs)) w1 = Ok w2" "rest_same w1 w2"
    using set_data_spec [OF p1(2,1) bn] by blast
  then show "gives (ran_out F w) (case x of (ofs, w) \<Rightarrow> if ofs < 0 then Ok (ofs, w)
      else and_then (set_data p (unat bix) (cpu_to_be64 (of_int ofs)) w) (\<lambda>w. Ok (0, w))) (\<lambda>(err, w'). erase_ok (sb w'))"
    using x ex by (simp add: rest_same_def)
qed

lemma write_loop_gives:
  assumes fs: "fs_with F w" and inv: "seg_inv w" and n: "obj_len (sb w) type = Ok n" "n \<le> length buf"
    and p: "ino_ptr w ino = Some p" and g: "geo_4k (sb w)" and l3: "level < 3"
    and L: "posix_pwrite L disk budget" and e: "erase_ok (sb w)"
  shows "gives (ran_out F w) (write_loop L p ino bix level type buf w) (\<lambda>(err, w'). erase_ok (sb w'))"
proof -
  let ?b = "parent_bix bix level"
  have b12: "sb_blocksize_bits (sb w) = 12" using g by (simp add: geo_4k_def)
  have l: "level + 1 < LOGFS_MAX_LEVELS" "level < LOGFS_MAX_LEVELS" using l3 by (simp_all add: abi_levels)
  have bm: "bixmask (sb w) (level + 1) = Ok (mask (9 * (level + 1)))" using bixmask_value [OF b12, of "level + 1"] l3 by simp
  show ?thesis unfolding write_loop_def bm and_then_simps parent_bix_def [symmetric]
  proof (rule gives_and_then [OF find_block_gives [OF fs p l(1)]], clarify)
    fix q w1 assume f: "found_block F w ino (level + 1) ?b q w1"
    note fb = found_block_rest [OF f]
    have fr1: "file_frame F ino level w w1" by (rule rest_file_frame [OF _ inv]) (use fb in simp_all)
    have r1: "sb w1 = sb w" using fb by (simp add: rest_same_def)
    have inv1: "fs_with F w1" "seg_inv w1" using fr1 by (simp_all add: file_frame_def)
    have n1: "obj_len (sb w1) type = Ok n" "erase_ok (sb w1)" using n(1) r1 e by simp_all
    have "gives (ran_out F w) (and_then (logfs_segment_write L buf type ino bix level w1) (\<lambda>(ofs, w).
        if ofs < 0 then Ok (ofs, w) else and_then (get_bits (sb w) bix level) (\<lambda>n.
          and_then (set_block_word q (unat n) (cpu_to_be64 (of_int ofs)) w) (\<lambda>w. Ok (0, w))))) (\<lambda>(err, w'). erase_ok (sb w'))"
      if q: "q \<noteq> 0"
    proof (rule gives_and_then [OF gives_mono [OF segment_write_gives [OF inv1 n1(1) n(2) l(2) L n1(2)]]])
      show "ran_out F w" if "\<exists>w'. seg_frame w1 w' \<and> malloc_null w'"
        by (rule ran_out_frame [OF fr1 ran_out_seg [OF inv1(1) that]])
      fix x assume s: "logfs_segment_write L buf type ino bix level w1 = Ok x" and ex: "case x of (ofs, w') \<Rightarrow> erase_ok (sb w')"
      obtain ofs w2 where x: "x = (ofs, w2)" by (cases x)
      note sp = segment_write_spec [OF inv1 n1(1) n(2) l(2) s [unfolded x]]
      have fr2: "file_frame F ino level w1 w2" "same_blocks w1 w2" using write_file_frame [of F ino level w1 w2] sp by blast+
      have "same_geo w w2" using fr1 fr2(1) same_geo_trans by (auto simp: file_frame_def)
      then have g2: "geo_4k (sb w2)" using same_geo_4k g by blast
      obtain m where m: "get_bits (sb w2) bix level = Ok m" "unat m = slot_of bix level"
        using get_bits_slot [OF g2, of level bix] l3 by auto
      have q2: "blk_ptr w2 ino (level + 1) ?b = Some q"
        using found_block_words [OF fs g l(1) f q] fr2(2) l(1) by (simp add: same_blocks_def)
      have sl: "slot_of bix level < block_longs (sb w2)" using g2 by (simp add: slot_of_def geo_4k_def block_longs_def)
      have inv2: "fs_with F w2" using fr2(1) by (simp add: file_frame_def)
      obtain w3 where "set_block_word q (slot_of bix level) (cpu_to_be64 (of_int ofs)) w2 = Ok w3" "rest_same w2 w3"
        using set_block_word_spec [OF inv2 q2 l(1) sl] by blast
      then show "gives (ran_out F w) (case x of (ofs, w) \<Rightarrow> if ofs < 0 then Ok (ofs, w)
          else and_then (get_bits (sb w) bix level) (\<lambda>n. and_then (set_block_word q (unat n) (cpu_to_be64 (of_int ofs)) w)
            (\<lambda>w. Ok (0, w)))) (\<lambda>(err, w'). erase_ok (sb w'))"
        using x ex m by (simp add: rest_same_def)
    qed
    then show "gives (ran_out F w) (if q = 0 then Ok (- ENOMEM, w1)
        else and_then (logfs_segment_write L buf type ino bix level w1) (\<lambda>(ofs, w).
          if ofs < 0 then Ok (ofs, w) else and_then (get_bits (sb w) bix level) (\<lambda>n.
            and_then (set_block_word q (unat n) (cpu_to_be64 (of_int ofs)) w) (\<lambda>w. Ok (0, w))))) (\<lambda>(err, w'). erase_ok (sb w'))"
      using n1(2) by simp
  qed
qed

lemma found_inode_misc:
  assumes "found_inode F w ino p w1"
  shows "obj_len (sb w1) = obj_len (sb w)" "erase_ok (sb w1) = erase_ok (sb w)" "sb_used_bytes (sb w1) = sb_used_bytes (sb w)"
    "sb_area (sb w1) = sb_area (sb w)" "geo_4k (sb w1) = geo_4k (sb w)"
proof -
  obtain tree where "sb w1 = (sb w)\<lparr>sb_ino_tree := tree\<rparr>" using found_inode_frame(1) [OF assms] by blast
  then show "obj_len (sb w1) = obj_len (sb w)" "erase_ok (sb w1) = erase_ok (sb w)" "sb_used_bytes (sb w1) = sb_used_bytes (sb w)"
    "sb_area (sb w1) = sb_area (sb w)" "geo_4k (sb w1) = geo_4k (sb w)"
    by (simp_all add: obj_len_def geo_4k_def fun_eq_iff)
qed

lemma file_write_gives:
  assumes fs: "fs_with F w" and inv: "seg_inv w" and n: "obj_len (sb w) type = Ok n" "n \<le> length buf"
    and g: "geo_4k (sb w)" and h8: "unat (di_height (old_di w ino)) < 8" and b63: "unat bix \<le> 2 ^ 63"
    and l3: "level < 3" and L: "posix_pwrite L disk budget" and e: "erase_ok (sb w)"
  shows "gives (ran_out F w) (logfs_file_write L ino bix level type buf w) (\<lambda>(err, w'). erase_ok (sb w'))"
  unfolding logfs_file_write_def
proof (rule gives_and_then [OF find_inode_gives [OF fs]], clarify)
  fix p w1 assume f: "found_inode F w ino p w1"
  note ff = found_inode_frame [OF f] and fm = found_inode_misc [OF f]
  have fr1: "file_frame F ino level w w1" by (rule found_file_frame [OF f inv])
  have inv1: "fs_with F w1" "seg_inv w1" using fr1 by (simp_all add: file_frame_def)
  have n1: "obj_len (sb w1) type = Ok n" "erase_ok (sb w1)" "geo_4k (sb w1)" using n(1) e g fm by simp_all
  show "gives (ran_out F w) (if p = 0 then Ok (- ENOMEM, w1)
      else if level = 0 \<and> bix < of_nat I0_BLOCKS then write_direct L p ino bix type buf w1
      else and_then (rw_grow_inode p bix level w1) (write_loop L p ino bix level type buf)) (\<lambda>(err, w'). erase_ok (sb w'))"
  proof (cases "p = 0")
    case False
    have p1: "ino_ptr w1 ino = Some p" using ff(6) False by simp
    have hh: "\<forall>i. inode_of w1 ino = Some i \<longrightarrow> unat (di_height (i_di i)) < 8"
      using h8 found_old_di [OF fs f False] by (auto simp: di_of_def)
    have dir: "gives (ran_out F w) (write_direct L p ino bix type buf w1) (\<lambda>(err, w'). erase_ok (sb w'))" if "bix < of_nat I0_BLOCKS"
      by (rule gives_mono [OF write_direct_gives [OF inv1 n1(1) n(2) p1 that L n1(2)]]) (use ran_out_frame [OF fr1] in auto)
    obtain w2 i h where d: "rw_grow_inode p bix level w1 = Ok w2" "fs_with F w2" "rest_same w1 w2" "same_blocks w1 w2"
      "inode_of w1 ino = Some i" "di_of w2 = (di_of w1)(ino \<mapsto> (i_di i)\<lparr>di_height := h\<rparr>)"
      using rw_grow_inode_spec [OF inv1(1) p1 b63 hh, of level] by blast
    have fr2: "file_frame F ino level w1 w2" by (rule rest_file_frame [OF d(2) inv1(2) d(3)]) (simp add: d(6))
    have s2: "sb w2 = sb w1" "ino_ptr w2 ino = Some p" using d(3) p1 by (simp_all add: rest_same_def)
    have inv2: "seg_inv w2" using fr2 by (simp add: file_frame_def)
    have "gives (ran_out F w) (write_loop L p ino bix level type buf w2) (\<lambda>(err, w'). erase_ok (sb w'))"
      by (rule gives_mono [OF write_loop_gives [OF d(2) inv2 _ n(2) s2(2) _ l3 L]])
        (use n1 s2(1) ran_out_frame [OF fr1 ran_out_frame [OF fr2]] in auto)
    then show ?thesis using False dir d(1) by simp
  qed (use n1 in simp)
qed

section \<open>Properties\<close>

text \<open>
  C26: with blocks of 4 KiB, \<open>get_bits\<close> is the digit of the block index for the level in base 512, and
  \<open>bixmask\<close> gives all blocks below one indirect block the same parent index, the last one below it. From
  level 4 on the shift of \<open>bixmask\<close> leaves an \<open>int\<close>.
\<close>

theorem block_indices:
  assumes "sb_blocksize_bits s = 12" "level < 4"
  shows "(\<exists>n. get_bits s bix level = Ok n \<and> unat n = unat bix div 512 ^ level mod 512)
     \<and> (\<exists>m. bixmask s level = Ok m \<and> unat (bix OR m) = unat bix div 512 ^ level * 512 ^ level + (512 ^ level - 1))
     \<and> bixmask s 4 = Stuck"
proof -
  have "unat (bix OR mask (9 * level)) = unat bix div 512 ^ level * 512 ^ level + (512 ^ level - 1)"
    using unat_or_mask [of "9 * level" bix] assms(2) pow_512 [of level] by simp
  moreover have "2 ^ (level * 9) = (512 :: nat) ^ level" using pow_512 [of level] by (simp add: mult.commute)
  ultimately show ?thesis using get_bits_of_value [of level 9 bix] bixmask_value [OF assms(1)] assms
    by (auto simp: get_bits_def)
qed

lemma block_indices_witness:
  "(\<exists>n. get_bits ((sb toy_world)\<lparr>sb_blocksize_bits := 12\<rparr>) 1000 1 = Ok n \<and> unat n = 1)
     \<and> (\<exists>m. bixmask ((sb toy_world)\<lparr>sb_blocksize_bits := 12\<rparr>) 1 = Ok m \<and> unat ((1000 :: u64) OR m) = 1023)"
  using block_indices [of "(sb toy_world)\<lparr>sb_blocksize_bits := 12\<rparr>" 1 1000] by simp

text \<open>
  C27: \<open>grow_inode\<close> stops at the least height from the present one on with \<open>bix \<le> 512^height\<close>. A tree
  of that height holds the blocks below \<open>512^height\<close>, so block \<open>512^k\<close> needs the height \<open>k + 1\<close>; it gets
  the height \<open>k\<close>.
\<close>

theorem grow_height_least:
  assumes "unat bix \<le> 2 ^ 63" "unat h < 8"
  shows "\<exists>h'. grow_height bix h = Ok h' \<and> h \<le> h' \<and> unat bix \<le> 512 ^ unat h'
     \<and> (\<forall>k. unat h \<le> k \<and> k < unat h' \<longrightarrow> 512 ^ k < unat bix)
     \<and> (\<forall>k. unat bix = 512 ^ k \<and> unat h \<le> k \<longrightarrow> unat h' = k)"
proof -
  obtain h' where r: "grow_height bix h = Ok h'" "h \<le> h'" "unat bix \<le> 512 ^ unat h'"
    "\<forall>k. unat h \<le> k \<and> k < unat h' \<longrightarrow> 512 ^ k < unat bix"
    using grow_height_run [OF assms] by blast
  have "unat h' = k" if k: "unat bix = 512 ^ k" "unat h \<le> k" for k
  proof -
    have "k \<le> unat h'" using r(3) k(1) by simp
    moreover have "\<not> k < unat h'" using r(4) k by auto
    ultimately show ?thesis by simp
  qed
  then show ?thesis using r by blast
qed

lemma grow_height_least_witness:
  "\<exists>h'. grow_height 512 0 = Ok h' \<and> unat h' = 1"
proof -
  have "unat (512 :: u64) = 512 ^ 1" "unat (0 :: u8) \<le> 1" "unat (512 :: u64) \<le> 2 ^ 63" "unat (0 :: u8) < 8" by simp_all
  then show ?thesis using grow_height_least [of 512 0] by blast
qed


definition rw_world :: "toy world" where
  "rw_world = seg_world\<lparr>sb := (sb seg_world)\<lparr>sb_segsize := 65536, sb_blocksize := 4096, sb_blocksize_bits := 12\<rparr>\<rparr>"

lemma rw_world_ok: "fs_inv rw_world" "seg_inv rw_world" "geo_4k (sb rw_world)" "erase_ok (sb rw_world)" "di_of rw_world i = None"
proof -
  have "alloc_ok (hp rw_world)" by (rule pool_ok) (simp add: rw_world_def seg_world_def)
  then have "fs_ok n (hp rw_world) (sb_ino_tree (sb rw_world))
      \<lparr>own = (\<lambda>_. None), ino_tower = [], blk_tower = (\<lambda>_ _. [])\<rparr>" for n
    by (simp add: fs_ok_def tree_def rw_world_def seg_world_def toy_world_def toy_super_def)
  then show "fs_inv rw_world" by (rule fs_invI)
  show "seg_inv rw_world"
    by (simp add: seg_inv_but_def segs_ok_def rw_world_def seg_world_def toy_world_def toy_super_def area_ok_def abi_sizes abi_levels)
  show "geo_4k (sb rw_world)" "erase_ok (sb rw_world)"
    by (simp_all add: geo_4k_def erase_ok_def rw_world_def seg_world_def toy_world_def toy_super_def)
  have "ino_ptr rw_world i = None"
    by (simp add: ino_ptr_def rw_world_def seg_world_def toy_world_def toy_super_def seen_def btree_init_def btree_lookup_def)
  then show "di_of rw_world i = None" by (rule di_of_None)
qed


end
