(* ===== verification/Journal.thy ===== *)
theory Journal
  imports Main Readwrite
begin

text \<open>
  mkfs.c: the journal and the super blocks, as bytes. A buffer is the list of its bytes; an access
  beyond it is \<^term>\<open>Stuck\<close>.
\<close>

section \<open>Globals of mkfs.c\<close>

record globals =
  g_user_segshift :: u32
  g_user_blockshift :: u32
  g_user_writeshift :: u32
  g_segshift :: u8
  g_blockshift :: u8
  g_writeshift :: u8
  g_no_journal_segs :: u32
  g_bad_seg_reserve :: u32
  g_je_array :: "u64 list"
  g_no_je :: nat
  g_compress_rootdir :: bool
  g_quick_bad_block_scan :: bool
  g_interactice_mode :: bool

definition initial_globals :: globals where
  "initial_globals = \<lparr>g_user_segshift = - 1, g_user_blockshift = - 1, g_user_writeshift = - 1,
     g_segshift = 18, g_blockshift = 12, g_writeshift = 0, g_no_journal_segs = 4, g_bad_seg_reserve = 4,
     g_je_array = replicate 64 0, g_no_je = 0,
     g_compress_rootdir = False, g_quick_bad_block_scan = False, g_interactice_mode = True\<rparr>"

section \<open>Buffers\<close>

definition put_at :: "u8 list \<Rightarrow> nat \<Rightarrow> u8 list \<Rightarrow> u8 list result" where
  "put_at buf pos bs = (if length buf < pos + length bs then Stuck else Ok (take pos buf @ bs @ drop (pos + length bs) buf))"

definition align_up :: "nat \<Rightarrow> nat \<Rightarrow> nat" where
  "align_up n a = unat (ALIGN (of_nat n) (of_nat a))"

text \<open>The result of \<open>logfs_compress\<close> and what it wrote to the output.\<close>

definition logfs_compress :: "'w lib \<Rightarrow> u8 list \<Rightarrow> nat \<Rightarrow> (int \<times> u8 list) result" where
  "logfs_compress L inp outlen =
     (case z_deflate L inp outlen of (good, out) \<Rightarrow>
        if length out > outlen then Stuck
        else if \<not> good then Ok (- EIO, out)
        else if length out \<ge> length inp then Ok (- EIO, out)
        else Ok (int (length out), out))"

definition set_segment_header :: "'w lib \<Rightarrow> u8 \<Rightarrow> u8 \<Rightarrow> u32 \<Rightarrow> segment_header" where
  "set_segment_header L type level segno =
     (let sh = \<lparr>sh_crc = 0, sh_pad = 0, sh_type = type, sh_level = level, sh_segno = cpu_to_be32 segno,
                sh_ec = 0, sh_gec = cpu_to_be64 (ucast segno)\<rparr>
      in sh\<lparr>sh_crc := logfs_crc32 L (sh_bytes sh) LOGFS_SEGMENT_HEADERSIZE 4\<rparr>)"

section \<open>Journal entries\<close>

definition journal_header_of :: "nat \<Rightarrow> nat \<Rightarrow> u16 \<Rightarrow> u8 \<Rightarrow> journal_header" where
  "journal_header_of len datalen type compr =
     \<lparr>h_crc = 0, h_len = cpu_to_be16 (of_nat len), h_datalen = cpu_to_be16 (of_nat datalen),
      h_type = cpu_to_be16 type, h_compr = compr, h_pad = [0x68, 0x65, 0x61, 0x64, 0x72]\<rparr>"

text \<open>\<open>__write_header\<close>: the header goes in front of the data, with a checksum over both.\<close>

definition write_header_of :: "'w lib \<Rightarrow> u8 list \<Rightarrow> nat \<Rightarrow> nat \<Rightarrow> nat \<Rightarrow> u16 \<Rightarrow> u8 \<Rightarrow> (nat \<times> u8 list) result" where
  "write_header_of L journal jpos len datalen type compr =
     and_then (put_at journal jpos (jh_bytes (journal_header_of len datalen type compr))) (\<lambda>journal.
       if length journal < jpos + len + 16 then Stuck
       else let crc = logfs_crc32 L (drop jpos journal) (len + 16) 4 in
         and_then (put_at journal jpos (mem_bytes crc)) (\<lambda>journal. Ok (align_up len 16 + 16, journal)))"

definition write_header :: "'w lib \<Rightarrow> u8 list \<Rightarrow> nat \<Rightarrow> nat \<Rightarrow> u16 \<Rightarrow> (nat \<times> u8 list) result" where
  "write_header L journal jpos datalen type = write_header_of L journal jpos datalen datalen type COMPR_NONE"

text \<open>
  What the four writers put at the start of the scratch buffer, and the type. \<open>je_anchor\<close> returns
  \<open>-ENOMEM\<close> as a size where the inode is missing and leaves the type unset.
\<close>

type_synonym 'w je_writer = "globals \<Rightarrow> 'w world \<Rightarrow> (u8 list \<times> u16 \<times> 'w world) result"

definition je_anchor :: "'w je_writer" where
  "je_anchor g w =
     and_then (find_or_create_inode LOGFS_INO_MASTER w) (\<lambda>(inode, w).
       if inode = 0 then Stuck
       else and_then (lift (inode_at (hp w) inode)) (\<lambda>i.
         let da = \<lparr>da_size = cpu_to_be64 (ucast (ucast LOGFS_RESERVED_INOS * sb_blocksize (sb w) :: u32)),
                   da_last_ino = cpu_to_be64 LOGFS_RESERVED_INOS, da_used_bytes = di_used_bytes (i_di i),
                   da_height = 0, da_pad = replicate 7 0,
                   da_data = take LOGFS_EMBEDDED_FIELDS (di_data (i_di i))\<rparr>
         in Ok (anchor_bytes da, JE_ANCHOR, w)))"

definition je_dynsb :: "'w je_writer" where
  "je_dynsb g w =
     (let dy = \<lparr>dy_gec = cpu_to_be64 0x1000, dy_sweeper = 0, dy_rename_dir = 0, dy_rename_pos = 0,
                dy_victim_ino = 0, dy_victim_parent = 0, dy_used_bytes = cpu_to_be64 (sb_used_bytes (sb w)),
                dy_generation = 0, dy_pad = 0\<rparr>
      in Ok (dynsb_bytes dy, JE_DYNSB, w))"

definition alias_val :: "segment_entry \<Rightarrow> u64" where
  "alias_val se = push_bit 32 (ucast (be32_to_cpu (se_ec_level se))) OR ucast (be32_to_cpu (se_valid se))"

definition alias_of :: "nat \<Rightarrow> nat \<Rightarrow> segment_entry \<Rightarrow> obj_alias" where
  "alias_of ashift i se =
     \<lparr>oa_ino = cpu_to_be64 LOGFS_INO_SEGFILE, oa_bix = cpu_to_be64 (of_nat (i div 2 ^ ashift)),
      oa_val = cpu_to_be64 (alias_val se), oa_level = 0, oa_pad = replicate 5 0,
      oa_child_no = cpu_to_be16 (of_nat (i mod 2 ^ ashift))\<rparr>"

fun alias_loop :: "nat \<Rightarrow> nat \<Rightarrow> segment_entry list \<Rightarrow> obj_alias list" where
  "alias_loop ashift i [] = []"
| "alias_loop ashift i (se # ses) =
     (if se_ec_level se \<noteq> 0 \<or> se_valid se \<noteq> 0 then alias_of ashift i se # alias_loop ashift (Suc i) ses
      else alias_loop ashift (Suc i) ses)"

text \<open>The scratch buffer has room for two blocks.\<close>

definition je_alias :: "'w je_writer" where
  "je_alias g w =
     (let n = unat (sb_no_segs (sb w)); bshift = unat (g_blockshift g) in
      if length (sb_segment_entry (sb w)) < n \<or> sb_no_segs (sb w) \<ge> 0x80000000 \<or> bshift < 3 \<or> bshift \<ge> 34 then Stuck
      else let oa = alias_loop (bshift - 3) 0 (take n (sb_segment_entry (sb w))) in
        if length oa * 32 > 2 * unat (sb_blocksize (sb w)) then Stuck
        else Ok (concat (map oa_bytes oa), JE_OBJ_ALIAS, w))"

definition je_commit :: "'w je_writer" where
  "je_commit g w = Ok (array_bytes (take (g_no_je g) (g_je_array g)), JE_COMMIT, w)"

text \<open>
  The middle of \<open>write_je\<close>: the contents go behind the place of the header, compressed where that makes
  them smaller, and are padded to 16 bytes. A negative \<open>max\<close> would reach \<open>deflate\<close> as a huge size.
\<close>

definition store_je :: "'w lib \<Rightarrow> nat \<Rightarrow> u8 list \<Rightarrow> u8 list \<Rightarrow> u16 \<Rightarrow> nat \<Rightarrow> (nat \<times> u8 \<times> u8 list) result" where
  "store_je L jpos journal scratch type blocksize =
     (let len = length scratch; data = jpos + 16; max = blocksize - jpos in
      if blocksize < jpos then Stuck
      else and_then (logfs_compress L scratch max) (\<lambda>(compr_len, out).
           and_then (put_at journal data out) (\<lambda>journal.
           and_then
             (if compr_len < 0 \<or> type = JE_COMMIT then
                (if len > max then Stuck
                 else and_then (put_at journal data scratch) (\<lambda>journal. Ok (len, COMPR_NONE, journal)))
              else Ok (nat compr_len, COMPR_ZLIB, journal)) (\<lambda>(compr_len, compr, journal).
           and_then (put_at journal (data + compr_len) (replicate (align_up compr_len 16 - compr_len) 0)) (\<lambda>journal.
             Ok (compr_len, compr, journal))))))"

text \<open>\<open>write_je\<close> returns the number of bytes it used, and the journal.\<close>

definition add_je :: "u64 \<Rightarrow> globals \<Rightarrow> globals result" where
  "add_je ofs g = (if g_no_je g \<ge> length (g_je_array g) then Stuck
     else Ok (g\<lparr>g_je_array := (g_je_array g)[g_no_je g := cpu_to_be64 ofs], g_no_je := Suc (g_no_je g)\<rparr>))"

definition write_je :: "'w lib \<Rightarrow> nat \<Rightarrow> u8 list \<Rightarrow> u32 \<Rightarrow> 'w je_writer \<Rightarrow> globals \<Rightarrow> 'w world \<Rightarrow>
    (nat \<times> u8 list \<times> globals \<times> 'w world) result" where
  "write_je L jpos journal segno writer g w =
     (let ofs = ucast segno * ucast (sb_segsize (sb w)) :: u64 in
      and_then (writer g w) (\<lambda>(scratch, type, w).
        and_then (if type \<noteq> JE_COMMIT then add_je (ofs + of_nat jpos) g else Ok g) (\<lambda>g.
          if scratch = [] then
            and_then (write_header L journal jpos 0 type) (\<lambda>(n, journal). Ok (n, journal, g, w))
          else
            and_then (store_je L jpos journal scratch type (unat (sb_blocksize (sb w)))) (\<lambda>(compr_len, compr, journal).
            and_then (write_header_of L journal jpos compr_len (length scratch) type compr) (\<lambda>(n, journal).
              Ok (n, journal, g, w))))))"

definition make_journal :: "'w lib \<Rightarrow> globals \<Rightarrow> 'w world \<Rightarrow> (int \<times> globals \<times> 'w world) result" where
  "make_journal L g w =
     (if sb_journal_seg (sb w) = [] then Stuck
      else let seg = sb_journal_seg (sb w) ! 0 in
        (let (ok, h) = malloc_buf (hp w) in
         if \<not> ok then Stuck
         else let journal = replicate (unat (sb_segsize (sb w))) 0 in
           (let (ok, h) = malloc_buf h; w = w\<lparr>hp := h\<rparr> in
            if \<not> ok then Stuck
            else
              and_then (put_at journal 0 (sh_bytes (set_segment_header L SEG_JOURNAL 0 seg))) (\<lambda>journal.
              let jpos = align_up 24 16 in
              and_then (write_je L jpos journal seg je_anchor g w) (\<lambda>(n, journal, g, w).
              let jpos = jpos + n in
              and_then (write_je L jpos journal seg je_dynsb g w) (\<lambda>(n, journal, g, w).
              let jpos = jpos + n in
              and_then (write_je L jpos journal seg je_alias g w) (\<lambda>(n, journal, g, w).
              let jpos = jpos + n in
              and_then (write_je L jpos journal seg je_commit g w) (\<lambda>(n, journal, g, w).
              and_then (dev_write L (ucast (seg * sb_segsize (sb w))) (unat (sb_segsize (sb w))) journal w) (\<lambda>(ret, w).
                Ok (ret, g, w))))))))))"

section \<open>The super blocks\<close>

primrec copy_journal_segs :: "nat \<Rightarrow> u32 list \<Rightarrow> u32 list \<Rightarrow> u32 list result" where
  "copy_journal_segs 0 from to = Ok to"
| "copy_journal_segs (Suc n) from to =
     and_then (copy_journal_segs n from to) (\<lambda>to.
       if n \<ge> length from \<or> n \<ge> length to then Stuck else Ok (to[n := cpu_to_be32 (from ! n)]))"

definition disk_super_of :: "'w lib \<Rightarrow> globals \<Rightarrow> super_block \<Rightarrow> u32 list \<Rightarrow> disk_super" where
  "disk_super_of L g s journal_segs =
     (let ds = zero_super\<lparr>ds_sh := set_segment_header L SEG_SUPER 0 0,
                 ds_magic := cpu_to_be64 LOGFS_MAGIC, ds_ifile_levels := 3, ds_iblock_levels := 4,
                 ds_data_levels := 1, ds_filesystem_size := cpu_to_be64 (sb_fssize s),
                 ds_segment_shift := g_segshift g, ds_block_shift := g_blockshift g,
                 ds_write_shift := g_writeshift g, ds_bad_seg_reserve := cpu_to_be32 (g_bad_seg_reserve g),
                 ds_journal_seg := journal_segs,
                 ds_super_ofs := [cpu_to_be64 (sb_ofs1 s), cpu_to_be64 (sb_ofs2 s)], ds_root_reserve := 0\<rparr>
      in ds\<lparr>ds_crc := logfs_crc32 L (ds_bytes ds) 256 (LOGFS_SEGMENT_HEADERSIZE + 12)\<rparr>)"

definition make_super :: "'w lib \<Rightarrow> globals \<Rightarrow> 'w world \<Rightarrow> (int \<times> globals \<times> 'w world) result" where
  "make_super L g w =
     (let secsize = align_up 256 (unat (sb_writesize (sb w))); (ok, h) = malloc_buf (hp w); w = w\<lparr>hp := h\<rparr> in
      if \<not> ok then Stuck
      else let g = g\<lparr>g_bad_seg_reserve := max (g_bad_seg_reserve g) (g_no_journal_segs g)\<rparr> in
        and_then (copy_journal_segs (unat (g_no_journal_segs g)) (sb_journal_seg (sb w)) (ds_journal_seg zero_super)) (\<lambda>segs.
        and_then (put_at (replicate secsize 0) 0 (ds_bytes (disk_super_of L g (sb w) segs))) (\<lambda>sector.
        and_then (dev_write L (sb_ofs1 (sb w)) secsize sector w) (\<lambda>(ret, w).
          if ret \<noteq> 0 then Ok (ret, g, w)
          else and_then (dev_write L (sb_ofs2 (sb w)) secsize sector w) (\<lambda>(ret, w). Ok (ret, g, w))))))"

end
