(* ===== verification/Journal_Read.thy ===== *)
theory Journal_Read
  imports Main Journal
begin

text \<open>
  What \<open>write_je\<close> and \<open>make_journal\<close> leave in the journal, stated through a reader of the format: it
  checks the checksum of an entry and unpacks its contents. The kernel's file system reads the journal
  in this way. \<open>inflate\<close> stands for zlib's decompression.
\<close>

section \<open>Bytes at a position\<close>

definition field :: "nat \<Rightarrow> nat \<Rightarrow> u8 list \<Rightarrow> u8 list" where
  "field pos n bs = take n (drop pos bs)"

lemma put_at_Ok:
  "put_at buf pos bs = Ok buf' \<longleftrightarrow> pos + length bs \<le> length buf \<and> buf' = take pos buf @ bs @ drop (pos + length bs) buf"
  by (auto simp: put_at_def)

lemma put_at_cases: "put_at buf pos bs = Stuck \<or> (\<exists>buf'. put_at buf pos bs = Ok buf')"
  by (auto simp: put_at_def)

lemma put_at_facts:
  assumes "put_at buf pos bs = Ok buf'"
  shows "length buf' = length buf" "pos + length bs \<le> length buf" "take pos buf' = take pos buf"
    "drop (pos + length bs) buf' = drop (pos + length bs) buf" "field pos (length bs) buf' = bs"
  using assms by (auto simp: put_at_Ok field_def)

lemma field_below: "take m buf' = take m buf \<Longrightarrow> p + n \<le> m \<Longrightarrow> field p n buf' = field p n buf"
proof -
  assume "take m buf' = take m buf" "p + n \<le> m"
  then have "take n (drop p (take m buf')) = take n (drop p (take m buf))" "n \<le> m - p" by simp_all
  then show ?thesis by (simp add: field_def drop_take min_absorb1)
qed

lemma field_above: "drop m buf' = drop m buf \<Longrightarrow> m \<le> p \<Longrightarrow> field p n buf' = field p n buf"
proof -
  assume "drop m buf' = drop m buf" "m \<le> p"
  then have "drop (p - m) (drop m buf') = drop (p - m) (drop m buf)" "p - m + m = p" by simp_all
  then show ?thesis by (simp add: field_def)
qed

lemma field_part: "a + n \<le> m \<Longrightarrow> field (pos + a) n buf = field a n (field pos m buf)"
  by (simp add: field_def drop_take min_absorb1 add.commute)

lemma field_append: "length xs = a \<Longrightarrow> length ys = n \<Longrightarrow> field a n (xs @ ys @ zs) = ys"
  by (simp add: field_def)

lemma field_join: "field p (m + n) buf = field p m buf @ field (p + m) n buf"
  by (simp add: field_def take_add add.commute)

lemma length_field: "p + n \<le> length buf \<Longrightarrow> length (field p n buf) = n"
  by (simp add: field_def)

section \<open>The reader\<close>

definition unpacks :: "(u8 list \<Rightarrow> u8 list) \<Rightarrow> u8 \<Rightarrow> u8 list \<Rightarrow> u8 list" where
  "unpacks inflate compr stored = (if compr = COMPR_ZLIB then inflate stored else stored)"

record je_entry =
  je_kind :: u16
  je_contents :: "u8 list"
  je_next :: nat

definition read_je :: "'w lib \<Rightarrow> (u8 list \<Rightarrow> u8 list) \<Rightarrow> u8 list \<Rightarrow> nat \<Rightarrow> je_entry option" where
  "read_je L inflate journal pos =
     (let len = unat (be16_to_cpu (of_bytes (field (pos + 4) 2 journal)));
          datalen = unat (be16_to_cpu (of_bytes (field (pos + 6) 2 journal)));
          type = be16_to_cpu (of_bytes (field (pos + 8) 2 journal));
          stored = field (pos + 16) len journal;
          contents = (if field (pos + 10) 1 journal = [COMPR_ZLIB] then inflate stored else stored) in
      if length journal < pos + 16 + align_up len 16 then None
      else if field pos 4 journal \<noteq> mem_bytes (logfs_crc32 L (field pos (len + 16) journal) (len + 16) 4) then None
      else if length contents \<noteq> datalen then None
      else Some \<lparr>je_kind = type, je_contents = contents, je_next = pos + 16 + align_up len 16\<rparr>)"

lemma align_16:
  assumes "n < 2 ^ 63"
  shows "align_up n 16 = (n + 15) div 16 * 16" "n \<le> align_up n 16" "16 dvd align_up n 16" "align_up n 16 < n + 16"
proof -
  have "n < 2 ^ LENGTH(64)" using assms by simp
  then have "unat (of_nat n :: u64) = n" by (rule of_nat_inverse [rotated]) simp
  then show *: "align_up n 16 = (n + 15) div 16 * 16"
    using unat_ALIGN [of 4 "of_nat n"] assms by (simp add: align_up_def)
  show "n \<le> align_up n 16" "16 dvd align_up n 16" "align_up n 16 < n + 16" unfolding * by presburger+
qed

text \<open>An entry does not depend on what comes behind it.\<close>

lemma read_je_prefix:
  assumes r: "read_je L inflate journal pos = Some e"
    and same: "take (je_next e) journal' = take (je_next e) journal" "length journal' = length journal"
  shows "read_je L inflate journal' pos = Some e"
proof -
  define len where "len = unat (be16_to_cpu (of_bytes (field (pos + 4) 2 journal)))"
  have "len < 2 ^ LENGTH(16)" unfolding len_def by (rule unsigned_less)
  then have up: "len \<le> align_up len 16" by (intro align_16) simp
  have nxt: "je_next e = pos + 16 + align_up len 16"
    using r unfolding read_je_def len_def [symmetric] by (auto simp: Let_def split: if_splits)
  have f: "field p n journal' = field p n journal" if "p + n \<le> pos + 16 + len" for p n
    by (rule field_below [OF same(1)]) (use that up nxt in simp)
  have h: "field (pos + 4) 2 journal' = field (pos + 4) 2 journal" "field (pos + 6) 2 journal' = field (pos + 6) 2 journal"
    "field (pos + 8) 2 journal' = field (pos + 8) 2 journal" "field (pos + 10) 1 journal' = field (pos + 10) 1 journal"
    "field pos 4 journal' = field pos 4 journal"
    by (rule f; simp)+
  have s: "field (pos + 16) len journal' = field (pos + 16) len journal"
    "field pos (len + 16) journal' = field pos (len + 16) journal" by (rule f; simp)+
  show ?thesis using r unfolding read_je_def h same(2) len_def [symmetric] Let_def s .
qed

section \<open>Writing an entry\<close>

lemma jh_fields:
  assumes "length (h_pad jh) = 5"
  shows "length (jh_bytes jh) = 16" "field 0 4 (jh_bytes jh) = mem_bytes (h_crc jh)"
    "field 4 2 (jh_bytes jh) = mem_bytes (h_len jh)" "field 6 2 (jh_bytes jh) = mem_bytes (h_datalen jh)"
    "field 8 2 (jh_bytes jh) = mem_bytes (h_type jh)" "field 10 1 (jh_bytes jh) = [h_compr jh]"
    "drop 4 (jh_bytes (jh\<lparr>h_crc := c\<rparr>)) = drop 4 (jh_bytes jh)"
  using assms by (simp_all add: jh_bytes_def field_def)

lemma crc_skips:
  assumes "field (pos + 4) (n - 4) a = field (pos + 4) (n - 4) b"
  shows "logfs_crc32 L (field pos n a) n 4 = logfs_crc32 L (drop pos b) n 4"
  using assms by (simp add: logfs_crc32_def field_def drop_take add.commute)

text \<open>
  The header goes in front of data that is in place already.
\<close>

lemma write_header_reads:
  assumes r: "write_header_of L journal jpos len datalen type compr = Ok (n, journal')"
    and small: "len < 2 ^ 16" "datalen < 2 ^ 16" and room: "jpos + 16 + align_up len 16 \<le> length journal"
    and contents: "unpacks inflate compr (field (jpos + 16) len journal) = contents" "length contents = datalen"
  shows "read_je L inflate journal' jpos = Some \<lparr>je_kind = type, je_contents = contents, je_next = jpos + n\<rparr>"
    and "n = align_up len 16 + 16" "length journal' = length journal" "take jpos journal' = take jpos journal"
proof -
  let ?jh = "journal_header_of len datalen type compr"
  obtain j1 where j1: "put_at journal jpos (jh_bytes ?jh) = Ok j1"
    and fit: "\<not> length j1 < jpos + len + 16" and n: "n = align_up len 16 + 16"
    and j2: "put_at j1 jpos (mem_bytes (logfs_crc32 L (drop jpos j1) (len + 16) 4)) = Ok journal'"
    using r by (auto simp: write_header_of_def and_then_Ok Let_def split: if_splits)
  let ?crc = "logfs_crc32 L (drop jpos j1) (len + 16) 4"
  have pad: "length (h_pad ?jh) = 5" by (simp add: journal_header_of_def)
  note H = jh_fields [OF pad]
  note P1 = put_at_facts [OF j1, unfolded H(1)]
  note P2 = put_at_facts [OF j2, unfolded length_mem_bytes_simps]
  show "n = align_up len 16 + 16" by (rule n)
  show len: "length journal' = length journal" using P1 P2 by simp
  show "take jpos journal' = take jpos journal" using P1 P2 by simp
  have up: "len \<le> align_up len 16" by (rule align_16) (use small in simp)
  define hb where "hb = jh_bytes ?jh"
  have hb: "field 4 2 hb = mem_bytes (cpu_to_be16 (of_nat len))" "field 6 2 hb = mem_bytes (cpu_to_be16 (of_nat datalen))"
    "field 8 2 hb = mem_bytes (cpu_to_be16 type)" "field 10 1 hb = [compr]"
    unfolding hb_def H by (simp_all add: journal_header_of_def)
  have hdr: "field (jpos + a) m journal' = field a m hb" if "4 \<le> a" "a + m \<le> 16" for a m
  proof -
    have "field (jpos + a) m journal' = field (jpos + a) m j1" by (rule field_above [OF P2(4)]) (use that in simp)
    also have "\<dots> = field a m (field jpos 16 j1)" by (rule field_part) (use that in simp)
    finally show ?thesis using P1(5) by (simp add: hb_def)
  qed
  have u: "unat (of_nat len :: u16) = len" "unat (of_nat datalen :: u16) = datalen"
    using small by (simp_all add: of_nat_inverse)
  have f: "unat (be16_to_cpu (of_bytes (field (jpos + 4) 2 journal'))) = len"
    "unat (be16_to_cpu (of_bytes (field (jpos + 6) 2 journal'))) = datalen"
    "be16_to_cpu (of_bytes (field (jpos + 8) 2 journal')) = type" "field (jpos + 10) 1 journal' = [compr]"
    using u by (simp_all add: hdr hb [unfolded One_nat_def] of_bytes_mem_bytes be_round_trips)
  have st: "field (jpos + 16) len journal' = field (jpos + 16) len journal"
    using field_above [OF P2(4), of "jpos + 16" len] field_above [OF P1(4), of "jpos + 16" len] by simp
  have "field (jpos + 4) (len + 16 - 4) journal' = field (jpos + 4) (len + 16 - 4) j1"
    by (rule field_above [OF P2(4)]) simp
  then have "logfs_crc32 L (field jpos (len + 16) journal') (len + 16) 4 = ?crc" by (rule crc_skips)
  then have c: "field jpos 4 journal' = mem_bytes (logfs_crc32 L (field jpos (len + 16) journal') (len + 16) 4)"
    using P2(5) by simp
  show "read_je L inflate journal' jpos = Some \<lparr>je_kind = type, je_contents = contents, je_next = jpos + n\<rparr>"
    unfolding read_je_def f st Let_def using c contents room len n by (simp add: unpacks_def)
qed

text \<open>What zlib documents: decompression undoes a compression that succeeded.\<close>

definition inflates :: "'w lib \<Rightarrow> (u8 list \<Rightarrow> u8 list) \<Rightarrow> bool" where
  "inflates L inflate \<longleftrightarrow> (\<forall>inp n out. z_deflate L inp n = (True, out) \<longrightarrow> inflate out = inp)"

lemma logfs_compress_cases:
  assumes "logfs_compress L inp n = Ok (k, out)"
  shows "length out \<le> n" "k < 0 \<or> k = int (length out) \<and> length out < length inp \<and> z_deflate L inp n = (True, out)"
  using assms by (auto simp: logfs_compress_def EIO_def Let_def split: prod.splits if_splits)

definition noted :: "u16 \<Rightarrow> u64 \<Rightarrow> globals \<Rightarrow> globals \<Rightarrow> bool" where
  "noted type ofs g g' \<longleftrightarrow> (if type = JE_COMMIT then g' = g else add_je ofs g = Ok g')"

lemma noted_array:
  "noted type ofs g g' \<Longrightarrow> type \<noteq> JE_COMMIT \<Longrightarrow>
     take (g_no_je g') (g_je_array g') = take (g_no_je g) (g_je_array g) @ [cpu_to_be64 ofs]"
  by (auto simp: noted_def add_je_def take_Suc_upd split: if_splits)

lemma noted_iff: "(if type \<noteq> JE_COMMIT then add_je ofs g else Ok g) = Ok g' \<longleftrightarrow> noted type ofs g g'"
  by (auto simp: noted_def)

lemma store_je_spec:
  assumes r: "store_je L jpos journal scratch type bsize = Ok (len, compr, j)" and z: "inflates L inflate"
    and small: "length scratch < 2 ^ 16" "bsize < 2 ^ 16"
  shows "len < 2 ^ 16" "unpacks inflate compr (field (jpos + 16) len j) = scratch"
    "jpos + 16 + align_up len 16 \<le> length j" "length j = length journal" "take jpos j = take jpos journal"
proof -
  let ?max = "bsize - jpos"
  obtain k out where c: "logfs_compress L scratch ?max = Ok (k, out)"
    using r by (cases "logfs_compress L scratch ?max") (auto simp: store_je_def Let_def split: if_splits)
  obtain j1 where j1: "put_at journal (jpos + 16) out = Ok j1"
    using r put_at_cases [of journal "jpos + 16" out] by (auto simp: store_je_def Let_def c split: if_splits)
  obtain j2 where sel: "(if k < 0 \<or> type = JE_COMMIT then
                 (if length scratch > ?max then Stuck
                  else and_then (put_at j1 (jpos + 16) scratch) (\<lambda>j. Ok (length scratch, COMPR_NONE, j)))
               else Ok (nat k, COMPR_ZLIB, j1)) = Ok (len, compr, j2)"
    and j3: "put_at j2 (jpos + 16 + len) (replicate (align_up len 16 - len) 0) = Ok j"
    using r by (auto simp: store_je_def Let_def c j1 and_then_Ok simp del: if_split split: if_split_asm)
  note C = logfs_compress_cases [OF c]
  note F1 = put_at_facts [OF j1]
  have s: "len < 2 ^ 16 \<and> unpacks inflate compr (field (jpos + 16) len j2) = scratch
    \<and> length j2 = length journal \<and> take (jpos + 16) j2 = take (jpos + 16) journal"
  proof (cases "k < 0 \<or> type = JE_COMMIT")
    case True
    then have p: "put_at j1 (jpos + 16) scratch = Ok j2" "len = length scratch" "compr = COMPR_NONE"
      using sel by (auto simp: and_then_Ok split: if_splits)
    show ?thesis using put_at_facts [OF p(1)] F1 p small by (simp add: unpacks_def COMPR_NONE_def COMPR_ZLIB_def)
  next
    case False
    then have p: "j2 = j1" "len = nat k" "compr = COMPR_ZLIB" using sel by auto
    have k: "len = length out" "z_deflate L scratch ?max = (True, out)" using C False p by auto
    have "inflate out = scratch" using z k(2) unfolding inflates_def by blast
    then show ?thesis using F1 p k(1) C(1) small by (simp add: unpacks_def)
  qed
  then show "len < 2 ^ 16" by simp
  then have up: "len \<le> align_up len 16" by (intro align_16) simp
  note F3 = put_at_facts [OF j3]
  show "jpos + 16 + align_up len 16 \<le> length j" using F3(1,2) up by simp
  have "field (jpos + 16) len j = field (jpos + 16) len j2" by (rule field_below [OF F3(3)]) simp
  then show "unpacks inflate compr (field (jpos + 16) len j) = scratch" using s by simp
  show "length j = length journal" using s F3(1) by simp
  have "take jpos j = take jpos (take (jpos + 16 + len) j)" by simp
  also have "\<dots> = take jpos (take (jpos + 16) j2)" unfolding F3(3) by simp
  finally show "take jpos j = take jpos journal" using s by simp
qed

lemma write_je_reads:
  assumes r: "write_je L jpos journal segno wr g w = Ok (n, journal', g', w')"
    and wr: "wr g w = Ok (scratch, type, w1)" and z: "inflates L inflate"
    and small: "length scratch < 2 ^ 16" "unat (sb_blocksize (sb w1)) < 2 ^ 16"
  shows "read_je L inflate journal' jpos = Some \<lparr>je_kind = type, je_contents = scratch, je_next = jpos + n\<rparr>"
    and "16 dvd n" "length journal' = length journal" "take jpos journal' = take jpos journal"
    and "w' = w1" "noted type (ucast segno * ucast (sb_segsize (sb w)) + of_nat jpos) g g'"
proof -
  obtain j len compr where h: "write_header_of L j jpos len (length scratch) type compr = Ok (n, journal')"
    and b: "len < 2 ^ 16" "unpacks inflate compr (field (jpos + 16) len j) = scratch" "jpos + 16 + align_up len 16 \<le> length j"
      "length j = length journal" "take jpos j = take jpos journal"
    and e: "w' = w1" "noted type (ucast segno * ucast (sb_segsize (sb w)) + of_nat jpos) g g'"
  proof (cases "scratch = []")
    case True
    have h: "write_header_of L journal jpos 0 0 type COMPR_NONE = Ok (n, journal')" "w' = w1"
      "noted type (ucast segno * ucast (sb_segsize (sb w)) + of_nat jpos) g g'"
      using r True by (auto simp: write_je_def wr and_then_Ok Let_def write_header_def noted_def split: if_splits)
    obtain j1 where "put_at journal jpos (jh_bytes (journal_header_of 0 0 type COMPR_NONE)) = Ok j1"
      using h(1) by (auto simp: write_header_of_def and_then_Ok)
    from put_at_facts(2) [OF this] have "jpos + 16 \<le> length journal" by (simp add: jh_fields journal_header_of_def)
    moreover have "align_up 0 16 = 0" by code_simp
    ultimately show ?thesis using that [of journal 0 COMPR_NONE] h True
      by (simp add: field_def unpacks_def COMPR_ZLIB_def COMPR_NONE_def)
  next
    case False
    obtain len compr j where s: "store_je L jpos journal scratch type (unat (sb_blocksize (sb w1))) = Ok (len, compr, j)"
      and h: "write_header_of L j jpos len (length scratch) type compr = Ok (n, journal')" "w' = w1"
      and nt: "noted type (ucast segno * ucast (sb_segsize (sb w)) + of_nat jpos) g g'"
      using r False by (auto simp: write_je_def wr and_then_Ok Let_def noted_def split: if_splits)
    show ?thesis by (rule that [of j len compr]) (use store_je_spec [OF s z small] h nt in auto)
  qed
  note W = write_header_reads [OF h b(1) small(1) b(3) b(2) refl]
  show "read_je L inflate journal' jpos = Some \<lparr>je_kind = type, je_contents = scratch, je_next = jpos + n\<rparr>" by (rule W(1))
  have "len < 2 ^ 63" using b(1) by simp
  then show "16 dvd n" unfolding W(2) using align_16(3) by simp
  show "length journal' = length journal" "take jpos journal' = take jpos journal" using W(3,4) b by simp_all
  show "w' = w1" "noted type (ucast segno * ucast (sb_segsize (sb w)) + of_nat jpos) g g'" by (rule e)+
qed

section \<open>Aliases\<close>

text \<open>Reading the aliases back, and what they say about the segment file: entry \<open>child_no\<close> of block \<open>bix\<close>.\<close>

definition read_alias :: "u8 list \<Rightarrow> obj_alias" where
  "read_alias bs = \<lparr>oa_ino = of_bytes (field 0 8 bs), oa_bix = of_bytes (field 8 8 bs), oa_val = of_bytes (field 16 8 bs),
     oa_level = of_bytes (field 24 1 bs), oa_pad = field 25 5 bs, oa_child_no = of_bytes (field 30 2 bs)\<rparr>"

fun read_aliases :: "u8 list \<Rightarrow> obj_alias list" where
  "read_aliases bs = (if length bs < 32 then [] else read_alias (take 32 bs) # read_aliases (drop 32 bs))"

declare read_aliases.simps [simp del]

definition alias_place :: "nat \<Rightarrow> obj_alias \<Rightarrow> nat" where
  "alias_place ashift oa = unat (be64_to_cpu (oa_bix oa)) * 2 ^ ashift + unat (be16_to_cpu (oa_child_no oa))"

definition alias_entry :: "obj_alias \<Rightarrow> segment_entry" where
  "alias_entry oa = (let v = be64_to_cpu (oa_val oa) in
     \<lparr>se_ec_level = cpu_to_be32 (ucast (drop_bit 32 v)), se_valid = cpu_to_be32 (ucast v)\<rparr>)"

definition apply_alias :: "nat \<Rightarrow> obj_alias \<Rightarrow> segment_entry list \<Rightarrow> segment_entry list" where
  "apply_alias ashift oa es = es[alias_place ashift oa := alias_entry oa]"

definition no_entry :: segment_entry where
  "no_entry = \<lparr>se_ec_level = 0, se_valid = 0\<rparr>"

lemma read_alias_bytes: "length (oa_pad oa) = 5 \<Longrightarrow> read_alias (oa_bytes oa) = oa"
  by (simp add: read_alias_def field_def oa_bytes_def of_bytes_mem_bytes)

lemma read_aliases_bytes: "\<forall>oa \<in> set oas. length (oa_pad oa) = 5 \<Longrightarrow> read_aliases (concat (map oa_bytes oas)) = oas"
proof (induction oas)
  case (Cons oa oas)
  have "length (oa_bytes oa) = 32" using Cons.prems by (simp add: oa_bytes_def)
  then show ?case using Cons by (subst read_aliases.simps) (simp add: read_alias_bytes)
qed (simp add: read_aliases.simps)

lemma alias_pad: "oa \<in> set (alias_loop ashift i ses) \<Longrightarrow> length (oa_pad oa) = 5"
  by (induction ashift i ses rule: alias_loop.induct) (auto simp: alias_of_def split: if_splits)

lemma alias_of_place:
  assumes "i < 2 ^ 32" "ashift \<le> 16"
  shows "alias_place ashift (alias_of ashift i se) = i"
proof -
  have "i div 2 ^ ashift < 2 ^ LENGTH(64)" by (rule order.strict_trans1 [OF div_le_dividend]) (use assms in simp)
  then have b: "unat (of_nat (i div 2 ^ ashift) :: u64) = i div 2 ^ ashift" by (rule of_nat_inverse [rotated]) simp
  have "(2 :: nat) ^ ashift \<le> 2 ^ 16" by (rule power_increasing) (use assms in simp_all)
  then have "i mod 2 ^ ashift < 2 ^ LENGTH(16)" by (intro order.strict_trans2 [OF mod_less_divisor]) simp_all
  then have "unat (of_nat (i mod 2 ^ ashift) :: u16) = i mod 2 ^ ashift" by (rule of_nat_inverse [rotated]) simp
  then show ?thesis using b by (simp add: alias_place_def alias_of_def be_round_trips div_mult_mod_eq)
qed

lemma alias_of_entry: "alias_entry (alias_of ashift i se) = se"
proof -
  let ?v = "alias_val se"
  have "ucast (drop_bit 32 ?v) = be32_to_cpu (se_ec_level se)"
    by (rule bit_word_eqI) (auto simp: alias_val_def bit_simps dest: bit_imp_le_length)
  moreover have "ucast ?v = be32_to_cpu (se_valid se)"
    by (rule bit_word_eqI) (auto simp: alias_val_def bit_simps)
  ultimately show ?thesis by (simp add: alias_entry_def alias_of_def be_round_trips)
qed

lemma aliases_restore:
  assumes "length es + length ses < 2 ^ 32" "ashift \<le> 16"
  shows "fold (apply_alias ashift) (alias_loop ashift (length es) ses) (es @ replicate (length ses) no_entry) = es @ ses"
  using assms(1)
proof (induction ses arbitrary: es)
  case (Cons se ses)
  have "fold (apply_alias ashift) (alias_loop ashift (length (es @ [se])) ses) ((es @ [se]) @ replicate (length ses) no_entry)
    = (es @ [se]) @ ses" by (rule Cons.IH) (use Cons.prems in simp)
  moreover have "apply_alias ashift (alias_of ashift (length es) se) (es @ replicate (length (se # ses)) no_entry)
    = (es @ [se]) @ replicate (length ses) no_entry"
    using alias_of_place [of "length es" ashift se] Cons.prems assms(2) by (simp add: apply_alias_def alias_of_entry)
  moreover have "se_ec_level se = 0 \<and> se_valid se = 0 \<longleftrightarrow> se = no_entry" by (cases se) (simp add: no_entry_def)
  ultimately show ?case by auto
qed simp

lemma alias_loop_length: "length (alias_loop ashift i ses) = length (filter (\<lambda>se. se \<noteq> no_entry) ses)"
proof (induction ashift i ses rule: alias_loop.induct)
  case (2 ashift i se ses)
  have "se_ec_level se = 0 \<and> se_valid se = 0 \<longleftrightarrow> se = no_entry" by (cases se) (simp add: no_entry_def)
  then show ?case using 2 by auto
qed simp

lemma alias_bytes_length: "length (concat (map oa_bytes (alias_loop ashift i ses))) = 32 * length (alias_loop ashift i ses)"
proof -
  have "length (oa_bytes oa) = 32" if "oa \<in> set (alias_loop ashift i ses)" for oa
    using alias_pad [OF that] by (simp add: oa_bytes_def)
  then have "map (length \<circ> oa_bytes) (alias_loop ashift i ses) = replicate (length (alias_loop ashift i ses)) 32"
    by (intro replicate_eqI) auto
  then show ?thesis by (simp add: length_concat sum_list_replicate)
qed

lemma je_alias_spec:
  assumes r: "je_alias g w = Ok (scratch, type, w')" and g: "g_blockshift g = 12" "sb_blocksize (sb w) = 4096"
    and n: "length (sb_segment_entry (sb w)) = unat (sb_no_segs (sb w))"
  shows "type = JE_OBJ_ALIAS" "w' = w" "length scratch \<le> 8192"
    "fold (apply_alias 9) (read_aliases scratch) (replicate (unat (sb_no_segs (sb w))) no_entry) = sb_segment_entry (sb w)"
proof -
  let ?es = "sb_segment_entry (sb w)"
  have s: "scratch = concat (map oa_bytes (alias_loop 9 0 ?es))" "32 * length (alias_loop 9 0 ?es) \<le> 8192"
    "type = JE_OBJ_ALIAS \<and> w' = w"
    using r g n by (auto simp: je_alias_def Let_def split: if_splits)
  then show "type = JE_OBJ_ALIAS" "w' = w" by simp_all
  show "length scratch \<le> 8192" using s by (simp add: alias_bytes_length)
  have "read_aliases scratch = alias_loop 9 0 ?es" unfolding s(1) by (rule read_aliases_bytes) (auto intro: alias_pad)
  moreover have "length ?es < 2 ^ 32" using u32_bound [of "sb_no_segs (sb w)"] n by simp
  then have "fold (apply_alias 9) (alias_loop 9 0 ?es) (replicate (unat (sb_no_segs (sb w))) no_entry) = ?es"
    using aliases_restore [of "[]" ?es 9] n by simp
  ultimately show "fold (apply_alias 9) (read_aliases scratch) (replicate (unat (sb_no_segs (sb w))) no_entry) = ?es" by simp
qed

section \<open>The other writers\<close>

definition anchor_of :: "disk_inode \<Rightarrow> je_anchor_rec" where
  "anchor_of d = \<lparr>da_size = cpu_to_be64 (ucast (ucast LOGFS_RESERVED_INOS * 4096 :: u32)),
     da_last_ino = cpu_to_be64 LOGFS_RESERVED_INOS, da_used_bytes = di_used_bytes d, da_height = 0,
     da_pad = replicate 7 0, da_data = take LOGFS_EMBEDDED_FIELDS (di_data d)\<rparr>"

definition dynsb_of :: "u64 \<Rightarrow> je_dynsb_rec" where
  "dynsb_of used = \<lparr>dy_gec = cpu_to_be64 0x1000, dy_sweeper = 0, dy_rename_dir = 0, dy_rename_pos = 0,
     dy_victim_ino = 0, dy_victim_parent = 0, dy_used_bytes = cpu_to_be64 used, dy_generation = 0, dy_pad = 0\<rparr>"

lemma je_anchor_spec:
  assumes fs: "fs_with F w" and r: "je_anchor g w = Ok (scratch, type, w')" and bs: "sb_blocksize (sb w) = 4096"
  shows "type = JE_ANCHOR" "scratch = anchor_bytes (anchor_of (old_di w LOGFS_INO_MASTER))" "length scratch \<le> 200"
    "\<exists>p. found_inode F w LOGFS_INO_MASTER p w'"
proof -
  obtain p where f: "found_inode F w LOGFS_INO_MASTER p w'" "p \<noteq> 0"
    and i: "type = JE_ANCHOR" "\<exists>i. inode_at (hp w') p = Some i \<and> scratch = anchor_bytes (anchor_of (i_di i))"
    using find_or_create_inode_result [OF fs, of LOGFS_INO_MASTER] r
  proof (elim disjE exE conjE, goal_cases)
    case (2 p w1)
    obtain tree where "sb w1 = (sb w)\<lparr>sb_ino_tree := tree\<rparr>" using found_inode_frame(1) [OF 2(4)] by blast
    then have "sb_blocksize (sb w1) = 4096" using bs by simp
    then show ?thesis using 2 by (intro 2(1) [of p]) (auto simp: je_anchor_def and_then_Ok anchor_of_def Let_def split: if_splits)
  qed (simp add: je_anchor_def)
  have fs': "fs_with F w'" by (rule found_inode_frame(2) [OF f(1)])
  have ptr: "ino_ptr w' LOGFS_INO_MASTER = Some p" by (rule found_inode_frame(6) [OF f])
  have d: "di_of w' LOGFS_INO_MASTER = Some (old_di w LOGFS_INO_MASTER)" by (rule found_old_di [OF fs f])
  have "\<exists>i. inode_at (hp w') p = Some i \<and> i_di i = old_di w LOGFS_INO_MASTER" using ptr_inode [OF fs' ptr] d by auto
  then show s: "scratch = anchor_bytes (anchor_of (old_di w LOGFS_INO_MASTER))" using i(2) by auto
  show "type = JE_ANCHOR" by (rule i(1))
  show "length scratch \<le> 200" unfolding s by (simp add: anchor_bytes_def anchor_of_def length_array_bytes abi_sizes)
  show "\<exists>p. found_inode F w LOGFS_INO_MASTER p w'" using f(1) by blast
qed

section \<open>The whole journal\<close>

primrec read_journal :: "'w lib \<Rightarrow> (u8 list \<Rightarrow> u8 list) \<Rightarrow> u8 list \<Rightarrow> nat \<Rightarrow> nat \<Rightarrow> je_entry list option" where
  "read_journal L inflate journal 0 pos = Some []"
| "read_journal L inflate journal (Suc n) pos = (case read_je L inflate journal pos of
       None \<Rightarrow> None
     | Some e \<Rightarrow> map_option (\<lambda>es. e # es) (read_journal L inflate journal n (je_next e)))"

lemma read_journal_4:
  "read_je L inflate j p0 = Some e1 \<Longrightarrow> read_je L inflate j (je_next e1) = Some e2 \<Longrightarrow>
   read_je L inflate j (je_next e2) = Some e3 \<Longrightarrow> read_je L inflate j (je_next e3) = Some e4 \<Longrightarrow>
   read_journal L inflate j 4 p0 = Some [e1, e2, e3, e4]"
  by (simp add: eval_nat_numeral)

text \<open>One more entry leaves the ones in front readable.\<close>

lemma read_je_later:
  assumes "read_je L inflate j pos = Some e" "take m j' = take m j" "length j' = length j" "je_next e \<le> m"
  shows "read_je L inflate j' pos = Some e"
proof -
  have "take (je_next e) (take m j') = take (je_next e) (take m j)" using assms(2) by simp
  then show ?thesis using assms(3,4) by (intro read_je_prefix [OF assms(1)]) (simp_all add: min_absorb1)
qed

text \<open>
  What the journal has to say: an anchor with the inode file, the number of bytes used, the segment
  entries that differ from zero, and at the end the device offsets of the three.
\<close>

definition journal_says :: "'w lib \<Rightarrow> (u8 list \<Rightarrow> u8 list) \<Rightarrow> 'w world \<Rightarrow> u64 \<Rightarrow> nat \<Rightarrow> u8 list \<Rightarrow> bool" where
  "journal_says L inflate w base pos journal \<longleftrightarrow> (\<exists>e1 e2 e3 e4.
     read_journal L inflate journal 4 pos = Some [e1, e2, e3, e4]
     \<and> map je_kind [e1, e2, e3, e4] = [JE_ANCHOR, JE_DYNSB, JE_OBJ_ALIAS, JE_COMMIT]
     \<and> je_contents e1 = anchor_bytes (anchor_of (old_di w LOGFS_INO_MASTER))
     \<and> je_contents e2 = dynsb_bytes (dynsb_of (sb_used_bytes (sb w)))
     \<and> fold (apply_alias 9) (read_aliases (je_contents e3)) (replicate (unat (sb_no_segs (sb w))) no_entry)
         = sb_segment_entry (sb w)
     \<and> je_contents e4 = array_bytes (map cpu_to_be64
         [base + of_nat pos, base + of_nat (je_next e1), base + of_nat (je_next e2)]))"

lemma journal_entries:
  assumes fs: "fs_with F w" and z: "inflates L inflate"
    and geo: "g_blockshift g = 12" "sb_blocksize (sb w) = 4096" "length (sb_segment_entry (sb w)) = unat (sb_no_segs (sb w))"
    and g: "g_no_je g = 0"
    and w1: "write_je L p0 j0 seg je_anchor g w = Ok (n1, j1, g1, w1)"
    and w2: "write_je L (p0 + n1) j1 seg je_dynsb g1 w1 = Ok (n2, j2, g2, w2)"
    and w3: "write_je L (p0 + n1 + n2) j2 seg je_alias g2 w2 = Ok (n3, j3, g3, w3)"
    and w4: "write_je L (p0 + n1 + n2 + n3) j3 seg je_commit g3 w3 = Ok (n4, j4, g4, w4)"
  defines "base \<equiv> ucast seg * ucast (sb_segsize (sb w)) :: u64"
  shows "journal_says L inflate w base p0 j4 \<and> length j4 = length j0 \<and> take p0 j4 = take p0 j0
     \<and> (\<exists>p. found_inode F w LOGFS_INO_MASTER p w4)"
proof -
  obtain s1 t1 v1 where a1: "je_anchor g w = Ok (s1, t1, v1)" using w1 by (auto simp: write_je_def and_then_Ok)
  note A = je_anchor_spec [OF fs a1 geo(2)]
  obtain p where f: "found_inode F w LOGFS_INO_MASTER p v1" using A(4) by blast
  obtain tree where sb1: "sb v1 = (sb w)\<lparr>sb_ino_tree := tree\<rparr>" using found_inode_frame(1) [OF f] by blast
  have W1: "read_je L inflate j1 p0 = Some \<lparr>je_kind = t1, je_contents = s1, je_next = p0 + n1\<rparr>"
    "length j1 = length j0" "take p0 j1 = take p0 j0" "w1 = v1" "noted t1 (base + of_nat p0) g g1"
    using write_je_reads [OF w1 a1 z] A(3) geo(2) unfolding base_def by (simp_all add: sb1)
  have a2: "je_dynsb g1 w1 = Ok (dynsb_bytes (dynsb_of (sb_used_bytes (sb w))), JE_DYNSB, w1)"
    by (simp add: je_dynsb_def dynsb_of_def W1(4) sb1)
  have W2: "read_je L inflate j2 (p0 + n1) = Some \<lparr>je_kind = JE_DYNSB, je_contents = dynsb_bytes (dynsb_of (sb_used_bytes (sb w))), je_next = p0 + n1 + n2\<rparr>"
    "length j2 = length j1" "take (p0 + n1) j2 = take (p0 + n1) j1" "w2 = w1" "noted JE_DYNSB (base + of_nat (p0 + n1)) g1 g2"
    using write_je_reads [OF w2 a2 z] geo(2) unfolding base_def by (simp_all add: sb1 W1(4))
  have w2w: "w2 = v1" using W1(4) W2(4) by simp
  obtain s3 t3 v3 where a3: "je_alias g2 w2 = Ok (s3, t3, v3)" using w3 by (auto simp: write_je_def and_then_Ok)
  have gb: "g_blockshift g2 = 12"
    using geo(1) W1(5) W2(5) by (auto simp: noted_def add_je_def split: if_splits)
  note X = je_alias_spec [OF a3 gb]
  have X': "t3 = JE_OBJ_ALIAS" "v3 = v1" "length s3 \<le> 8192"
    "fold (apply_alias 9) (read_aliases s3) (replicate (unat (sb_no_segs (sb w))) no_entry) = sb_segment_entry (sb w)"
    using X geo w2w by (simp_all add: sb1)
  have W3: "read_je L inflate j3 (p0 + n1 + n2) = Some \<lparr>je_kind = t3, je_contents = s3, je_next = p0 + n1 + n2 + n3\<rparr>"
    "length j3 = length j2" "take (p0 + n1 + n2) j3 = take (p0 + n1 + n2) j2" "w3 = v3" "noted t3 (base + of_nat (p0 + n1 + n2)) g2 g3"
    using write_je_reads [OF w3 a3 z] geo(2) X'(2,3) w2w unfolding base_def by (simp_all add: sb1)
  have w3w: "w3 = v1" using W3(4) X'(2) by simp
  have arr: "take (g_no_je g3) (g_je_array g3) = map cpu_to_be64 [base + of_nat p0, base + of_nat (p0 + n1), base + of_nat (p0 + n1 + n2)]"
    using noted_array [OF W1(5)] noted_array [OF W2(5)] noted_array [OF W3(5)] A(1) X'(1) g
    by (simp add: JE_ANCHOR_def JE_DYNSB_def JE_OBJ_ALIAS_def JE_COMMIT_def)
  let ?c = "array_bytes (map cpu_to_be64 [base + of_nat p0, base + of_nat (p0 + n1), base + of_nat (p0 + n1 + n2)])"
  have a4: "je_commit g3 w3 = Ok (?c, JE_COMMIT, w3)" by (simp only: je_commit_def arr)
  have lc: "length ?c < 2 ^ 16" by (simp add: length_array_bytes)
  have W4: "read_je L inflate j4 (p0 + n1 + n2 + n3) = Some \<lparr>je_kind = JE_COMMIT, je_contents = ?c, je_next = p0 + n1 + n2 + n3 + n4\<rparr>"
    "length j4 = length j3" "take (p0 + n1 + n2 + n3) j4 = take (p0 + n1 + n2 + n3) j3" "w4 = w3"
    using write_je_reads [OF w4 a4 z lc] geo(2) w3w by (simp_all add: sb1)
  have R3: "read_je L inflate j4 (p0 + n1 + n2) = Some \<lparr>je_kind = t3, je_contents = s3, je_next = p0 + n1 + n2 + n3\<rparr>"
    by (rule read_je_later [OF W3(1) W4(3,2)]) simp
  have R2: "read_je L inflate j4 (p0 + n1) = Some \<lparr>je_kind = JE_DYNSB, je_contents = dynsb_bytes (dynsb_of (sb_used_bytes (sb w))), je_next = p0 + n1 + n2\<rparr>"
    by (rule read_je_later [OF read_je_later [OF W2(1) W3(3,2)] W4(3,2)]) simp_all
  have R1: "read_je L inflate j4 p0 = Some \<lparr>je_kind = t1, je_contents = s1, je_next = p0 + n1\<rparr>"
    by (rule read_je_later [OF read_je_later [OF read_je_later [OF W1(1) W2(3,2)] W3(3,2)] W4(3,2)]) simp_all
  have J: "read_journal L inflate j4 4 p0 = Some [\<lparr>je_kind = t1, je_contents = s1, je_next = p0 + n1\<rparr>,
      \<lparr>je_kind = JE_DYNSB, je_contents = dynsb_bytes (dynsb_of (sb_used_bytes (sb w))), je_next = p0 + n1 + n2\<rparr>,
      \<lparr>je_kind = t3, je_contents = s3, je_next = p0 + n1 + n2 + n3\<rparr>,
      \<lparr>je_kind = JE_COMMIT, je_contents = ?c, je_next = p0 + n1 + n2 + n3 + n4\<rparr>]"
    by (rule read_journal_4) (simp_all only: R1 R2 R3 W4(1) je_entry.simps)
  have front: "take p0 j4 = take p0 j0"
  proof -
    have "take p0 j4 = take p0 (take (p0 + n1 + n2 + n3) j4)" by simp
    also have "\<dots> = take p0 (take (p0 + n1 + n2) j3)" unfolding W4(3) by simp
    also have "\<dots> = take p0 (take (p0 + n1) j2)" unfolding W3(3) by simp
    also have "\<dots> = take p0 j1" unfolding W2(3) by simp
    finally show ?thesis using W1(3) by simp
  qed
  have "journal_says L inflate w base p0 j4" unfolding journal_says_def
    by (rule exI, rule exI, rule exI, rule exI, rule conjI, rule J) (use A(1,2) X'(1,4) in simp)
  then show ?thesis using front W1(2) W2(2) W3(2) W4(2,4) w3w f by auto
qed

section \<open>The journal can be written\<close>

text \<open>zlib never writes beyond the room it is given.\<close>

definition deflate_bounded :: "'w lib \<Rightarrow> bool" where
  "deflate_bounded L \<longleftrightarrow> (\<forall>inp n. length (snd (z_deflate L inp n)) \<le> n)"

lemma put_at_fits: "pos + length bs \<le> length buf \<Longrightarrow> \<exists>buf'. put_at buf pos bs = Ok buf' \<and> length buf' = length buf"
  by (auto simp: put_at_def)

lemma write_header_returns:
  assumes "jpos + len + 16 \<le> length j"
  shows "\<exists>j'. write_header_of L j jpos len datalen type compr = Ok (align_up len 16 + 16, j') \<and> length j' = length j"
proof -
  let ?h = "jh_bytes (journal_header_of len datalen type compr)"
  have "length ?h = 16" by (simp add: jh_fields journal_header_of_def)
  then obtain j1 where j1: "put_at j jpos ?h = Ok j1" "length j1 = length j" using put_at_fits [of jpos ?h j] assms by auto
  obtain j2 where "put_at j1 jpos (mem_bytes (logfs_crc32 L (drop jpos j1) (len + 16) 4)) = Ok j2" "length j2 = length j1"
    using put_at_fits [of jpos "mem_bytes (logfs_crc32 L (drop jpos j1) (len + 16) 4)" j1] assms j1(2) by auto
  then show ?thesis using j1 assms by (simp add: write_header_of_def Let_def)
qed

lemma store_je_returns:
  assumes B: "deflate_bounded L" and room: "jpos + length scratch \<le> bsize" "bsize + 32 \<le> length j"
    and small: "length scratch < 2 ^ 16"
  shows "\<exists>len compr j'. store_je L jpos j scratch type bsize = Ok (len, compr, j') \<and> len \<le> length scratch \<and> length j' = length j"
proof -
  let ?max = "bsize - jpos"
  obtain good out where d: "z_deflate L scratch ?max = (good, out)" by fastforce
  then have out: "length out \<le> ?max" using B by (metis deflate_bounded_def snd_conv)
  define k where "k = (if good \<and> length out < length scratch then int (length out) else - EIO)"
  have c: "logfs_compress L scratch ?max = Ok (k, out)" "k \<le> int (length scratch)"
    using d out by (auto simp: logfs_compress_def k_def EIO_def)
  have fit: "jpos + 16 + length out \<le> length j" using out room by simp
  obtain j1 where j1: "put_at j (jpos + 16) out = Ok j1" "length j1 = length j" using put_at_fits [OF fit] by blast
  obtain j2 where j2: "put_at j1 (jpos + 16) scratch = Ok j2" "length j2 = length j1"
    using put_at_fits [of "jpos + 16" scratch j1] j1(2) room by auto
  have pad: "\<exists>j'. put_at i (jpos + 16 + len) (replicate (align_up len 16 - len) 0) = Ok j' \<and> length j' = length i"
    if "len \<le> length scratch" "length i = length j" for i :: "u8 list" and len
    by (rule put_at_fits) (use align_16(2,4) [of len] that room small in simp)
  show ?thesis
  proof (cases "k < 0 \<or> type = JE_COMMIT")
    case True
    then show ?thesis using pad [of "length scratch" j2] c j1 j2 room by (auto simp: store_je_def Let_def)
  next
    case False
    then have k: "nat k \<le> length scratch" using c(2) by simp
    then show ?thesis using pad [of "nat k" j1] False c j1 room by (auto simp: store_je_def Let_def)
  qed
qed

lemma write_je_returns:
  assumes wr: "wr g w = Ok (scratch, type, w1)" and B: "deflate_bounded L"
    and room: "jpos + length scratch \<le> unat (sb_blocksize (sb w1))" "unat (sb_blocksize (sb w1)) + 32 \<le> length j"
    and small: "length scratch < 2 ^ 16" and g: "type = JE_COMMIT \<or> g_no_je g < length (g_je_array g)"
  shows "\<exists>n j' g'. write_je L jpos j segno wr g w = Ok (n, j', g', w1) \<and> n \<le> length scratch + 31 \<and> length j' = length j
     \<and> length (g_je_array g') = length (g_je_array g) \<and> g_no_je g' \<le> Suc (g_no_je g) \<and> g_blockshift g' = g_blockshift g"
proof -
  let ?g = "if type = JE_COMMIT then g else ok_val (add_je (ucast segno * ucast (sb_segsize (sb w)) + of_nat jpos) g)"
  obtain g' where g': "(if type \<noteq> JE_COMMIT then add_je (ucast segno * ucast (sb_segsize (sb w)) + of_nat jpos) g else Ok g) = Ok g'"
    "length (g_je_array g') = length (g_je_array g)" "g_no_je g' \<le> Suc (g_no_je g)" "g_blockshift g' = g_blockshift g"
    using g that [of ?g] by (cases "type = JE_COMMIT") (auto simp: add_je_def)
  have up: "align_up n 16 < n + 16" if "n \<le> length scratch" for n by (rule align_16) (use that small in simp)
  show ?thesis
  proof (cases "scratch = []")
    case True
    obtain j' where "write_header_of L j jpos 0 0 type COMPR_NONE = Ok (align_up 0 16 + 16, j')" "length j' = length j"
      using write_header_returns [of jpos 0 j L 0 type COMPR_NONE] room by auto
    then show ?thesis using True g' wr up [of 0] by (auto simp: write_je_def write_header_def)
  next
    case False
    obtain len compr j1 where s: "store_je L jpos j scratch type (unat (sb_blocksize (sb w1))) = Ok (len, compr, j1)"
      "len \<le> length scratch" "length j1 = length j" using store_je_returns [OF B room small] by blast
    obtain j' where "write_header_of L j1 jpos len (length scratch) type compr = Ok (align_up len 16 + 16, j')" "length j' = length j1"
      using write_header_returns [of jpos len j1 L "length scratch" type compr] s room by auto
    then show ?thesis using False g' wr s up [of len] by (auto simp: write_je_def)
  qed
qed

text \<open>
  The aliases may be too many for the buffers: at most 116 of them are sure to fit where they cannot be
  compressed.
\<close>

lemma je_alias_returns:
  assumes "g_blockshift g = 12" "sb_blocksize (sb w) = 4096" "length (sb_segment_entry (sb w)) = unat (sb_no_segs (sb w))"
    "sb_no_segs (sb w) < 2 ^ 31" "length (filter (\<lambda>se. se \<noteq> no_entry) (sb_segment_entry (sb w))) \<le> 116"
  shows "\<exists>scratch. je_alias g w = Ok (scratch, JE_OBJ_ALIAS, w) \<and> length scratch \<le> 32 * 116"
proof -
  let ?oa = "alias_loop 9 0 (sb_segment_entry (sb w))"
  have l: "length ?oa \<le> 116" using assms(5) by (simp add: alias_loop_length)
  then have "je_alias g w = Ok (concat (map oa_bytes ?oa), JE_OBJ_ALIAS, w)"
    using assms(1-4) by (simp add: je_alias_def Let_def)
  moreover have "length (concat (map oa_bytes ?oa)) \<le> 32 * 116" using l by (simp only: alias_bytes_length mult_le_mono2)
  ultimately show ?thesis by blast
qed

lemma tick_frame: "fs_with F w \<Longrightarrow> fs_with F (w\<lparr>hp := hp w\<lparr>ticks := t\<rparr>\<rparr>) \<and> same_files w (w\<lparr>hp := hp w\<lparr>ticks := t\<rparr>\<rparr>)"
  by (rule frame_files) (simp_all add: seg_frame_def)

lemma unat_u32_u64: "unat (ucast (x :: u32) :: u64) = unat x"
  by (simp add: unsigned_ucast_eq take_bit_nat_eq_self_iff) (rule order_le_less_trans [OF u32_bound], simp)

lemma make_journal_gives:
  assumes fs: "fs_with F w" and mem: "never_out w" and B: "deflate_bounded L" and P: "posix_pwrite L disk budget"
    and geo: "g_blockshift g = 12" "sb_blocksize (sb w) = 4096" "length (sb_segment_entry (sb w)) = unat (sb_no_segs (sb w))"
      "sb_no_segs (sb w) < 2 ^ 31" "8192 \<le> unat (sb_segsize (sb w))" "sb_journal_seg (sb w) \<noteq> []"
    and few: "length (filter (\<lambda>se. se \<noteq> no_entry) (sb_segment_entry (sb w))) \<le> 116"
    and g: "g_no_je g = 0" "length (g_je_array g) = 64" and master: "ino_ptr w LOGFS_INO_MASTER \<noteq> None"
  shows "\<exists>ret g' w'. make_journal L g w = Ok (ret, g', w') \<and> (ret = 0 \<or> ret = - EIO)"
proof -
  have a24: "align_up 24 16 = 32" by code_simp
  let ?seg = "sb_journal_seg (sb w) ! 0" and ?n = "unat (sb_segsize (sb w))"
  let ?w = "w\<lparr>hp := hp w\<lparr>ticks := Suc (Suc (ticks (hp w)))\<rparr>\<rparr>"
  have m: "strategy (hp w) t (mem (hp w)) \<noteq> None" for t using mem by (simp add: never_out_def)
  have fs': "fs_with F ?w" and sf: "same_files w ?w" using tick_frame [OF fs] by simp_all
  have geow: "sb_blocksize (sb ?w) = 4096" using geo by simp
  obtain p where f: "find_or_create_inode LOGFS_INO_MASTER ?w = Ok (p, ?w)" "p \<noteq> 0" "ino_ptr ?w LOGFS_INO_MASTER = Some p"
  proof -
    obtain q where q: "ino_ptr ?w LOGFS_INO_MASTER = Some q" using master sf by (auto simp: same_files_def)
    then show ?thesis using find_or_create_inode_result [OF fs', of LOGFS_INO_MASTER] that
      by (auto simp: found_inode_def)
  qed
  obtain i where i: "inode_at (hp ?w) p = Some i" using ptr_inode [OF fs' f(3)] by blast
  have a1: "je_anchor g ?w = Ok (anchor_bytes (anchor_of (i_di i)), JE_ANCHOR, ?w)"
    unfolding je_anchor_def f(1) using f(2) i geo by (simp add: anchor_of_def)
  have l1: "length (anchor_bytes (anchor_of (i_di i))) \<le> 168"
    by (simp add: anchor_bytes_def anchor_of_def length_array_bytes abi_sizes)
  obtain j0 where j0: "put_at (replicate ?n 0) 0 (sh_bytes (set_segment_header L SEG_JOURNAL 0 ?seg)) = Ok j0" "length j0 = ?n"
    using put_at_fits [of 0 "sh_bytes (set_segment_header L SEG_JOURNAL 0 ?seg)" "replicate ?n 0"] geo by auto
  have room: "unat (sb_blocksize (sb ?w)) + 32 \<le> ?n" using geo by simp
  obtain n1 j1 g1 where w1: "write_je L 32 j0 ?seg je_anchor g ?w = Ok (n1, j1, g1, ?w)" "n1 \<le> 200" "length j1 = ?n"
    "length (g_je_array g1) = 64" "g_no_je g1 \<le> 1" "g_blockshift g1 = 12"
    using write_je_returns [where wr = je_anchor, OF a1 B, where jpos = 32 and j = j0 and segno = ?seg] l1 j0(2) room g geo by auto
  have a2: "je_dynsb g1 ?w = Ok (dynsb_bytes (dynsb_of (sb_used_bytes (sb w))), JE_DYNSB, ?w)"
    by (simp add: je_dynsb_def dynsb_of_def)
  obtain n2 j2 g2 where w2: "write_je L (32 + n1) j1 ?seg je_dynsb g1 ?w = Ok (n2, j2, g2, ?w)" "n2 \<le> 95" "length j2 = ?n"
    "length (g_je_array g2) = 64" "g_no_je g2 \<le> 2" "g_blockshift g2 = 12"
    using write_je_returns [where wr = je_dynsb, OF a2 B, where jpos = "32 + n1" and j = j1 and segno = ?seg] room w1 geo by auto
  obtain s3 where a3: "je_alias g2 ?w = Ok (s3, JE_OBJ_ALIAS, ?w)" "length s3 \<le> 32 * 116"
    using je_alias_returns [OF w2(6), of ?w] geo few by auto
  obtain n3 j3 g3 where w3: "write_je L (32 + n1 + n2) j2 ?seg je_alias g2 ?w = Ok (n3, j3, g3, ?w)" "n3 \<le> length s3 + 31" "length j3 = ?n"
    "length (g_je_array g3) = 64" "g_no_je g3 \<le> 3"
    using write_je_returns [where wr = je_alias, OF a3(1) B, where jpos = "32 + n1 + n2" and j = j2 and segno = ?seg] room w1(2) w2 a3(2) geo by auto
  have a4: "je_commit g3 ?w = Ok (array_bytes (take (g_no_je g3) (g_je_array g3)), JE_COMMIT, ?w)" by (simp add: je_commit_def)
  have l4: "length (array_bytes (take (g_no_je g3) (g_je_array g3))) \<le> 24" using w3(5) by (simp add: length_array_bytes)
  obtain n4 j4 g4 where w4: "write_je L (32 + n1 + n2 + n3) j3 ?seg je_commit g3 ?w = Ok (n4, j4, g4, ?w)" "length j4 = ?n"
    using write_je_returns [where wr = je_commit, OF a4 B, where jpos = "32 + n1 + n2 + n3" and j = j3 and segno = ?seg] room w1(2) w2(2) w3 a3(2) l4 geo by auto
  have "unat (ucast (?seg * sb_segsize (sb w)) :: u64) + ?n < 2 ^ 64"
    unfolding unat_u32_u64 using u32_bound [of "?seg * sb_segsize (sb w)"] u32_bound [of "sb_segsize (sb w)"] by simp
  then obtain err s where d: "dev_write L (ucast (?seg * sb_segsize (sb w))) ?n j4 ?w = Ok (err, ?w\<lparr>os := s\<rparr>)" "err = 0 \<or> err = - EIO"
    using dev_write_posix [OF P, of ?n j4 "ucast (?seg * sb_segsize (sb w))" ?w] w4(2) by auto
  have "make_journal L g w = Ok (err, g4, ?w\<lparr>os := s\<rparr>)"
    using geo(6) m j0(1) w1(1) w2(1) w3(1) w4(1) d(1) by (simp add: make_journal_def malloc_buf_def Let_def a24)
  then show ?thesis using d(2) by blast
qed

section \<open>Properties\<close>

lemma journal_says_cong:
  "old_di w' LOGFS_INO_MASTER = old_di w LOGFS_INO_MASTER \<Longrightarrow> sb w' = sb w \<Longrightarrow>
     journal_says L inflate w' base pos j = journal_says L inflate w base pos j"
  by (simp add: journal_says_def)

lemma u32_ofs: "unat (ucast (segno * n :: u32) :: u64) = unat segno * unat n mod 2 ^ 32"
  by (simp add: unat_u32_u64 unat_word_ariths)

lemma on_disk_put: "on_disk (put_bytes d ofs bs) ofs bs"
  by (simp add: on_disk_def put_bytes_def)

text \<open>
  C28: what \<open>make_journal\<close> leaves on the device can be read back. The four entries carry correct
  checksums and follow each other, compressed or not; the first three hold the inode file's anchor, the
  bytes used and the segment entries, the fourth their device offsets. The segment is written at its
  offset modulo 2^32, so the offsets fit the place exactly below 4 GiB. Nothing else on the device changes.
\<close>

theorem journal_round_trip:
  assumes "make_journal L g w = Ok (0, g', w')" "fs_inv w" "inflates L inflate" "posix_pwrite L disk budget"
    "g_blockshift g = 12" "sb_blocksize (sb w) = 4096" "g_no_je g = 0"
    "length (sb_segment_entry (sb w)) = unat (sb_no_segs (sb w))"
  defines "seg \<equiv> sb_journal_seg (sb w) ! 0"
  shows "\<exists>journal. length journal = unat (sb_segsize (sb w))
     \<and> disk (os w') = put_bytes (disk (os w)) (seg_ofs (sb w) seg mod 2 ^ 32) journal
     \<and> take 24 journal = sh_bytes (set_segment_header L SEG_JOURNAL 0 seg)
     \<and> journal_says L inflate w (of_nat (seg_ofs (sb w) seg)) 32 journal"
proof -
  have a24: "align_up 24 16 = 32" by code_simp
  let ?w = "w\<lparr>hp := hp w\<lparr>ticks := Suc (Suc (ticks (hp w)))\<rparr>\<rparr>"
  obtain j0 n1 j1 g1 w1 n2 j2 g2 w2 n3 j3 g3 w3 n4 j4 g4 w4
    where j0: "put_at (replicate (unat (sb_segsize (sb w))) 0) 0 (sh_bytes (set_segment_header L SEG_JOURNAL 0 seg)) = Ok j0"
    and run: "write_je L 32 j0 seg je_anchor g ?w = Ok (n1, j1, g1, w1)"
      "write_je L (32 + n1) j1 seg je_dynsb g1 w1 = Ok (n2, j2, g2, w2)"
      "write_je L (32 + n1 + n2) j2 seg je_alias g2 w2 = Ok (n3, j3, g3, w3)"
      "write_je L (32 + n1 + n2 + n3) j3 seg je_commit g3 w3 = Ok (n4, j4, g4, w4)"
    and wr: "dev_write L (ucast (seg * sb_segsize (sb w4))) (unat (sb_segsize (sb w4))) j4 w4 = Ok (0, w')"
    using assms(1) unfolding make_journal_def seg_def
    by (auto simp: malloc_buf_def and_then_Ok a24 Let_def split: if_splits)
  have fs: "fs_inv ?w" and sf: "same_files w ?w" using tick_frame [OF assms(2)] by simp_all
  have E: "journal_says L inflate ?w (ucast seg * ucast (sb_segsize (sb ?w))) 32 j4" "length j4 = length j0" "take 32 j4 = take 32 j0"
    "\<exists>p. found_inode Map.empty ?w LOGFS_INO_MASTER p w4"
    using journal_entries [OF fs assms(3) assms(5) _ _ assms(7) run] assms(6,8) by simp_all
  obtain p where f: "found_inode Map.empty ?w LOGFS_INO_MASTER p w4" using E(4) by blast
  have ss: "sb_segsize (sb w4) = sb_segsize (sb w)" using found_inode_frame(1) [OF f] by auto
  have J: "length j0 = unat (sb_segsize (sb w))" "take 24 j0 = sh_bytes (set_segment_header L SEG_JOURNAL 0 seg)"
    using j0 by (auto simp: put_at_Ok)
  have "take 24 j4 = take 24 (take 32 j4)" by simp
  then have hdr: "take 24 j4 = sh_bytes (set_segment_header L SEG_JOURNAL 0 seg)" using E(3) J(2) by simp
  have od: "old_di ?w LOGFS_INO_MASTER = old_di w LOGFS_INO_MASTER" using sf by (simp add: old_di_def same_files_def)
  have "(ucast seg * ucast (sb_segsize (sb w)) :: u64) = of_nat (seg_ofs (sb w) seg)"
    by (rule word_unat_eq_iff [THEN iffD2])
      (use seg_ofs_u64(2) [where segno = seg and s = "sb w"] in \<open>simp add: seg_ofs_u64(1) of_nat_inverse\<close>)
  then have says: "journal_says L inflate w (of_nat (seg_ofs (sb w) seg)) 32 j4"
    using E(1) journal_says_cong [OF od] by simp
  have "unat (ucast (seg * sb_segsize (sb w4)) :: u64) + unat (sb_segsize (sb w4)) < 2 ^ 64"
    unfolding unat_u32_u64 using u32_bound [of "seg * sb_segsize (sb w4)"] u32_bound [of "sb_segsize (sb w4)"] by simp
  then obtain err s n where d: "dev_write L (ucast (seg * sb_segsize (sb w4))) (unat (sb_segsize (sb w4))) j4 w4 = Ok (err, w4\<lparr>os := s\<rparr>)"
    "disk s = put_bytes (disk (os w4)) (unat (ucast (seg * sb_segsize (sb w4)) :: u64)) (take n j4)"
    "err = 0 \<and> n = unat (sb_segsize (sb w4)) \<or> err = - EIO"
    using dev_write_posix [OF assms(4), of "unat (sb_segsize (sb w4))" j4 "ucast (seg * sb_segsize (sb w4))" w4] E(2) J(1) ss by auto
  have e: "err = 0" "os w' = s" using wr unfolding d(1) by auto
  have l: "take n j4 = j4" using d(3) e(1) E(2) J(1) ss by (simp add: EIO_def)
  have o4: "os w4 = os w" using found_inode_frame(3) [OF f] by simp
  have "disk (os w') = put_bytes (disk (os w)) (seg_ofs (sb w) seg mod 2 ^ 32) j4"
    using d(2) unfolding l e(2) u32_ofs ss seg_ofs_def o4 .
  moreover have "length j4 = unat (sb_segsize (sb w))" using E(2) J(1) by simp
  ultimately show ?thesis using says hdr by (intro exI [of _ j4] conjI)
qed

text \<open>A system that keeps a log of what is written, everything at once; for concrete runs.\<close>

type_synonym log = "(nat \<times> u8 list) list"

definition log_disk :: "log \<Rightarrow> nat \<Rightarrow> u8" where
  "log_disk s = foldr (\<lambda>(ofs, bs) d. put_bytes d ofs bs) s (\<lambda>_. 0)"

definition log_lib :: "log lib" where
  "log_lib = \<lparr>z_crc32 = (\<lambda>_ _. 0), z_deflate = (\<lambda>_ _. (False, [])),
     sys_pwrite = (\<lambda>_ buf ofs s. (int (length buf), 0, (unat ofs, buf) # s)),
     sys_memerase = (\<lambda>_ _ _ s. (0, s)), sys_memerase64 = (\<lambda>_ _ _ s. (0, s))\<rparr>"

lemma log_posix: "posix_pwrite log_lib log_disk (\<lambda>_. 0)"
  by (auto simp: posix_pwrite_def log_lib_def log_disk_def)

lemma log_write_0: "dev_write log_lib ofs n buf w = Ok (ret, w') \<Longrightarrow> ret = 0"
  by (subst (asm) dev_write_eq)
    (auto simp: bdev_write_def safe_pwrite_def and_then_Ok log_lib_def pwrite_loop.simps split: if_splits)

definition log_world :: "log world" where
  "log_world = \<lparr>sb = toy_super\<lparr>sb_segsize := 8192\<rparr>, hp = \<lparr>mem = (\<lambda>_. None), ticks = 0, strategy = pool\<rparr>, os = []\<rparr>"

definition log_world1 :: "log world" where
  "log_world1 = snd (ok_val (find_or_create_inode LOGFS_INO_MASTER log_world))"

lemma log_world1_facts:
  "fs_inv log_world1" "ino_ptr log_world1 LOGFS_INO_MASTER \<noteq> None" "never_out log_world1"
  "\<exists>tree. sb log_world1 = toy_super\<lparr>sb_segsize := 8192, sb_ino_tree := tree\<rparr>"
proof -
  have "alloc_ok (hp log_world)" by (rule pool_ok) (simp add: log_world_def)
  then have "fs_ok n (hp log_world) (sb_ino_tree (sb log_world))
      \<lparr>own = (\<lambda>_. None), ino_tower = [], blk_tower = (\<lambda>_ _. [])\<rparr>" for n
    by (simp add: fs_ok_def tree_def log_world_def toy_super_def)
  then have inv: "fs_inv log_world" by (rule fs_invI)
  have "case find_or_create_inode LOGFS_INO_MASTER log_world of
      Ok (p, w) \<Rightarrow> p \<noteq> 0 \<and> pool 0 (mem (hp w)) \<noteq> None | _ \<Rightarrow> False" by code_simp
  then obtain p where r: "find_or_create_inode LOGFS_INO_MASTER log_world = Ok (p, log_world1)" "p \<noteq> 0"
    "pool 0 (mem (hp log_world1)) \<noteq> None"
    by (auto simp: log_world1_def split: result.splits)
  then have f: "found_inode Map.empty log_world LOGFS_INO_MASTER p log_world1"
    using find_or_create_inode_result [OF inv, of LOGFS_INO_MASTER] by auto
  show "fs_inv log_world1" "ino_ptr log_world1 LOGFS_INO_MASTER \<noteq> None"
    using found_inode_frame(2,6) [OF f] r(2) by auto
  have "strategy (hp log_world1) = pool" using found_inode_frame(9) [OF f] by (simp add: log_world_def)
  then show "never_out log_world1" using r(3) by (simp add: never_out_def pool_def)
  show "\<exists>tree. sb log_world1 = toy_super\<lparr>sb_segsize := 8192, sb_ino_tree := tree\<rparr>"
    using found_inode_frame(1) [OF f] by (auto simp: log_world_def)
qed

lemma log_journal: "\<exists>g' w'. make_journal log_lib initial_globals log_world1 = Ok (0, g', w')"
proof -
  have B: "deflate_bounded log_lib" by (simp add: deflate_bounded_def log_lib_def)
  obtain tree where s: "sb log_world1 = toy_super\<lparr>sb_segsize := 8192, sb_ino_tree := tree\<rparr>" using log_world1_facts(4) by blast
  obtain ret g' w' where r: "make_journal log_lib initial_globals log_world1 = Ok (ret, g', w')"
    using make_journal_gives [OF log_world1_facts(1,3) B log_posix, of initial_globals] log_world1_facts(2)
    by (auto simp: s initial_globals_def toy_super_def)
  then have "ret = 0" by (auto simp: make_journal_def and_then_Ok Let_def dest: log_write_0 split: if_splits prod.splits)
  then show ?thesis using r by blast
qed

lemma journal_round_trip_witness:
  "\<exists>journal w'. length journal = 8192 \<and> log_disk (os (w' :: log world)) = put_bytes (log_disk (os log_world1)) 0 journal
     \<and> journal_says log_lib (\<lambda>bs. bs) log_world1 0 32 journal"
proof -
  obtain g' w' where r: "make_journal log_lib initial_globals log_world1 = Ok (0, g', w')" using log_journal by blast
  obtain tree where s: "sb log_world1 = toy_super\<lparr>sb_segsize := 8192, sb_ino_tree := tree\<rparr>" using log_world1_facts(4) by blast
  show ?thesis
    using journal_round_trip [OF r log_world1_facts(1) _ log_posix, of "\<lambda>bs. bs"]
    by (auto simp: s inflates_def log_lib_def initial_globals_def toy_super_def seg_ofs_def)
qed

text \<open>
  C29: while memory lasts and over a system that keeps to POSIX, \<open>make_journal\<close> always returns, 0 or
  \<open>-EIO\<close>, where at most 116 segment entries differ from zero: so many aliases fit into the first block
  of the journal even if nothing can be compressed.
\<close>

theorem make_journal_returns:
  assumes "fs_inv w" "never_out w" "deflate_bounded L" "posix_pwrite L disk budget"
    "g_blockshift g = 12" "sb_blocksize (sb w) = 4096" "length (sb_segment_entry (sb w)) = unat (sb_no_segs (sb w))"
    "sb_no_segs (sb w) < 2 ^ 31" "8192 \<le> unat (sb_segsize (sb w))" "sb_journal_seg (sb w) \<noteq> []"
    "length (filter (\<lambda>se. se \<noteq> no_entry) (sb_segment_entry (sb w))) \<le> 116"
    "g_no_je g = 0" "length (g_je_array g) = 64" "ino_ptr w LOGFS_INO_MASTER \<noteq> None"
  shows "\<exists>ret g' w'. make_journal L g w = Ok (ret, g', w') \<and> (ret = 0 \<or> ret = - EIO)"
  by (rule make_journal_gives [OF assms])

lemma make_journal_returns_witness:
  "\<exists>ret g' w'. make_journal log_lib initial_globals log_world1 = Ok (ret, g', w') \<and> (ret = 0 \<or> ret = - EIO)"
proof -
  have B: "deflate_bounded log_lib" by (simp add: deflate_bounded_def log_lib_def)
  obtain tree where s: "sb log_world1 = toy_super\<lparr>sb_segsize := 8192, sb_ino_tree := tree\<rparr>" using log_world1_facts(4) by blast
  show ?thesis
    using make_journal_returns [OF log_world1_facts(1,3) B log_posix, of initial_globals] log_world1_facts(2)
    by (auto simp: s initial_globals_def toy_super_def)
qed



end
