(* ===== verification/Mkfs.thy ===== *)
theory Mkfs
  imports Main Journal
begin

text \<open>
  mkfs.c: where the super blocks and the journal go, the segment file and the root directory, and
  \<open>mkfs\<close> itself. What \<open>mkfs\<close> prints is not modelled; what it reads is the list of the words that
  are typed.
\<close>

section \<open>Segments for the super blocks and the journal\<close>

definition reserve_segment :: "u32 \<Rightarrow> 'w world \<Rightarrow> 'w world result" where
  "reserve_segment segno w = set_entry segno (ec_level 1 0) (cpu_to_be32 RESERVED) w"

definition segment_ofs :: "u32 \<Rightarrow> 'w world \<Rightarrow> u64" where
  "segment_ofs segno w = ucast segno * ucast (sb_segsize (sb w))"

text \<open>The first super block goes into the first segment that can be erased.\<close>

definition first_super :: "'w lib \<Rightarrow> 'w world \<Rightarrow> 'w world result" where
  "first_super L w =
     and_then (get_segment L w) (\<lambda>(segno, w).
     and_then (reserve_segment segno w) (\<lambda>w.
       Ok (w\<lparr>sb := (sb w)\<lparr>sb_ofs1 := segment_ofs segno w\<rparr>\<rparr>)))"

lemma unat_pred: "a < b \<Longrightarrow> unat (b - 1) < unat b" for a b :: "'a::len word"
  by (metis measure_unat not_less_zero unat_eq_zero word_less_nat_alt)

function second_super_loop :: "'w lib \<Rightarrow> u32 \<Rightarrow> 'w world \<Rightarrow> (u32 \<times> 'w world) result" where
  "second_super_loop L segno w =
     (if \<not> segno > sb_no_segs (sb w) - 64 then Ok (segno, w)
      else case mtd_erase L (segment_ofs segno w) (unat (sb_segsize (sb w))) w of
          Exit m \<Rightarrow> Exit m
        | Stuck \<Rightarrow> Stuck
        | Ok r \<Rightarrow>
            (if fst r \<noteq> 0 then second_super_loop L (segno - 1) (snd r)
             else and_then (reserve_segment segno (snd r)) (\<lambda>w.
                  Ok (segno, w\<lparr>sb := (sb w)\<lparr>sb_ofs2 :=
                        ucast (segno + 1) * ucast (sb_segsize (sb w)) - 0x1000\<rparr>\<rparr>))))"
  by pat_completeness auto

termination
  by (relation "measure (\<lambda>(L, segno, w). unat segno)") (auto dest: unat_pred)

declare second_super_loop.simps [simp del]

definition mtd_prepare_sb :: "'w lib \<Rightarrow> 'w world \<Rightarrow> (int \<times> 'w world) result" where
  "mtd_prepare_sb L w =
     and_then (first_super L w) (\<lambda>w.
     and_then (second_super_loop L (sb_no_segs (sb w) - 1) w) (\<lambda>(segno, w).
       Ok (if segno = sb_no_segs (sb w) - 64 \<or> sb_ofs2 (sb w) \<le> sb_ofs1 (sb w) then - EIO else 0, w)))"

definition bdev_prepare_sb :: "'w lib \<Rightarrow> 'w world \<Rightarrow> (int \<times> 'w world) result" where
  "bdev_prepare_sb L w =
     and_then (first_super L w) (\<lambda>w.
       let segno = sb_no_segs (sb w) - 1 in
       and_then (reserve_segment segno w) (\<lambda>w.
         Ok (0, w\<lparr>sb := (sb w)\<lparr>sb_ofs2 := segment_ofs segno w - 0x1000\<rparr>\<rparr>)))"

definition prepare_sb :: "'w lib \<Rightarrow> 'w world \<Rightarrow> (int \<times> 'w world) result" where
  "prepare_sb L w = (case sb_dev_ops (sb w) of Mtd_ops \<Rightarrow> mtd_prepare_sb L w | Bdev_ops \<Rightarrow> bdev_prepare_sb L w)"

text \<open>The loop of \<open>prepare_journal\<close>, from \<open>i\<close> for \<open>n\<close> more rounds; \<open>journal_seg\<close> is an array of 16.\<close>

primrec journal_segs_loop :: "'w lib \<Rightarrow> nat \<Rightarrow> nat \<Rightarrow> 'w world \<Rightarrow> 'w world result" where
  "journal_segs_loop L i 0 w = Ok w"
| "journal_segs_loop L i (Suc n) w =
     and_then (get_segment L w) (\<lambda>(segno, w).
       if i \<ge> length (sb_journal_seg (sb w)) then Stuck
       else and_then (reserve_segment segno (w\<lparr>sb := (sb w)\<lparr>sb_journal_seg := (sb_journal_seg (sb w))[i := segno]\<rparr>\<rparr>))
              (journal_segs_loop L (Suc i) n))"

definition prepare_journal :: "'w lib \<Rightarrow> globals \<Rightarrow> 'w world \<Rightarrow> 'w world result" where
  "prepare_journal L g w = journal_segs_loop L 0 (unat (g_no_journal_segs g)) w"

section \<open>Files\<close>

definition S_IFREG :: u16 where "S_IFREG = 0x8000"
definition S_IFDIR :: u16 where "S_IFDIR = 0x4000"

definition write_inode :: "'w lib \<Rightarrow> u64 \<Rightarrow> 'w world \<Rightarrow> (int \<times> 'w world) result" where
  "write_inode L ino w =
     and_then (find_or_create_inode ino w) (\<lambda>(inode, w).
       if inode = 0 then Ok (- ENOMEM, w)
       else and_then (lift (inode_at (hp w) inode)) (\<lambda>i.
         logfs_file_write L LOGFS_INO_MASTER ino 0 OBJ_INODE (di_bytes (i_di i)) w))"

text \<open>The loop of \<open>write_segment_file\<close>: a block of zeros for every \<open>ofs\<close>.\<close>

partial_function (option) segment_file_loop :: "'w lib \<Rightarrow> u8 list \<Rightarrow> u64 \<Rightarrow> 'w world \<Rightarrow> (int \<times> 'w world) result option" where
  "segment_file_loop L buf ofs w =
     (if \<not> ofs * ucast (sb_blocksize (sb w)) < ucast (sb_no_segs (sb w)) * 8 then Some (Ok (0, w))
      else case logfs_file_write L LOGFS_INO_SEGFILE ofs 0 OBJ_BLOCK buf w of
          Exit m \<Rightarrow> Some (Exit m)
        | Stuck \<Rightarrow> Some Stuck
        | Ok r \<Rightarrow> (if fst r \<noteq> 0 then Some (Ok r) else segment_file_loop L buf (ofs + 1) (snd r)))"

declare segment_file_loop.simps [code]

definition write_segment_file :: "'w lib \<Rightarrow> 'w world \<Rightarrow> (int \<times> 'w world) result" where
  "write_segment_file L w =
     (let (ok, h) = malloc_buf (hp w); w = w\<lparr>hp := h\<rparr> in
      if \<not> ok then Stuck
      else let buf = replicate (unat (sb_blocksize (sb w))) 0 in
        and_then (find_or_create_inode LOGFS_INO_SEGFILE w) (\<lambda>(inode, w).
          if inode = 0 then Ok (- ENOMEM, w)
          else and_then (upd_inode inode (\<lambda>i. i\<lparr>i_di := (i_di i)\<lparr>di_flags := 0,
                   di_mode := cpu_to_be16 S_IFREG, di_refcount := cpu_to_be32 1,
                   di_size := cpu_to_be64 (ucast (sb_no_segs (sb w)) * 8)\<rparr>\<rparr>) w) (\<lambda>w.
               and_then (case segment_file_loop L buf 0 w of None \<Rightarrow> Stuck | Some r \<Rightarrow> r) (\<lambda>(err, w).
                 if err \<noteq> 0 then Ok (err, w)
                 else and_then (logfs_file_flush L LOGFS_INO_SEGFILE w) (\<lambda>(err, w).
                      if err \<noteq> 0 then Ok (err, w) else write_inode L LOGFS_INO_SEGFILE w)))))"

definition write_rootdir :: "'w lib \<Rightarrow> globals \<Rightarrow> 'w world \<Rightarrow> (int \<times> 'w world) result" where
  "write_rootdir L g w =
     and_then (find_or_create_inode LOGFS_INO_ROOT w) (\<lambda>(inode, w).
       if inode = 0 then Ok (- ENOMEM, w)
       else and_then (upd_inode inode (\<lambda>i. i\<lparr>i_di := (i_di i)\<lparr>
                di_flags := (if g_compress_rootdir g then cpu_to_be32 LOGFS_IF_COMPRESSED else 0),
                di_mode := cpu_to_be16 (S_IFDIR OR 0x1ED), di_refcount := cpu_to_be32 1\<rparr>\<rparr>) w) (\<lambda>w.
            write_inode L LOGFS_INO_ROOT w))"

section \<open>Making a file system\<close>

text \<open>The shifts given on the command line replace the defaults; the values are cut to 8 bits.\<close>

definition user_shifts :: "globals \<Rightarrow> globals" where
  "user_shifts g = g\<lparr>
     g_segshift := (if g_user_segshift g + 1 \<noteq> 0 then ucast (g_user_segshift g) else g_segshift g),
     g_blockshift := (if g_user_blockshift g + 1 \<noteq> 0 then ucast (g_user_blockshift g) else g_blockshift g),
     g_writeshift := (if g_user_writeshift g + 1 \<noteq> 0 then ucast (g_user_writeshift g) else g_writeshift g)\<rparr>"

definition check_shifts :: "globals \<Rightarrow> unit result" where
  "check_shifts g =
     (if g_segshift g > 30 then fail ''segment shift too large (max 30)''
      else if g_segshift g \<le> g_blockshift g then fail ''segment shift must be larger than block shift''
      else if g_blockshift g \<noteq> 12 then fail ''blockshift must be 12''
      else if g_writeshift g > 16 then fail ''writeshift too large (max 16)''
      else if g_segshift g < g_writeshift g then fail ''segment shift must be larger than write shift''
      else Ok ())"

definition set_geometry :: "globals \<Rightarrow> super_block \<Rightarrow> super_block" where
  "set_geometry g s =
     (let no_segs = ucast (drop_bit (unat (g_segshift g)) (sb_fssize s)) :: u32 in
      s\<lparr>sb_segsize := push_bit (unat (g_segshift g)) 1, sb_blocksize := push_bit (unat (g_blockshift g)) 1,
        sb_blocksize_bits := unat (g_blockshift g), sb_writesize := push_bit (unat (g_writeshift g)) 1,
        sb_no_segs := no_segs, sb_fssize := push_bit (unat (g_segshift g)) (ucast no_segs)\<rparr>)"

text \<open>
  \<open>scanf("%s", answer)\<close> and the comparison: the next word, or what \<open>answer\<close> held before where the input
  has ended. The buffer has room for 4095 characters.
\<close>

definition ask :: "string option \<Rightarrow> string list \<Rightarrow> (string option \<times> string list) result" where
  "ask answer inp =
     (let (answer, rest) = (case inp of [] \<Rightarrow> (answer, []) | x # xs \<Rightarrow> (Some x, xs)) in
      case answer of
        None \<Rightarrow> Stuck
      | Some x \<Rightarrow> if length x \<ge> 4096 then Stuck else if x \<noteq> ''yes'' then fail ''aborting...'' else Ok (answer, rest))"

definition confirm :: "globals \<Rightarrow> string list \<Rightarrow> unit result" where
  "confirm g inp =
     and_then (if g_interactice_mode g then ask None inp else Ok (None, inp)) (\<lambda>(answer, inp).
     and_then (if g_quick_bad_block_scan g then ask answer inp else Ok (answer, inp)) (\<lambda>_. Ok ()))"

definition check :: "string \<Rightarrow> (int \<times> 'w world) result \<Rightarrow> 'w world result" where
  "check msg r = and_then r (\<lambda>(ret, w). if ret \<noteq> 0 then fail msg else Ok w)"

definition check_g :: "string \<Rightarrow> (int \<times> globals \<times> 'w world) result \<Rightarrow> (globals \<times> 'w world) result" where
  "check_g msg r = and_then r (\<lambda>(ret, g, w). if ret \<noteq> 0 then fail msg else Ok (g, w))"

text \<open>From \<open>prepare_sb\<close> on: the file system is written.\<close>

definition write_fs :: "'w lib \<Rightarrow> globals \<Rightarrow> 'w world \<Rightarrow> (globals \<times> 'w world) result" where
  "write_fs L g w =
     and_then (check ''could not erase two superblocks'' (prepare_sb L w)) (\<lambda>w.
     and_then (prepare_journal L g w) (\<lambda>w.
     and_then (check ''could not write segment file'' (write_segment_file L w)) (\<lambda>w.
     and_then (check ''could not create root inode'' (write_rootdir L g w)) (\<lambda>w.
     and_then (check ''could not write segments'' (flush_segments L w)) (\<lambda>w.
     and_then (check_g ''could not create journal'' (make_journal L g w)) (\<lambda>(g, w).
       check_g ''could not create superblock'' (make_super L g w)))))))"

text \<open>\<open>fsync\<close> is a parameter; its result is not looked at.\<close>

definition mkfs :: "'w lib \<Rightarrow> (int \<Rightarrow> 'w \<Rightarrow> 'w) \<Rightarrow> string list \<Rightarrow> globals \<Rightarrow> 'w world \<Rightarrow> (globals \<times> 'w world) result" where
  "mkfs L fsync inp g w =
     (let g = user_shifts g in
      and_then (check_shifts g) (\<lambda>_.
        let w = w\<lparr>sb := set_geometry g (sb w)\<rparr> in
        and_then (confirm g inp) (\<lambda>_.
          let (ok, h) = malloc_buf (hp w) in
          if \<not> ok then Stuck
          else let w = w\<lparr>hp := h, sb := (sb w)\<lparr>sb_segment_entry :=
                       replicate (unat (sb_no_segs (sb w))) \<lparr>se_ec_level = 0, se_valid = 0\<rparr>\<rparr>\<rparr> in
            and_then (write_fs L g w) (\<lambda>(g, w). Ok (g, w\<lparr>os := fsync (sb_fd (sb w)) (os w)\<rparr>)))))"

end
