(* ===== verification/Prepare.thy ===== *)
theory Prepare
  imports Main Journal_Read Mkfs
begin

text \<open>
  Where \<open>prepare_sb\<close> and \<open>prepare_journal\<close> put the super blocks and the journal, and which segments
  they mark as reserved.
\<close>

definition reserved_entry :: segment_entry where
  "reserved_entry = \<lparr>se_ec_level = ec_level 1 0, se_valid = cpu_to_be32 RESERVED\<rparr>"

text \<open>The messages that can end the program while a segment is looked for.\<close>

definition space_message :: "string \<Rightarrow> bool" where
  "space_message m \<longleftrightarrow> m = ''no more free segments'' \<or> m = ''out of memory''"

lemma get_segment_outcome:
  assumes "segs_ok w" "posix_pwrite L disk budget" "erase_ok (sb w)"
  obtains (got) segno w' where "get_segment L w = Ok (segno, w')" "handed_out w segno w'"
  | (out) m where "get_segment L w = Exit m" "space_message m"
proof (cases rule: get_segment_cases [OF assms(1), of L, case_names 1 2 3])
  case (3 segno w')
  then show ?thesis using get_segment_gives [OF assms] by simp
qed (use that in \<open>auto simp: space_message_def\<close>)

lemma erase_ok_prepare [simp]:
  "erase_ok (s\<lparr>sb_ofs1 := x\<rparr>) = erase_ok s" "erase_ok (s\<lparr>sb_ofs2 := x\<rparr>) = erase_ok s"
  "erase_ok (s\<lparr>sb_journal_seg := js\<rparr>) = erase_ok s"
  by (simp_all add: erase_ok_def)

lemma handed_out_journal:
  assumes "handed_out w segno w1"
  shows "handed_out (w\<lparr>sb := (sb w)\<lparr>sb_journal_seg := js\<rparr>\<rparr>) segno (w1\<lparr>sb := (sb w1)\<lparr>sb_journal_seg := js\<rparr>\<rparr>)"
proof -
  obtain t eb s es where w1: "w1 = w\<lparr>hp := (hp w)\<lparr>ticks := t\<rparr>, os := s,
      sb := (sb w)\<lparr>sb_erase_buf := eb, sb_lastseg := segno + 1, sb_segment_entry := es\<rparr>\<rparr>"
    "length es = length (sb_segment_entry (sb w))"
    "\<forall>i < length es. es ! i = (if unat (sb_lastseg (sb w)) \<le> i \<and> i < unat segno then bad_entry else sb_segment_entry (sb w) ! i)"
    using assms unfolding handed_out_def by blast
  have b: "erase_ok (sb w) \<longrightarrow> erase_ok (sb w1)" "sb_lastseg (sb w) \<le> segno" "segno < sb_no_segs (sb w)"
    using assms by (simp_all add: handed_out_def)
  have eq: "w1\<lparr>sb := (sb w1)\<lparr>sb_journal_seg := js\<rparr>\<rparr> = w\<lparr>hp := (hp w)\<lparr>ticks := t\<rparr>, os := s,
      sb := (sb w)\<lparr>sb_journal_seg := js, sb_erase_buf := eb, sb_lastseg := segno + 1, sb_segment_entry := es\<rparr>\<rparr>"
    unfolding w1(1) by simp
  show ?thesis unfolding handed_out_def
  proof (intro conjI)
    show "erase_ok (sb (w\<lparr>sb := (sb w)\<lparr>sb_journal_seg := js\<rparr>\<rparr>)) \<longrightarrow> erase_ok (sb (w1\<lparr>sb := (sb w1)\<lparr>sb_journal_seg := js\<rparr>\<rparr>))"
      using b(1) by simp
    show "\<exists>t eb s es. w1\<lparr>sb := (sb w1)\<lparr>sb_journal_seg := js\<rparr>\<rparr> = w\<lparr>sb := (sb w)\<lparr>sb_journal_seg := js\<rparr>\<rparr>
        \<lparr>hp := (hp (w\<lparr>sb := (sb w)\<lparr>sb_journal_seg := js\<rparr>\<rparr>))\<lparr>ticks := t\<rparr>, os := s,
         sb := (sb (w\<lparr>sb := (sb w)\<lparr>sb_journal_seg := js\<rparr>\<rparr>))\<lparr>sb_erase_buf := eb, sb_lastseg := segno + 1, sb_segment_entry := es\<rparr>\<rparr>
      \<and> length es = length (sb_segment_entry (sb (w\<lparr>sb := (sb w)\<lparr>sb_journal_seg := js\<rparr>\<rparr>)))
      \<and> (\<forall>i < length es. es ! i = (if unat (sb_lastseg (sb (w\<lparr>sb := (sb w)\<lparr>sb_journal_seg := js\<rparr>\<rparr>))) \<le> i \<and> i < unat segno
            then bad_entry else sb_segment_entry (sb (w\<lparr>sb := (sb w)\<lparr>sb_journal_seg := js\<rparr>\<rparr>)) ! i))"
      by (intro exI [of _ t] exI [of _ eb] exI [of _ s] exI [of _ es]) (use eq w1(2,3) in simp)
  qed (use b in simp_all)
qed

text \<open>A segment is handed out and reserved.\<close>

definition taken :: "'w world \<Rightarrow> u32 \<Rightarrow> 'w world \<Rightarrow> bool" where
  "taken w segno w' \<longleftrightarrow> sb_lastseg (sb w) \<le> segno \<and> segno < sb_no_segs (sb w)
     \<and> sb_lastseg (sb w') = segno + 1 \<and> (erase_ok (sb w) \<longrightarrow> erase_ok (sb w'))
     \<and> length (sb_segment_entry (sb w')) = length (sb_segment_entry (sb w))
     \<and> (\<forall>i < unat (sb_no_segs (sb w)). sb_segment_entry (sb w') ! i =
          (if i = unat segno then reserved_entry
           else if unat (sb_lastseg (sb w)) \<le> i \<and> i < unat segno then bad_entry else sb_segment_entry (sb w) ! i))"

lemma handed_out_taken:
  assumes "segs_ok w" "handed_out w segno w1"
  shows "\<exists>w2. reserve_segment segno w1 = Ok w2 \<and> taken w segno w2 \<and> segs_ok w2 \<and> seg_frame w w2
     \<and> sb_area (sb w2) = sb_area (sb w) \<and> sb_journal_seg (sb w2) = sb_journal_seg (sb w)
     \<and> sb_ofs1 (sb w2) = sb_ofs1 (sb w) \<and> sb_ofs2 (sb w2) = sb_ofs2 (sb w) \<and> sb_no_segs (sb w2) = sb_no_segs (sb w)"
proof -
  have lt: "sb_lastseg (sb w) \<le> segno" "segno < sb_no_segs (sb w)" using assms(2) by (simp_all add: handed_out_def)
  have u: "unat (segno + 1) = unat segno + 1"
    by (rule succ_no_wrap) (use lt assms(1) in \<open>simp add: segs_ok_def word_less_nat_alt\<close>)
  obtain t eb s es where w1: "w1 = w\<lparr>hp := (hp w)\<lparr>ticks := t\<rparr>, os := s,
      sb := (sb w)\<lparr>sb_erase_buf := eb, sb_lastseg := segno + 1, sb_segment_entry := es\<rparr>\<rparr>"
    and es: "length es = length (sb_segment_entry (sb w))"
      "\<forall>i < length es. es ! i = (if unat (sb_lastseg (sb w)) \<le> i \<and> i < unat segno then bad_entry else sb_segment_entry (sb w) ! i)"
    using assms(2) unfolding handed_out_def by blast
  have er: "erase_ok (sb w) \<longrightarrow> erase_ok (sb w1)" using assms(2) by (simp add: handed_out_def)
  let ?w2 = "w1\<lparr>sb := (sb w1)\<lparr>sb_segment_entry := es[unat segno := reserved_entry]\<rparr>\<rparr>"
  have n: "length es = unat (sb_no_segs (sb w))" "unat segno < length es"
    using es(1) assms(1) lt(2) by (simp_all add: segs_ok_def word_less_nat_alt)
  have "reserve_segment segno w1 = Ok ?w2" using n(2) by (simp add: reserve_segment_def set_entry_def w1 reserved_entry_def)
  moreover have "taken w segno ?w2" unfolding taken_def
  proof (intro conjI allI impI)
    show "sb_lastseg (sb ?w2) = segno + 1" by (simp add: w1)
    show "erase_ok (sb ?w2)" if "erase_ok (sb w)" using er that by simp
    show "length (sb_segment_entry (sb ?w2)) = length (sb_segment_entry (sb w))" using es(1) by simp
    show "sb_segment_entry (sb ?w2) ! i = (if i = unat segno then reserved_entry
           else if unat (sb_lastseg (sb w)) \<le> i \<and> i < unat segno then bad_entry else sb_segment_entry (sb w) ! i)"
      if "i < unat (sb_no_segs (sb w))" for i using that n es(2) by (simp add: nth_list_update)
  qed (use lt in simp_all)
  moreover have "segs_ok ?w2" using assms(1) es(1) lt u by (simp add: segs_ok_def w1 word_le_nat_alt word_less_nat_alt)
  moreover have "seg_frame w ?w2" using lt u by (simp add: seg_frame_def w1 word_le_nat_alt)
  ultimately show ?thesis by (intro exI [of _ ?w2]) (simp add: w1)
qed

lemma first_super_outcome:
  assumes "segs_ok w" "posix_pwrite L disk budget" "erase_ok (sb w)"
  obtains (got) segno w' where "first_super L w = Ok w'" "taken w segno w'" "segs_ok w'" "seg_frame w w'"
      "sb_area (sb w') = sb_area (sb w)" "sb_journal_seg (sb w') = sb_journal_seg (sb w)"
      "unat (sb_ofs1 (sb w')) = seg_ofs (sb w) segno" "sb_ofs2 (sb w') = sb_ofs2 (sb w)" "sb_no_segs (sb w') = sb_no_segs (sb w)"
  | (out) m where "first_super L w = Exit m" "space_message m"
proof (cases rule: get_segment_outcome [OF assms, case_names got out])
  case (got segno w1)
  obtain w2 where r: "reserve_segment segno w1 = Ok w2" "taken w segno w2" "segs_ok w2" "seg_frame w w2"
     "sb_area (sb w2) = sb_area (sb w)" "sb_journal_seg (sb w2) = sb_journal_seg (sb w)"
     "sb_ofs2 (sb w2) = sb_ofs2 (sb w)" "sb_no_segs (sb w2) = sb_no_segs (sb w)"
    using handed_out_taken [OF assms(1) got(2)] by blast
  let ?w = "w2\<lparr>sb := (sb w2)\<lparr>sb_ofs1 := segment_ofs segno w2\<rparr>\<rparr>"
  have er: "erase_ok (sb ?w) = erase_ok (sb w2)" by simp
  have ss: "sb_segsize (sb w2) = sb_segsize (sb w)" using r(4) by (simp add: seg_frame_def)
  have ofs: "unat (segment_ofs segno w2) = seg_ofs (sb w) segno"
    unfolding segment_ofs_def ss by (rule seg_ofs_u64)
  show ?thesis
  proof (rule that(1) [of ?w segno])
    show "first_super L w = Ok ?w" using got(1) r(1) by (simp add: first_super_def)
    show "taken w segno ?w" using r(2) er by (simp add: taken_def)
    show "segs_ok ?w" using r(3) by (simp add: segs_ok_def)
    show "seg_frame w ?w" using r(4) by (simp add: seg_frame_def)
  qed (use r ofs in simp_all)
next
  case (out m)
  then show ?thesis using that(2) [of m] by (simp add: first_super_def)
qed

section \<open>Block devices\<close>

lemma bdev_prepare_outcome:
  assumes "segs_ok w" "posix_pwrite L disk budget" "erase_ok (sb w)"
  obtains (got) segno w1 w' where "bdev_prepare_sb L w = Ok (0, w')" "taken w segno w1" "segs_ok w'" "seg_frame w w'"
      "erase_ok (sb w')" "sb_area (sb w') = sb_area (sb w)" "sb_journal_seg (sb w') = sb_journal_seg (sb w)"
      "unat (sb_ofs1 (sb w')) = seg_ofs (sb w) segno"
      "sb_ofs2 (sb w') = of_nat (seg_ofs (sb w) (sb_no_segs (sb w) - 1)) - 0x1000"
      "sb_segment_entry (sb w') = (sb_segment_entry (sb w1))[unat (sb_no_segs (sb w) - 1) := reserved_entry]"
      "sb_lastseg (sb w') = segno + 1" "sb_no_segs (sb w') = sb_no_segs (sb w)"
  | (out) m where "bdev_prepare_sb L w = Exit m" "space_message m"
proof (cases rule: first_super_outcome [OF assms, case_names got out])
  case (got segno w1)
  let ?last = "sb_no_segs (sb w) - 1"
  let ?w = "w1\<lparr>sb := (sb w1)\<lparr>sb_segment_entry := (sb_segment_entry (sb w1))[unat ?last := reserved_entry]\<rparr>\<rparr>"
  let ?w' = "?w\<lparr>sb := (sb ?w)\<lparr>sb_ofs2 := segment_ofs ?last ?w - 0x1000\<rparr>\<rparr>"
  have "sb_lastseg (sb w) < sb_no_segs (sb w)" using got(2) by (auto simp: taken_def)
  then have "unat ?last < unat (sb_no_segs (sb w))" by (rule unat_pred)
  then have n: "unat ?last < length (sb_segment_entry (sb w1))" using got(3,9) by (simp add: segs_ok_def)
  have ss: "sb_segsize (sb w1) = sb_segsize (sb w)" using got(4) by (simp add: seg_frame_def)
  have "(ucast ?last * ucast (sb_segsize (sb w)) :: u64) = of_nat (seg_ofs (sb w) ?last)"
    by (rule word_unat_eq_iff [THEN iffD2])
      (use seg_ofs_u64(2) [where segno = ?last and s = "sb w"] in \<open>simp add: seg_ofs_u64(1) of_nat_inverse\<close>)
  then have ofs: "segment_ofs ?last ?w = of_nat (seg_ofs (sb w) ?last)" using ss by (simp add: segment_ofs_def)
  have res: "reserve_segment ?last w1 = Ok ?w" using n by (simp add: reserve_segment_def set_entry_def reserved_entry_def)
  have run: "bdev_prepare_sb L w = Ok (0, ?w')"
    unfolding bdev_prepare_sb_def got(1) and_then_simps Let_def got(9) res ..
  have er: "erase_ok (sb ?w')" using got(2) assms(3) by (simp add: taken_def)
  have lst: "sb_lastseg (sb w1) = segno + 1" using got(2) by (simp add: taken_def)
  show ?thesis
  proof (rule that(1) [OF run got(2)])
    show "segs_ok ?w'" using got(3) by (simp add: segs_ok_def)
    show "seg_frame w ?w'" using got(4) by (simp add: seg_frame_def)
    show "erase_ok (sb ?w')" by (rule er)
    show "sb_ofs2 (sb ?w') = of_nat (seg_ofs (sb w) ?last) - 0x1000" by (simp add: ofs)
  qed (use got lst in simp_all)
next
  case (out m)
  then show ?thesis using that(2) [of m] by (simp add: bdev_prepare_sb_def)
qed

section \<open>Flash devices\<close>

lemma mtd_erase_os: "\<exists>err s. mtd_erase L ofs n w = Ok (err, w\<lparr>os := s\<rparr>)"
  by (auto simp: mtd_erase_def split: prod.split)

text \<open>The search for the second super block ends at a segment that could be erased, or below them all.\<close>

definition second_found :: "'w world \<Rightarrow> u32 \<Rightarrow> 'w world \<Rightarrow> bool" where
  "second_found w segno w' \<longleftrightarrow> (\<exists>s. w' = w\<lparr>os := s, sb := (sb w)\<lparr>
     sb_segment_entry := (sb_segment_entry (sb w))[unat segno := reserved_entry],
     sb_ofs2 := ucast (segno + 1) * ucast (sb_segsize (sb w)) - 0x1000\<rparr>\<rparr>)"

lemma second_super_loop_spec:
  assumes "segno < sb_no_segs (sb w)" "length (sb_segment_entry (sb w)) = unat (sb_no_segs (sb w))"
    "sb_no_segs (sb w) - 64 \<le> segno"
  shows "\<exists>r w'. second_super_loop L segno w = Ok (r, w')
     \<and> (r = sb_no_segs (sb w) - 64 \<and> (\<exists>s. w' = w\<lparr>os := s\<rparr>)
        \<or> sb_no_segs (sb w) - 64 < r \<and> r \<le> segno \<and> second_found w r w')"
  using assms
proof (induction "unat segno" arbitrary: segno w rule: less_induct)
  case less
  show ?case
  proof (cases "segno > sb_no_segs (sb w) - 64")
    case False
    then have "segno = sb_no_segs (sb w) - 64" using less.prems(3) by simp
    moreover have "second_super_loop L segno w = Ok (segno, w)" using False by (subst second_super_loop.simps) simp
    ultimately show ?thesis by (intro exI [of _ segno] exI [of _ w]) (simp, rule exI [of _ "os w"], simp)
  next
    case True
    obtain err s where e: "mtd_erase L (segment_ofs segno w) (unat (sb_segsize (sb w))) w = Ok (err, w\<lparr>os := s\<rparr>)"
      using mtd_erase_os [of L "segment_ofs segno w" "unat (sb_segsize (sb w))" w] by (elim exE) (rule that)
    let ?w = "w\<lparr>os := s\<rparr>"
    show ?thesis
    proof (cases "err = 0")
      case False
      have dec: "unat (segno - 1) < unat segno" using True by (rule unat_pred)
      have pre: "segno - 1 < sb_no_segs (sb ?w)" "sb_no_segs (sb ?w) - 64 \<le> segno - 1" "segno - 1 < segno"
        using dec less.prems(1) True by (simp_all add: word_less_nat_alt word_le_nat_alt)
          (use dec True in \<open>simp add: unat_sub_if' word_less_nat_alt\<close>)
      have "second_super_loop L segno w = second_super_loop L (segno - 1) ?w"
        using True e False by (subst second_super_loop.simps) simp
      moreover obtain r w' where ih: "second_super_loop L (segno - 1) ?w = Ok (r, w')"
        "r = sb_no_segs (sb w) - 64 \<and> (\<exists>s. w' = w\<lparr>os := s\<rparr>) \<or> sb_no_segs (sb w) - 64 < r \<and> r \<le> segno - 1 \<and> second_found w r w'"
        using less.hyps [OF dec pre(1) _ pre(2)] less.prems(2) by (auto simp: second_found_def)
      moreover have "r \<le> segno" if "r \<le> segno - 1" using that pre(3) by simp
      ultimately show ?thesis by auto
    next
      case ok: True
      let ?w' = "?w\<lparr>sb := (sb w)\<lparr>sb_segment_entry := (sb_segment_entry (sb w))[unat segno := reserved_entry],
         sb_ofs2 := ucast (segno + 1) * ucast (sb_segsize (sb w)) - 0x1000\<rparr>\<rparr>"
      have n: "unat segno < length (sb_segment_entry (sb w))" using less.prems by (simp add: word_less_nat_alt)
      have "second_super_loop L segno w = Ok (segno, ?w')"
        using True e ok n by (subst second_super_loop.simps) (simp add: reserve_segment_def set_entry_def reserved_entry_def)
      moreover have "second_found w segno ?w'" unfolding second_found_def by (rule exI [of _ s]) simp
      ultimately show ?thesis using True by blast
    qed
  qed
qed

lemma few_segments_loop:
  assumes "unat (sb_no_segs (sb w)) < 64" "0 < sb_no_segs (sb w)"
  shows "second_super_loop L (sb_no_segs (sb w) - 1) w = Ok (sb_no_segs (sb w) - 1, w)"
proof -
  have "\<not> sb_no_segs (sb w) - 64 < sb_no_segs (sb w) - 1"
    using assms by (simp add: word_less_nat_alt unat_sub_if')
  then show ?thesis by (subst second_super_loop.simps) simp
qed

section \<open>The journal\<close>

lemma journal_loop_outcome:
  assumes "segs_ok w" "posix_pwrite L disk budget" "erase_ok (sb w)" "i + n \<le> length (sb_journal_seg (sb w))"
  shows "(\<exists>m. journal_segs_loop L i n w = Exit m \<and> space_message m)
     \<or> (\<exists>w'. journal_segs_loop L i n w = Ok w' \<and> segs_ok w' \<and> erase_ok (sb w') \<and> seg_frame w w'
          \<and> sb_area (sb w') = sb_area (sb w) \<and> sb_ofs1 (sb w') = sb_ofs1 (sb w) \<and> sb_ofs2 (sb w') = sb_ofs2 (sb w)
          \<and> length (sb_journal_seg (sb w')) = length (sb_journal_seg (sb w))
          \<and> (\<forall>k < i. sb_journal_seg (sb w') ! k = sb_journal_seg (sb w) ! k)
          \<and> (\<forall>k. i \<le> k \<and> k < i + n \<longrightarrow> sb_lastseg (sb w) \<le> sb_journal_seg (sb w') ! k
               \<and> sb_journal_seg (sb w') ! k < sb_lastseg (sb w')
               \<and> sb_segment_entry (sb w') ! unat (sb_journal_seg (sb w') ! k) = reserved_entry)
          \<and> (\<forall>j k. i \<le> j \<and> j < k \<and> k < i + n \<longrightarrow> sb_journal_seg (sb w') ! j < sb_journal_seg (sb w') ! k)
          \<and> (\<forall>x < unat (sb_no_segs (sb w)). x < unat (sb_lastseg (sb w)) \<or> unat (sb_lastseg (sb w')) \<le> x \<longrightarrow>
               sb_segment_entry (sb w') ! x = sb_segment_entry (sb w) ! x))"
  using assms
proof (induction n arbitrary: i w)
  case 0
  then show ?case by (auto simp: seg_frame_def)
next
  case (Suc n)
  show ?case
  proof (cases rule: get_segment_outcome [OF Suc.prems(1-3), case_names got out])
    case (out m)
    then show ?thesis by simp
  next
    case (got segno w1)
    have js: "sb_journal_seg (sb w1) = sb_journal_seg (sb w)" using got(2) by (auto simp: handed_out_def)
    let ?w1 = "w1\<lparr>sb := (sb w1)\<lparr>sb_journal_seg := (sb_journal_seg (sb w1))[i := segno]\<rparr>\<rparr>"
    let ?v = "w\<lparr>sb := (sb w)\<lparr>sb_journal_seg := (sb_journal_seg (sb w))[i := segno]\<rparr>\<rparr>"
    have v: "segs_ok ?v" "handed_out ?v segno ?w1"
      using Suc.prems(1) handed_out_journal [OF got(2)] by (simp_all add: segs_ok_def js)
    obtain w2 where r: "reserve_segment segno ?w1 = Ok w2" "taken ?v segno w2" "segs_ok w2" "seg_frame ?v w2"
      "sb_area (sb w2) = sb_area (sb w)" "sb_journal_seg (sb w2) = (sb_journal_seg (sb w))[i := segno]"
      "sb_ofs1 (sb w2) = sb_ofs1 (sb w)" "sb_ofs2 (sb w2) = sb_ofs2 (sb w)" "sb_no_segs (sb w2) = sb_no_segs (sb w)"
      using handed_out_taken [OF v] by auto
    have T: "sb_lastseg (sb w) \<le> segno" "segno < sb_no_segs (sb w)" "sb_lastseg (sb w2) = segno + 1" "erase_ok (sb w2)"
      "unat segno < unat (sb_no_segs (sb w))"
      "\<forall>x < unat (sb_no_segs (sb w)). sb_segment_entry (sb w2) ! x = (if x = unat segno then reserved_entry
         else if unat (sb_lastseg (sb w)) \<le> x \<and> x < unat segno then bad_entry else sb_segment_entry (sb w) ! x)"
      using r(2) Suc.prems(3) by (simp_all add: taken_def word_less_nat_alt)
    have u: "unat (segno + 1) = unat segno + 1"
      by (rule succ_no_wrap) (use T(5) u32_bound [of "sb_no_segs (sb w)"] in simp)
    have run: "journal_segs_loop L i (Suc n) w = journal_segs_loop L (Suc i) n w2"
      using got(1) r(1) Suc.prems(4) js by simp
    have fr: "seg_frame w w2" using r(4) by (simp add: seg_frame_def)
    note IH = Suc.IH [OF r(3) Suc.prems(2) T(4), of "Suc i"]
    have len: "Suc i + n \<le> length (sb_journal_seg (sb w2))" using Suc.prems(4) r(6) by simp
    show ?thesis using IH [OF len]
    proof (elim disjE exE conjE, goal_cases)
      case (1 m)
      then show ?case using run by simp
    next
      case (2 w')
      have le: "segno < sb_lastseg (sb w')" "sb_lastseg (sb w2) \<le> sb_lastseg (sb w')"
        using 2(4) T(3) u by (simp_all add: seg_frame_def word_le_nat_alt word_less_nat_alt)
      have at_i: "sb_journal_seg (sb w') ! i = segno"
        using 2(8,9) r(6) Suc.prems(4) by simp
      have ent: "sb_segment_entry (sb w') ! unat segno = reserved_entry"
        using 2(12) T(3,5,6) u r(9) by (simp add: word_less_nat_alt)
      have low: "segno < sb_journal_seg (sb w') ! k" if "Suc i \<le> k" "k < Suc i + n" for k
        using 2(10) that T(3) u by (simp add: word_le_nat_alt word_less_nat_alt) fastforce
      show ?case
      proof (intro disjI2 exI [of _ w'] conjI allI impI)
        show "journal_segs_loop L i (Suc n) w = Ok w'" using run 2(1) by simp
        show "seg_frame w w'" using seg_frame_trans [OF fr 2(4)] .
        show "sb_journal_seg (sb w') ! k = sb_journal_seg (sb w) ! k" if "k < i" for k
          using 2(9) that r(6) by simp
        fix k assume k: "i \<le> k \<and> k < i + Suc n"
        have kk: "k = i \<or> Suc i \<le> k \<and> k < Suc i + n" using k by auto
        show "sb_lastseg (sb w) \<le> sb_journal_seg (sb w') ! k"
          using kk at_i T(1) low by (auto intro: order_trans less_imp_le)
        show "sb_journal_seg (sb w') ! k < sb_lastseg (sb w')" using kk at_i le 2(10) by auto
        show "sb_segment_entry (sb w') ! unat (sb_journal_seg (sb w') ! k) = reserved_entry"
          using kk at_i ent 2(10) by auto
      next
        fix j k assume jk: "i \<le> j \<and> j < k \<and> k < i + Suc n"
        show "sb_journal_seg (sb w') ! j < sb_journal_seg (sb w') ! k"
        proof (cases "j = i")
          case True
          then show ?thesis using jk at_i low by simp
        next
          case False
          then show ?thesis using jk 2(11) by simp
        qed
      next
        fix x assume x: "x < unat (sb_no_segs (sb w))" "x < unat (sb_lastseg (sb w)) \<or> unat (sb_lastseg (sb w')) \<le> x"
        have "x < unat (sb_lastseg (sb w2)) \<or> unat (sb_lastseg (sb w')) \<le> x"
          using x(2) T(1,3) u by (auto simp: word_le_nat_alt)
        then have "sb_segment_entry (sb w') ! x = sb_segment_entry (sb w2) ! x" using 2(12) x(1) r(9) by auto
        moreover have "x \<noteq> unat segno" "\<not> (unat (sb_lastseg (sb w)) \<le> x \<and> x < unat segno)"
          using x(2) T(1) le by (auto simp: word_le_nat_alt word_less_nat_alt)
        ultimately show "sb_segment_entry (sb w') ! x = sb_segment_entry (sb w) ! x" using T(6) x(1) by simp
      qed (use 2 r in simp_all)
    qed
  qed
qed

lemma journal_loop_overrun:
  assumes "segs_ok w" "posix_pwrite L disk budget" "erase_ok (sb w)" "i \<le> length (sb_journal_seg (sb w))"
    "length (sb_journal_seg (sb w)) < i + n"
  shows "journal_segs_loop L i n w = Stuck \<or> (\<exists>m. journal_segs_loop L i n w = Exit m \<and> space_message m)"
  using assms
proof (induction n arbitrary: i w)
  case (Suc n)
  show ?case
  proof (cases rule: get_segment_outcome [OF Suc.prems(1-3), case_names got out])
    case (got segno w1)
    have js: "sb_journal_seg (sb w1) = sb_journal_seg (sb w)" using got(2) by (auto simp: handed_out_def)
    show ?thesis
    proof (cases "i < length (sb_journal_seg (sb w))")
      case False
      then show ?thesis using got(1) js by simp
    next
      case True
      let ?js = "(sb_journal_seg (sb w))[i := segno]"
      let ?v = "w\<lparr>sb := (sb w)\<lparr>sb_journal_seg := ?js\<rparr>\<rparr>"
      have v: "segs_ok ?v" using Suc.prems(1) by (simp add: segs_ok_def)
      obtain w2 where r: "reserve_segment segno (w1\<lparr>sb := (sb w1)\<lparr>sb_journal_seg := ?js\<rparr>\<rparr>) = Ok w2" "taken ?v segno w2"
        "segs_ok w2" "sb_journal_seg (sb w2) = ?js"
        using handed_out_taken [OF v handed_out_journal [OF got(2)]] by auto
      have "erase_ok (sb w2)" using r(2) Suc.prems(3) by (simp add: taken_def)
      then show ?thesis using Suc.IH [OF r(3) Suc.prems(2), of "Suc i"] Suc.prems(5) True r got(1) js by simp
    qed
  qed simp
qed simp

section \<open>Properties\<close>


lemma flat_entries: "length es = unat (sb_no_segs s) \<Longrightarrow> sb_no_segs s < 2 ^ 32 - 1 \<Longrightarrow> sb_lastseg s \<le> sb_no_segs s \<Longrightarrow>
    segs_ok (w\<lparr>sb := s\<lparr>sb_segment_entry := es\<rparr>\<rparr>)"
  by (simp add: segs_ok_def)

definition prep_world :: "log world" where
  "prep_world = log_world\<lparr>sb := (sb log_world)\<lparr>sb_no_segs := 8, sb_dev_ops := Mtd_ops, sb_segment_entry := replicate 8 no_entry\<rparr>\<rparr>"

lemma prep_world_ok: "segs_ok prep_world" "erase_ok (sb prep_world)" "length (sb_journal_seg (sb prep_world)) = 16"
  by (simp_all add: prep_world_def segs_ok_def erase_ok_def log_world_def toy_super_def)


text \<open>
  C32: the second super block of a block device lies in the last segment but one, while the last one is
  marked as reserved. Its own segment keeps its entry and can still be handed out for objects.
\<close>

theorem second_super_unprotected:
  assumes "segs_ok w" "posix_pwrite L disk budget" "erase_ok (sb w)" "bdev_prepare_sb L w = Ok (ret, w')"
    "0x1000 \<le> unat (sb_segsize (sb w))" "2 \<le> unat (sb_no_segs (sb w))" "sb_lastseg (sb w') \<le> sb_no_segs (sb w) - 2"
  shows "(\<forall>k < 0x1000. in_seg (sb w) (sb_no_segs (sb w) - 2) (unat (sb_ofs2 (sb w')) + k))
     \<and> sb_segment_entry (sb w') ! unat (sb_no_segs (sb w) - 2) = sb_segment_entry (sb w) ! unat (sb_no_segs (sb w) - 2)
     \<and> sb_segment_entry (sb w') ! unat (sb_no_segs (sb w) - 1) = reserved_entry"
proof (cases rule: bdev_prepare_outcome [OF assms(1-3), case_names got out])
  case (got segno w1 v)
  have v: "v = w'" using got(1) assms(4) by simp
  let ?n = "sb_no_segs (sb w)" and ?s = "unat (sb_segsize (sb w))"
  have u: "unat (?n - 1) = unat ?n - 1" "unat (?n - 2) = unat ?n - 2"
    using assms(6) by (simp_all add: unat_sub_if')
  obtain m where m: "unat ?n = Suc (Suc m)" using assms(6) by (metis add_2_eq_Suc le_Suc_ex)
  have ofs: "seg_ofs (sb w) (?n - 1) = seg_ofs (sb w) (?n - 2) + ?s" using u m by (simp add: seg_ofs_def)
  have big: "seg_ofs (sb w) (?n - 1) < 2 ^ 64" using seg_ofs_u64(2) [where segno = "?n - 1" and s = "sb w"] by simp
  have "unat (of_nat (seg_ofs (sb w) (?n - 1)) :: u64) = seg_ofs (sb w) (?n - 1)"
    by (rule of_nat_inverse [rotated]) (use big in simp_all)
  then have o2: "unat (sb_ofs2 (sb w')) = seg_ofs (sb w) (?n - 2) + ?s - 0x1000"
    unfolding v [symmetric] got(9) using ofs assms(5) by (simp add: unat_sub_if' word_le_nat_alt)
  have l: "length (sb_segment_entry (sb w1)) = unat ?n" using got(2) assms(1) by (simp add: taken_def segs_ok_def)
  have su: "unat (segno + 1) = unat segno + 1"
    by (rule succ_no_wrap) (use got(2) u32_bound [of ?n] in \<open>simp add: taken_def word_less_nat_alt\<close>)
  have lt: "unat segno < unat ?n - 2" using assms(7) su u got(11) v by (simp add: word_le_nat_alt)
  have "sb_segment_entry (sb w') ! (unat ?n - 2) = sb_segment_entry (sb w1) ! (unat ?n - 2)"
    unfolding v [symmetric] got(10) u using m by (simp add: nth_list_update)
  also have "\<dots> = sb_segment_entry (sb w) ! (unat ?n - 2)" using got(2) lt m by (simp add: taken_def)
  finally have e: "sb_segment_entry (sb w') ! unat (?n - 2) = sb_segment_entry (sb w) ! unat (?n - 2)" using u by simp
  have "sb_segment_entry (sb w') ! unat (?n - 1) = reserved_entry"
    unfolding v [symmetric] got(10) using l m u by simp
  moreover have "\<forall>k < 0x1000. in_seg (sb w) (?n - 2) (unat (sb_ofs2 (sb w')) + k)"
    using assms(5) unfolding o2 in_seg_def by auto
  ultimately show ?thesis using e by blast
qed (use assms(4) in simp)

lemma second_super_unprotected_witness:
  "\<exists>ret w'. bdev_prepare_sb log_lib prep_world = Ok (ret, w') \<and> in_seg (sb prep_world) 6 (unat (sb_ofs2 (sb w')) + 4095)
     \<and> sb_segment_entry (sb w') ! 7 = reserved_entry"
proof -
  have "case bdev_prepare_sb log_lib prep_world of Ok (ret, w') \<Rightarrow> sb_lastseg (sb w') = 1 \<and> sb_ofs2 (sb w') = 53248 | _ \<Rightarrow> False"
    by code_simp
  then obtain ret w' where r: "bdev_prepare_sb log_lib prep_world = Ok (ret, w')" "sb_lastseg (sb w') = 1" "sb_ofs2 (sb w') = 53248"
    by (auto split: result.splits)
  have "sb_no_segs (sb prep_world) = 8" "sb_segsize (sb prep_world) = 8192" by (simp_all add: prep_world_def log_world_def)
  then show ?thesis
    using second_super_unprotected [OF prep_world_ok(1) log_posix prep_world_ok(2) r(1)] r
    by (auto dest: spec [of _ 4095])
qed





end
