(* ===== verification/Super.thy ===== *)
theory Super
  imports Main Prepare
begin

text \<open>What \<open>make_super\<close> writes to the device.\<close>

text \<open>The checks a reader of a super block makes: the checksum of its header, the magic, the checksum.\<close>

definition super_ok :: "'w lib \<Rightarrow> u8 list \<Rightarrow> bool" where
  "super_ok L bs \<longleftrightarrow> field 0 4 bs = mem_bytes (logfs_crc32 L bs 24 4)
     \<and> field 24 8 bs = mem_bytes (cpu_to_be64 LOGFS_MAGIC)
     \<and> field 32 4 bs = mem_bytes (logfs_crc32 L bs 256 36)"

definition journal_table :: "nat \<Rightarrow> u32 list \<Rightarrow> u32 list" where
  "journal_table n segs = map cpu_to_be32 (take n segs) @ replicate (LOGFS_JOURNAL_SEGS - n) 0"

lemma copy_journal_segs_table:
  assumes "length segs = LOGFS_JOURNAL_SEGS"
  shows "copy_journal_segs n segs (replicate LOGFS_JOURNAL_SEGS 0)
     = (if n \<le> LOGFS_JOURNAL_SEGS then Ok (journal_table n segs) else Stuck)"
proof (induction n)
  case (Suc n)
  show ?case
  proof (cases "n < LOGFS_JOURNAL_SEGS")
    case False
    then show ?thesis using Suc assms by auto
  next
    case True
    have "(journal_table n segs)[n := cpu_to_be32 (segs ! n)] = journal_table (Suc n) segs"
    proof (rule nth_equalityI)
      fix i assume "i < length ((journal_table n segs)[n := cpu_to_be32 (segs ! n)])"
      then show "(journal_table n segs)[n := cpu_to_be32 (segs ! n)] ! i = journal_table (Suc n) segs ! i"
        using True assms by (auto simp: journal_table_def nth_list_update nth_append less_Suc_eq)
    qed (use True assms in \<open>simp add: journal_table_def\<close>)
    then show ?thesis using Suc True assms by (simp add: journal_table_def)
  qed
qed (simp add: journal_table_def)

lemma table_length: "length segs = LOGFS_JOURNAL_SEGS \<Longrightarrow> n \<le> LOGFS_JOURNAL_SEGS \<Longrightarrow> length (journal_table n segs) = LOGFS_JOURNAL_SEGS"
  by (simp add: journal_table_def)

lemma sector_size:
  assumes "k \<le> 16"
  shows "align_up 256 (unat (push_bit k 1 :: u32)) = max 256 (2 ^ k)"
proof -
  have u: "unat (push_bit k 1 :: u32) = 2 ^ k" using assms unat_2p [of k, where 'a = 32] by (simp add: push_bit_eq_mult)
  have "unat (256 :: u64) + 2 ^ k \<le> 2 ^ 64"
    using power_increasing [of k 16 "2 :: nat"] assms by simp
  then have *: "unat (ALIGN 256 (2 ^ k)) = (256 + (2 ^ k - 1)) div 2 ^ k * 2 ^ k"
    using unat_ALIGN [of k 256] assms by simp
  have "(256 + (2 ^ k - 1)) div 2 ^ k * 2 ^ k = max 256 (2 ^ k :: nat)"
  proof (cases "k \<le> 8")
    case True
    have "(256 :: nat) = 2 ^ 8" by simp
    then have e: "(256 :: nat) = 2 ^ (8 - k) * 2 ^ k" using True by (simp flip: power_add)
    have d: "(2 ^ (8 - k) * 2 ^ k + (2 ^ k - 1)) div 2 ^ k = (2 ^ (8 - k) :: nat)"
      by (rule div_nat_eqI) (use power_strict_increasing [of 0 "Suc k" "2 :: nat"] in \<open>simp_all add: mult.commute [of "2 ^ k"]\<close>)
    have "(2 :: nat) ^ k \<le> 256" using power_increasing [of k 8 "2 :: nat"] True by simp
    then have m: "max 256 (2 ^ k) = (256 :: nat)" by (rule max_absorb1)
    have "(256 + (2 ^ k - 1)) div 2 ^ k = (2 ^ (8 - k) :: nat)" using d by (simp flip: e)
    then show ?thesis unfolding m using e by simp
  next
    case False
    have "(2 :: nat) ^ 9 \<le> 2 ^ k" by (rule power_increasing) (use False in simp_all)
    then have g: "512 \<le> (2 :: nat) ^ k" by simp
    have "(256 + (2 ^ k - 1)) div 2 ^ k = (1 :: nat)"
      by (rule div_nat_eqI) (use g in simp_all)
    then show ?thesis using g by simp
  qed
  then show ?thesis unfolding align_up_def u using * by simp
qed

lemma disk_super_ok:
  "length segs = LOGFS_JOURNAL_SEGS \<Longrightarrow> ds_ok (disk_super_of L g s segs)"
  by (simp add: ds_ok_def disk_super_of_def zero_super_def Let_def)

lemma super_checks:
  assumes "length segs = LOGFS_JOURNAL_SEGS"
  shows "super_ok L (ds_bytes (disk_super_of L g s segs) @ rest)"
proof -
  let ?ds = "disk_super_of L g s segs"
  let ?bs = "ds_bytes ?ds @ rest"
  define tl where "tl = drop 36 (ds_bytes ?ds)"
  define sh where "sh = \<lparr>sh_crc = 0, sh_pad = 0, sh_type = SEG_SUPER, sh_level = 0, sh_segno = cpu_to_be32 0,
                sh_ec = 0, sh_gec = cpu_to_be64 (ucast (0 :: u32))\<rparr>"
  have hdr: "ds_sh ?ds = sh\<lparr>sh_crc := logfs_crc32 L (sh_bytes sh) 24 4\<rparr>"
    by (simp add: disk_super_of_def set_segment_header_def sh_def Let_def abi_sizes)
  have shape: "ds_bytes ?ds = sh_bytes (ds_sh ?ds) @ mem_bytes (ds_magic ?ds) @ mem_bytes (ds_crc ?ds) @ tl"
    by (simp add: tl_def ds_bytes_def)
  have len: "length (ds_bytes ?ds) = 256" by (rule length_ds_bytes [OF disk_super_ok [OF assms]])
  have f: "field 0 4 ?bs = mem_bytes (sh_crc (ds_sh ?ds))" "field 24 8 ?bs = mem_bytes (ds_magic ?ds)"
    "field 32 4 ?bs = mem_bytes (ds_crc ?ds)"
    unfolding shape by (simp_all add: field_def sh_bytes_def)
  have "drop 4 (take 24 ?bs) = drop 4 (sh_bytes sh)" unfolding shape by (simp add: sh_bytes_def hdr)
  then have c1: "logfs_crc32 L ?bs 24 4 = logfs_crc32 L (sh_bytes sh) 24 4" using len by (simp add: logfs_crc32_def drop_take)
  let ?d0 = "?ds\<lparr>ds_crc := 0\<rparr>"
  have "drop 36 (ds_bytes ?d0) = tl" by (simp add: tl_def ds_bytes_def)
  moreover have "drop 36 (take 256 ?bs) = tl" using len by (simp add: tl_def)
  ultimately have "take 220 (drop 36 ?bs) = take 220 (drop 36 (ds_bytes ?d0))" using len by (simp add: tl_def drop_take)
  then have c2: "logfs_crc32 L ?bs 256 36 = logfs_crc32 L (ds_bytes ?d0) 256 36" by (simp add: logfs_crc32_def)
  have crc: "ds_crc ?ds = logfs_crc32 L (ds_bytes ?d0) 256 36"
    by (simp add: disk_super_of_def zero_super_def Let_def abi_sizes)
  have m: "ds_magic ?ds = cpu_to_be64 LOGFS_MAGIC" by (simp add: disk_super_of_def Let_def)
  show ?thesis unfolding super_ok_def f c1 c2 crc m by (simp add: hdr)
qed

text \<open>The sector that is written, and the globals afterwards.\<close>

definition super_sector :: "'w lib \<Rightarrow> globals \<Rightarrow> super_block \<Rightarrow> u8 list" where
  "super_sector L g s = ds_bytes (disk_super_of L g s (journal_table (unat (g_no_journal_segs g)) (sb_journal_seg s)))
     @ replicate (align_up 256 (unat (sb_writesize s)) - 256) 0"

definition reserve_enough :: "globals \<Rightarrow> globals" where
  "reserve_enough g = g\<lparr>g_bad_seg_reserve := max (g_bad_seg_reserve g) (g_no_journal_segs g)\<rparr>"

lemma make_super_run:
  fixes g :: globals
  assumes P: "posix_pwrite L disk budget" and mem: "never_out w"
    and ws: "sb_writesize (sb w) = push_bit k 1" "k \<le> 16" and js: "length (sb_journal_seg (sb w)) = LOGFS_JOURNAL_SEGS"
    and room: "unat (sb_ofs1 (sb w)) + 65536 < 2 ^ 64" "unat (sb_ofs2 (sb w)) + 65536 < 2 ^ 64"
  defines "sector \<equiv> super_sector L (reserve_enough g) (sb w)"
  shows "if LOGFS_JOURNAL_SEGS < unat (g_no_journal_segs g) then make_super L g w = Stuck
     else \<exists>err w'. make_super L g w = Ok (err, reserve_enough g, w') \<and> (err = 0 \<or> err = - EIO)
       \<and> (\<exists>t s. w' = w\<lparr>hp := (hp w)\<lparr>ticks := t\<rparr>, os := s\<rparr>)
       \<and> (err = 0 \<longrightarrow> disk (os w') = put_bytes (put_bytes (disk (os w)) (unat (sb_ofs1 (sb w))) sector) (unat (sb_ofs2 (sb w))) sector)"
proof -
  let ?n = "unat (g_no_journal_segs g)" and ?g = "reserve_enough g"
  let ?size = "align_up 256 (unat (sb_writesize (sb w)))"
  let ?w = "w\<lparr>hp := (hp w)\<lparr>ticks := Suc (ticks (hp w))\<rparr>\<rparr>"
  let ?segs = "journal_table ?n (sb_journal_seg (sb w))"
  have m: "malloc_buf (hp w) = (True, (hp w)\<lparr>ticks := Suc (ticks (hp w))\<rparr>)" using mem by (simp add: malloc_buf_def never_out_def)
  have z: "ds_journal_seg zero_super = replicate LOGFS_JOURNAL_SEGS 0" by (simp add: zero_super_def)
  have sz: "256 \<le> ?size" "?size \<le> 65536"
  proof -
    have "(2 :: nat) ^ k \<le> 2 ^ 16" by (rule power_increasing) (use ws(2) in simp_all)
    then show "256 \<le> ?size" "?size \<le> 65536" unfolding ws(1) sector_size [OF ws(2)] by simp_all
  qed
  show ?thesis
  proof (cases "LOGFS_JOURNAL_SEGS < ?n")
    case True
    then show ?thesis using m js by (simp add: make_super_def Let_def z copy_journal_segs_table)
  next
    case False
    then have segs: "length ?segs = LOGFS_JOURNAL_SEGS" using table_length [OF js] by simp
    have len: "length (ds_bytes (disk_super_of L ?g (sb w) ?segs)) = 256" by (rule length_ds_bytes [OF disk_super_ok [OF segs]])
    have gn: "g_no_journal_segs ?g = g_no_journal_segs g" by (simp add: reserve_enough_def)
    have sec: "put_at (replicate ?size 0) 0 (ds_bytes (disk_super_of L ?g (sb w) ?segs)) = Ok sector" "length sector = ?size"
      using len sz by (simp_all add: put_at_def sector_def super_sector_def gn)
    have run: "make_super L g w = and_then (dev_write L (sb_ofs1 (sb w)) ?size sector ?w) (\<lambda>(ret, w).
        if ret \<noteq> 0 then Ok (ret, ?g, w)
        else and_then (dev_write L (sb_ofs2 (sb w)) ?size sector w) (\<lambda>(ret, w). Ok (ret, ?g, w)))"
      using m js False sec(1) by (simp add: make_super_def Let_def z copy_journal_segs_table gn flip: reserve_enough_def)
    obtain e1 s1 where d1: "dev_write L (sb_ofs1 (sb w)) ?size sector ?w = Ok (e1, ?w\<lparr>os := s1\<rparr>)" "e1 = 0 \<or> e1 = - EIO"
      "e1 = 0 \<longrightarrow> disk s1 = put_bytes (disk (os w)) (unat (sb_ofs1 (sb w))) sector"
      using dev_write_posix [OF P, of ?size sector "sb_ofs1 (sb w)" ?w] sec(2) sz room(1) by (auto simp: EIO_def)
    show ?thesis
    proof (cases "e1 = 0")
      case True
      obtain e2 s2 where d2: "dev_write L (sb_ofs2 (sb w)) ?size sector (?w\<lparr>os := s1\<rparr>) = Ok (e2, ?w\<lparr>os := s2\<rparr>)" "e2 = 0 \<or> e2 = - EIO"
        "e2 = 0 \<longrightarrow> disk s2 = put_bytes (disk s1) (unat (sb_ofs2 (sb w))) sector"
        using dev_write_posix [OF P, of ?size sector "sb_ofs2 (sb w)" "?w\<lparr>os := s1\<rparr>"] sec(2) sz room(2) by (auto simp: EIO_def)
      have "make_super L g w = Ok (e2, ?g, ?w\<lparr>os := s2\<rparr>)" using run d1(1) d2(1) True by simp
      then show ?thesis using False True d1(3) d2(2,3)
        by (intro if_not_P [THEN iffD2] exI [of _ e2] exI [of _ "?w\<lparr>os := s2\<rparr>"]) auto
    next
      case no: False
      have "make_super L g w = Ok (e1, ?g, ?w\<lparr>os := s1\<rparr>)" using run d1(1) no by simp
      then show ?thesis using False no d1(2) by auto
    qed
  qed
qed

section \<open>Properties\<close>

text \<open>
  C35: \<open>make_super\<close> writes two identical super blocks at \<open>sb_ofs1\<close> and \<open>sb_ofs2\<close>, whose checksums and
  magic are right, padded to the write size with zeros, and always comes back over a system that keeps to
  POSIX: with 0, or with \<open>-EIO\<close>. More than 16 journal segments do not fit the table of the super block.
\<close>

theorem make_super_correct:
  fixes g :: globals
  assumes "posix_pwrite L disk budget" "never_out w" "sb_writesize (sb w) = push_bit k 1" "k \<le> 16"
    "length (sb_journal_seg (sb w)) = LOGFS_JOURNAL_SEGS"
    "unat (sb_ofs1 (sb w)) + 65536 < 2 ^ 64" "unat (sb_ofs2 (sb w)) + 65536 < 2 ^ 64"
  defines "sector \<equiv> super_sector L (reserve_enough g) (sb w)"
  shows "if LOGFS_JOURNAL_SEGS < unat (g_no_journal_segs g) then make_super L g w = Stuck
     else super_ok L sector \<and> length sector = max 256 (2 ^ k)
       \<and> (\<exists>err w'. make_super L g w = Ok (err, reserve_enough g, w') \<and> (err = 0 \<or> err = - EIO) \<and> sb w' = sb w
            \<and> (err = 0 \<longrightarrow> disk (os w') =
                 put_bytes (put_bytes (disk (os w)) (unat (sb_ofs1 (sb w))) sector) (unat (sb_ofs2 (sb w))) sector))"
proof (cases "LOGFS_JOURNAL_SEGS < unat (g_no_journal_segs g)")
  case True
  then show ?thesis using make_super_run [OF assms(1-7), of g] by simp
next
  case False
  then have n: "unat (g_no_journal_segs (reserve_enough g)) \<le> LOGFS_JOURNAL_SEGS" by (simp add: reserve_enough_def)
  note t = table_length [OF assms(5) n]
  have "super_ok L sector" unfolding sector_def super_sector_def by (rule super_checks [OF t])
  moreover have "length sector = max 256 (2 ^ k)"
    unfolding sector_def super_sector_def assms(3) sector_size [OF assms(4)]
    by (simp add: length_ds_bytes [OF disk_super_ok [OF t]])
  ultimately show ?thesis using False make_super_run [OF assms(1-7), of g] unfolding sector_def by auto
qed

lemma make_super_correct_witness:
  "super_ok log_lib (super_sector log_lib (reserve_enough initial_globals) (sb log_world))
     \<and> (\<exists>err w'. make_super log_lib initial_globals log_world = Ok (err, reserve_enough initial_globals, w'))"
proof -
  have "never_out log_world" by (simp add: never_out_def log_world_def pool_def)
  then show ?thesis
    using make_super_correct [OF log_posix, of log_world 0 initial_globals]
    by (auto simp: log_world_def toy_super_def initial_globals_def abi_sizes)
qed

end
