(* ===== verification/Store.thy ===== *)
theory Store
  imports Main Segment_Write
begin

text \<open>
  The segments as a log: what was written stays readable at its offset, in the buffer of an open area
  or on the device, whatever is written later.
\<close>

section \<open>The device outside the segments that are free\<close>

text \<open>\<open>MEMERASE\<close> and \<open>MEMERASE64\<close> change no byte outside the range they are given.\<close>

definition mtd_erases :: "'w lib \<Rightarrow> ('w \<Rightarrow> nat \<Rightarrow> u8) \<Rightarrow> bool" where
  "mtd_erases L disk \<longleftrightarrow>
     (\<forall>fd p n s ret s' x. sys_memerase L fd p n s = (ret, s') \<longrightarrow> x < unat p \<or> unat p + unat n \<le> x \<longrightarrow> disk s' x = disk s x)
   \<and> (\<forall>fd p n s ret s' x. sys_memerase64 L fd p n s = (ret, s') \<longrightarrow> x < unat p \<or> unat p + unat n \<le> x \<longrightarrow> disk s' x = disk s x)"

lemma unat_ucast_u32: "unat p < 2 ^ 32 \<Longrightarrow> unat (ucast p :: u32) = unat p" for p :: u64
  by (simp add: unsigned_ucast_eq take_bit_nat_eq_self)

lemma bdev_write_only:
  assumes "posix_pwrite L disk budget" "unat p + n < 2 ^ 64" "bdev_write L p n buf w = Ok (err, w')"
    "x < unat p \<or> unat p + n \<le> x"
  shows "disk (os w') x = disk (os w) x"
proof -
  have l: "n \<le> length buf" using assms(3) by (auto simp: bdev_write_def safe_pwrite_def split: if_splits)
  obtain s k where s: "bdev_write L p n buf w = Ok (err, w\<lparr>os := s\<rparr>)" "k \<le> n"
    "disk s = put_bytes (disk (os w)) (unat p) (take k buf)"
    using dev_write_posix [OF assms(1) l assms(2), of w] assms(3) unfolding dev_write_eq by auto
  then have "w' = w\<lparr>os := s\<rparr>" using assms(3) by simp
  moreover have "put_bytes (disk (os w)) (unat p) (take k buf) x = disk (os w) x"
    by (rule put_bytes_outside) (use assms(4) s(2) in auto)
  ultimately show ?thesis using s(3) by simp
qed

lemma dev_erase_only:
  fixes segno :: u32
  assumes L: "posix_pwrite L disk budget" "mtd_erases L disk"
    and run: "dev_erase L (ucast segno * ucast (sb_segsize (sb w))) (unat (sb_segsize (sb w))) w = Ok (err, w')"
    and x: "\<not> in_seg (sb w) segno x"
  shows "disk (os w') x = disk (os w) x"
proof -
  let ?p = "ucast segno * ucast (sb_segsize (sb w)) :: u64" and ?n = "unat (sb_segsize (sb w))"
  have p: "unat ?p = seg_ofs (sb w) segno" "unat ?p + ?n < 2 ^ 64"
    using seg_ofs_u64 [where segno = segno and s = "sb w"] by simp_all
  have out: "x < unat ?p \<or> unat ?p + ?n \<le> x" using x p(1) by (auto simp: in_seg_def)
  show ?thesis
  proof (cases "sb_dev_ops (sb w)")
    case Bdev_ops
    then obtain buf w1 where "bdev_write L ?p ?n buf w1 = Ok (err, w')" "os w1 = os w"
      using run by (auto simp: dev_erase_def bdev_erase_def and_then_Ok malloc_buf_def fail_def Let_def
          split: option.splits if_splits)
    then show ?thesis using bdev_write_only [OF L(1) p(2) _ out] by simp
  next
    case Mtd_ops
    have n: "unat (of_nat ?n :: u32) = ?n" "unat (of_nat ?n :: u64) = ?n"
      using u32_bound [of "sb_segsize (sb w)"] by (auto intro!: of_nat_inverse)
    show ?thesis
    proof (cases "?p \<ge> 0x100000000")
      case True
      then show ?thesis using run Mtd_ops out n(2) L(2)
        by (auto simp: dev_erase_def mtd_erase_def mtd_erases_def split: prod.splits)
    next
      case False
      then have "unat (ucast ?p :: u32) = unat ?p" by (intro unat_ucast_u32) (simp add: word_le_nat_alt)
      then show ?thesis using False run Mtd_ops out n(1) L(2)
        by (auto simp: dev_erase_def mtd_erase_def mtd_erases_def split: prod.splits)
    qed
  qed
qed

text \<open>Handing out a segment spares everything before the segments that are left.\<close>

definition spares :: "('w \<Rightarrow> nat \<Rightarrow> u8) \<Rightarrow> 'w world \<Rightarrow> 'w world \<Rightarrow> bool" where
  "spares disk w w' \<longleftrightarrow> (\<forall>x < seg_ofs (sb w) (sb_lastseg (sb w)). disk (os w') x = disk (os w) x)"

lemma get_segment_spares:
  assumes L: "posix_pwrite L disk budget" "mtd_erases L disk"
  shows "segs_ok w \<Longrightarrow> get_segment_loop L w = Some (Ok (segno, w')) \<Longrightarrow> spares disk w w'"
proof (induction "unat (sb_no_segs (sb w)) - unat (sb_lastseg (sb w))" arbitrary: w rule: less_induct)
  case less
  let ?segno = "sb_lastseg (sb w)"
  let ?w1 = "w\<lparr>sb := (sb w)\<lparr>sb_lastseg := ?segno + 1\<rparr>\<rparr>"
  note ok = less.prems(1) [unfolded segs_ok_def]
  have step: "unat (?segno + 1) = unat ?segno + 1"
    by (rule succ_no_wrap) (use ok in \<open>simp add: word_le_nat_alt word_less_nat_alt\<close>)
  have more: "\<not> ?segno + 1 > sb_no_segs (sb w)"
    using less.prems(2) by (subst (asm) get_segment_loop.simps) (auto simp: Let_def fail_def)
  have lt: "unat ?segno < unat (sb_no_segs (sb w))" using more step by (simp add: word_less_nat_alt not_less)
  obtain err w2 where e: "dev_erase L (ucast ?segno * ucast (sb_segsize (sb ?w1))) (unat (sb_segsize (sb ?w1))) ?w1 = Ok (err, w2)"
    "if err = 0 then w' = w2 else \<exists>w3. set_entry ?segno (cpu_to_be32 BADSEG) (cpu_to_be32 RESERVED) w2 = Ok w3
        \<and> get_segment_loop L w3 = Some (Ok (segno, w'))"
    using less.prems(2) more
    by (subst (asm) get_segment_loop.simps) (auto simp: Let_def split: result.splits if_splits)
  note d = dev_stepD [OF dev_erase_step [OF e(1)]]
  have s1: "spares disk w w2" unfolding spares_def
  proof (intro allI impI)
    fix x assume x: "x < seg_ofs (sb w) ?segno"
    have "\<not> in_seg (sb ?w1) ?segno x" using x by (simp add: in_seg_def seg_ofs_def)
    from dev_erase_only [OF L e(1) this] show "disk (os w2) x = disk (os w) x" by simp
  qed
  show ?case
  proof (cases "err = 0")
    case True
    then show ?thesis using e(2) s1 by simp
  next
    case False
    then obtain w3 where w3: "set_entry ?segno (cpu_to_be32 BADSEG) (cpu_to_be32 RESERVED) w2 = Ok w3"
      "get_segment_loop L w3 = Some (Ok (segno, w'))" using e(2) by auto
    have q: "os w3 = os w2" "sb_lastseg (sb w3) = ?segno + 1" "sb_no_segs (sb w3) = sb_no_segs (sb w)"
      "sb_segsize (sb w3) = sb_segsize (sb w)" "length (sb_segment_entry (sb w3)) = length (sb_segment_entry (sb w))"
      using w3(1) d by (auto simp: set_entry_def split: if_splits)
    have "segs_ok w3" using ok q more by (simp add: segs_ok_def not_less)
    then have "spares disk w3 w'" using less.hyps [OF _ _ w3(2)] q step lt by simp
    moreover have "seg_ofs (sb w) ?segno \<le> seg_ofs (sb w3) (sb_lastseg (sb w3))"
      using q step by (simp add: seg_ofs_def)
    ultimately show ?thesis using s1 q(1) by (auto simp: spares_def)
  qed
qed


section \<open>Objects that are written\<close>

text \<open>
  The bytes \<open>bs\<close> lie at offset \<open>x\<close>, inside one segment that was handed out: in the part of the buffer
  that is used where an area has the segment open, and otherwise on the device.
\<close>

definition area_has :: "area \<Rightarrow> u32 \<Rightarrow> nat \<Rightarrow> u8 list \<Rightarrow> bool" where
  "area_has a segno u bs \<longleftrightarrow> (a_buf a \<noteq> None \<and> a_segno a = segno \<longrightarrow>
     holds_at a u bs \<and> u + length bs \<le> unat (a_used_bytes a))"

definition stored_in :: "('w \<Rightarrow> nat \<Rightarrow> u8) \<Rightarrow> 'w world \<Rightarrow> u32 \<Rightarrow> nat \<Rightarrow> u8 list \<Rightarrow> bool" where
  "stored_in disk w segno u bs \<longleftrightarrow> segno < sb_lastseg (sb w) \<and> u + length bs \<le> unat (sb_segsize (sb w))
     \<and> (\<forall>j < LOGFS_NO_AREAS. area_has (sb_area (sb w) ! j) segno u bs)
     \<and> (in_open w {..<LOGFS_NO_AREAS} segno \<or> on_disk (disk (os w)) (seg_ofs (sb w) segno + u) bs)"

definition stored :: "('w \<Rightarrow> nat \<Rightarrow> u8) \<Rightarrow> 'w world \<Rightarrow> nat \<Rightarrow> u8 list \<Rightarrow> bool" where
  "stored disk w x bs \<longleftrightarrow> (\<exists>segno u. x = seg_ofs (sb w) segno + u \<and> stored_in disk w segno u bs)"

definition keeps :: "('w \<Rightarrow> nat \<Rightarrow> u8) \<Rightarrow> 'w world \<Rightarrow> 'w world \<Rightarrow> bool" where
  "keeps disk w w' \<longleftrightarrow> (\<forall>x bs. stored disk w x bs \<longrightarrow> stored disk w' x bs)"

lemma keeps_refl [simp]: "keeps disk w w"
  by (simp add: keeps_def)

lemma keeps_trans: "keeps disk w w1 \<Longrightarrow> keeps disk w1 w2 \<Longrightarrow> keeps disk w w2"
  by (simp add: keeps_def)

lemma keepsI:
  assumes "sb_segsize (sb w') = sb_segsize (sb w)"
    "\<And>segno u bs. stored_in disk w segno u bs \<Longrightarrow> stored_in disk w' segno u bs"
  shows "keeps disk w w'"
proof -
  have "seg_ofs (sb w') = seg_ofs (sb w)" using assms(1) by (simp add: seg_ofs_def fun_eq_iff)
  then show ?thesis using assms(2) unfolding keeps_def stored_def by metis
qed

lemma keeps_same:
  assumes "sb_area (sb w') = sb_area (sb w)" "sb_lastseg (sb w') = sb_lastseg (sb w)" "sb_segsize (sb w') = sb_segsize (sb w)"
    "os w' = os w"
  shows "keeps disk w w'"
  by (rule keepsI) (use assms in \<open>simp_all add: stored_in_def in_open_def seg_ofs_def\<close>)

lemma on_disk_cong: "(\<And>k. k < length bs \<Longrightarrow> d' (x + k) = d (x + k)) \<Longrightarrow> on_disk d' x bs = on_disk d x bs"
  by (simp add: on_disk_def)

lemma below_lastseg:
  assumes "segno < sb_lastseg s" "u + n \<le> unat (sb_segsize s)"
  shows "seg_ofs s segno + u + n \<le> seg_ofs s (sb_lastseg s)"
  using seg_ofs_step [of segno "sb_lastseg s" s] assms by (simp add: word_less_nat_alt)

text \<open>An area is opened, or goes on in a new segment once its old one is on the device.\<close>

lemma reopen_keeps:
  assumes len: "length (sb_area (sb w)) = LOGFS_NO_AREAS" and i: "i < LOGFS_NO_AREAS"
    and a: "sb_area (sb w') = (sb_area (sb w))[i := a']" "sb_lastseg (sb w) \<le> a_segno a'"
    and f: "seg_frame w w'" and d: "spares disk w w'"
    and closed: "\<And>m. a_buf (sb_area (sb w) ! i) = Some m \<Longrightarrow>
      on_disk (disk (os w)) (seg_ofs (sb w) (a_segno (sb_area (sb w) ! i))) m"
  shows "keeps disk w w'"
proof (rule keepsI)
  have ss: "sb_segsize (sb w') = sb_segsize (sb w)" "sb_lastseg (sb w) \<le> sb_lastseg (sb w')" "seg_ofs (sb w') = seg_ofs (sb w)"
    using f by (simp_all add: seg_frame_def seg_ofs_def fun_eq_iff)
  show "sb_segsize (sb w') = sb_segsize (sb w)" by (rule ss)
  fix segno u bs
  assume s: "stored_in disk w segno u bs"
  then have lt: "segno < sb_lastseg (sb w)" "u + length bs \<le> unat (sb_segsize (sb w))" by (simp_all add: stored_in_def)
  have ne: "a_segno a' \<noteq> segno" using a(2) lt(1) by auto
  have nth: "sb_area (sb w') ! j = (if j = i then a' else sb_area (sb w) ! j)" if "j < LOGFS_NO_AREAS" for j
    using that i len by (simp add: a(1) nth_list_update)
  have areas: "\<forall>j < LOGFS_NO_AREAS. area_has (sb_area (sb w') ! j) segno u bs"
    using s ne by (simp add: nth stored_in_def) (simp add: area_has_def)
  have eq: "on_disk (disk (os w')) (seg_ofs (sb w) segno + u) bs = on_disk (disk (os w)) (seg_ofs (sb w) segno + u) bs"
    by (rule on_disk_cong) (use d below_lastseg [OF lt] in \<open>auto simp: spares_def\<close>)
  have "in_open w' {..<LOGFS_NO_AREAS} segno \<or> on_disk (disk (os w')) (seg_ofs (sb w) segno + u) bs"
  proof (cases "\<exists>j < LOGFS_NO_AREAS. j \<noteq> i \<and> a_buf (sb_area (sb w) ! j) \<noteq> None \<and> a_segno (sb_area (sb w) ! j) = segno")
    case True
    then show ?thesis unfolding in_open_def by (auto simp: nth)
  next
    case False
    show ?thesis
    proof (cases "a_buf (sb_area (sb w) ! i) \<noteq> None \<and> a_segno (sb_area (sb w) ! i) = segno")
      case True
      then obtain m where m: "a_buf (sb_area (sb w) ! i) = Some m" by blast
      have h: "holds_at (sb_area (sb w) ! i) u bs" using s i True by (simp add: stored_in_def area_has_def)
      then have h': "u + length bs \<le> length m" "take (length bs) (drop u m) = bs" using m by (simp_all add: holds_at_def)
      have "bs ! k = m ! (u + k)" if "k < length bs" for k
      proof -
        have "bs ! k = take (length bs) (drop u m) ! k" using h'(2) by simp
        then show ?thesis using that h'(1) by simp
      qed
      then have "on_disk (disk (os w)) (seg_ofs (sb w) segno + u) bs"
        using closed [OF m] True h'(1) by (simp add: on_disk_def add.assoc)
      then show ?thesis using eq by simp
    next
      case no: False
      then have "\<not> in_open w {..<LOGFS_NO_AREAS} segno" using False by (auto simp: in_open_def)
      then show ?thesis using s eq by (simp add: stored_in_def)
    qed
  qed
  then show "stored_in disk w' segno u bs" using areas lt ss unfolding stored_in_def by auto
qed


lemma init_area_segment_keeps:
  assumes L: "posix_pwrite L disk budget" "mtd_erases L disk"
    and inv: "seg_inv_but {i} w" and i: "i < LOGFS_NO_AREAS" and run: "init_area_segment L i level w = Ok w'"
  shows "spares disk w w'"
    "(\<And>m. a_buf (sb_area (sb w) ! i) = Some m \<Longrightarrow>
       on_disk (disk (os w)) (seg_ofs (sb w) (a_segno (sb_area (sb w) ! i))) m) \<Longrightarrow> keeps disk w w'"
proof -
  have ok: "segs_ok w" and len: "length (sb_area (sb w)) = LOGFS_NO_AREAS" using inv by (simp_all add: seg_inv_but_def)
  obtain segno w1 where g: "get_segment L w = Ok (segno, w1)" and w': "os w' = os w1"
    using run i len by (auto simp: init_area_segment_def area_at_def and_then_Ok put_area_def Let_def split: if_splits)
  have "get_segment_loop L w = Some (Ok (segno, w1))" using g by (simp add: get_segment_def split: option.splits)
  then have "spares disk w w1" by (rule get_segment_spares [OF L ok])
  then show sp: "spares disk w w'" using w' by (simp add: spares_def)
  note s = init_area_segment_spec [OF inv i run]
  then obtain segno where "sb_lastseg (sb w) \<le> segno" "sb_area (sb w') = (sb_area (sb w))[i := fresh_area L level (sb w) segno]"
    by blast
  then show "keeps disk w w'" if "\<And>m. a_buf (sb_area (sb w) ! i) = Some m \<Longrightarrow>
       on_disk (disk (os w)) (seg_ofs (sb w) (a_segno (sb_area (sb w) ! i))) m"
    by (intro reopen_keeps [OF len i _ _ _ sp that]) (use s in \<open>auto simp: fresh_area_def\<close>)
qed

lemma init_area_keeps:
  assumes L: "posix_pwrite L disk budget" "mtd_erases L disk"
    and inv: "seg_inv w" and i: "i < LOGFS_NO_AREAS" and run: "init_area L i level w = Ok w'"
  shows "keeps disk w w'"
proof (cases "a_buf (sb_area (sb w) ! i)")
  case (Some m)
  then show ?thesis using init_area_spec [OF inv i run] by simp
next
  case None
  have len: "length (sb_area (sb w)) = LOGFS_NO_AREAS" and ok: "segs_ok w" using inv by (simp_all add: seg_inv_but_def)
  let ?w = "put_area i ((sb_area (sb w) ! i)\<lparr>a_buf := Some (replicate (unat (sb_segsize (sb w))) 0)\<rparr>)
      (w\<lparr>hp := (hp w)\<lparr>ticks := Suc (ticks (hp w))\<rparr>\<rparr>)"
  have "init_area_segment L i level ?w = Ok w'"
    using run None i len by (auto simp: init_area_def area_at_def malloc_buf_def split: if_splits)
  then obtain segno w1 where g: "get_segment L ?w = Ok (segno, w1)" and w': "os w' = os w1"
    using i len by (auto simp: init_area_segment_def area_at_def and_then_Ok put_area_def Let_def split: if_splits)
  have "get_segment_loop L ?w = Some (Ok (segno, w1))" using g by (simp add: get_segment_def split: option.splits)
  moreover have "segs_ok ?w" using ok by (simp add: segs_ok_def put_area_def)
  ultimately have "spares disk ?w w1" by (intro get_segment_spares [OF L])
  then have sp: "spares disk w w'" using w' by (simp add: spares_def put_area_def seg_ofs_def)
  obtain segno where "sb_lastseg (sb w) \<le> segno" "sb_area (sb w') = (sb_area (sb w))[i := fresh_area L level (sb w) segno]"
    "seg_frame w w'" using init_area_spec [OF inv i run] None by auto
  then show ?thesis by (intro reopen_keeps [OF len i _ _ _ sp]) (auto simp: fresh_area_def None)
qed

text \<open>The segment of an area is written to the device, whole or in part.\<close>

lemma write_area_keeps:
  assumes i: "i < LOGFS_NO_AREAS" and m: "a_buf (sb_area (sb w) ! i) = Some m"
    and s: "\<And>x. \<not> in_seg (sb w) (a_segno (sb_area (sb w) ! i)) x \<Longrightarrow> disk s x = disk (os w) x"
  shows "keeps disk w (w\<lparr>os := s\<rparr>)"
proof (rule keepsI)
  fix segno u bs
  assume st: "stored_in disk w segno u bs"
  have "in_open w {..<LOGFS_NO_AREAS} segno \<or> on_disk (disk s) (seg_ofs (sb w) segno + u) bs"
  proof (cases "segno = a_segno (sb_area (sb w) ! i)")
    case True
    then show ?thesis using i m by (auto simp: in_open_def)
  next
    case False
    have "disk s (seg_ofs (sb w) segno + u + k) = disk (os w) (seg_ofs (sb w) segno + u + k)" if "k < length bs" for k
    proof (rule s)
      have "in_seg (sb w) segno (seg_ofs (sb w) segno + u + k)" using that st by (simp add: in_seg_def stored_in_def)
      then show "\<not> in_seg (sb w) (a_segno (sb_area (sb w) ! i)) (seg_ofs (sb w) segno + u + k)"
        using False in_seg_unique by blast
    qed
    then have "on_disk (disk s) (seg_ofs (sb w) segno + u) bs = on_disk (disk (os w)) (seg_ofs (sb w) segno + u) bs"
      by (rule on_disk_cong)
    then show ?thesis using st by (simp add: stored_in_def)
  qed
  then show "stored_in disk (w\<lparr>os := s\<rparr>) segno u bs" using st by (simp add: stored_in_def in_open_def)
qed simp

lemma finish_area_keeps:
  assumes L: "posix_pwrite L disk budget" "mtd_erases L disk" and inv: "seg_inv w" and i: "i < LOGFS_NO_AREAS"
    and m: "a_buf (sb_area (sb w) ! i) = Some m" and run: "finish_area L i final level w = Ok (err, w')"
  shows "keeps disk w w'"
proof -
  let ?a = "sb_area (sb w) ! i"
  have len: "length (sb_area (sb w)) = LOGFS_NO_AREAS" and a: "area_ok (sb w) ?a" using inv i by (simp_all add: seg_inv_but_def)
  have lm: "length m = unat (sb_segsize (sb w))" using a m by (simp add: area_ok_def)
  obtain e s k where d: "dev_write L (ucast (a_segno ?a) * ucast (sb_segsize (sb w))) (unat (sb_segsize (sb w))) m w
      = Ok (e, w\<lparr>os := s\<rparr>)" "disk s = put_bytes (disk (os w)) (seg_ofs (sb w) (a_segno ?a)) (take k m)"
      "k \<le> length m" "e = 0 \<and> k = length m \<or> e = - EIO"
    using dev_write_posix [OF L(1), of "unat (sb_segsize (sb w))" m "ucast (a_segno ?a) * ucast (sb_segsize (sb w))" w]
      lm seg_ofs_u64 [where segno = "a_segno ?a" and s = "sb w"] by auto
  have k1: "keeps disk w (w\<lparr>os := s\<rparr>)"
    by (rule write_area_keeps [OF i m], unfold d(2), rule put_bytes_outside) (use d(3) lm in \<open>auto simp: in_seg_def\<close>)
  show ?thesis
  proof (cases "e = 0")
    case False
    then have "w' = w\<lparr>os := s\<rparr>" using run m i len d(1) by (simp add: finish_area_def area_at_def)
    then show ?thesis using k1 by simp
  next
    case True
    let ?w2 = "w\<lparr>os := s, sb := (sb w)\<lparr>sb_segment_entry := entry_set w (a_segno ?a) (ec_level 1 level)
        (cpu_to_be32 (a_used_bytes ?a - of_nat LOGFS_SEGMENT_HEADERSIZE))\<rparr>\<rparr>"
    have "keeps disk (w\<lparr>os := s\<rparr>) ?w2" by (rule keeps_same) simp_all
    then have k2: "keeps disk w ?w2" by (rule keeps_trans [OF k1])
    have r: "if final then w' = ?w2 else init_area_segment L i level ?w2 = Ok w'"
      using run m i len d(1) True
      by (auto simp: finish_area_def area_at_def and_then_Ok set_entry_spec entry_set_def split: if_splits)
    show ?thesis
    proof (cases final)
      case False
      have "seg_inv (w\<lparr>os := s\<rparr>)" using dev_step_inv [OF dev_step_os [of w s]] inv by simp
      then have inv2: "seg_inv ?w2" using entry_inv [of _ "w\<lparr>os := s\<rparr>" "{}"] by (simp add: entry_set_def)
      have "disk s = put_bytes (disk (os w)) (seg_ofs (sb w) (a_segno ?a)) m" using d(2,4) True by (auto simp: EIO_def)
      then have "on_disk (disk (os ?w2)) (seg_ofs (sb ?w2) (a_segno (sb_area (sb ?w2) ! i))) m"
        by (simp add: on_disk_def put_bytes_def seg_ofs_def)
      then have "keeps disk ?w2 w'"
        using r False m by (intro init_area_segment_keeps(2) [OF L seg_inv_weaken [OF inv2] i]) auto
      then show ?thesis by (rule keeps_trans [OF k2])
    qed (use r k2 in simp)
  qed
qed

lemma make_room_keeps:
  assumes L: "posix_pwrite L disk budget" "mtd_erases L disk" and inv: "seg_inv w" and i: "i < LOGFS_NO_AREAS"
    and run: "make_room L i level w = Ok (err, w')"
  shows "keeps disk w w'"
proof -
  obtain w1 where w1: "init_area L i level w = Ok w1" using run by (auto simp: make_room_def and_then_Ok)
  have k: "keeps disk w w1" by (rule init_area_keeps [OF L inv i w1])
  have a: "seg_inv w1" "a_buf (sb_area (sb w1) ! i) \<noteq> None" using init_area_spec [OF inv i w1] by simp_all
  then obtain m where m: "a_buf (sb_area (sb w1) ! i) = Some m" by blast
  have len: "length (sb_area (sb w1)) = LOGFS_NO_AREAS" using a(1) by (simp add: seg_inv_but_def)
  have "w' = w1 \<or> finish_area L i False level w1 = Ok (err, w')"
    using run w1 i len by (auto simp: make_room_def area_at_def split: if_splits)
  then show ?thesis using k keeps_trans [OF k finish_area_keeps [OF L a(1) i m]] by blast
qed

lemma append_keeps:
  assumes len: "length (sb_area (sb w)) = LOGFS_NO_AREAS" and i: "i < LOGFS_NO_AREAS"
    and b: "a_buf a' \<noteq> None" "a_segno a' = a_segno (sb_area (sb w) ! i)" "a_buf (sb_area (sb w) ! i) \<noteq> None"
    and u: "unat (a_used_bytes (sb_area (sb w) ! i)) \<le> unat (a_used_bytes a')"
    and h: "\<And>bs v. holds_at (sb_area (sb w) ! i) v bs \<Longrightarrow> v + length bs \<le> unat (a_used_bytes (sb_area (sb w) ! i)) \<Longrightarrow>
      holds_at a' v bs"
  shows "keeps disk w (put_area i a' w)"
proof (rule keepsI)
  have nth: "sb_area (sb (put_area i a' w)) ! j = (if j = i then a' else sb_area (sb w) ! j)" if "j < LOGFS_NO_AREAS" for j
    using that i len by (simp add: put_area_def nth_list_update)
  have op: "in_open (put_area i a' w) {..<LOGFS_NO_AREAS} segno = in_open w {..<LOGFS_NO_AREAS} segno" for segno
    using b by (auto simp: in_open_def nth)
  fix segno v bs
  assume st: "stored_in disk w segno v bs"
  have "area_has a' segno v bs" if "area_has (sb_area (sb w) ! i) segno v bs"
    using that b u h [of v bs] by (auto simp: area_has_def)
  then have "\<forall>j < LOGFS_NO_AREAS. area_has (sb_area (sb (put_area i a' w)) ! j) segno v bs"
    using st i by (auto simp: nth stored_in_def)
  then show "stored_in disk (put_area i a' w) segno v bs" using st op by (simp add: stored_in_def put_area_def seg_ofs_def)
qed (simp add: put_area_def)


lemma inode_grew_keeps: "inode_grew F w ino n err w' \<Longrightarrow> keeps disk w w'"
  by (rule keeps_same) (auto simp: inode_grew_def split: if_splits)

lemma segment_write_keeps:
  assumes L: "posix_pwrite L disk budget" "mtd_erases L disk" and fs: "fs_with F w" and inv: "seg_inv w"
    and n: "obj_len (sb w) type = Ok n" "n \<le> length buf" and l: "level < LOGFS_MAX_LEVELS"
    and run: "logfs_segment_write L buf type ino bix level w = Ok (ofs, w')"
  shows "keeps disk w w'"
proof -
  let ?i = "area_no ino level"
  let ?oh = "oh_bytes (make_object_header L buf (of_nat n) type ino bix)"
  note i = area_no_bound [OF l, of ino]
  note nb = obj_len_bound [OF inv n(1)]
  have len: "unat (of_nat n :: u16) = n" by (rule of_nat_inverse) (use nb in simp_all)
  obtain err w1 where r: "make_room L ?i (of_nat ?i) w = Ok (err, w1)"
    using run n i len by (auto simp: logfs_segment_write_def area_no_def and_then_Ok Let_def not_le)
  note m = make_room_spec [OF inv i r]
  have k1: "keeps disk w w1" by (rule make_room_keeps [OF L inv i r])
  show ?thesis
  proof (cases "err = 0")
    case False
    then have "w' = w1" using run n i len r by (auto simp: logfs_segment_write_def area_no_def and_then_Ok Let_def not_le)
    then show ?thesis using k1 by simp
  next
    case True
    let ?a = "sb_area (sb w1) ! ?i"
    have loh: "length ?oh = LOGFS_OBJECT_HEADERSIZE" by (simp add: abi_sizes)
    have bs: "sb_blocksize (sb w1) = sb_blocksize (sb w)" using m by (simp add: seg_frame_def)
    have lt: "length (take n buf) = n" using n(2) by simp
    have i1: "seg_inv w1" "has_room ?i w1" using m True by simp_all
    have len1: "length (sb_area (sb w1)) = LOGFS_NO_AREAS" using i1(1) by (simp add: seg_inv_but_def)
    obtain a' where a': "append_object ?i ?oh (take n buf) w1 = Ok (a_segno ?a * sb_segsize (sb w1) + a_used_bytes ?a, put_area ?i a' w1)"
      "a_segno a' = a_segno ?a" "unat (a_used_bytes a') = unat (a_used_bytes ?a) + (LOGFS_OBJECT_HEADERSIZE + n)"
      "holds_at a' (unat (a_used_bytes ?a)) (?oh @ take n buf)"
      "\<forall>bs v. holds_at ?a v bs \<and> v + length bs \<le> unat (a_used_bytes ?a) \<longrightarrow> holds_at a' v bs"
      using append_object_spec [OF i1(1) i i1(2) loh, of "take n buf"] nb bs lt by auto
    have k2: "keeps disk w1 (put_area ?i a' w1)"
      by (rule append_keeps [OF len1 i]) (use a' i1(2) in \<open>auto simp: holds_at_def has_room_def\<close>)
    have f2: "fs_with F (put_area ?i a' w1)" using frame_files [OF fs] frame_files [OF _ put_area_frame] m by blast
    obtain err2 where g: "seg_grow_inode ino (LOGFS_OBJECT_HEADERSIZE + n) (put_area ?i a' w1) = Ok (err2, w')"
      using run n i len r True a'(1) by (auto simp: logfs_segment_write_def area_no_def and_then_Ok Let_def not_le split: if_splits)
    then have "inode_grew F (put_area ?i a' w1) ino (LOGFS_OBJECT_HEADERSIZE + n) err2 w'"
      using seg_grow_inode_spec [OF f2, of ino "LOGFS_OBJECT_HEADERSIZE + n"] by auto
    from inode_grew_keeps [OF this] show ?thesis using keeps_trans [OF k1 keeps_trans [OF k2]] by blast
  qed
qed

text \<open>An object at the end of its area is a stored object.\<close>

lemma placed_stored:
  assumes inv: "seg_inv w'" and g: "same_geo w w'" and l: "level < LOGFS_MAX_LEVELS" and p: "object_placed bs ino level w ofs w'"
  shows "\<exists>x. stored disk w' x bs \<and> ofs = int (x mod 2 ^ 32) \<and> x + length bs \<le> seg_ofs (sb w') (sb_lastseg (sb w'))"
proof -
  let ?i = "area_no ino level"
  let ?a = "sb_area (sb w') ! ?i"
  let ?u = "unat (a_used_bytes ?a) - length bs"
  note i = area_no_bound [OF l, of ino]
  have h: "holds_at ?a ?u bs" "unat (a_used_bytes ?a) = ?u + length bs" "ofs = int ((seg_ofs (sb w) (a_segno ?a) + ?u) mod 2 ^ 32)"
    using p by (simp_all add: object_placed_def Let_def)
  obtain m where m: "a_buf ?a = Some m" using h(1) by (auto simp: holds_at_def)
  have ok: "area_ok (sb w') ?a" using inv i by (simp add: seg_inv_but_def)
  have b: "a_segno ?a < sb_lastseg (sb w')" "?u + length bs \<le> unat (sb_segsize (sb w'))"
    using ok m h(2) by (simp_all add: area_ok_def)
  have "area_has (sb_area (sb w') ! j) (a_segno ?a) ?u bs" if j: "j < LOGFS_NO_AREAS" for j
  proof (cases "j = ?i")
    case True
    then show ?thesis using h by (simp add: area_has_def)
  next
    case False
    then show ?thesis using inv i j m by (auto simp: area_has_def seg_inv_but_def)
  qed
  moreover have "in_open w' {..<LOGFS_NO_AREAS} (a_segno ?a)" using i m by (auto simp: in_open_def)
  ultimately have "stored_in disk w' (a_segno ?a) ?u bs" using b by (simp add: stored_in_def)
  then have "stored disk w' (seg_ofs (sb w') (a_segno ?a) + ?u) bs" unfolding stored_def by blast
  then show ?thesis using h(3) geo_seg_ofs [OF g] below_lastseg [OF b] by (intro exI [of _ "seg_ofs (sb w') (a_segno ?a) + ?u"]) simp
qed

text \<open>After \<open>flush_segments\<close> every stored object is on the device.\<close>

lemma flush_segments_stored:
  assumes inv: "seg_inv w" and L: "posix_pwrite L disk budget" and run: "flush_segments L w = Ok (0, w')"
    and s: "stored disk w x bs"
  shows "on_disk (disk (os w')) x bs"
proof -
  obtain err w1 where r: "flush_loop L 0 LOGFS_NO_AREAS w = Ok (err, w1)" "flush_frame disk {..<LOGFS_NO_AREAS} w w1"
    "err = 0 \<longrightarrow> (\<forall>j \<in> {..<LOGFS_NO_AREAS}. closed disk w j w1)"
    using flush_loop_spec [OF L inv, of 0 LOGFS_NO_AREAS] by (auto simp: atLeast0LessThan)
  then have e: "err = 0" "w1 = w'" using run by (simp_all add: flush_segments_def)
  obtain segno u where x: "x = seg_ofs (sb w) segno + u" and st: "stored_in disk w segno u bs"
    using s by (auto simp: stored_def)
  show ?thesis
  proof (cases "in_open w {..<LOGFS_NO_AREAS} segno")
    case True
    then obtain j m where j: "j < LOGFS_NO_AREAS" "a_buf (sb_area (sb w) ! j) = Some m" "a_segno (sb_area (sb w) ! j) = segno"
      by (auto simp: in_open_def)
    have d: "on_disk (disk (os w')) (seg_ofs (sb w) segno) m" using r(3) e j by (auto simp: closed_def Let_def)
    have "holds_at (sb_area (sb w) ! j) u bs" using st j by (simp add: stored_in_def area_has_def)
    then have h: "u + length bs \<le> length m" "take (length bs) (drop u m) = bs" using j(2) by (simp_all add: holds_at_def)
    have "bs ! k = m ! (u + k)" if "k < length bs" for k
      using that h(1) nth_take [of k "length bs" "drop u m"] unfolding h(2) by simp
    then show ?thesis using d h(1) by (simp add: on_disk_def x add.assoc)
  next
    case False
    have "disk (os w') (x + k) = disk (os w) (x + k)" if "k < length bs" for k
    proof -
      have "in_seg (sb w) segno (x + k)" using st that by (simp add: in_seg_def x stored_in_def)
      then have "\<not> in_seg (sb w) s' (x + k)" if "in_open w {..<LOGFS_NO_AREAS} s'" for s'
        using that False in_seg_unique by metis
      then show ?thesis using r(2) e(2) by (simp add: flush_frame_def)
    qed
    then have "on_disk (disk (os w')) x bs = on_disk (disk (os w)) x bs" by (rule on_disk_cong)
    then show ?thesis using st False by (simp add: stored_in_def x)
  qed
qed


section \<open>Runs\<close>

text \<open>
  A run of \<open>logfs_segment_write\<close>: the objects that were written, each with the offset that was
  returned. A call that fails adds none.
\<close>

inductive written :: "'w lib \<Rightarrow> 'w world \<Rightarrow> (nat \<times> u8 list) list \<Rightarrow> 'w world \<Rightarrow> bool" for L w where
  start: "written L w [] w"
| ok: "written L w (objs @ [(nat ofs, object_bytes L buf n type ino bix)]) w2"
    if "written L w objs w1" "logfs_segment_write L buf type ino bix level w1 = Ok (ofs, w2)" "0 \<le> ofs"
      "level < LOGFS_MAX_LEVELS" "obj_len (sb w1) type = Ok n" "n \<le> length buf"
| failed: "written L w objs w2"
    if "written L w objs w1" "logfs_segment_write L buf type ino bix level w1 = Ok (ofs, w2)" "ofs < 0"
      "level < LOGFS_MAX_LEVELS" "obj_len (sb w1) type = Ok n" "n \<le> length buf"

text \<open>The device is smaller than 4 GiB, so that an offset fits the 32 bits it is computed in.\<close>

definition below_4g :: "super_block \<Rightarrow> bool" where
  "below_4g s \<longleftrightarrow> seg_ofs s (sb_no_segs s) \<le> 2 ^ 32"

lemma lastseg_below_4g: "seg_inv w \<Longrightarrow> below_4g (sb w) \<Longrightarrow> seg_ofs (sb w) (sb_lastseg (sb w)) \<le> 2 ^ 32"
proof -
  assume "seg_inv w" "below_4g (sb w)"
  moreover from this have "seg_ofs (sb w) (sb_lastseg (sb w)) \<le> seg_ofs (sb w) (sb_no_segs (sb w))"
    by (simp add: seg_inv_but_def segs_ok_def seg_ofs_def word_le_nat_alt)
  ultimately show ?thesis by (simp add: below_4g_def)
qed

lemma written_stored:
  assumes L: "posix_pwrite L disk budget" "mtd_erases L disk" and b: "below_4g (sb w)"
  shows "written L w objs w' \<Longrightarrow> fs_inv w \<Longrightarrow> seg_inv w \<Longrightarrow>
     fs_inv w' \<and> seg_inv w' \<and> same_geo w w' \<and> keeps disk w w' \<and> (\<forall>obj \<in> set objs. stored disk w' (fst obj) (snd obj))"
proof (induction rule: written.induct)
  case start
  then show ?case by simp
next
  case (ok objs w1 buf type ino bix level ofs w2 n)
  have i: "fs_inv w1" "seg_inv w1" "same_geo w w1" "keeps disk w w1" "\<forall>obj \<in> set objs. stored disk w1 (fst obj) (snd obj)"
    using ok by simp_all
  have k: "keeps disk w1 w2" by (rule segment_write_keeps [OF L i(1,2) ok.hyps(5,6,4,2)])
  have s: "write_frame Map.empty ino level w1 w2" "object_placed (object_bytes L buf n type ino bix) ino level w1 ofs w2"
    using segment_write_spec [OF i(1,2) ok.hyps(5,6,4,2)] ok.hyps(3) by (simp_all add: object_written_def)
  then have f: "fs_inv w2" "seg_inv w2" "same_geo w1 w2" by (simp_all add: write_frame_def)
  obtain x where x: "stored disk w2 x (object_bytes L buf n type ino bix)" "ofs = int (x mod 2 ^ 32)"
    "x + length (object_bytes L buf n type ino bix) \<le> seg_ofs (sb w2) (sb_lastseg (sb w2))"
    using placed_stored [OF f(2,3) ok.hyps(4) s(2)] by blast
  have g: "same_geo w w2" using same_geo_trans [OF i(3) f(3)] .
  have "below_4g (sb w2)" using b g by (simp add: below_4g_def same_geo_def seg_ofs_def)
  then have "x + length (object_bytes L buf n type ino bix) \<le> 2 ^ 32" using lastseg_below_4g [OF f(2)] x(3) by simp
  moreover have "0 < length (object_bytes L buf n type ino bix)" by (simp add: object_bytes_def abi_sizes)
  ultimately have "x < 2 ^ 32" by linarith
  then have "nat ofs = x" using x(2) by simp
  then have "\<forall>obj \<in> set (objs @ [(nat ofs, object_bytes L buf n type ino bix)]). stored disk w2 (fst obj) (snd obj)"
    using i(5) k x(1) by (auto simp: keeps_def)
  then show ?case using f g keeps_trans [OF i(4) k] by blast
next
  case (failed objs w1 buf type ino bix level ofs w2 n)
  have i: "fs_inv w1" "seg_inv w1" "same_geo w w1" "keeps disk w w1" "\<forall>obj \<in> set objs. stored disk w1 (fst obj) (snd obj)"
    using failed by simp_all
  have k: "keeps disk w1 w2" by (rule segment_write_keeps [OF L i(1,2) failed.hyps(5,6,4,2)])
  have "write_frame Map.empty ino level w1 w2"
    using segment_write_spec [OF i(1,2) failed.hyps(5,6,4,2)] by simp
  then show ?case using i k keeps_trans [OF i(4) k] same_geo_trans [OF i(3)] by (auto simp: write_frame_def keeps_def)
qed

section \<open>Properties\<close>



end
