(* ===== verification/Flush.thy ===== *)
theory Flush
  imports Main Readwrite Store
begin

text \<open>
  readwrite.c, third part: flushing a file. The indirect blocks of a level are taken out of their tree
  one by one, written, and their offsets entered in the level above; the last block of the top level is
  written and its offset entered in the inode.
\<close>

section \<open>Taking the last block out of its tree\<close>

lemma tree_no_leaves:
  assumes "geo_ok g" "tree g h head T" "leaves T = []"
  shows "T = []"
proof (cases T)
  case (Cons lv rest)
  then have r: "rep g h head 1 (lv # rest)" "fill 1 lv" using assms(2) by (auto simp: tree_def)
  note rr = repD [OF r(1)]
  obtain res where root: "last (lv # rest) = [(bh_node head, res)]" using rr(4) by (auto simp: head_ok_def)
  obtain n lv2 where "lv = n # lv2" using last_loop_ok [OF rr(2,3,1) root assms(1)] by (cases lv) auto
  then have "leaves T \<noteq> []" using r(2) Cons by (cases n) auto
  then show ?thesis using assms(3) by simp
qed simp

lemma take_last_spec:
  assumes inv: "fs_with F w" and q: "ino_ptr w ino = Some q" and l: "l < LOGFS_MAX_LEVELS"
  shows "\<exists>b p w'. take_last_block q l w = Ok (b, p, w')
     \<and> (if \<forall>c. blk_ptr w ino l c = None then p = 0 \<and> w' = w
        else p \<noteq> 0 \<and> blk_ptr w ino l b = Some p \<and> (\<forall>c. blk_ptr w ino l c \<noteq> None \<longrightarrow> c \<le> b)
          \<and> (\<exists>ws. block_at (hp w) p = Some ws \<and> length ws = block_longs (sb w) \<and> F p = None
              \<and> block_edited (F(p := Some (Ext (Block ws)))) w ino l b None w'))"
proof -
  obtain G where ok: "fs_ok (block_longs (sb w)) (hp w) (sb_ino_tree (sb w)) G" and lo: "loose F (hp w) G"
    using inv by (auto simp: fs_with_def)
  note D = fs_okD [OF ok]
  have qo: "own G q = Some (Inode_of ino)" using q ino_ptr_own [OF ok] by simp
  obtain i where i: "mem (hp w) q = Some (Ext (Inode i))" "inode_ok (hp w) (blk_tower G ino) i"
    using D(6) [OF qo] by blast
  have at: "inode_at (hp w) q = Some i" using i(1) by (simp add: inode_at_Some)
  let ?head = "i_block_tree i ! l" and ?T = "blk_tower G ino l"
  let ?s = "(?head, hp w)"
  have t: "tree btree_geo64 (hp w) ?head ?T" and li: "l < length (i_block_tree i)"
    using i(2) l by (auto simp: inode_ok_def)
  have view: "blk_ptr w ino l = view64 ?s" using q at by (simp add: blk_ptr_def inode_of_def fun_eq_iff)
  have wl: "well64 ?s" using D(1) t by (auto simp: well_def)
  show ?thesis
  proof (cases "\<forall>c. blk_ptr w ino l c = None")
    case True
    have "dict ?T k = None" for k
    proof (rule ccontr)
      assume "dict ?T k \<noteq> None"
      then obtain v where v: "dict ?T k = Some v" by blast
      then have "length k = 1" using tree_entry [OF t] by (auto simp: dict_def dest!: map_of_SomeD)
      then obtain c where "k = [c]" by (auto simp: length_Suc_conv)
      then show False using v True k64.seen_dict [OF t, of c] by (simp add: view)
    qed
    then have "dom (dict ?T) = {}" by auto
    then have "leaves ?T = []" by (simp add: dom_dict)
    then have "?T = []" by (rule tree_no_leaves [OF geo64_ok t])
    then have h: "?head = btree_init" using t by (simp add: tree_def)
    have same: "i\<lparr>i_block_tree := (i_block_tree i)[l := btree_init]\<rparr> = i" using h list_update_id [of "i_block_tree i" l] by simp
    have "put_obj q (Inode i) (hp w) = hp w" using i(1) by (simp add: put_obj_def fun_upd_idem)
    then have "take_last_block q l w = Ok (0, 0, w)"
      using at l same by (simp add: take_last_block_def upd_inode_def h btree_last64_def btree_last_def btree_remove64_def
          btree_remove_def btree_init_def)
    then show ?thesis using True by auto
  next
    case False
    then have "view64 ?s \<noteq> Map.empty" by (auto simp: view)
    from m64.pop_top [OF wl this] obtain b p where b: "btree_last64 ?s = Some b" "view64 ?s b = Some p" "p \<noteq> 0"
      using m64.get_some [OF wl] by blast
    have mx: "\<forall>c. view64 ?s c \<noteq> None \<longrightarrow> c \<le> b"
      using m64.top_max [OF wl \<open>view64 ?s \<noteq> Map.empty\<close>] b(1) by auto
    have "dict ?T [b] = Some p" using b(2) k64.seen_dict [OF t] by simp
    from remove_correct [OF geo64_ok t, of "Buf [b]", OF _ _ this] obtain head' h2 T' where r:
      "btree_remove btree_geo64 ?head (hp w) (Buf [b]) = Some (p, head', h2)" "tree btree_geo64 h2 head' T'"
      "changes (set (addrs ?T)) (set (addrs T')) (hp w) h2" "dict T' = (dict ?T)([b] := None)" by auto
    let ?w = "w\<lparr>hp := put_obj q (Inode (i\<lparr>i_block_tree := (i_block_tree i)[l := head']\<rparr>)) h2\<rparr>"
    have po: "own G p = Some (Block_of ino l b)" using b(2) blk_ptr_own [OF ok l, of ino b p] view by simp
    then obtain ws where ws: "mem (hp w) p = Some (Ext (Block ws))" "length ws = block_longs (sb w)" using D(9) by blast
    have "q \<notin> set (addrs ?T)" using qo D(7) by simp
    then have "mem h2 q = Some (Ext (Inode i))" using changes_outside [OF r(3)] i(1) by simp
    then have "inode_at h2 q = Some i" by (simp add: inode_at_Some)
    then have run: "take_last_block q l w = Ok (b, p, ?w)"
      using at l b(1) r(1) by (simp add: take_last_block_def upd_inode_def btree_remove64_def)
    have out: "x \<notin> set (addrs T') \<and> mem h2 x = mem (hp w) x" if "mem (hp w) x \<noteq> None" "x \<notin> set (addrs ?T)" for x
      using changes_outside [OF r(3)] that by blast
    have al: "alloc_ok h2" "strategy h2 = strategy (hp w)" using alloc_ok_changes [OF D(1) r(3)] r(3) by (simp_all add: changes_def)
    have bp: "blk_ptr w ino l b = Some p" using b(2) view by simp
    have "block_edited (F(p := mem (hp w) p)) w ino l b None ?w"
      by (rule edit_block(2) [OF ok lo q at l r(2) al(1) _ r(4) out al(2) bp]) simp
    moreover have "F p = None" using lo po by (cases "F p") (auto simp: loose_def)
    ultimately show ?thesis using run False b(3) bp mx ws view by (auto simp: block_at_Some)
  qed
qed

section \<open>Freeing a block\<close>

lemma fs_with_mono: "fs_with F w \<Longrightarrow> (\<And>x y. F' x = Some y \<Longrightarrow> F x = Some y) \<Longrightarrow> fs_with F' w"
  unfolding fs_with_def loose_def by blast

lemma free_obj_spec:
  assumes inv: "fs_with (F(p := Some (Ext x))) w" and F: "F p = None"
  shows "\<exists>w'. free_obj p w = Ok w' \<and> fs_with F w' \<and> rest_same w w' \<and> di_of w' = di_of w \<and> same_blocks w w'"
proof -
  obtain G where ok: "fs_ok (block_longs (sb w)) (hp w) (sb_ino_tree (sb w)) G" and lo: "loose (F(p := Some (Ext x))) (hp w) G"
    using inv by (auto simp: fs_with_def)
  note D = fs_okD [OF ok]
  have p: "own G p = None" "mem (hp w) p = Some (Ext x)" using lo by (simp_all add: loose_def)
  let ?h = "(hp w)\<lparr>mem := (mem (hp w))(p := None)\<rparr>"
  let ?w = "w\<lparr>hp := ?h\<rparr>"
  have m: "mem ?h y = mem (hp w) y" if "own G y \<noteq> None" for y using that p(1) by auto
  have t: "tree btree_geo64 ?h hd (blk_tower G j k)" if "tree btree_geo64 (hp w) hd (blk_tower G j k)" for hd j k
    by (rule tree_cong [OF that]) (use D(7) m in simp)
  have t0: "tree btree_geo64 ?h (sb_ino_tree (sb w)) (ino_tower G)" by (rule tree_cong [OF D(3)]) (use D(4) m in simp)
  have objs: "\<exists>i. mem ?h y = Some (Ext (Inode i)) \<and> inode_ok ?h (blk_tower G j) i" if o: "own G y = Some (Inode_of j)" for y j
    using D(6) [OF o] m [of y] o t by (auto simp: inode_ok_def)
  have "alloc_ok ?h" using D(1) by (simp add: alloc_ok_def)
  moreover have "mem ?h y \<noteq> None" if "own G y \<noteq> None" for y using D(2) [OF that] m [OF that] by simp
  moreover have "\<exists>ws. mem ?h y = Some (Ext (Block ws)) \<and> length ws = block_longs (sb w)"
    if "own G y = Some (Block_of j k c)" for y j k c using D(9) [OF that] m [of y] that by auto
  ultimately have ok': "fs_ok (block_longs (sb w)) ?h (sb_ino_tree (sb w)) G"
    unfolding fs_ok_def using t0 D(4,5,7,8,10) objs by (intro conjI allI impI) simp_all
  then have okw: "fs_ok (block_longs (sb w)) (hp ?w) (sb_ino_tree (sb ?w)) G" by simp
  have "loose F (hp ?w) G" using lo F by (auto simp: loose_def)
  then have inv': "fs_with F ?w" using okw unfolding fs_with_def by auto
  have "ino_ptr ?w j = ino_ptr w j \<and> inode_of ?w j = inode_of w j" for j
    by (rule inode_of_cong [OF ok okw]) (use m in auto)
  then have di: "di_of ?w = di_of w" "ino_ptr ?w = ino_ptr w" by (auto simp: di_of_def fun_eq_iff)
  have "same_blocks w ?w" unfolding same_blocks_def
  proof (intro allI impI)
    fix j k c assume k: "k < LOGFS_MAX_LEVELS"
    show "blk_ptr ?w j k c = blk_ptr w j k c \<and> blk_of ?w j k c = blk_of w j k c"
      by (rule blk_of_cong [OF ok okw k]) (use m in auto)
  qed
  moreover have "free_obj p w = Ok ?w" using p(2) by (simp add: free_obj_def)
  ultimately show ?thesis using inv' di by (auto simp: rest_same_def)
qed


section \<open>Indices of indirect blocks\<close>

lemma parent_unat: "l < 7 \<Longrightarrow> unat (parent_bix x l) = unat x div 512 ^ Suc l * 512 ^ Suc l + (512 ^ Suc l - 1)"
  using unat_or_mask [of "9 * Suc l" x] pow_512 [of "Suc l"] by (simp add: parent_bix_def)

text \<open>\<open>cover x l\<close>: the index of the block of level \<open>l\<close> that covers block \<open>x\<close> of the file.\<close>

primrec cover :: "u64 \<Rightarrow> nat \<Rightarrow> u64" where
  "cover x 0 = x"
| "cover x (Suc l) = parent_bix x l"

lemma cover_unat: "l < 8 \<Longrightarrow> unat (cover x l) = unat x div 512 ^ l * 512 ^ l + (512 ^ l - 1)"
  by (cases l) (simp_all add: parent_unat del: power_Suc)

lemma mix_div: "0 < m \<Longrightarrow> (a * m + (m - 1)) div m = (a :: nat)"
  by (metis add.commute add.right_neutral diff_less div_less div_mult_self1 less_numeral_extra(1) not_gr_zero)

lemma cover_div: "l < 8 \<Longrightarrow> unat (cover x l) div 512 ^ l = unat x div 512 ^ l"
  unfolding cover_unat by (rule mix_div) simp

lemma cover_eq_iff: "l < 8 \<Longrightarrow> cover x l = cover y l \<longleftrightarrow> unat x div 512 ^ l = unat y div 512 ^ l"
proof
  assume l: "l < 8" and e: "unat x div 512 ^ l = unat y div 512 ^ l"
  have "unat (cover x l) = unat (cover y l)" unfolding cover_unat [OF l] e ..
  then show "cover x l = cover y l" by (simp only: word_unat_eq_iff)
next
  assume l: "l < 8" and e: "cover x l = cover y l"
  show "unat x div 512 ^ l = unat y div 512 ^ l" using cover_div [OF l, of x] cover_div [OF l, of y] e by simp
qed

lemma div_Suc_pow: "(x :: nat) div 512 ^ Suc l = x div 512 ^ l div 512"
  by (simp only: power_Suc2 div_mult2_eq)

lemma cover_Suc_iff: "l < 7 \<Longrightarrow> cover x (Suc l) = cover y (Suc l) \<and> slot_of x l = slot_of y l \<longleftrightarrow> cover x l = cover y l"
proof -
  assume l: "l < 7"
  have "a div 512 = b div 512 \<and> a mod 512 = b mod 512 \<longleftrightarrow> a = b" for a b :: nat by (metis div_mult_mod_eq)
  then show ?thesis using l by (simp only: cover_eq_iff div_Suc_pow slot_of_def)
qed

lemma cover_cover: "l < 7 \<Longrightarrow> parent_bix (cover x l) l = parent_bix x l \<and> slot_of (cover x l) l = slot_of x l"
proof -
  assume l: "l < 7"
  have d: "unat (cover x l) div 512 ^ l = unat x div 512 ^ l" using l by (intro cover_div) simp
  then have "unat (cover x l) div 512 ^ Suc l = unat x div 512 ^ Suc l" by (simp only: div_Suc_pow)
  then have "cover (cover x l) (Suc l) = cover x (Suc l)" using l cover_eq_iff [of "Suc l" "cover x l" x] by simp
  then show ?thesis using d by (simp add: slot_of_def)
qed

lemma cover_idem: "l < 8 \<Longrightarrow> cover (cover x l) l = cover x l"
  by (simp add: cover_eq_iff cover_div)

lemma cover_bound: "l \<le> k \<Longrightarrow> l < 8 \<Longrightarrow> unat x < 512 ^ k \<Longrightarrow> unat (cover x l) < 512 ^ k"
proof -
  assume a: "l \<le> k" "l < 8" "unat x < 512 ^ k"
  have p: "(512 :: nat) ^ k = 512 ^ (k - l) * 512 ^ l" using a(1) by (simp flip: power_add)
  have "unat x div 512 ^ l < 512 ^ (k - l)" using a(3) p by (simp add: less_mult_imp_div_less)
  then have "(unat x div 512 ^ l + 1) * 512 ^ l \<le> 512 ^ (k - l) * 512 ^ l" by (intro mult_le_mono1) simp
  then have "unat x div 512 ^ l * 512 ^ l + 512 ^ l \<le> 512 ^ k" using p by simp
  moreover have "0 < (512 :: nat) ^ l" by simp
  ultimately show ?thesis using cover_unat [OF a(2), of x] by linarith
qed

lemma cover_top: "k < 8 \<Longrightarrow> unat x < 512 ^ k \<Longrightarrow> unat (cover x k) = 512 ^ k - 1"
  by (simp add: cover_unat)

section \<open>What a file leads to\<close>

text \<open>
  \<open>v\<close> is the offset, as it is kept in an inode or an indirect block, of a stored object. \<open>reach\<close>: from
  \<open>v\<close> down through \<open>l\<close> levels of stored indirect blocks, the path for block \<open>bix\<close> ends at the object
  \<open>obj\<close>. \<open>held\<close>: the same, beginning at an indirect block that is still in the heap.
\<close>

definition points_to :: "('w \<Rightarrow> nat \<Rightarrow> u8) \<Rightarrow> 'w world \<Rightarrow> u64 \<Rightarrow> u8 list \<Rightarrow> bool" where
  "points_to disk w v bs \<longleftrightarrow> (\<exists>x. stored disk w x bs \<and> v = cpu_to_be64 (of_nat (x mod 2 ^ 32)))"

definition indirect_object :: "'w lib \<Rightarrow> u64 \<Rightarrow> u64 list \<Rightarrow> u64 \<Rightarrow> u8 list" where
  "indirect_object L ino ws b = object_bytes L (array_bytes ws) 4096 OBJ_BLOCK ino b"

primrec reach :: "'w lib \<Rightarrow> ('w \<Rightarrow> nat \<Rightarrow> u8) \<Rightarrow> 'w world \<Rightarrow> u64 \<Rightarrow> u64 \<Rightarrow> u8 list \<Rightarrow> nat \<Rightarrow> u64 \<Rightarrow> bool" where
  "reach L disk w ino bix obj 0 v \<longleftrightarrow> points_to disk w v obj"
| "reach L disk w ino bix obj (Suc l) v \<longleftrightarrow> (\<exists>ws. length ws = 512
     \<and> points_to disk w v (indirect_object L ino ws (cover bix (Suc l))) \<and> reach L disk w ino bix obj l (ws ! slot_of bix l))"

definition held :: "'w lib \<Rightarrow> ('w \<Rightarrow> nat \<Rightarrow> u8) \<Rightarrow> 'w world \<Rightarrow> u64 \<Rightarrow> u64 \<Rightarrow> u8 list \<Rightarrow> nat \<Rightarrow> bool" where
  "held L disk w ino bix obj l \<longleftrightarrow> (\<exists>ws. blk_of w ino (Suc l) (cover bix (Suc l)) = Some ws \<and> length ws = 512
     \<and> reach L disk w ino bix obj l (ws ! slot_of bix l))"

lemma points_to_keeps: "keeps disk w w' \<Longrightarrow> points_to disk w v bs \<Longrightarrow> points_to disk w' v bs"
  by (auto simp: keeps_def points_to_def)

lemma reach_keeps: "keeps disk w w' \<Longrightarrow> reach L disk w ino bix obj l v \<Longrightarrow> reach L disk w' ino bix obj l v"
proof (induction l arbitrary: v)
  case (Suc l)
  then obtain ws where ws: "length ws = 512" "points_to disk w v (indirect_object L ino ws (cover bix (Suc l)))"
    "reach L disk w ino bix obj l (ws ! slot_of bix l)" by auto
  have "points_to disk w' v (indirect_object L ino ws (cover bix (Suc l)))"
    by (rule points_to_keeps [OF Suc.prems(1) ws(2)])
  then show ?case using ws(1) Suc.IH [OF Suc.prems(1) ws(3)] unfolding reach.simps by blast
qed (simp add: points_to_keeps)

lemma held_keeps:
  "keeps disk w w' \<Longrightarrow> blk_of w' ino (Suc l) (cover bix (Suc l)) = blk_of w ino (Suc l) (cover bix (Suc l)) \<Longrightarrow>
     held L disk w ino bix obj l \<Longrightarrow> held L disk w' ino bix obj l"
  using reach_keeps by (fastforce simp: held_def)

section \<open>Writing a block keeps what is stored\<close>

lemma rest_same_keeps: "rest_same w w' \<Longrightarrow> keeps disk w w'"
  by (rule keeps_same) (simp_all add: rest_same_def)

lemma found_inode_keeps: "found_inode F w ino p w' \<Longrightarrow> keeps disk w w'"
  by (rule keeps_same) (use found_inode_frame(1,3) in \<open>fastforce+\<close>)

lemma write_direct_keeps:
  assumes L: "posix_pwrite L disk budget" "mtd_erases L disk"
    and fs: "fs_with F w" "seg_inv w" "obj_len (sb w) type = Ok n" "n \<le> length buf" and p: "ino_ptr w ino = Some p"
    and b: "bix < of_nat I0_BLOCKS" and run: "write_direct L p ino bix type buf w = Ok (err, w')"
  shows "keeps disk w w'"
proof -
  have l0: "0 < LOGFS_MAX_LEVELS" by (simp add: abi_levels)
  obtain ofs w1 where s: "logfs_segment_write L buf type ino bix 0 w = Ok (ofs, w1)"
    and r: "(if ofs < 0 then Ok (ofs, w1) else and_then (set_data p (unat bix) (cpu_to_be64 (of_int ofs)) w1) (\<lambda>w. Ok (0, w))) = Ok (err, w')"
    using run by (auto simp: write_direct_def and_then_Ok)
  have k: "keeps disk w w1" by (rule segment_write_keeps [OF L fs l0 s])
  have f1: "file_frame F ino 0 w w1" using write_file_frame [of F ino 0 w w1] segment_write_spec [OF fs l0 s] by blast
  have p1: "ino_ptr w1 ino = Some p" "fs_with F w1" using f1 p by (simp_all add: file_frame_def)
  have bn: "unat bix < LOGFS_EMBEDDED_FIELDS" using b by (simp add: abi_sizes word_less_nat_alt)
  show ?thesis using set_data_spec [OF p1(2,1) bn, of "cpu_to_be64 (of_int ofs)"] r k keeps_trans [OF k rest_same_keeps]
    by (auto split: if_splits)
qed

lemma write_loop_keeps:
  assumes L: "posix_pwrite L disk budget" "mtd_erases L disk"
    and fs: "fs_with F w" and inv: "seg_inv w" and n: "obj_len (sb w) type = Ok n" "n \<le> length buf"
    and p: "ino_ptr w ino = Some p" and g: "geo_4k (sb w)"
    and run: "write_loop L p ino bix level type buf w = Ok (err, w')"
  shows "keeps disk w w'"
proof -
  let ?b = "parent_bix bix level"
  have b12: "sb_blocksize_bits (sb w) = 12" using g by (simp add: geo_4k_def)
  have l3: "level + 1 < 4" using write_loop_spec [OF fs inv n p g run] by blast
  have l: "level + 1 < LOGFS_MAX_LEVELS" "level < LOGFS_MAX_LEVELS" using l3 by (simp_all add: abi_levels)
  have bm: "bixmask (sb w) (level + 1) = Ok (mask (9 * (level + 1)))" using bixmask_value [OF b12, of "level + 1"] l3 by simp
  obtain q w1 where f: "find_or_create_block p ?b (level + 1) w = Ok (q, w1)" "found_block F w ino (level + 1) ?b q w1"
    using find_or_create_block_result [OF fs p l(1), of ?b] run bm by (auto simp: write_loop_def parent_bix_def)
  note fb = found_block_rest [OF f(2)]
  have r1: "sb w1 = sb w" using fb by (simp add: rest_same_def)
  have k1: "keeps disk w w1" using fb by (intro rest_same_keeps) simp
  show ?thesis
  proof (cases "q = 0")
    case True
    then show ?thesis using run bm f(1) k1 by (simp add: write_loop_def parent_bix_def)
  next
    case False
    obtain ofs w2 where s: "logfs_segment_write L buf type ino bix level w1 = Ok (ofs, w2)"
      and r: "(if ofs < 0 then Ok (ofs, w2) else and_then (get_bits (sb w2) bix level) (\<lambda>m.
          and_then (set_block_word q (unat m) (cpu_to_be64 (of_int ofs)) w2) (\<lambda>w. Ok (0, w)))) = Ok (err, w')"
      using run bm f(1) False by (auto simp: write_loop_def and_then_Ok parent_bix_def)
    have inv1: "fs_with F w1" "seg_inv w1" using fb inv rest_same_frame(1) [of w w1] by simp_all
    have n1: "obj_len (sb w1) type = Ok n" using n(1) r1 by simp
    have k2: "keeps disk w1 w2" by (rule segment_write_keeps [OF L inv1 n1 n(2) l(2) s])
    have "keeps disk w2 w'"
      by (rule keeps_same) (use r in \<open>auto simp: and_then_Ok set_block_word_def split: if_splits\<close>)
    then show ?thesis using keeps_trans [OF k1 keeps_trans [OF k2]] by blast
  qed
qed

lemma file_write_keeps:
  assumes L: "posix_pwrite L disk budget" "mtd_erases L disk"
    and fs: "fs_with F w" and inv: "seg_inv w" and n: "obj_len (sb w) type = Ok n" "n \<le> length buf"
    and g: "geo_4k (sb w)" and h8: "unat (di_height (old_di w ino)) < 8" and b63: "unat bix \<le> 2 ^ 63"
    and run: "logfs_file_write L ino bix level type buf w = Ok (err, w')"
  shows "keeps disk w w'"
proof -
  obtain p w1 where f: "find_or_create_inode ino w = Ok (p, w1)" "found_inode F w ino p w1"
    using find_or_create_inode_result [OF fs, of ino] run by (auto simp: logfs_file_write_def)
  note ff = found_inode_frame [OF f(2)] and fm = found_inode_misc [OF f(2)]
  have k1: "keeps disk w w1" by (rule found_inode_keeps [OF f(2)])
  have inv1: "fs_with F w1" "seg_inv w1" using found_file_frame [OF f(2) inv] by (simp_all add: file_frame_def)
  have n1: "obj_len (sb w1) type = Ok n" "geo_4k (sb w1)" using n(1) g fm by simp_all
  show ?thesis
  proof (cases "p = 0")
    case True
    then show ?thesis using run f(1) k1 by (simp add: logfs_file_write_def)
  next
    case False
    have p1: "ino_ptr w1 ino = Some p" using ff(6) False by simp
    show ?thesis
    proof (cases "level = 0 \<and> bix < of_nat I0_BLOCKS")
      case True
      then have "write_direct L p ino bix type buf w1 = Ok (err, w')" using run f(1) False by (simp add: logfs_file_write_def)
      then show ?thesis using keeps_trans [OF k1 write_direct_keeps [OF L inv1 n1(1) n(2) p1]] True by blast
    next
      case ind: False
      obtain w2 where gi: "rw_grow_inode p bix level w1 = Ok w2" and r: "write_loop L p ino bix level type buf w2 = Ok (err, w')"
        using run f(1) False ind by (auto simp: logfs_file_write_def and_then_Ok)
      have hh: "\<forall>i. inode_of w1 ino = Some i \<longrightarrow> unat (di_height (i_di i)) < 8"
        using h8 found_old_di [OF fs f(2) False] by (auto simp: di_of_def)
      have d: "fs_with F w2" "rest_same w1 w2" using rw_grow_inode_spec [OF inv1(1) p1 b63 hh, of level] gi by auto
      have s2: "sb w2 = sb w1" "ino_ptr w2 ino = Some p" "seg_inv w2"
        using d(2) p1 inv1(2) rest_same_frame(1) [OF d(2)] by (simp_all add: rest_same_def)
      have "keeps disk w2 w'" by (rule write_loop_keeps [OF L d(1) s2(3) _ n(2) s2(2) _ r]) (use n1 s2(1) in simp_all)
      then show ?thesis using keeps_trans [OF k1 keeps_trans [OF rest_same_keeps [OF d(2)]]] by blast
    qed
  qed
qed


section \<open>One block moves up\<close>

lemma fs_with_loose: "fs_with F w \<Longrightarrow> F p = Some x \<Longrightarrow> mem (hp w) p = Some x"
  by (auto simp: fs_with_def loose_def)

lemma blk_length:
  assumes "fs_with F w" "l < LOGFS_MAX_LEVELS" "blk_of w ino l b = Some ws"
  shows "length ws = block_longs (sb w)"
proof -
  obtain G where ok: "fs_ok (block_longs (sb w)) (hp w) (sb_ino_tree (sb w)) G" using assms(1) by (auto simp: fs_with_def)
  obtain p where p: "blk_ptr w ino l b = Some p" "block_at (hp w) p = Some ws"
    using assms(3) by (cases "blk_ptr w ino l b") (auto simp: blk_of_def)
  then have "own G p = Some (Block_of ino l b)" using blk_ptr_own [OF ok assms(2)] by simp
  from fs_okD(9) [OF ok this] show ?thesis using p(2) by (auto simp: block_at_Some)
qed

definition level_blocks :: "'w world \<Rightarrow> u64 \<Rightarrow> nat \<Rightarrow> u64 set" where
  "level_blocks w ino l = {b. blk_ptr w ino l b \<noteq> None}"

lemma finite_blocks: "finite (level_blocks w ino l)"
  by (rule finite)

text \<open>
  The indices at every level are those of covering blocks, and the file is small enough for \<open>k\<close> levels.
\<close>

definition blocks_wf :: "'w world \<Rightarrow> u64 \<Rightarrow> nat \<Rightarrow> bool" where
  "blocks_wf w ino k \<longleftrightarrow> (\<forall>l b. Suc l < LOGFS_MAX_LEVELS \<longrightarrow> b \<in> level_blocks w ino (Suc l) \<longrightarrow>
     cover b (Suc l) = b \<and> unat b < 512 ^ k)"

text \<open>While level \<open>l + 1\<close> is flushed, a path begins there, or one level up if its block has moved.\<close>

definition safe :: "'w lib \<Rightarrow> ('w \<Rightarrow> nat \<Rightarrow> u8) \<Rightarrow> 'w world \<Rightarrow> u64 \<Rightarrow> nat \<Rightarrow> u64 \<Rightarrow> u8 list \<Rightarrow> bool" where
  "safe L disk w ino l bix obj \<longleftrightarrow> held L disk w ino bix obj l
     \<or> held L disk w ino bix obj (Suc l) \<and> cover bix (Suc l) \<notin> level_blocks w ino (Suc l)"

text \<open>Block \<open>b\<close> of level \<open>l + 1\<close>, with the words \<open>ws\<close>, was written, and entered in the level above.\<close>

definition moved_up :: "'w lib \<Rightarrow> ('w \<Rightarrow> nat \<Rightarrow> u8) \<Rightarrow> 'w world \<Rightarrow> u64 \<Rightarrow> nat \<Rightarrow> u64 \<Rightarrow> 'w world \<Rightarrow> bool" where
  "moved_up L disk w ino l b w' \<longleftrightarrow> keeps disk w w'
     \<and> (\<forall>i m c. m < LOGFS_MAX_LEVELS \<longrightarrow> (i, m, c) \<noteq> (ino, Suc l, b) \<longrightarrow> (i, m, c) \<noteq> (ino, Suc (Suc l), cover b (Suc (Suc l))) \<longrightarrow>
          blk_ptr w' i m c = blk_ptr w i m c \<and> blk_of w' i m c = blk_of w i m c)
     \<and> b \<in> level_blocks w ino (Suc l) \<and> b \<notin> level_blocks w' ino (Suc l)
     \<and> (\<exists>ws v. blk_of w ino (Suc l) b = Some ws \<and> length ws = 512 \<and> points_to disk w' v (indirect_object L ino ws b)
          \<and> length (old_words w ino (Suc (Suc l)) (cover b (Suc (Suc l)))) = 512
          \<and> blk_of w' ino (Suc (Suc l)) (cover b (Suc (Suc l)))
              = Some ((old_words w ino (Suc (Suc l)) (cover b (Suc (Suc l))))[slot_of b (Suc l) := v]))"

lemma slot_bound [simp]: "slot_of x l < 512"
  by (simp add: slot_of_def)

lemma moved_up_held:
  assumes m: "moved_up L disk w ino l b w'" and l: "Suc (Suc l) < LOGFS_MAX_LEVELS"
    and wf: "cover b (Suc l) = b" and s: "safe L disk w ino l bix obj"
  shows "safe L disk w' ino l bix obj"
proof -
  let ?c = "cover b (Suc (Suc l))"
  have l7: "Suc l < 7" using l by (simp add: abi_levels)
  have k: "keeps disk w w'" using m by (simp add: moved_up_def)
  obtain ws v where v: "blk_of w ino (Suc l) b = Some ws" "length ws = 512" "points_to disk w' v (indirect_object L ino ws b)"
    "length (old_words w ino (Suc (Suc l)) ?c) = 512"
    "blk_of w' ino (Suc (Suc l)) ?c = Some ((old_words w ino (Suc (Suc l)) ?c)[slot_of b (Suc l) := v])"
    using m by (auto simp: moved_up_def)
  have b': "b \<notin> level_blocks w' ino (Suc l)" using m by (simp add: moved_up_def)
  have sl: "Suc l < LOGFS_MAX_LEVELS" using l by simp
  have same: "blk_ptr w' i n c = blk_ptr w i n c \<and> blk_of w' i n c = blk_of w i n c"
    if "n < LOGFS_MAX_LEVELS" "(i, n, c) \<noteq> (ino, Suc l, b)" "(i, n, c) \<noteq> (ino, Suc (Suc l), ?c)" for i n c
    using m that unfolding moved_up_def by blast
  from s consider "held L disk w ino bix obj l" "cover bix (Suc l) = b" | "held L disk w ino bix obj l" "cover bix (Suc l) \<noteq> b"
    | "held L disk w ino bix obj (Suc l)" "cover bix (Suc l) \<notin> level_blocks w ino (Suc l)"
    unfolding safe_def by blast
  then show ?thesis
  proof cases
    case 1
    then have r: "reach L disk w ino bix obj l (ws ! slot_of bix l)" using v(1) by (auto simp: held_def)
    have c: "cover bix (Suc (Suc l)) = ?c" "slot_of bix (Suc l) = slot_of b (Suc l)"
      using cover_cover [OF l7, of bix] 1(2) by simp_all
    have "reach L disk w' ino bix obj (Suc l) v"
      using v(2,3) reach_keeps [OF k r] 1(2) by auto
    then have "held L disk w' ino bix obj (Suc l)" using v(4,5) c unfolding held_def by simp
    then show ?thesis using b' 1(2) by (simp add: safe_def)
  next
    case 2
    have "blk_of w' ino (Suc l) (cover bix (Suc l)) = blk_of w ino (Suc l) (cover bix (Suc l))"
      using same [OF sl, of ino "cover bix (Suc l)"] 2(2) by simp
    then show ?thesis using held_keeps [OF k _ 2(1)] by (simp add: safe_def)
  next
    case 3
    have "b \<in> level_blocks w ino (Suc l)" using m by (simp add: moved_up_def)
    then have ne: "cover bix (Suc l) \<noteq> b" using 3(2) by blast
    have out: "cover bix (Suc l) \<notin> level_blocks w' ino (Suc l)"
      using 3(2) same [OF sl, of ino "cover bix (Suc l)"] ne by (simp add: level_blocks_def)
    have "held L disk w' ino bix obj (Suc l)"
    proof (cases "cover bix (Suc (Suc l)) = ?c")
      case False
      then have "blk_of w' ino (Suc (Suc l)) (cover bix (Suc (Suc l))) = blk_of w ino (Suc (Suc l)) (cover bix (Suc (Suc l)))"
        using same [OF l, of ino "cover bix (Suc (Suc l))"] by simp
      then show ?thesis using held_keeps [OF k _ 3(1)] by simp
    next
      case True
      then obtain ws1 where ws1: "blk_of w ino (Suc (Suc l)) ?c = Some ws1" "length ws1 = 512"
        "reach L disk w ino bix obj (Suc l) (ws1 ! slot_of bix (Suc l))" using 3(1) by (auto simp: held_def)
      have "slot_of bix (Suc l) \<noteq> slot_of b (Suc l)"
        using cover_Suc_iff [OF l7, of bix b] True ne wf by auto
      then have "ws1[slot_of b (Suc l) := v] ! slot_of bix (Suc l) = ws1 ! slot_of bix (Suc l)" by simp
      then show ?thesis using v(5) ws1(1,2) reach_keeps [OF k ws1(3)] True unfolding held_def by (simp add: old_words_def)
    qed
    then show ?thesis using out by (simp add: safe_def)
  qed
qed

lemma moved_up_wf:
  assumes m: "moved_up L disk w ino l b w'" and l: "Suc (Suc l) < LOGFS_MAX_LEVELS" and k: "Suc (Suc l) \<le> k"
    and wf: "blocks_wf w ino k"
  shows "blocks_wf w' ino k" "level_blocks w' ino (Suc l) = level_blocks w ino (Suc l) - {b}"
proof -
  let ?c = "cover b (Suc (Suc l))"
  have same: "blk_ptr w' i n c = blk_ptr w i n c"
    if "n < LOGFS_MAX_LEVELS" "(i, n, c) \<noteq> (ino, Suc l, b)" "(i, n, c) \<noteq> (ino, Suc (Suc l), ?c)" for i n c
    using m that unfolding moved_up_def by blast
  have b: "b \<in> level_blocks w ino (Suc l)" "b \<notin> level_blocks w' ino (Suc l)" using m by (simp_all add: moved_up_def)
  then have bw: "cover b (Suc l) = b" "unat b < 512 ^ k" using wf l unfolding blocks_wf_def by (meson Suc_lessD)+
  have l8: "Suc (Suc l) < 8" using l by (simp add: abi_levels)
  have c: "cover ?c (Suc (Suc l)) = ?c" "unat ?c < 512 ^ k"
    using cover_idem [OF l8, of b] cover_bound [OF k l8 bw(2)] by simp_all
  show "blocks_wf w' ino k" unfolding blocks_wf_def
  proof (intro allI impI)
    fix n x assume n: "Suc n < LOGFS_MAX_LEVELS" and x: "x \<in> level_blocks w' ino (Suc n)"
    show "cover x (Suc n) = x \<and> unat x < 512 ^ k"
    proof (cases "n = Suc l \<and> x = ?c")
      case True
      then show ?thesis using c by simp
    next
      case False
      have "(ino, Suc n, x) \<noteq> (ino, Suc l, b)" using x b(2) by auto
      then have "blk_ptr w' ino (Suc n) x = blk_ptr w ino (Suc n) x" using False by (intro same [OF n]) auto
      then have "x \<in> level_blocks w ino (Suc n)" using x by (simp add: level_blocks_def)
      then show ?thesis using wf n unfolding blocks_wf_def by blast
    qed
  qed
  show "level_blocks w' ino (Suc l) = level_blocks w ino (Suc l) - {b}"
  proof (rule set_eqI)
    fix x
    show "x \<in> level_blocks w' ino (Suc l) \<longleftrightarrow> x \<in> level_blocks w ino (Suc l) - {b}"
      using same [of "Suc l" ino x] l b(2) by (cases "x = b") (auto simp: level_blocks_def)
  qed
qed


section \<open>One round\<close>

text \<open>What holds of the state before and after, and what every part of the flush leaves alone.\<close>

definition flush_ok :: "(ulong \<Rightarrow> fsobj obj option) \<Rightarrow> 'w world \<Rightarrow> bool" where
  "flush_ok F w \<longleftrightarrow> fs_with F w \<and> seg_inv w \<and> geo_4k (sb w) \<and> erase_ok (sb w)"

definition same_ptrs :: "disk_inode \<Rightarrow> disk_inode \<Rightarrow> bool" where
  "same_ptrs d d' \<longleftrightarrow> di_data d' = di_data d \<and> di_height d' = di_height d"

definition flush_step_frame :: "('w \<Rightarrow> nat \<Rightarrow> u8) \<Rightarrow> u64 \<Rightarrow> 'w world \<Rightarrow> 'w world \<Rightarrow> bool" where
  "flush_step_frame disk ino w w' \<longleftrightarrow> same_geo w w' \<and> keeps disk w w'
     \<and> (\<forall>i p. ino_ptr w i = Some p \<longrightarrow> ino_ptr w' i = Some p) \<and> (\<forall>i. i \<noteq> ino \<longrightarrow> di_of w' i = di_of w i)"

lemma flush_step_frame_refl [simp]: "flush_step_frame disk ino w w"
  by (simp add: flush_step_frame_def)

lemma flush_step_frame_trans:
  "flush_step_frame disk ino w w1 \<Longrightarrow> flush_step_frame disk ino w1 w2 \<Longrightarrow> flush_step_frame disk ino w w2"
  by (auto simp: flush_step_frame_def intro: same_geo_trans keeps_trans)

lemma rest_step_frame:
  "rest_same w w' \<Longrightarrow> (\<And>i. i \<noteq> ino \<Longrightarrow> di_of w' i = di_of w i) \<Longrightarrow> flush_step_frame disk ino w w'"
  using rest_same_frame(2) [of w w'] rest_same_keeps [of w w' disk] by (simp add: flush_step_frame_def rest_same_def)

lemma edited_rest: "block_edited F w ino l b e w' \<Longrightarrow> rest_same w w'"
  by (simp add: block_edited_def rest_same_def)

lemma ran_out_mono:
  fixes w w1 :: "'w world"
  assumes "ran_out F' w1" "\<And>x y. F x = Some y \<Longrightarrow> F' x = Some y" "strategy (hp w1) = strategy (hp w)"
    "\<And>i p. ino_ptr w i = Some p \<Longrightarrow> ino_ptr w1 i = Some p"
  shows "ran_out F w"
proof -
  obtain v :: "'w world" where "fs_with F' v" "strategy (hp v) = strategy (hp w1)"
    "\<forall>i p. ino_ptr w1 i = Some p \<longrightarrow> ino_ptr v i = Some p" "malloc_null v"
    using assms(1) unfolding ran_out_def by blast
  then show ?thesis using assms(2-4) fs_with_mono [of F' v F] unfolding ran_out_def by (intro exI [of _ v]) auto
qed

lemma array_bytes_4k: "length (ws :: u64 list) = 512 \<Longrightarrow> length (array_bytes ws) = 4096"
  by (simp add: length_array_bytes)

lemma obj_len_4k: "geo_4k s \<Longrightarrow> obj_len s OBJ_BLOCK = Ok 4096"
  by (simp add: obj_len_def geo_4k_def OBJ_BLOCK_def OBJ_INODE_def OBJ_DENTRY_def)

lemma pow_63: "k \<le> 7 \<Longrightarrow> x < 512 ^ k \<Longrightarrow> x \<le> (2 :: nat) ^ 63"
proof -
  assume "k \<le> 7" "x < 512 ^ k"
  moreover have "(512 :: nat) ^ k \<le> 512 ^ 7" using \<open>k \<le> 7\<close> by (intro power_increasing) simp_all
  moreover have "(512 :: nat) ^ 7 = 2 ^ 63" by simp
  ultimately show ?thesis by linarith
qed

text \<open>The round that takes block \<open>b\<close>: what \<open>logfs_file_write\<close> and \<open>free\<close> make of it.\<close>

lemma moved_up_written:
  assumes L: "posix_pwrite L disk budget" "mtd_erases L disk" and fs: "fs_with F w" and l: "Suc (Suc l) < 4"
    and g: "geo_4k (sb w)"
    and ed: "block_edited F1 w ino (Suc l) b None w1" and b: "blk_of w ino (Suc l) b = Some ws"
    and fr: "file_frame F1 ino (Suc l) w1 w2" and k: "keeps disk w1 w2"
    and wr: "written_indirect (indirect_object L ino ws b) ino b (Suc l) w1 ofs w2"
    and fin: "rest_same w2 w3" "same_blocks w2 w3"
  shows "moved_up L disk w ino l b w3"
proof -
  let ?c = "cover b (Suc (Suc l))"
  have lm: "Suc (Suc l) < LOGFS_MAX_LEVELS" "Suc l < LOGFS_MAX_LEVELS" using l by (simp_all add: abi_levels)
  have e: "blk_ptr w1 i m c = blk_ptr w i m c \<and> blk_of w1 i m c = blk_of w i m c"
    if "m < LOGFS_MAX_LEVELS" "(i, m, c) \<noteq> (ino, Suc l, b)" for i m c
    using ed that by (simp add: block_edited_def)
  have bb: "blk_ptr w2 i m c = blk_ptr w1 i m c \<and> blk_of w2 i m c = blk_of w1 i m c"
    if "m < LOGFS_MAX_LEVELS" "(i, m, c) \<noteq> (ino, Suc (Suc l), ?c)" for i m c
    using wr that unfolding written_indirect_def blocks_but_def by (simp add: numeral_2_eq_2)
  have s3: "blk_ptr w3 i m c = blk_ptr w2 i m c \<and> blk_of w3 i m c = blk_of w2 i m c" if "m < LOGFS_MAX_LEVELS" for i m c
    using fin(2) that by (simp add: same_blocks_def)
  have old: "old_words w1 ino (Suc (Suc l)) ?c = old_words w ino (Suc (Suc l)) ?c"
    using e [OF lm(1), of ino ?c] by (simp add: old_words_def)
  have n: "block_longs (sb w) = 512" using g by (simp add: block_longs_def geo_4k_def)
  have "length (old_words w ino (Suc (Suc l)) ?c) = 512"
    using blk_length [OF fs lm(1), of ino ?c] n by (simp add: old_words_def split: option.split)
  moreover have "blk_of w3 ino (Suc (Suc l)) ?c
      = Some ((old_words w ino (Suc (Suc l)) ?c)[slot_of b (Suc l) := cpu_to_be64 (of_int ofs)])"
    using wr s3 [OF lm(1)] old by (simp add: written_indirect_def entered_def numeral_2_eq_2)
  moreover have "points_to disk w3 (cpu_to_be64 (of_int ofs)) (indirect_object L ino ws b)"
  proof -
    have w2: "seg_inv w2" "same_geo w1 w2" using fr by (simp_all add: file_frame_def)
    have "object_placed (indirect_object L ino ws b) ino (Suc l) w1 ofs w2" using wr by (simp add: written_indirect_def)
    from placed_stored [OF w2 lm(2) this, of disk] obtain x where "stored disk w2 x (indirect_object L ino ws b)" "ofs = int (x mod 2 ^ 32)"
      by blast
    then have "points_to disk w2 (cpu_to_be64 (of_int ofs)) (indirect_object L ino ws b)"
      unfolding points_to_def by (intro exI [of _ x]) simp
    then show ?thesis by (rule points_to_keeps [OF rest_same_keeps [OF fin(1)]])
  qed
  moreover have "length ws = 512" using blk_length [OF fs lm(2) b] n by simp
  moreover have "keeps disk w w3"
    using keeps_trans [OF rest_same_keeps [OF edited_rest [OF ed]] keeps_trans [OF k rest_same_keeps [OF fin(1)]]] .
  moreover have "b \<in> level_blocks w ino (Suc l)" using b by (cases "blk_ptr w ino (Suc l) b") (simp_all add: level_blocks_def blk_of_def)
  moreover have "b \<notin> level_blocks w3 ino (Suc l)"
    using s3 [OF lm(2), of ino b] bb [OF lm(2), of ino b] ed by (simp add: level_blocks_def block_edited_def)
  moreover have "blk_ptr w3 i m c = blk_ptr w i m c \<and> blk_of w3 i m c = blk_of w i m c"
    if "m < LOGFS_MAX_LEVELS" "(i, m, c) \<noteq> (ino, Suc l, b)" "(i, m, c) \<noteq> (ino, Suc (Suc l), ?c)" for i m c
    using s3 [OF that(1)] bb [OF that(1,3)] e [OF that(1,2)] by simp
  ultimately show ?thesis unfolding moved_up_def
    by (intro conjI allI impI exI [of _ ws] exI [of _ "cpu_to_be64 (of_int ofs)"] b) simp_all
qed

lemma flush_step_gives:
  assumes L: "posix_pwrite L disk budget" "mtd_erases L disk" and ok: "flush_ok F w" and q: "ino_ptr w ino = Some q"
    and l: "Suc l < 3" and k: "k \<le> 7" and wf: "blocks_wf w ino k" and h8: "unat (di_height (old_di w ino)) < 8"
  shows "gives (ran_out F w) (flush_step L q ino (Suc l) w) (\<lambda>(go, err, w'). flush_ok F w' \<and> flush_step_frame disk ino w w'
     \<and> (if go then err = 0 \<and> (\<exists>b. moved_up L disk w ino l b w') \<and> same_ptrs (old_di w ino) (old_di w' ino)
        else if err = 0 then w' = w \<and> level_blocks w ino (Suc l) = {} else err = - EIO \<or> err = - ENOMEM))"
proof -
  have A: "fs_with F w" "seg_inv w" "geo_4k (sb w)" "erase_ok (sb w)" using ok by (simp_all add: flush_ok_def)
  have lm: "Suc l < LOGFS_MAX_LEVELS" using l by (simp add: abi_levels)
  obtain b p w1 where t: "take_last_block q (Suc l) w = Ok (b, p, w1)"
    and r: "if \<forall>c. blk_ptr w ino (Suc l) c = None then p = 0 \<and> w1 = w
        else p \<noteq> 0 \<and> blk_ptr w ino (Suc l) b = Some p \<and> (\<forall>c. blk_ptr w ino (Suc l) c \<noteq> None \<longrightarrow> c \<le> b)
          \<and> (\<exists>ws. block_at (hp w) p = Some ws \<and> length ws = block_longs (sb w) \<and> F p = None
              \<and> block_edited (F(p := Some (Ext (Block ws)))) w ino (Suc l) b None w1)"
    using take_last_spec [OF A(1) q lm] by blast
  show ?thesis
  proof (cases "\<forall>c. blk_ptr w ino (Suc l) c = None")
    case True
    then have "flush_step L q ino (Suc l) w = Ok (False, 0, w)" using t r by (simp add: flush_step_def)
    then show ?thesis using ok True by (simp add: level_blocks_def)
  next
    case False
    then obtain ws where p: "p \<noteq> 0" "blk_ptr w ino (Suc l) b = Some p" "block_at (hp w) p = Some ws"
      "length ws = block_longs (sb w)" "F p = None" "block_edited (F(p := Some (Ext (Block ws)))) w ino (Suc l) b None w1"
      using r unfolding if_not_P [OF False] by blast
    let ?F = "F(p := Some (Ext (Block ws)))"
    note e = p(6) [unfolded block_edited_def]
    have bw: "blk_of w ino (Suc l) b = Some ws" using p(2,3) by (simp add: blk_of_def)
    have len: "length (array_bytes ws) = 4096" using p(4) A(3) by (intro array_bytes_4k) (simp add: block_longs_def geo_4k_def)
    have w1: "fs_with ?F w1" "seg_inv w1" "geo_4k (sb w1)" "erase_ok (sb w1)" "old_di w1 ino = old_di w ino"
      using e A rest_same_frame(1) [OF edited_rest [OF p(6)]] by (simp_all add: old_di_def)
    have b63: "unat b \<le> 2 ^ 63"
      using wf lm p(2) by (intro pow_63 [OF k]) (auto simp: blocks_wf_def level_blocks_def)
    have at: "block_at (hp w1) p = Some ws" using fs_with_loose [OF w1(1), of p] by (simp add: block_at_Some)
    have o4: "obj_len (sb w1) OBJ_BLOCK = Ok 4096" by (rule obj_len_4k [OF w1(3)])
    have h1: "unat (di_height (old_di w1 ino)) < 8" using h8 w1(5) by simp
    have fr1: "flush_step_frame disk ino w w1" by (rule rest_step_frame [OF edited_rest [OF p(6)]]) (simp add: e)
    have step: "flush_step L q ino (Suc l) w = and_then (logfs_file_write L ino b (Suc l) OBJ_BLOCK (array_bytes ws) w1) (\<lambda>(err, w).
        if err \<noteq> 0 then Ok (False, err, w) else and_then (free_obj p w) (\<lambda>w. Ok (True, 0, w)))"
      using t p(1) at by (simp add: flush_step_def)
    have "gives (ran_out ?F w1) (logfs_file_write L ino b (Suc l) OBJ_BLOCK (array_bytes ws) w1) (\<lambda>(err, w'). erase_ok (sb w'))"
      by (rule file_write_gives [OF w1(1,2) o4 _ w1(3) h1 b63 l L(1) w1(4)]) (simp add: len)
    moreover have "ran_out F w" if "ran_out ?F w1"
      by (rule ran_out_mono [OF that]) (use p(5) e in \<open>auto split: if_splits\<close>)
    ultimately have wg: "gives (ran_out F w) (logfs_file_write L ino b (Suc l) OBJ_BLOCK (array_bytes ws) w1) (\<lambda>(err, w'). erase_ok (sb w'))"
      by (auto intro: gives_mono)
    show ?thesis unfolding step
    proof (rule gives_and_then [OF wg], clarify)
      fix err w2 assume run: "logfs_file_write L ino b (Suc l) OBJ_BLOCK (array_bytes ws) w1 = Ok (err, w2)" and e2: "erase_ok (sb w2)"
      have len': "4096 \<le> length (array_bytes ws)" using len by simp
      note sp = file_write_spec [OF w1(1,2) o4 len' w1(3) h1 b63 run]
      have k2: "keeps disk w1 w2" by (rule file_write_keeps [OF L w1(1,2) o4 len' w1(3) h1 b63 run])
      have fr: "file_frame ?F ino (Suc l) w1 w2" using sp by blast
      have g2: "geo_4k (sb w2)" using fr same_geo_4k [OF _ w1(3)] by (simp add: file_frame_def)
      have fr12: "flush_step_frame disk ino w1 w2" using fr k2 by (simp add: file_frame_def flush_step_frame_def)
      show "gives (ran_out F w) (if err \<noteq> 0 then Ok (False, err, w2) else and_then (free_obj p w2) (\<lambda>w. Ok (True, 0, w)))
        (\<lambda>(go, err, w'). flush_ok F w' \<and> flush_step_frame disk ino w w'
     \<and> (if go then err = 0 \<and> (\<exists>b. moved_up L disk w ino l b w') \<and> same_ptrs (old_di w ino) (old_di w' ino)
        else if err = 0 then w' = w \<and> level_blocks w ino (Suc l) = {} else err = - EIO \<or> err = - ENOMEM))"
      proof (cases "err = 0")
        case False
        have "fs_with ?F w2" using fr by (simp add: file_frame_def)
        then have "fs_with F w2" by (rule fs_with_mono) (use p(5) in \<open>auto simp: fun_upd_def\<close>)
        then have "flush_ok F w2" using fr g2 e2 by (simp add: flush_ok_def file_frame_def)
        then show ?thesis using False sp flush_step_frame_trans [OF fr1 fr12] by simp
      next
        case True
        then obtain ofs where wr: "written_indirect (indirect_object L ino ws b) ino b (Suc l) w1 ofs w2"
          using sp by (auto simp: indirect_object_def)
        obtain w3 where f: "free_obj p w2 = Ok w3" "fs_with F w3" "rest_same w2 w3" "di_of w3 = di_of w2" "same_blocks w2 w3"
          using free_obj_spec [of F p "Block ws" w2] fr p(5) by (auto simp: file_frame_def)
        have mu: "moved_up L disk w ino l b w3"
          by (rule moved_up_written [OF L A(1) _ A(3) p(6) bw fr k2 wr f(3,5)]) (use l in simp)
        have ok3: "flush_ok F w3" using f(2,3) rest_same_frame(1) [OF f(3)] fr g2 e2
          by (simp add: flush_ok_def rest_same_def file_frame_def)
        have fr3: "flush_step_frame disk ino w2 w3" by (rule rest_step_frame [OF f(3)]) (simp add: f(4))
        have "same_ptrs (old_di w ino) (old_di w3 ino)"
          using wr f(4) w1(5) by (auto simp: written_indirect_def same_ptrs_def old_di_def grown_def)
        then show ?thesis using True f(1) mu ok3 flush_step_frame_trans [OF fr1 flush_step_frame_trans [OF fr12 fr3]] by auto
      qed
    qed
  qed
qed


section \<open>A level\<close>

lemma frame_ran_out: "flush_step_frame disk ino w w' \<Longrightarrow> ran_out F w' \<Longrightarrow> ran_out F w"
  by (erule ran_out_mono) (simp_all add: flush_step_frame_def same_geo_def)

lemma same_ptrs_trans: "same_ptrs d d1 \<Longrightarrow> same_ptrs d1 d2 \<Longrightarrow> same_ptrs d d2"
  by (simp add: same_ptrs_def)

text \<open>The blocks of other files are as they were.\<close>

definition others_kept :: "'w world \<Rightarrow> u64 \<Rightarrow> 'w world \<Rightarrow> bool" where
  "others_kept w ino w' \<longleftrightarrow> (\<forall>i m c. i \<noteq> ino \<longrightarrow> m < LOGFS_MAX_LEVELS \<longrightarrow>
     blk_ptr w' i m c = blk_ptr w i m c \<and> blk_of w' i m c = blk_of w i m c)"

lemma others_kept_refl [simp]: "others_kept w ino w"
  by (simp add: others_kept_def)

lemma others_kept_trans: "others_kept w ino w1 \<Longrightarrow> others_kept w1 ino w2 \<Longrightarrow> others_kept w ino w2"
  by (simp add: others_kept_def)

text \<open>All blocks of level \<open>l + 1\<close> have moved to the level above.\<close>

definition level_moved :: "'w lib \<Rightarrow> ('w \<Rightarrow> nat \<Rightarrow> u8) \<Rightarrow> 'w world \<Rightarrow> u64 \<Rightarrow> nat \<Rightarrow> 'w world \<Rightarrow> bool" where
  "level_moved L disk w ino l w' \<longleftrightarrow> others_kept w ino w'
   \<and> (\<forall>bix obj. safe L disk w ino l bix obj \<longrightarrow> safe L disk w' ino l bix obj)
   \<and> (\<forall>m < LOGFS_MAX_LEVELS. m \<noteq> Suc l \<and> m \<noteq> Suc (Suc l) \<longrightarrow> level_blocks w' ino m = level_blocks w ino m)
   \<and> (level_blocks w ino (Suc l) \<union> level_blocks w ino (Suc (Suc l)) \<noteq> {} \<longrightarrow>
        level_blocks w' ino (Suc l) \<union> level_blocks w' ino (Suc (Suc l)) \<noteq> {})"

lemma level_moved_refl [simp]: "level_moved L disk w ino l w"
  by (simp add: level_moved_def)

lemma level_moved_trans: "level_moved L disk w ino l w1 \<Longrightarrow> level_moved L disk w1 ino l w2 \<Longrightarrow> level_moved L disk w ino l w2"
  using others_kept_trans [of w ino w1 w2] by (simp add: level_moved_def)

lemma moved_up_level:
  assumes m: "moved_up L disk w ino l b w'" and l: "Suc (Suc l) < LOGFS_MAX_LEVELS" and wf: "blocks_wf w ino k"
  shows "level_moved L disk w ino l w'"
proof -
  have b: "b \<in> level_blocks w ino (Suc l)" using m by (simp add: moved_up_def)
  then have bw: "cover b (Suc l) = b" using wf l unfolding blocks_wf_def by (meson Suc_lessD)
  have "level_blocks w' ino n = level_blocks w ino n" if "n < LOGFS_MAX_LEVELS" "n \<noteq> Suc l" "n \<noteq> Suc (Suc l)" for n
    using m that unfolding moved_up_def level_blocks_def by simp
  moreover have "blk_of w' ino (Suc (Suc l)) (cover b (Suc (Suc l))) \<noteq> None" using m by (auto simp: moved_up_def)
  then have "cover b (Suc (Suc l)) \<in> level_blocks w' ino (Suc (Suc l))"
    by (cases "blk_ptr w' ino (Suc (Suc l)) (cover b (Suc (Suc l)))") (simp_all add: level_blocks_def blk_of_def)
  moreover have "others_kept w ino w'" unfolding others_kept_def using m by (simp add: moved_up_def)
  ultimately show ?thesis using moved_up_held [OF m l bw] unfolding level_moved_def by blast
qed

text \<open>
  A part of the flush comes back: with an error, or with 0, and then \<open>Q\<close> holds of the state.
\<close>

definition flushes :: "(ulong \<Rightarrow> fsobj obj option) \<Rightarrow> ('w \<Rightarrow> nat \<Rightarrow> u8) \<Rightarrow> u64 \<Rightarrow> 'w world \<Rightarrow> (int \<times> 'w world) result \<Rightarrow>
    ('w world \<Rightarrow> bool) \<Rightarrow> bool" where
  "flushes F disk ino w r Q \<longleftrightarrow> gives (ran_out F w) r (\<lambda>(err, w'). flush_ok F w' \<and> flush_step_frame disk ino w w'
     \<and> (if err = 0 then Q w' else err = - EIO \<or> err = - ENOMEM))"

lemma flushes_ok [simp]: "flushes F disk ino w (Ok (err, w')) Q \<longleftrightarrow> flush_ok F w' \<and> flush_step_frame disk ino w w'
     \<and> (if err = 0 then Q w' else err = - EIO \<or> err = - ENOMEM)"
  by (simp add: flushes_def)

lemma flushes_frame:
  assumes "flush_step_frame disk ino w w1" "flushes F disk ino w1 r Q" "\<And>w'. Q w' \<Longrightarrow> Q' w'"
  shows "flushes F disk ino w r Q'"
  using assms flush_step_frame_trans [OF assms(1)] frame_ran_out [OF assms(1), of F]
  by (cases r) (auto simp: flushes_def gives_def split: if_splits)

definition level_done :: "'w lib \<Rightarrow> ('w \<Rightarrow> nat \<Rightarrow> u8) \<Rightarrow> u64 \<Rightarrow> nat \<Rightarrow> nat \<Rightarrow> 'w world \<Rightarrow> 'w world \<Rightarrow> bool" where
  "level_done L disk ino k l w w' \<longleftrightarrow> blocks_wf w' ino k \<and> same_ptrs (old_di w ino) (old_di w' ino)
     \<and> level_moved L disk w ino l w' \<and> level_blocks w' ino (Suc l) = {}"

lemma flush_level_gives:
  assumes L: "posix_pwrite L disk budget" "mtd_erases L disk" and l: "Suc l < 3" and k: "Suc (Suc l) \<le> k" "k \<le> 7"
  shows "flush_ok F w \<Longrightarrow> ino_ptr w ino = Some q \<Longrightarrow> blocks_wf w ino k \<Longrightarrow> unat (di_height (old_di w ino)) < 8 \<Longrightarrow>
     \<exists>r. flush_level L q ino (Suc l) w = Some r \<and> flushes F disk ino w r (level_done L disk ino k l w)"
proof (induction "card (level_blocks w ino (Suc l))" arbitrary: w rule: less_induct)
  case less
  have lm: "Suc (Suc l) < LOGFS_MAX_LEVELS" using l by (simp add: abi_levels)
  note g = flush_step_gives [OF L less.prems(1,2) l k(2) less.prems(3,4)]
  show ?case
  proof (cases "flush_step L q ino (Suc l) w")
    case (Ok r)
    obtain go err w1 where r: "r = (go, err, w1)" by (cases r)
    have s: "flush_ok F w1" "flush_step_frame disk ino w w1"
      "if go then err = 0 \<and> (\<exists>b. moved_up L disk w ino l b w1) \<and> same_ptrs (old_di w ino) (old_di w1 ino)
        else if err = 0 then w1 = w \<and> level_blocks w ino (Suc l) = {} else err = - EIO \<or> err = - ENOMEM"
      using g unfolding Ok r by simp_all
    show ?thesis
    proof (cases go)
      case False
      have run: "flush_level L q ino (Suc l) w = Some (Ok (err, w1))"
        using Ok r False by (subst flush_level.simps) simp
      then show ?thesis using s False less.prems(3)
        by (cases "err = 0") (auto simp: level_done_def same_ptrs_def)
    next
      case True
      then obtain b where b: "moved_up L disk w ino l b w1" and p: "same_ptrs (old_di w ino) (old_di w1 ino)" using s(3) by auto
      have run: "flush_level L q ino (Suc l) w = flush_level L q ino (Suc l) w1"
        using Ok r True by (subst flush_level.simps) simp
      note wf = moved_up_wf [OF b lm k(1) less.prems(3)] and mv = moved_up_level [OF b lm less.prems(3)]
      have "card (level_blocks w1 ino (Suc l)) < card (level_blocks w ino (Suc l))"
        unfolding wf(2) using b by (intro card_Diff1_less finite_blocks) (simp add: moved_up_def)
      moreover have "ino_ptr w1 ino = Some q" using s(2) less.prems(2) by (simp add: flush_step_frame_def)
      moreover have "unat (di_height (old_di w1 ino)) < 8" using p less.prems(4) by (simp add: same_ptrs_def)
      ultimately obtain r' where r': "flush_level L q ino (Suc l) w1 = Some r'" "flushes F disk ino w1 r' (level_done L disk ino k l w1)"
        using less.hyps [OF _ s(1) _ wf(1)] by blast
      have "flushes F disk ino w r' (level_done L disk ino k l w)"
        by (rule flushes_frame [OF s(2) r'(2)])
          (use same_ptrs_trans [OF p] level_moved_trans [OF mv] in \<open>auto simp: level_done_def\<close>)
      then show ?thesis using run r'(1) by simp
    qed
  qed (use g in \<open>subst flush_level.simps, simp add: gives_def flushes_def\<close>)+
qed

section \<open>All levels below the top\<close>

definition no_blocks_above :: "'w world \<Rightarrow> u64 \<Rightarrow> nat \<Rightarrow> bool" where
  "no_blocks_above w ino l \<longleftrightarrow> (\<forall>m. l < m \<and> m < LOGFS_MAX_LEVELS \<longrightarrow> level_blocks w ino m = {})"

lemma held_block: "held L disk w ino bix obj l \<Longrightarrow> cover bix (Suc l) \<in> level_blocks w ino (Suc l)"
  by (cases "blk_ptr w ino (Suc l) (cover bix (Suc l))") (auto simp: held_def level_blocks_def blk_of_def simp del: cover.simps)

lemma level_moved_held:
  assumes "level_moved L disk w ino l w'" "level_blocks w' ino (Suc l) = {}" "held L disk w ino bix obj l"
  shows "held L disk w' ino bix obj (Suc l)"
proof -
  have "safe L disk w' ino l bix obj" using assms(1,3) by (simp add: level_moved_def safe_def)
  then show ?thesis using held_block [of L disk w' ino bix obj l] assms(2) by (auto simp: safe_def)
qed

text \<open>All blocks of the levels from \<open>l + 1\<close> on have moved to level \<open>h\<close>.\<close>

definition levels_moved :: "'w lib \<Rightarrow> ('w \<Rightarrow> nat \<Rightarrow> u8) \<Rightarrow> 'w world \<Rightarrow> u64 \<Rightarrow> nat \<Rightarrow> nat \<Rightarrow> 'w world \<Rightarrow> bool" where
  "levels_moved L disk w ino l h w' \<longleftrightarrow> others_kept w ino w'
   \<and> (\<forall>bix obj. held L disk w ino bix obj l \<longrightarrow> held L disk w' ino bix obj (h - 1))
   \<and> (level_blocks w ino (Suc l) \<noteq> {} \<longrightarrow> level_blocks w' ino h \<noteq> {})
   \<and> (\<forall>m < LOGFS_MAX_LEVELS. m \<noteq> h \<longrightarrow> level_blocks w' ino m = (if m \<le> l then level_blocks w ino m else {}))"

lemma levels_moved_step:
  assumes m: "level_moved L disk w ino l w1" and e: "level_blocks w1 ino (Suc l) = {}"
    and r: "levels_moved L disk w1 ino (Suc l) h w'"
  shows "levels_moved L disk w ino l h w'"
  unfolding levels_moved_def
proof (intro conjI allI impI)
  show "others_kept w ino w'" using m r others_kept_trans [of w ino w1 w'] by (simp add: level_moved_def levels_moved_def)
  show "held L disk w' ino bix obj (h - 1)" if "held L disk w ino bix obj l" for bix obj
    using level_moved_held [OF m e that] r by (simp add: levels_moved_def)
  show "level_blocks w' ino h \<noteq> {}" if "level_blocks w ino (Suc l) \<noteq> {}"
    using m e r that by (auto simp: level_moved_def levels_moved_def)
  fix k assume k: "k < LOGFS_MAX_LEVELS" "k \<noteq> h"
  have "level_blocks w' ino k = (if k \<le> Suc l then level_blocks w1 ino k else {})" using r k by (simp add: levels_moved_def)
  moreover have "level_blocks w1 ino k = level_blocks w ino k" if "k \<le> l" using m k(1) that by (simp add: level_moved_def)
  ultimately show "level_blocks w' ino k = (if k \<le> l then level_blocks w ino k else {})"
    using e by (cases "k = Suc l") auto
qed

definition levels_done :: "'w lib \<Rightarrow> ('w \<Rightarrow> nat \<Rightarrow> u8) \<Rightarrow> u64 \<Rightarrow> nat \<Rightarrow> nat \<Rightarrow> 'w world \<Rightarrow> 'w world \<Rightarrow> bool" where
  "levels_done L disk ino h l w w' \<longleftrightarrow> blocks_wf w' ino h \<and> same_ptrs (old_di w ino) (old_di w' ino)
     \<and> levels_moved L disk w ino l h w'"

text \<open>As \<open>flushes\<close>, with the level the loop ended at.\<close>

definition flushes_to :: "(ulong \<Rightarrow> fsobj obj option) \<Rightarrow> ('w \<Rightarrow> nat \<Rightarrow> u8) \<Rightarrow> u64 \<Rightarrow> 'w world \<Rightarrow> nat \<Rightarrow>
    (int \<times> nat \<times> 'w world) result \<Rightarrow> ('w world \<Rightarrow> bool) \<Rightarrow> bool" where
  "flushes_to F disk ino w h r Q \<longleftrightarrow> gives (ran_out F w) r (\<lambda>(err, level, w'). flush_ok F w' \<and> flush_step_frame disk ino w w'
     \<and> (if err = 0 then level = h \<and> Q w' else err = - EIO \<or> err = - ENOMEM))"

lemma flushes_to_frame:
  assumes "flush_step_frame disk ino w w1" "flushes_to F disk ino w1 h r Q" "\<And>w'. Q w' \<Longrightarrow> Q' w'"
  shows "flushes_to F disk ino w h r Q'"
  using assms flush_step_frame_trans [OF assms(1)] frame_ran_out [OF assms(1), of F]
  by (cases r) (auto simp: flushes_to_def gives_def split: if_splits)

lemma flush_levels_gives:
  assumes L: "posix_pwrite L disk budget" "mtd_erases L disk" and h: "h \<le> 3"
  shows "flush_ok F w \<Longrightarrow> ino_ptr w ino = Some q \<Longrightarrow> blocks_wf w ino h \<Longrightarrow> unat (di_height (old_di w ino)) = h \<Longrightarrow>
     Suc l \<le> h \<Longrightarrow> no_blocks_above w ino (Suc l) \<Longrightarrow>
     \<exists>r. flush_levels L q ino (Suc l) w = Some r \<and> flushes_to F disk ino w h r (levels_done L disk ino h l w)"
proof (induction "h - l" arbitrary: l w rule: less_induct)
  case less
  have fs: "fs_with F w" using less.prems(1) by (simp add: flush_ok_def)
  obtain i where i: "inode_at (hp w) q = Some i" "old_di w ino = i_di i" using ptr_inode [OF fs less.prems(2)] by blast
  have hi: "unat (di_height (i_di i)) = h" using i(2) less.prems(4) by simp
  show ?case
  proof (cases "Suc l = h")
    case True
    have "flush_levels L q ino (Suc l) w = Some (Ok (0, Suc l, w))"
      using i(1) hi True by (subst flush_levels.simps) simp
    moreover have "levels_moved L disk w ino l (Suc l) w"
      using less.prems(6) not_less_eq_eq [of _ l] by (auto simp: no_blocks_above_def levels_moved_def less_Suc_eq_le)
    ultimately show ?thesis using less.prems(1,3) unfolding True
      by (intro exI [of _ "Ok (0, h, w)"]) (simp add: same_ptrs_def levels_done_def flushes_to_def)
  next
    case False
    then have lt: "Suc (Suc l) \<le> h" "Suc l < 3" using less.prems(5) h by simp_all
    have h7: "h \<le> 7" "unat (di_height (old_di w ino)) < 8" using h less.prems(4) by simp_all
    obtain r where r: "flush_level L q ino (Suc l) w = Some r" and g: "flushes F disk ino w r (level_done L disk ino h l w)"
      using flush_level_gives [OF L lt(2,1) h7(1) less.prems(1-3) h7(2)] by blast
    have run: "flush_levels L q ino (Suc l) w = (case r of
         Ok x \<Rightarrow> (if fst x \<noteq> 0 then Some (Ok (fst x, Suc l, snd x)) else flush_levels L q ino (Suc (Suc l)) (snd x))
       | Exit m \<Rightarrow> Some (Exit m) | Stuck \<Rightarrow> Some Stuck)"
      using i(1) hi lt(1) r by (subst flush_levels.simps) simp
    show ?thesis
    proof (cases r)
      case (Ok x)
      obtain err w1 where x: "x = (err, w1)" by (cases x)
      have s: "flush_ok F w1" "flush_step_frame disk ino w w1"
        "if err = 0 then level_done L disk ino h l w w1 else err = - EIO \<or> err = - ENOMEM" using g unfolding Ok x by simp_all
      show ?thesis
      proof (cases "err = 0")
        case True
        then have t: "blocks_wf w1 ino h" "same_ptrs (old_di w ino) (old_di w1 ino)" "level_moved L disk w ino l w1"
          "level_blocks w1 ino (Suc l) = {}" using s(3) by (simp_all add: level_done_def)
        have "no_blocks_above w1 ino (Suc (Suc l))"
          using less.prems(6) t(3) by (simp add: no_blocks_above_def level_moved_def)
        moreover have "ino_ptr w1 ino = Some q" using s(2) less.prems(2) by (simp add: flush_step_frame_def)
        moreover have "unat (di_height (old_di w1 ino)) = h" using t(2) less.prems(4) by (simp add: same_ptrs_def)
        moreover have "h - Suc l < h - l" using lt by simp
        ultimately obtain r' where r': "flush_levels L q ino (Suc (Suc l)) w1 = Some r'"
          "flushes_to F disk ino w1 h r' (levels_done L disk ino h (Suc l) w1)"
          using less.hyps [OF _ s(1) _ t(1) _ lt(1)] by blast
        have "flushes_to F disk ino w h r' (levels_done L disk ino h l w)"
          by (rule flushes_to_frame [OF s(2) r'(2)])
            (use same_ptrs_trans [OF t(2)] levels_moved_step [OF t(3,4)] in \<open>auto simp: levels_done_def\<close>)
        then show ?thesis using run Ok x True r'(1) by simp
      qed (use run Ok x s in \<open>auto simp: flushes_to_def\<close>)
    qed (use run g in \<open>simp_all add: flushes_def flushes_to_def gives_def\<close>)
  qed
qed

section \<open>The top level, and a whole file\<close>

lemma top_unique:
  assumes wf: "blocks_wf w ino (Suc l)" and l: "Suc l < LOGFS_MAX_LEVELS"
    and b: "b \<in> level_blocks w ino (Suc l)" "c \<in> level_blocks w ino (Suc l)"
  shows "c = b"
proof -
  have "unat x = 512 ^ Suc l - 1" if "x \<in> level_blocks w ino (Suc l)" for x
  proof -
    have "cover x (Suc l) = x" "unat x < 512 ^ Suc l" using wf l that by (auto simp: blocks_wf_def simp del: cover.simps)
    then show ?thesis using cover_top [of "Suc l" x] l by (simp add: abi_levels del: cover.simps)
  qed
  then have "unat c = unat b" using b by simp
  then show ?thesis by (simp only: word_unat_eq_iff)
qed

definition no_blocks :: "'w world \<Rightarrow> u64 \<Rightarrow> bool" where
  "no_blocks w ino \<longleftrightarrow> (\<forall>m < LOGFS_MAX_LEVELS. m \<noteq> 0 \<longrightarrow> level_blocks w ino m = {})"

text \<open>The last indirect block has been written, and its offset entered in the inode.\<close>

definition top_written :: "'w lib \<Rightarrow> ('w \<Rightarrow> nat \<Rightarrow> u8) \<Rightarrow> 'w world \<Rightarrow> u64 \<Rightarrow> nat \<Rightarrow> 'w world \<Rightarrow> bool" where
  "top_written L disk w ino h w' \<longleftrightarrow> others_kept w ino w' \<and> di_height (old_di w' ino) = di_height (old_di w ino)
     \<and> (\<exists>v. di_data (old_di w' ino) = (di_data (old_di w ino))[INDIRECT_INDEX := v]
          \<and> (\<forall>bix obj. held L disk w ino bix obj (h - 1) \<longrightarrow> reach L disk w' ino bix obj h v))
     \<and> (\<forall>m < LOGFS_MAX_LEVELS. level_blocks w' ino m = (if m = h then {} else level_blocks w ino m))"

definition flush_top :: "'w lib \<Rightarrow> ulong \<Rightarrow> u64 \<Rightarrow> nat \<Rightarrow> 'w world \<Rightarrow> (int \<times> 'w world) result" where
  "flush_top L inode ino level w =
     and_then (take_last_block inode level w) (\<lambda>(bix, iblock, w).
       if iblock = 0 then Stuck
       else and_then (lift (block_at (hp w) iblock)) (\<lambda>ws.
            and_then (logfs_segment_write L (array_bytes ws) OBJ_BLOCK ino bix level w) (\<lambda>(ofs, w).
              if ofs < 0 then Ok (ofs, w)
              else and_then (set_data inode INDIRECT_INDEX (cpu_to_be64 (of_int ofs)) w) (\<lambda>w. Ok (0, w)))))"

lemma top_written_reach:
  assumes fs: "fs_with F w" and wf: "blocks_wf w ino (Suc l)" and g: "geo_4k (sb w)" and l: "Suc l < LOGFS_MAX_LEVELS"
    and b: "blk_of w ino (Suc l) b = Some ws"
    and ed: "block_edited F1 w ino (Suc l) b None w1" and k: "keeps disk w1 w2"
    and o: "object_written (indirect_object L ino ws b) ino (Suc l) w1 ofs w2"
    and w2: "seg_inv w2" "same_geo w1 w2" "same_blocks w1 w2"
    and d: "rest_same w2 w3" "same_blocks w2 w3" "inode_of w2 ino = Some i"
      "di_of w3 = (di_of w2)(ino \<mapsto> (i_di i)\<lparr>di_data := (di_data (i_di i))[INDIRECT_INDEX := cpu_to_be64 (of_int ofs)]\<rparr>)"
  shows "top_written L disk w ino (Suc l) w3"
proof -
  note e = ed [unfolded block_edited_def]
  let ?v = "cpu_to_be64 (of_int ofs) :: u64"
  have di: "i_di i = grown (length (indirect_object L ino ws b)) (old_di w ino)"
    using o d(3) e by (simp add: object_written_def di_of_def old_di_def)
  have p: "points_to disk w3 ?v (indirect_object L ino ws b)"
  proof -
    obtain x where "stored disk w2 x (indirect_object L ino ws b)" "ofs = int (x mod 2 ^ 32)"
      using placed_stored [OF w2(1,2) l, of _ ino ofs disk] o unfolding object_written_def by blast
    then have "points_to disk w2 ?v (indirect_object L ino ws b)" unfolding points_to_def by (intro exI [of _ x]) simp
    then show ?thesis by (rule points_to_keeps [OF rest_same_keeps [OF d(1)]])
  qed
  have ws: "length ws = 512" using blk_length [OF fs l b] g by (simp add: block_longs_def geo_4k_def)
  have k3: "keeps disk w w3"
    using keeps_trans [OF rest_same_keeps [OF edited_rest [OF ed]] keeps_trans [OF k rest_same_keeps [OF d(1)]]] .
  have bl: "b \<in> level_blocks w ino (Suc l)" using b by (cases "blk_ptr w ino (Suc l) b") (simp_all add: level_blocks_def blk_of_def)
  have r: "reach L disk w3 ino bix obj (Suc l) ?v" if h: "held L disk w ino bix obj l" for bix obj
  proof -
    have c: "cover bix (Suc l) = b" by (rule top_unique [OF wf l bl held_block [OF h]])
    then have "reach L disk w ino bix obj l (ws ! slot_of bix l)" using h b by (auto simp: held_def)
    then show ?thesis using reach_keeps [OF k3] p ws c by auto
  qed
  have lv: "level_blocks w3 ino m = (if m = Suc l then {} else level_blocks w ino m)" if m: "m < LOGFS_MAX_LEVELS" for m
  proof -
    have a: "blk_ptr w3 ino m c = blk_ptr w1 ino m c" for c using w2(3) d(2) m by (simp add: same_blocks_def)
    have b1: "blk_ptr w1 ino m c = blk_ptr w ino m c" if "(m, c) \<noteq> (Suc l, b)" for c using e m that by blast
    have b2: "blk_ptr w1 ino (Suc l) b = None" using e by blast
    have u: "blk_ptr w ino (Suc l) c = None" if "c \<noteq> b" for c
      using top_unique [OF wf l bl, of c] that by (cases "blk_ptr w ino (Suc l) c") (auto simp: level_blocks_def)
    show ?thesis
    proof (cases "m = Suc l")
      case True
      have "blk_ptr w3 ino m c = None" for c using a b1 [of c] b2 u [of c] True by (cases "c = b") simp_all
      then show ?thesis using True by (simp add: level_blocks_def)
    next
      case False
      then show ?thesis using a b1 by (simp add: level_blocks_def)
    qed
  qed
  have "di_height (old_di w3 ino) = di_height (old_di w ino)"
    "di_data (old_di w3 ino) = (di_data (old_di w ino))[INDIRECT_INDEX := ?v]"
    using d(4) di by (simp_all add: old_di_def [of w3] grown_def)
  moreover have "others_kept w ino w3" unfolding others_kept_def
  proof (intro allI impI)
    fix i m c assume n: "i \<noteq> ino" "m < LOGFS_MAX_LEVELS"
    then have "(i, m, c) \<noteq> (ino, Suc l, b)" by simp
    then have "blk_ptr w1 i m c = blk_ptr w i m c \<and> blk_of w1 i m c = blk_of w i m c" using e n(2) by blast
    then show "blk_ptr w3 i m c = blk_ptr w i m c \<and> blk_of w3 i m c = blk_of w i m c"
      using w2(3) d(2) n(2) by (simp add: same_blocks_def)
  qed
  ultimately show ?thesis using r lv unfolding top_written_def by auto
qed

lemma flush_top_gives:
  assumes L: "posix_pwrite L disk budget" "mtd_erases L disk" and ok: "flush_ok F w" and q: "ino_ptr w ino = Some q"
    and l: "Suc l < LOGFS_MAX_LEVELS" and wf: "blocks_wf w ino (Suc l)" and ne: "level_blocks w ino (Suc l) \<noteq> {}"
  shows "flushes F disk ino w (flush_top L q ino (Suc l) w) (top_written L disk w ino (Suc l))"
proof -
  have A: "fs_with F w" "seg_inv w" "geo_4k (sb w)" "erase_ok (sb w)" using ok by (simp_all add: flush_ok_def)
  have nn: "\<not> (\<forall>c. blk_ptr w ino (Suc l) c = None)" using ne by (auto simp: level_blocks_def)
  obtain b p w1 ws where t: "take_last_block q (Suc l) w = Ok (b, p, w1)"
    and p: "p \<noteq> 0" "blk_ptr w ino (Suc l) b = Some p" "block_at (hp w) p = Some ws"
      "length ws = block_longs (sb w)" "F p = None" "block_edited (F(p := Some (Ext (Block ws)))) w ino (Suc l) b None w1"
    using take_last_spec [OF A(1) q l] unfolding if_not_P [OF nn] by blast
  let ?F = "F(p := Some (Ext (Block ws)))"
  note e = p(6) [unfolded block_edited_def]
  have bw: "blk_of w ino (Suc l) b = Some ws" using p(2,3) by (simp add: blk_of_def)
  have w1: "fs_with ?F w1" "seg_inv w1" "geo_4k (sb w1)" "erase_ok (sb w1)" "ino_ptr w1 ino = Some q"
    using e A q rest_same_frame(1) [OF edited_rest [OF p(6)]] by simp_all
  have at: "block_at (hp w1) p = Some ws" using fs_with_loose [OF w1(1), of p] by (simp add: block_at_Some)
  have o4: "obj_len (sb w1) OBJ_BLOCK = Ok 4096" by (rule obj_len_4k [OF w1(3)])
  have len: "4096 \<le> length (array_bytes ws)"
    using array_bytes_4k [of ws] p(4) A(3) by (simp add: block_longs_def geo_4k_def)
  have fr1: "flush_step_frame disk ino w w1" by (rule rest_step_frame [OF edited_rest [OF p(6)]]) (simp add: e)
  have step: "flush_top L q ino (Suc l) w = and_then (logfs_segment_write L (array_bytes ws) OBJ_BLOCK ino b (Suc l) w1) (\<lambda>(ofs, w).
      if ofs < 0 then Ok (ofs, w) else and_then (set_data q INDIRECT_INDEX (cpu_to_be64 (of_int ofs)) w) (\<lambda>w. Ok (0, w)))"
    using t p(1) at by (simp add: flush_top_def)
  have mono: "fs_with F v" if "fs_with ?F v" for v :: "'a world"
    by (rule fs_with_mono [OF that]) (use p(5) in \<open>auto simp: fun_upd_def\<close>)
  show ?thesis unfolding step flushes_def
  proof (rule gives_and_then [OF gives_mono [OF segment_write_gives [OF w1(1,2) o4 len l L(1) w1(4)]]])
    assume "\<exists>v. seg_frame w1 v \<and> malloc_null v"
    then have "ran_out ?F w1" by (rule ran_out_seg [OF w1(1)])
    then show "ran_out F w" by (rule ran_out_mono) (use p(5) e in \<open>auto split: if_splits\<close>)
  next
    fix x assume r: "logfs_segment_write L (array_bytes ws) OBJ_BLOCK ino b (Suc l) w1 = Ok x" and ex: "case x of (ofs, w') \<Rightarrow> erase_ok (sb w')"
    obtain ofs w2 where x: "x = (ofs, w2)" by (cases x)
    note sp = segment_write_spec [OF w1(1,2) o4 len l r [unfolded x]]
    have k2: "keeps disk w1 w2" by (rule segment_write_keeps [OF L w1(1,2) o4 len l r [unfolded x]])
    have f2: "file_frame ?F ino (Suc l) w1 w2" "same_blocks w1 w2" using write_file_frame [of ?F ino "Suc l" w1 w2] sp by blast+
    have w2: "fs_with ?F w2" "seg_inv w2" "same_geo w1 w2" "ino_ptr w2 ino = Some q" "geo_4k (sb w2)" "erase_ok (sb w2)"
      using f2(1) w1(5) same_geo_4k [OF _ w1(3)] ex x by (simp_all add: file_frame_def)
    have "flush_step_frame disk ino w1 w2" using f2(1) k2 by (simp add: file_frame_def flush_step_frame_def)
    then have fr2: "flush_step_frame disk ino w w2" by (rule flush_step_frame_trans [OF fr1])
    show "gives (ran_out F w) (case x of (ofs, w) \<Rightarrow> if ofs < 0 then Ok (ofs, w)
        else and_then (set_data q INDIRECT_INDEX (cpu_to_be64 (of_int ofs)) w) (\<lambda>w. Ok (0, w)))
      (\<lambda>(err, w'). flush_ok F w' \<and> flush_step_frame disk ino w w'
     \<and> (if err = 0 then top_written L disk w ino (Suc l) w' else err = - EIO \<or> err = - ENOMEM))"
    proof (cases "ofs < 0")
      case True
      then show ?thesis using x sp fr2 w2 mono by (simp add: flush_ok_def)
    next
      case False
      then have o: "object_written (indirect_object L ino ws b) ino (Suc l) w1 ofs w2"
        using sp by (simp add: indirect_object_def)
      have i: "INDIRECT_INDEX < LOGFS_EMBEDDED_FIELDS" by (simp add: abi_sizes INDIRECT_INDEX_def)
      obtain w3 i where d: "set_data q INDIRECT_INDEX (cpu_to_be64 (of_int ofs)) w2 = Ok w3" "fs_with ?F w3" "rest_same w2 w3"
        "same_blocks w2 w3" "inode_of w2 ino = Some i"
        "di_of w3 = (di_of w2)(ino \<mapsto> (i_di i)\<lparr>di_data := (di_data (i_di i))[INDIRECT_INDEX := cpu_to_be64 (of_int ofs)]\<rparr>)"
        using set_data_spec [OF w2(1,4) i] by blast
      have tw: "top_written L disk w ino (Suc l) w3"
        by (rule top_written_reach [OF A(1) wf A(3) l bw p(6) k2 o w2(2,3) f2(2) d(3-6)])
      have "flush_ok F w3" using w2 d(2,3) mono rest_same_frame(1) [OF d(3)] by (simp add: flush_ok_def rest_same_def)
      moreover have "flush_step_frame disk ino w w3"
        by (rule flush_step_frame_trans [OF fr2 rest_step_frame [OF d(3)]]) (simp add: d(6))
      ultimately show ?thesis using x False d(1) tw by simp
    qed
  qed
qed

text \<open>The path of every block that began at an indirect block in the heap now begins in the inode.\<close>

definition file_flushed :: "'w lib \<Rightarrow> ('w \<Rightarrow> nat \<Rightarrow> u8) \<Rightarrow> 'w world \<Rightarrow> u64 \<Rightarrow> 'w world \<Rightarrow> bool" where
  "file_flushed L disk w ino w' \<longleftrightarrow> others_kept w ino w' \<and> di_height (old_di w' ino) = di_height (old_di w ino)
     \<and> (if di_height (old_di w ino) = 0 then w' = w
        else no_blocks w' ino
          \<and> (\<exists>v. di_data (old_di w' ino) = (di_data (old_di w ino))[INDIRECT_INDEX := v]
               \<and> (\<forall>bix obj. held L disk w ino bix obj 0 \<longrightarrow> reach L disk w' ino bix obj (unat (di_height (old_di w ino))) v)))"

lemma file_flush_eq:
  assumes "find_or_create_inode ino w = Ok (q, w)" "q \<noteq> 0" "inode_at (hp w) q = Some i"
  shows "logfs_file_flush L ino w = (if di_height (i_di i) = 0 then Ok (0, w)
    else case flush_levels L q ino 1 w of None \<Rightarrow> Stuck
      | Some r \<Rightarrow> and_then r (\<lambda>(err, level, w). if err \<noteq> 0 then Ok (err, w)
          else and_then (lift (inode_at (hp w) q)) (\<lambda>i. if level \<noteq> unat (di_height (i_di i)) then Stuck else flush_top L q ino level w)))"
  unfolding logfs_file_flush_def flush_top_def using assms by simp

definition flushable :: "(ulong \<Rightarrow> fsobj obj option) \<Rightarrow> 'w world \<Rightarrow> u64 \<Rightarrow> bool" where
  "flushable F w ino \<longleftrightarrow> flush_ok F w \<and> ino_ptr w ino \<noteq> None \<and> unat (di_height (old_di w ino)) \<le> 3
     \<and> blocks_wf w ino (unat (di_height (old_di w ino))) \<and> no_blocks_above w ino 1
     \<and> (di_height (old_di w ino) = 0 \<or> level_blocks w ino 1 \<noteq> {})"

lemma flushed_file:
  assumes t: "top_written L disk w1 ino (Suc l) w2" and p: "same_ptrs (old_di w ino) (old_di w1 ino)"
    and m: "levels_moved L disk w ino 0 (Suc l) w1" and h: "unat (di_height (old_di w ino)) = Suc l"
  shows "file_flushed L disk w ino w2"
proof -
  have d: "di_height (old_di w2 ino) = di_height (old_di w ino)" using t p by (simp add: top_written_def same_ptrs_def)
  obtain v where v: "di_data (old_di w2 ino) = (di_data (old_di w1 ino))[INDIRECT_INDEX := v]"
    "\<forall>bix obj. held L disk w1 ino bix obj l \<longrightarrow> reach L disk w2 ino bix obj (Suc l) v" using t by (auto simp: top_written_def)
  have "reach L disk w2 ino bix obj (Suc l) v" if "held L disk w ino bix obj 0" for bix obj
    using m v(2) that unfolding levels_moved_def by simp
  moreover have "no_blocks w2 ino"
    using t m by (simp add: no_blocks_def top_written_def levels_moved_def)
  moreover have "di_height (old_di w ino) \<noteq> 0" using h by auto
  moreover have "others_kept w ino w2" using t m others_kept_trans [of w ino w1 w2] by (simp add: top_written_def levels_moved_def)
  moreover have "di_data (old_di w1 ino) = di_data (old_di w ino)" using p by (simp add: same_ptrs_def)
  ultimately show ?thesis using d v(1) unfolding file_flushed_def h by auto
qed

lemma file_flush_gives:
  assumes L: "posix_pwrite L disk budget" "mtd_erases L disk" and ok: "flushable F w ino"
  shows "flushes F disk ino w (logfs_file_flush L ino w) (file_flushed L disk w ino)"
proof -
  let ?h = "unat (di_height (old_di w ino))"
  have A: "flush_ok F w" "?h \<le> 3" "blocks_wf w ino ?h" "no_blocks_above w ino (Suc 0)" using ok by (simp_all add: flushable_def)
  have fs: "fs_with F w" using A(1) by (simp add: flush_ok_def)
  obtain q where q: "ino_ptr w ino = Some q" using ok by (auto simp: flushable_def)
  obtain i where i: "inode_at (hp w) q = Some i" "old_di w ino = i_di i" using ptr_inode [OF fs q] by blast
  have f: "find_or_create_inode ino w = Ok (q, w)" "q \<noteq> 0"
    using find_or_create_inode_result [OF fs, of ino] q by (auto simp: found_inode_def)
  note eq = file_flush_eq [OF f i(1), of L]
  show ?thesis
  proof (cases "?h = 0")
    case True
    then have "di_height (old_di w ino) = 0" by (simp add: unat_eq_0)
    then show ?thesis using eq i(2) A(1) by (simp add: file_flushed_def)
  next
    case nz: False
    then have hz: "di_height (old_di w ino) \<noteq> 0" by auto
    then have ne: "level_blocks w ino (Suc 0) \<noteq> {}" using ok by (auto simp: flushable_def)
    have h1: "Suc 0 \<le> ?h" using nz by simp
    obtain r where r: "flush_levels L q ino (Suc 0) w = Some r" and g: "flushes_to F disk ino w ?h r (levels_done L disk ino ?h 0 w)"
      using flush_levels_gives [OF L A(2,1) q A(3) refl h1 A(4)] by blast
    have run: "logfs_file_flush L ino w = and_then r (\<lambda>(err, level, w). if err \<noteq> 0 then Ok (err, w)
          else and_then (lift (inode_at (hp w) q)) (\<lambda>i. if level \<noteq> unat (di_height (i_di i)) then Stuck else flush_top L q ino level w))"
      using eq r hz i(2) by simp
    show ?thesis
    proof (cases r)
      case (Ok x)
      obtain err level w1 where x: "x = (err, level, w1)" by (cases x)
      have s: "flush_ok F w1" "flush_step_frame disk ino w w1"
        "if err = 0 then level = ?h \<and> levels_done L disk ino ?h 0 w w1 else err = - EIO \<or> err = - ENOMEM"
        using g unfolding Ok x by (simp_all add: flushes_to_def)
      show ?thesis
      proof (cases "err = 0")
        case True
        then have t: "level = ?h" "blocks_wf w1 ino ?h" "same_ptrs (old_di w ino) (old_di w1 ino)"
          "levels_moved L disk w ino 0 ?h w1" using s(3) by (simp_all add: levels_done_def)
        have fs1: "fs_with F w1" and q1: "ino_ptr w1 ino = Some q"
          using s(1,2) q by (simp_all add: flush_ok_def flush_step_frame_def)
        obtain l where l: "?h = Suc l" using nz by (cases ?h) auto
        obtain i1 where i1: "inode_at (hp w1) q = Some i1" "old_di w1 ino = i_di i1" using ptr_inode [OF fs1 q1] by blast
        have lv: "level = unat (di_height (i_di i1))" using t(1,3) i1(2) by (simp add: same_ptrs_def)
        have sl: "Suc l < LOGFS_MAX_LEVELS" using A(2) l by (simp add: abi_levels)
        have ne1: "level_blocks w1 ino (Suc l) \<noteq> {}" using t(4) ne unfolding levels_moved_def l by blast
        have "flushes F disk ino w (flush_top L q ino (Suc l) w1) (file_flushed L disk w ino)"
          by (rule flushes_frame [OF s(2) flush_top_gives [OF L s(1) q1 sl t(2) [unfolded l] ne1]])
            (rule flushed_file [OF _ t(3) t(4) [unfolded l] l])
        then show ?thesis using True i1(1) lv t(1) l run Ok x by simp
      qed (use s run Ok x in simp)
    qed (use g run in \<open>simp_all add: flushes_def flushes_to_def gives_def\<close>)
  qed
qed

end
