(* ===== verification/Files.thy ===== *)
theory Files
  imports Main Flush
begin

text \<open>
  Whole files: what a run of \<open>logfs_file_write\<close> and \<open>logfs_file_flush\<close>, over any number of files, leaves on
  the device for a reader that starts from the inodes.
\<close>

section \<open>Invariants of the files\<close>

text \<open>
  \<open>m\<close> holds, for each file and block that was written, the object: the header and the data. The block
  index is below \<open>512^3\<close>, and is not one of those for which \<open>grow_inode\<close> stops one level too early.
\<close>

type_synonym contents = "u64 \<times> u64 \<Rightarrow> u8 list option"

definition bix_ok :: "u64 \<Rightarrow> bool" where
  "bix_ok bix \<longleftrightarrow> unat bix < 512 ^ 3 \<and> unat bix \<noteq> 512 \<and> unat bix \<noteq> 512 ^ 2"

text \<open>Before the flush the path of a block begins in the inode or in an indirect block in the heap.\<close>

definition block_open :: "'w lib \<Rightarrow> ('w \<Rightarrow> nat \<Rightarrow> u8) \<Rightarrow> 'w world \<Rightarrow> u64 \<Rightarrow> u64 \<Rightarrow> u8 list \<Rightarrow> bool" where
  "block_open L disk w ino bix obj \<longleftrightarrow> (if unat bix < I0_BLOCKS then points_to disk w (di_data (old_di w ino) ! unat bix) obj
     else held L disk w ino bix obj 0)"

text \<open>After it, in the inode.\<close>

definition block_closed :: "'w lib \<Rightarrow> ('w \<Rightarrow> nat \<Rightarrow> u8) \<Rightarrow> 'w world \<Rightarrow> u64 \<Rightarrow> u64 \<Rightarrow> u8 list \<Rightarrow> bool" where
  "block_closed L disk w ino bix obj \<longleftrightarrow> (if unat bix < I0_BLOCKS then points_to disk w (di_data (old_di w ino) ! unat bix) obj
     else reach L disk w ino bix obj (unat (di_height (old_di w ino))) (di_data (old_di w ino) ! INDIRECT_INDEX))"

definition file_open :: "'w lib \<Rightarrow> ('w \<Rightarrow> nat \<Rightarrow> u8) \<Rightarrow> 'w world \<Rightarrow> u64 \<Rightarrow> contents \<Rightarrow> bool" where
  "file_open L disk w ino m \<longleftrightarrow> unat (di_height (old_di w ino)) \<le> 3 \<and> blocks_wf w ino (unat (di_height (old_di w ino)))
     \<and> no_blocks_above w ino 1 \<and> (di_height (old_di w ino) = 0 \<or> level_blocks w ino 1 \<noteq> {})
     \<and> (\<forall>bix obj. m (ino, bix) = Some obj \<longrightarrow> ino_ptr w ino \<noteq> None \<and> block_open L disk w ino bix obj)"

lemma file_open_ptr: "file_open L disk w ino m \<Longrightarrow> m (ino, bix) = Some obj \<Longrightarrow> ino_ptr w ino \<noteq> None"
  unfolding file_open_def by blast

definition file_closed :: "'w lib \<Rightarrow> ('w \<Rightarrow> nat \<Rightarrow> u8) \<Rightarrow> 'w world \<Rightarrow> u64 \<Rightarrow> contents \<Rightarrow> bool" where
  "file_closed L disk w ino m \<longleftrightarrow> (\<forall>bix obj. m (ino, bix) = Some obj \<longrightarrow> block_closed L disk w ino bix obj)"

definition files_inv :: "'w lib \<Rightarrow> ('w \<Rightarrow> nat \<Rightarrow> u8) \<Rightarrow> 'w world \<Rightarrow> contents \<Rightarrow> u64 set \<Rightarrow> bool" where
  "files_inv L disk w m flushed \<longleftrightarrow> flush_ok Map.empty w
     \<and> (\<forall>ino. if ino \<in> flushed then file_closed L disk w ino m else file_open L disk w ino m)"

section \<open>Other files\<close>

definition file_same :: "('w \<Rightarrow> nat \<Rightarrow> u8) \<Rightarrow> 'w world \<Rightarrow> u64 \<Rightarrow> 'w world \<Rightarrow> bool" where
  "file_same disk w i w' \<longleftrightarrow> keeps disk w w' \<and> same_ptrs (old_di w i) (old_di w' i) \<and> (ino_ptr w i \<noteq> None \<longrightarrow> ino_ptr w' i \<noteq> None)
     \<and> (\<forall>l c. l < LOGFS_MAX_LEVELS \<longrightarrow> blk_ptr w' i l c = blk_ptr w i l c \<and> blk_of w' i l c = blk_of w i l c)"

lemma file_same_levels: "file_same disk w i w' \<Longrightarrow> l < LOGFS_MAX_LEVELS \<Longrightarrow> level_blocks w' i l = level_blocks w i l"
  by (simp add: file_same_def level_blocks_def)

lemma block_open_same: "file_same disk w i w' \<Longrightarrow> block_open L disk w i bix obj \<Longrightarrow> block_open L disk w' i bix obj"
  using points_to_keeps held_keeps [of disk w w' i 0 bix L obj]
  by (auto simp: file_same_def same_ptrs_def block_open_def abi_levels simp del: cover.simps)

lemma block_closed_same: "file_same disk w i w' \<Longrightarrow> block_closed L disk w i bix obj \<Longrightarrow> block_closed L disk w' i bix obj"
  using points_to_keeps reach_keeps by (auto simp: file_same_def same_ptrs_def block_closed_def)

lemma file_open_same:
  assumes s: "file_same disk w i w'" and f: "file_open L disk w i m"
  shows "file_open L disk w' i m"
proof -
  have d: "di_height (old_di w' i) = di_height (old_di w i)" "ino_ptr w i \<noteq> None \<longrightarrow> ino_ptr w' i \<noteq> None"
    using s by (simp_all add: file_same_def same_ptrs_def)
  have "blocks_wf w' i k = blocks_wf w i k" for k unfolding blocks_wf_def using file_same_levels [OF s] by simp
  moreover have "no_blocks_above w' i 1 = no_blocks_above w i 1" unfolding no_blocks_above_def using file_same_levels [OF s] by simp
  moreover have "level_blocks w' i 1 = level_blocks w i 1" by (rule file_same_levels [OF s]) (simp add: abi_levels)
  ultimately show ?thesis using f d block_open_same [OF s] unfolding file_open_def by auto
qed

lemma file_closed_same: "file_same disk w i w' \<Longrightarrow> file_closed L disk w i m \<Longrightarrow> file_closed L disk w' i m"
  unfolding file_closed_def using block_closed_same by blast

lemma files_inv_step:
  assumes inv: "files_inv L disk w m fl" and ok: "flush_ok Map.empty w'"
    and same: "\<And>i. i \<noteq> ino \<Longrightarrow> file_same disk w i w'" and m: "\<And>i bix. i \<noteq> ino \<Longrightarrow> m' (i, bix) = m (i, bix)"
    and fl: "\<And>i. i \<noteq> ino \<Longrightarrow> i \<in> fl' \<longleftrightarrow> i \<in> fl"
    and here: "if ino \<in> fl' then file_closed L disk w' ino m' else file_open L disk w' ino m'"
  shows "files_inv L disk w' m' fl'"
  unfolding files_inv_def
proof (intro conjI ok allI)
  fix i
  show "if i \<in> fl' then file_closed L disk w' i m' else file_open L disk w' i m'"
  proof (cases "i = ino")
    case False
    have "file_closed L disk w' i m' = file_closed L disk w' i m" "file_open L disk w' i m' = file_open L disk w' i m"
      using m [OF False] by (simp_all add: file_closed_def file_open_def)
    then show ?thesis using inv fl [OF False] file_closed_same [OF same [OF False]] file_open_same [OF same [OF False]]
      unfolding files_inv_def by auto
  qed (use here in simp)
qed

lemma files_inv_fresh:
  assumes "fs_inv w" "seg_inv w" "geo_4k (sb w)" "erase_ok (sb w)" "\<And>ino. ino_ptr w ino = None"
  shows "files_inv L disk w Map.empty {}"
proof -
  have "old_di w i = zero_inode" "level_blocks w i l = {}" for i l
    using assms(5) [of i] by (simp_all add: old_di_def di_of_None level_blocks_def blk_ptr_def inode_of_def)
  then have "file_open L disk w i Map.empty" for i
    by (simp add: file_open_def blocks_wf_def no_blocks_above_def zero_inode_def)
  then show ?thesis using assms(1-4) by (simp add: files_inv_def flush_ok_def)
qed

section \<open>Writing a block\<close>

lemma old_di_length: "fs_with F w \<Longrightarrow> length (di_data (old_di w ino)) = 17"
proof -
  assume fs: "fs_with F w"
  obtain G where ok: "fs_ok (block_longs (sb w)) (hp w) (sb_ino_tree (sb w)) G" using fs by (auto simp: fs_with_def)
  show ?thesis
  proof (cases "ino_ptr w ino")
    case None
    then show ?thesis by (simp add: old_di_def di_of_None zero_inode_def abi_sizes)
  next
    case (Some q)
    obtain i where i: "inode_at (hp w) q = Some i" "old_di w ino = i_di i" using ptr_inode [OF fs Some] by blast
    have "own G q = Some (Inode_of ino)" using Some ino_ptr_own [OF ok] by simp
    from fs_okD(6) [OF ok this] show ?thesis using i by (auto simp: inode_at_Some inode_ok_def di_ok_def abi_sizes)
  qed
qed

lemma file_frame_same:
  assumes "file_frame F ino level w w'" "keeps disk w w'" "i \<noteq> ino"
    "\<And>l c. l < LOGFS_MAX_LEVELS \<Longrightarrow> blk_ptr w' i l c = blk_ptr w i l c \<and> blk_of w' i l c = blk_of w i l c"
  shows "file_same disk w i w'"
  using assms by (auto simp: file_same_def same_ptrs_def file_frame_def old_di_def)

lemma placed_points:
  assumes "seg_inv w'" "same_geo w w'" "level < LOGFS_MAX_LEVELS" "object_placed bs ino level w ofs w'"
  shows "points_to disk w' (cpu_to_be64 (of_int ofs)) bs"
proof -
  obtain x where "stored disk w' x bs" "ofs = int (x mod 2 ^ 32)" using placed_stored [OF assms, of disk] by blast
  then show ?thesis unfolding points_to_def by (intro exI [of _ x]) simp
qed

lemma open_direct:
  assumes f: "file_open L disk w ino m" and fs: "fs_with F w" and fr: "file_frame F ino 0 w w'" and k: "keeps disk w w'"
    and b: "bix < of_nat I0_BLOCKS" and wr: "written_direct obj ino bix w ofs w'" and p: "ino_ptr w' ino \<noteq> None"
  shows "file_open L disk w' ino (m((ino, bix) \<mapsto> obj))"
proof -
  have s: "blk_ptr w' i l c = blk_ptr w i l c \<and> blk_of w' i l c = blk_of w i l c" if "l < LOGFS_MAX_LEVELS" for i l c
    using wr that by (simp add: written_direct_def same_blocks_def)
  have bl: "level_blocks w' ino l = level_blocks w ino l" if "l < LOGFS_MAX_LEVELS" for l using s that by (simp add: level_blocks_def)
  let ?v = "cpu_to_be64 (of_int ofs)"
  have d: "di_data (old_di w' ino) = (di_data (old_di w ino))[unat bix := ?v]" "di_height (old_di w' ino) = di_height (old_di w ino)"
    using wr by (simp_all add: written_direct_def Let_def old_di_def [of w'] grown_def)
  have bn: "unat bix < 16" "I0_BLOCKS = 16" using b by (simp_all add: abi_sizes word_less_nat_alt)
  have pt: "points_to disk w' ?v obj"
    by (rule placed_points [of w' w 0 obj ino]) (use fr wr in \<open>simp_all add: file_frame_def written_direct_def abi_levels\<close>)
  have "block_open L disk w' ino c ob" if "(m((ino, bix) \<mapsto> obj)) (ino, c) = Some ob" for c ob
  proof (cases "c = bix")
    case True
    then show ?thesis using that pt d(1) bn old_di_length [OF fs, of ino] by (simp add: block_open_def)
  next
    case False
    then have o: "block_open L disk w ino c ob" using that f by (simp add: file_open_def)
    show ?thesis
    proof (cases "unat c < 16")
      case True
      have "unat c \<noteq> unat bix" using False by (simp add: word_unat_eq_iff)
      then show ?thesis using o True d(1) points_to_keeps [OF k] bn(2) by (simp add: block_open_def)
    next
      case big: False
      have l1: "Suc 0 < LOGFS_MAX_LEVELS" by (simp add: abi_levels)
      show ?thesis using o big bn(2) held_keeps [OF k, of ino 0 c L ob] s [OF l1, of ino] by (simp add: block_open_def)
    qed
  qed
  moreover have "blocks_wf w' ino n = blocks_wf w ino n" for n unfolding blocks_wf_def using bl by simp
  moreover have "no_blocks_above w' ino 1 = no_blocks_above w ino 1" unfolding no_blocks_above_def using bl by simp
  moreover have "level_blocks w' ino 1 = level_blocks w ino 1" by (rule bl) (simp add: abi_levels)
  ultimately show ?thesis using f p d(2) unfolding file_open_def by auto
qed

lemma grown_height_ok:
  assumes g: "grow_height bix h = Ok h'" and h: "unat h \<le> 3" and b: "bix_ok bix" "16 \<le> unat bix"
  shows "1 \<le> unat h'" "unat h' \<le> 3" "unat h \<le> unat h'" "unat bix < 512 ^ unat h'"
proof -
  have b3: "unat bix < 512 ^ 3" using b(1) by (simp add: bix_ok_def)
  have "unat bix \<le> 2 ^ 63" using b3 by simp
  then have r: "h \<le> h'" "unat bix \<le> 512 ^ unat h'" "\<forall>k. unat h \<le> k \<and> k < unat h' \<longrightarrow> 512 ^ k < unat bix"
    using grow_height_run [of bix h] g h by auto
  show "unat h' \<le> 3"
  proof (rule ccontr)
    assume "\<not> unat h' \<le> 3"
    then have "unat h \<le> 3 \<and> 3 < unat h'" using h by simp
    then have "512 ^ 3 < unat bix" using r(3) by blast
    then show False using b3 by simp
  qed
  show "1 \<le> unat h'" using r(2) b(2) by (cases "unat h'") simp_all
  show "unat h \<le> unat h'" using r(1) by (simp add: word_le_nat_alt)
  have "unat h' = 1 \<or> unat h' = 2 \<or> unat h' = 3" using \<open>unat h' \<le> 3\<close> \<open>1 \<le> unat h'\<close> by arith
  then have "unat bix \<noteq> 512 ^ unat h'" using b(1) b3 unfolding bix_ok_def by (elim disjE) simp_all
  then show "unat bix < 512 ^ unat h'" using r(2) by simp
qed

lemma open_indirect:
  assumes f: "file_open L disk w ino m" and fs: "fs_with F w" and g: "geo_4k (sb w)" and fr: "file_frame F ino 0 w w'"
    and k: "keeps disk w w'" and b: "16 \<le> unat bix" "bix_ok bix" and wr: "written_indirect obj ino bix 0 w ofs w'"
    and p: "ino_ptr w' ino \<noteq> None"
  shows "file_open L disk w' ino (m((ino, bix) \<mapsto> obj))"
proof -
  let ?c = "cover bix (Suc 0)" and ?v = "cpu_to_be64 (of_int ofs) :: u64"
  let ?ws = "(old_words w ino (Suc 0) ?c)[slot_of bix 0 := ?v]"
  have lm: "Suc 0 < LOGFS_MAX_LEVELS" "0 < LOGFS_MAX_LEVELS" by (simp_all add: abi_levels)
  have s: "blk_ptr w' i l c = blk_ptr w i l c \<and> blk_of w' i l c = blk_of w i l c"
    if "l < LOGFS_MAX_LEVELS" "(i, l, c) \<noteq> (ino, Suc 0, ?c)" for i l c
    using wr that unfolding written_indirect_def blocks_but_def by simp
  have n: "blk_of w' ino (Suc 0) ?c = Some ?ws" using wr by (simp add: written_indirect_def entered_def)
  obtain h where h: "grow_height bix (di_height (old_di w ino)) = Ok h"
    "di_of w' ino = Some (grown (length obj) ((old_di w ino)\<lparr>di_height := h\<rparr>))" using wr by (auto simp: written_indirect_def)
  have d: "di_data (old_di w' ino) = di_data (old_di w ino)" "di_height (old_di w' ino) = h"
    using h(2) by (simp_all add: old_di_def [of w'] grown_def)
  have A: "unat (di_height (old_di w ino)) \<le> 3" "blocks_wf w ino (unat (di_height (old_di w ino)))" "no_blocks_above w ino 1"
    using f by (simp_all add: file_open_def)
  note gh = grown_height_ok [OF h(1) A(1) b(2,1)]
  have len: "length (old_words w ino (Suc 0) ?c) = 512"
    using blk_length [OF fs lm(1), of ino ?c] g by (simp add: old_words_def block_longs_def geo_4k_def split: option.split)
  have pt: "points_to disk w' ?v obj"
    by (rule placed_points [OF _ _ lm(2), of w' w obj ino]) (use fr wr in \<open>simp_all add: file_frame_def written_indirect_def\<close>)
  have mem: "?c \<in> level_blocks w' ino (Suc 0)"
    using n by (cases "blk_ptr w' ino (Suc 0) ?c") (simp_all add: level_blocks_def blk_of_def)
  have wf: "blocks_wf w' ino (unat h)" unfolding blocks_wf_def
  proof (intro allI impI)
    fix l x assume l: "Suc l < LOGFS_MAX_LEVELS" and x: "x \<in> level_blocks w' ino (Suc l)"
    show "cover x (Suc l) = x \<and> unat x < 512 ^ unat h"
    proof (cases "(ino, Suc l, x) = (ino, Suc 0, ?c)")
      case True
      then show ?thesis using cover_idem [of "Suc 0" bix] cover_bound [OF gh(1) _ gh(4)] by simp
    next
      case False
      then have "x \<in> level_blocks w ino (Suc l)" using s [OF l] x by (simp add: level_blocks_def)
      then have "cover x (Suc l) = x \<and> unat x < 512 ^ unat (di_height (old_di w ino))" using A(2) l unfolding blocks_wf_def by blast
      moreover have "(512 :: nat) ^ unat (di_height (old_di w ino)) \<le> 512 ^ unat h" using gh(3) by (intro power_increasing) simp_all
      ultimately show ?thesis by linarith
    qed
  qed
  have ab: "no_blocks_above w' ino 1"
    using A(3) s unfolding no_blocks_above_def level_blocks_def by simp
  have "block_open L disk w' ino c ob" if o: "(m((ino, bix) \<mapsto> obj)) (ino, c) = Some ob" for c ob
  proof (cases "c = bix")
    case True
    have "held L disk w' ino bix obj 0" unfolding held_def using n len pt by simp
    then show ?thesis using o True b(1) by (simp add: block_open_def abi_sizes)
  next
    case False
    then have o1: "block_open L disk w ino c ob" using o f by (simp add: file_open_def)
    show ?thesis
    proof (cases "unat c < 16")
      case True
      then show ?thesis using o1 d(1) points_to_keeps [OF k] by (simp add: block_open_def abi_sizes)
    next
      case big: False
      then have hc: "held L disk w ino c ob 0" using o1 by (simp add: block_open_def abi_sizes)
      have "held L disk w' ino c ob 0"
      proof (cases "cover c (Suc 0) = ?c")
        case False
        then show ?thesis using held_keeps [OF k, of ino 0 c L ob] s [OF lm(1), of ino "cover c (Suc 0)"] hc by simp
      next
        case True
        then obtain ws where ws: "blk_of w ino (Suc 0) ?c = Some ws" "length ws = 512" "reach L disk w ino c ob 0 (ws ! slot_of c 0)"
          using hc by (auto simp: held_def)
        have "slot_of c 0 \<noteq> slot_of bix 0" using cover_Suc_iff [of 0 c bix] True False by auto
        then have "?ws ! slot_of c 0 = ws ! slot_of c 0" using ws(1) by (simp add: old_words_def)
        then show ?thesis using n len True reach_keeps [OF k ws(3)] unfolding held_def by simp
      qed
      then show ?thesis using big by (simp add: block_open_def abi_sizes)
    qed
  qed
  then show ?thesis using p gh(2) d(2) wf ab mem unfolding file_open_def by auto
qed

lemma file_write_step:
  assumes L: "posix_pwrite L disk budget" "mtd_erases L disk" and inv: "files_inv L disk w m fl" and ino: "ino \<notin> fl"
    and n: "obj_len (sb w) type = Ok n" "n \<le> length buf" and b: "bix_ok bix"
    and run: "logfs_file_write L ino bix 0 type buf w = Ok (0, w')"
  shows "files_inv L disk w' (m((ino, bix) \<mapsto> object_bytes L buf n type ino bix)) fl \<and> same_geo w w'"
proof -
  let ?obj = "object_bytes L buf n type ino bix"
  have A: "fs_inv w" "seg_inv w" "geo_4k (sb w)" "erase_ok (sb w)" using inv by (simp_all add: files_inv_def flush_ok_def)
  have f: "file_open L disk w ino m" using inv ino by (auto simp: files_inv_def)
  then have h: "unat (di_height (old_di w ino)) < 8" by (simp add: file_open_def)
  have b63: "unat bix \<le> 2 ^ 63" using b by (simp add: bix_ok_def)
  obtain ofs where fr: "file_frame Map.empty ino 0 w w'" and wr: "if bix < of_nat I0_BLOCKS
      then written_direct ?obj ino bix w ofs w' else written_indirect ?obj ino bix 0 w ofs w'"
    using file_write_spec [OF A(1,2) n A(3) h b63 run] by auto
  have k: "keeps disk w w'" by (rule file_write_keeps [OF L A(1,2) n A(3) h b63 run])
  have "gives (ran_out Map.empty w) (logfs_file_write L ino bix 0 type buf w) (\<lambda>(err, w'). erase_ok (sb w'))"
    by (rule file_write_gives [OF A(1,2) n A(3) h b63 _ L(1) A(4)]) simp
  then have e: "erase_ok (sb w')" unfolding run by simp
  have g: "same_geo w w'" using fr by (simp add: file_frame_def)
  have ok: "flush_ok Map.empty w'" using fr e same_geo_4k [OF g A(3)] by (simp add: flush_ok_def file_frame_def)
  have di: "di_of w' ino \<noteq> None" using wr by (auto simp: written_direct_def written_indirect_def Let_def split: if_splits)
  then have p: "ino_ptr w' ino \<noteq> None" using di_of_None [of w' ino] by (cases "ino_ptr w' ino") simp_all
  have bl: "blk_ptr w' i l c = blk_ptr w i l c \<and> blk_of w' i l c = blk_of w i l c" if "i \<noteq> ino" "l < LOGFS_MAX_LEVELS" for i l c
    using wr that by (auto simp: written_direct_def written_indirect_def same_blocks_def blocks_but_def split: if_splits)
  have "file_open L disk w' ino (m((ino, bix) \<mapsto> ?obj))"
  proof (cases "bix < of_nat I0_BLOCKS")
    case True
    then show ?thesis using open_direct [OF f A(1) fr k True _ p] wr by simp
  next
    case False
    then have "16 \<le> unat bix" by (simp add: abi_sizes word_less_nat_alt)
    then show ?thesis using open_indirect [OF f A(1,3) fr k _ b _ p] wr False by simp
  qed
  then have here: "if ino \<in> fl then file_closed L disk w' ino (m((ino, bix) \<mapsto> ?obj)) else file_open L disk w' ino (m((ino, bix) \<mapsto> ?obj))"
    using ino by simp
  have "files_inv L disk w' (m((ino, bix) \<mapsto> ?obj)) fl"
    by (rule files_inv_step [OF inv ok file_frame_same [OF fr k _ bl] _ _ here]) simp_all
  then show ?thesis using g by blast
qed

section \<open>Flushing a file\<close>

lemma flush_frame_same:
  assumes "flush_step_frame disk ino w w'" "others_kept w ino w'" "i \<noteq> ino"
  shows "file_same disk w i w'"
  using assms by (auto simp: file_same_def same_ptrs_def flush_step_frame_def others_kept_def old_di_def)

lemma blocks_wfD: "blocks_wf w ino k \<Longrightarrow> Suc l < LOGFS_MAX_LEVELS \<Longrightarrow> b \<in> level_blocks w ino (Suc l) \<Longrightarrow>
    cover b (Suc l) = b \<and> unat b < 512 ^ k"
  unfolding blocks_wf_def by blast

lemma closed_file:
  assumes f: "file_open L disk w ino m" and fs: "fs_with F w" and fl: "file_flushed L disk w ino w'" and k: "keeps disk w w'"
  shows "file_closed L disk w' ino m"
  unfolding file_closed_def
proof (intro allI impI)
  fix bix obj assume "m (ino, bix) = Some obj"
  then have o: "block_open L disk w ino bix obj" using f by (simp add: file_open_def)
  let ?h = "di_height (old_di w ino)"
  have h: "di_height (old_di w' ino) = ?h" using fl by (simp add: file_flushed_def)
  show "block_closed L disk w' ino bix obj"
  proof (cases "unat bix < I0_BLOCKS")
    case True
    then have "points_to disk w' (di_data (old_di w ino) ! unat bix) obj" using o points_to_keeps [OF k] by (simp add: block_open_def)
    moreover have "di_data (old_di w' ino) ! unat bix = di_data (old_di w ino) ! unat bix"
      using fl True by (auto simp: file_flushed_def INDIRECT_INDEX_def split: if_splits)
    ultimately show ?thesis using True by (simp add: block_closed_def)
  next
    case False
    then have hd: "held L disk w ino bix obj 0" using o by (simp add: block_open_def)
    have "?h \<noteq> 0"
    proof
      assume z: "?h = 0"
      have "cover bix (Suc 0) \<in> level_blocks w ino (Suc 0)" by (rule held_block [OF hd])
      then have "cover (cover bix (Suc 0)) (Suc 0) = cover bix (Suc 0) \<and> unat (cover bix (Suc 0)) < 1"
        using blocks_wfD [of w ino 0 0 "cover bix (Suc 0)"] f z by (simp add: file_open_def abi_levels del: cover.simps)
      then show False using cover_unat [of "Suc 0" bix] by simp
    qed
    then obtain v where v: "di_data (old_di w' ino) = (di_data (old_di w ino))[INDIRECT_INDEX := v]"
      "reach L disk w' ino bix obj (unat ?h) v" using fl hd unfolding file_flushed_def by auto
    have "di_data (old_di w' ino) ! INDIRECT_INDEX = v"
      using v(1) old_di_length [OF fs, of ino] by (simp add: INDIRECT_INDEX_def abi_sizes)
    then show ?thesis using v(2) h False by (simp add: block_closed_def)
  qed
qed

lemma file_flush_step:
  assumes L: "posix_pwrite L disk budget" "mtd_erases L disk" and inv: "files_inv L disk w m fl" and ino: "ino \<notin> fl"
    and p: "ino_ptr w ino \<noteq> None" and run: "logfs_file_flush L ino w = Ok (0, w')"
  shows "files_inv L disk w' m (insert ino fl) \<and> same_geo w w'"
proof -
  have ok: "flush_ok Map.empty w" using inv by (simp add: files_inv_def)
  have f: "file_open L disk w ino m" using inv ino by (auto simp: files_inv_def)
  then have "flushable Map.empty w ino" using ok p by (simp add: flushable_def file_open_def)
  from file_flush_gives [OF L this, unfolded run] have r: "flush_ok Map.empty w'" "flush_step_frame disk ino w w'"
    "file_flushed L disk w ino w'" by simp_all
  have g: "keeps disk w w'" "same_geo w w'" "others_kept w ino w'" using r by (simp_all add: flush_step_frame_def file_flushed_def)
  have "file_closed L disk w' ino m" by (rule closed_file [where F = Map.empty, OF f _ r(3) g(1)]) (use ok in \<open>simp add: flush_ok_def\<close>)
  then have here: "if ino \<in> insert ino fl then file_closed L disk w' ino m else file_open L disk w' ino m" by simp
  have "files_inv L disk w' m (insert ino fl)"
    by (rule files_inv_step [OF inv r(1) flush_frame_same [OF r(2) g(3)] _ _ here]) simp_all
  then show ?thesis using g(2) by blast
qed

section \<open>Runs\<close>

text \<open>
  A run writes blocks and flushes files, in any order but that a file is not written to once it was
  flushed, and every call returns 0: \<open>mkfs\<close> gives up at the first error.
\<close>

inductive file_run :: "'w lib \<Rightarrow> 'w world \<Rightarrow> contents \<Rightarrow> u64 set \<Rightarrow> 'w world \<Rightarrow> bool" for L w where
  start: "file_run L w Map.empty {} w"
| put: "file_run L w (m((ino, bix) \<mapsto> object_bytes L buf n type ino bix)) flushed w2"
    if "file_run L w m flushed w1" "logfs_file_write L ino bix 0 type buf w1 = Ok (0, w2)" "ino \<notin> flushed" "bix_ok bix"
      "obj_len (sb w1) type = Ok n" "n \<le> length buf"
| sync: "file_run L w m (insert ino flushed) w2"
    if "file_run L w m flushed w1" "logfs_file_flush L ino w1 = Ok (0, w2)" "ino \<notin> flushed" "ino_ptr w1 ino \<noteq> None"

lemma file_run_inv:
  assumes L: "posix_pwrite L disk budget" "mtd_erases L disk" and inv: "files_inv L disk w Map.empty {}"
  shows "file_run L w m flushed w' \<Longrightarrow> files_inv L disk w' m flushed \<and> same_geo w w'"
proof (induction rule: file_run.induct)
  case (put m flushed w1 ino bix type buf w2 n)
  then show ?case using file_write_step [OF L _ put.hyps(3,5,6,4,2)] same_geo_trans by blast
next
  case (sync m flushed w1 ino w2)
  then show ?case using file_flush_step [OF L _ sync.hyps(3,4,2)] same_geo_trans by blast
qed (use inv in simp)

lemma file_run_object: "file_run L w m flushed w' \<Longrightarrow> m x = Some obj \<Longrightarrow> obj \<noteq> []"
  by (induction arbitrary: x obj rule: file_run.induct) (auto simp: object_bytes_def oh_bytes_def split: if_splits)

section \<open>What a reader finds\<close>

text \<open>
  \<open>device_path\<close>: on the device \<open>d\<close>, from the big endian offset \<open>v\<close> down \<open>l\<close> levels of indirect blocks, each a
  whole object with its header, to the object \<open>obj\<close>.
\<close>

primrec device_path :: "'w lib \<Rightarrow> (nat \<Rightarrow> u8) \<Rightarrow> u64 \<Rightarrow> u64 \<Rightarrow> u8 list \<Rightarrow> nat \<Rightarrow> u64 \<Rightarrow> bool" where
  "device_path L d ino bix obj 0 v \<longleftrightarrow> on_disk d (unat (be64_to_cpu v)) obj"
| "device_path L d ino bix obj (Suc l) v \<longleftrightarrow> (\<exists>ws. length ws = 512
     \<and> on_disk d (unat (be64_to_cpu v)) (indirect_object L ino ws (cover bix (Suc l)))
     \<and> device_path L d ino bix obj l (ws ! slot_of bix l))"

definition readable :: "'w lib \<Rightarrow> (nat \<Rightarrow> u8) \<Rightarrow> disk_inode \<Rightarrow> u64 \<Rightarrow> u64 \<Rightarrow> u8 list \<Rightarrow> bool" where
  "readable L d di ino bix obj \<longleftrightarrow> (if unat bix < I0_BLOCKS then device_path L d ino bix obj 0 (di_data di ! unat bix)
     else device_path L d ino bix obj (unat (di_height di)) (di_data di ! INDIRECT_INDEX))"

lemma points_on_disk:
  assumes inv: "seg_inv w" and L: "posix_pwrite L disk budget" and b: "below_4g (sb w)" and run: "flush_segments L w = Ok (0, w')"
    and p: "points_to disk w v bs" "bs \<noteq> []"
  shows "on_disk (disk (os w')) (unat (be64_to_cpu v)) bs"
proof -
  obtain x where x: "stored disk w x bs" "v = cpu_to_be64 (of_nat (x mod 2 ^ 32))" using p(1) by (auto simp: points_to_def)
  obtain segno u where s: "x = seg_ofs (sb w) segno + u" "segno < sb_lastseg (sb w)" "u + length bs \<le> unat (sb_segsize (sb w))"
    using x(1) by (auto simp: stored_def stored_in_def)
  have "0 < length bs" using p(2) by simp
  then have "x < (unat segno + 1) * unat (sb_segsize (sb w))" using s(1,3) by (simp add: seg_ofs_def del: length_greater_0_conv)
  also have "\<dots> \<le> unat (sb_lastseg (sb w)) * unat (sb_segsize (sb w))"
    using s(2) by (intro mult_le_mono1) (simp add: word_less_nat_alt)
  also have "\<dots> \<le> 2 ^ 32" using lastseg_below_4g [OF inv b] by (simp add: seg_ofs_def)
  finally have x32: "x < 2 ^ 32" .
  then have "x < 2 ^ 64" by simp
  then have "unat (be64_to_cpu v) = x" using x(2) x32 by (simp add: unsigned_of_nat take_bit_nat_eq_self)
  then show ?thesis using flush_segments_stored [OF inv L run x(1)] by simp
qed

lemma reach_device:
  assumes inv: "seg_inv w" and L: "posix_pwrite L disk budget" and b: "below_4g (sb w)" and run: "flush_segments L w = Ok (0, w')"
    and o: "obj \<noteq> []"
  shows "reach L disk w ino bix obj l v \<Longrightarrow> device_path L (disk (os w')) ino bix obj l v"
proof (induction l arbitrary: v)
  case 0
  then show ?case using points_on_disk [OF inv L b run _ o] by simp
next
  case (Suc l)
  then obtain ws where ws: "length ws = 512" "points_to disk w v (indirect_object L ino ws (cover bix (Suc l)))"
    "reach L disk w ino bix obj l (ws ! slot_of bix l)" by auto
  have "indirect_object L ino ws (cover bix (Suc l)) \<noteq> []" by (simp add: indirect_object_def object_bytes_def oh_bytes_def)
  then show ?case using ws(1) points_on_disk [OF inv L b run ws(2)] Suc.IH [OF ws(3)] by auto
qed

section \<open>A concrete run\<close>

text \<open>A system whose calls succeed, and a small device.\<close>

lemma known_inode:
  assumes "fs_with F w" "ino_ptr w ino = Some q"
  shows "find_or_create_inode ino w = Ok (q, w) \<and> q \<noteq> 0"
  using find_or_create_inode_result [OF assms(1), of ino] assms(2)
  by (elim disjE exE conjE) (simp_all add: found_inode_def)

definition file_lib :: "toy lib" where
  "file_lib = seg_lib\<lparr>sys_pwrite := (\<lambda>fd buf ofs s.
     (int (length buf), 0, s\<lparr>toy_disk := put_bytes (toy_disk s) (unat ofs) buf\<rparr>))\<rparr>"

lemma file_lib_ok: "posix_pwrite file_lib toy_disk toy_signals" "mtd_erases file_lib toy_disk"
  by (auto simp: posix_pwrite_def mtd_erases_def file_lib_def seg_lib_def toy_lib_def)

lemma file_lib_write: "dev_write file_lib ofs n buf w = Ok (err, w') \<Longrightarrow> err = 0"
proof -
  have "pwrite_loop file_lib fd bs p s = Some (0, if bs = [] then s else s\<lparr>toy_disk := put_bytes (toy_disk s) (unat p) bs\<rparr>)" for fd bs p s
    by (subst pwrite_loop.simps, subst pwrite_loop.simps) (simp add: file_lib_def)
  then show "dev_write file_lib ofs n buf w = Ok (err, w') \<Longrightarrow> err = 0"
    by (auto simp: dev_write_eq bdev_write_def safe_pwrite_def and_then_Ok split: if_splits)
qed

lemma file_lib_flush: "flush_loop file_lib i n w = Ok (err, w') \<Longrightarrow> err = 0"
  by (induction n arbitrary: i w) (auto simp: and_then_Ok finish_area_def dest!: file_lib_write split: if_splits option.splits)

definition file_world :: "toy world" where
  "file_world = seg_world\<lparr>sb := (sb seg_world)\<lparr>sb_segsize := 4160, sb_blocksize := 4096, sb_blocksize_bits := 12\<rparr>\<rparr>"

lemma file_world_ok: "fs_inv file_world" "seg_inv file_world" "geo_4k (sb file_world)" "erase_ok (sb file_world)"
  "below_4g (sb file_world)" "ino_ptr file_world i = None"
proof -
  have "alloc_ok (hp file_world)" by (rule pool_ok) (simp add: file_world_def seg_world_def)
  then have "fs_ok n (hp file_world) (sb_ino_tree (sb file_world))
      \<lparr>own = (\<lambda>_. None), ino_tower = [], blk_tower = (\<lambda>_ _. [])\<rparr>" for n
    by (simp add: fs_ok_def tree_def file_world_def seg_world_def toy_world_def toy_super_def)
  then show "fs_inv file_world" by (rule fs_invI)
  show "seg_inv file_world"
    by (simp add: seg_inv_but_def segs_ok_def file_world_def seg_world_def toy_world_def toy_super_def area_ok_def abi_sizes abi_levels)
  show "geo_4k (sb file_world)" "erase_ok (sb file_world)" "below_4g (sb file_world)"
    by (simp_all add: geo_4k_def erase_ok_def below_4g_def seg_ofs_def file_world_def seg_world_def toy_world_def toy_super_def)
  show "ino_ptr file_world i = None"
    by (simp add: ino_ptr_def file_world_def seg_world_def toy_world_def toy_super_def seen_def btree_init_def btree_lookup_def)
qed

lemma file_world_inode: "\<exists>p w. find_or_create_inode 5 file_world = Ok (p, w) \<and> p \<noteq> 0 \<and> pool 0 (mem (hp w)) \<noteq> None"
proof -
  have "(case find_or_create_inode 5 file_world of Ok (p, w) \<Rightarrow> p \<noteq> 0 \<and> pool 0 (mem (hp w)) \<noteq> None | _ \<Rightarrow> False)" by code_simp
  then show ?thesis by (auto split: result.splits prod.splits)
qed

lemma first_write:
  assumes fs: "fs_with F w" "seg_inv w" and p: "ino_ptr w 5 = Some p" and n: "length buf = 266"
    and m: "make_room file_lib 0 0 w = Ok (0, w1)"
  shows "\<exists>ofs w'. 0 \<le> ofs \<and> logfs_segment_write file_lib buf OBJ_DENTRY 5 0 0 w = Ok (ofs, w')"
proof -
  have i: "0 < LOGFS_NO_AREAS" by (simp add: abi_sizes abi_levels)
  have r: "seg_frame w w1" "seg_inv w1" "has_room 0 w1" using make_room_spec [OF fs(2) i m] by simp_all
  let ?oh = "oh_bytes (make_object_header file_lib buf 266 OBJ_DENTRY 5 0)"
  have oh: "length ?oh = LOGFS_OBJECT_HEADERSIZE" "length (take 266 buf) \<le> unat (sb_blocksize (sb w1))"
    using r(2) n by (simp_all add: abi_sizes seg_inv_but_def)
  obtain a where a: "append_object 0 ?oh (take 266 buf) w1
      = Ok (a_segno (sb_area (sb w1) ! 0) * sb_segsize (sb w1) + a_used_bytes (sb_area (sb w1) ! 0), put_area 0 a w1)"
    using append_object_spec [OF r(2) i r(3) oh] by blast
  have w1: "fs_with F w1" "same_files w w1" using frame_files [OF fs(1) r(1)] by blast+
  have w2: "fs_with F (put_area 0 a w1)" "same_files w1 (put_area 0 a w1)" using frame_files [OF w1(1) put_area_frame] by blast+
  have p2: "ino_ptr (put_area 0 a w1) 5 = Some p" using w1(2) w2(2) p by (simp add: same_files_def)
  obtain w3 where "seg_grow_inode 5 294 (put_area 0 a w1) = Ok (0, w3)"
    using known_inode [OF w2(1) p2] upd_inode_spec [OF w2(1) p2, of "\<lambda>i. i\<lparr>i_di := (i_di i)\<lparr>di_used_bytes :=
      cpu_to_be64 (of_nat 294 + be64_to_cpu (di_used_bytes (i_di i)))\<rparr>\<rparr>"]
    by (auto simp: seg_grow_inode_def di_ok_def)
  then show ?thesis using m a n oh
    by (simp add: logfs_segment_write_def obj_len_def Let_def LOGFS_INO_MASTER_def abi_sizes abi_levels)
qed

lemma file_lib_segment:
  assumes "sb_dev_ops (sb w) = Mtd_ops" "\<not> sb_no_segs (sb w) < sb_lastseg (sb w) + 1"
  shows "get_segment file_lib w = Ok (sb_lastseg (sb w), w\<lparr>os := os w, sb := (sb w)\<lparr>sb_lastseg := sb_lastseg (sb w) + 1\<rparr>\<rparr>)"
  unfolding get_segment_def using assms
  by (subst get_segment_loop.simps) (simp add: dev_erase_def mtd_erase_def file_lib_def seg_lib_def toy_lib_def Let_def)

lemma file_world_room:
  fixes tree :: btree_head
  assumes "sb w = (sb file_world)\<lparr>sb_ino_tree := tree\<rparr>" "strategy (hp w) = pool" "pool 0 (mem (hp w)) \<noteq> None"
  shows "\<exists>w1. make_room file_lib 0 0 w = Ok (0, w1)"
proof -
  have "pool t (mem (hp w)) \<noteq> None" for t using assms(3) by (simp add: pool_def)
  then show ?thesis using assms(1,2)
    by (auto simp: make_room_def init_area_def area_at_def malloc_buf_def init_area_segment_def file_lib_segment put_area_def
        file_world_def seg_world_def toy_world_def toy_super_def abi_sizes abi_levels Let_def)
qed

lemma file_world_write:
  assumes n: "length buf = 266"
  shows "\<exists>w. logfs_file_write file_lib 5 0 0 OBJ_DENTRY buf file_world = Ok (0, w)"
proof -
  obtain p w1 where f: "find_or_create_inode 5 file_world = Ok (p, w1)" "p \<noteq> 0" "pool 0 (mem (hp w1)) \<noteq> None"
    using file_world_inode by blast
  have fi: "found_inode Map.empty file_world 5 p w1"
    using find_or_create_inode_result [OF file_world_ok(1), of 5] f(1) by auto
  note ff = found_inode_frame [OF fi]
  have inv: "fs_inv w1" "seg_inv w1" using found_file_frame [OF fi file_world_ok(2)] by (simp_all add: file_frame_def)
  have p: "ino_ptr w1 5 = Some p" using ff(6) f(2) by simp
  have s: "strategy (hp w1) = pool" using ff(9) by (simp add: file_world_def seg_world_def)
  obtain w2 where m: "make_room file_lib 0 0 w1 = Ok (0, w2)" using ff(1) file_world_room [OF _ s f(3)] by blast
  obtain ofs w3 where w: "0 \<le> ofs" "logfs_segment_write file_lib buf OBJ_DENTRY 5 0 0 w1 = Ok (ofs, w3)"
    using first_write [OF inv p n m] by blast
  have o: "obj_len (sb w1) OBJ_DENTRY = Ok 266" by (simp add: obj_len_def)
  have l0: "0 < LOGFS_MAX_LEVELS" by (simp add: abi_levels)
  have "write_frame Map.empty 5 0 w1 w3" using segment_write_spec [OF inv o _ l0 w(2)] n by simp
  then have w3: "fs_inv w3" "ino_ptr w3 5 = Some p" using p by (simp_all add: write_frame_def)
  have "unat (0 :: u64) < LOGFS_EMBEDDED_FIELDS" by (simp add: abi_sizes)
  from set_data_spec [OF w3 this, of "cpu_to_be64 (of_int ofs)"] show ?thesis
    using f(1,2) w by (auto simp: logfs_file_write_def write_direct_def abi_sizes)
qed

text \<open>One file of one block, written, flushed and on the device.\<close>

lemma file_world_run:
  obtains w1 w2 where "logfs_file_write file_lib 5 0 0 OBJ_DENTRY (replicate 266 7) file_world = Ok (0, w1)"
    "flushable Map.empty w1 5" "di_height (old_di w1 5) = 0"
    "file_run file_lib file_world (Map.empty((5, 0) \<mapsto> object_bytes file_lib (replicate 266 7) 266 OBJ_DENTRY 5 0)) {5} w1"
    "flush_segments file_lib w1 = Ok (0, w2)"
proof -
  obtain w1 where w1: "logfs_file_write file_lib 5 0 0 OBJ_DENTRY (replicate 266 7) file_world = Ok (0, w1)"
    using file_world_write [of "replicate 266 7"] by auto
  let ?m = "Map.empty((5, 0) \<mapsto> object_bytes file_lib (replicate 266 7) 266 OBJ_DENTRY 5 0) :: contents"
  have o: "obj_len (sb file_world) OBJ_DENTRY = Ok 266" by (simp add: obj_len_def)
  have z: "old_di file_world i = zero_inode" for i using file_world_ok(6) by (simp add: old_di_def di_of_None)
  have run1: "file_run file_lib file_world ?m {} w1"
    by (rule file_run.put [OF file_run.start w1 _ _ o]) (simp_all add: bix_ok_def)
  have "files_inv file_lib toy_disk file_world Map.empty {}" by (rule files_inv_fresh [OF file_world_ok(1-4,6)])
  from file_run_inv [OF file_lib_ok this run1] have i: "files_inv file_lib toy_disk w1 ?m {}" by simp
  then have op: "file_open file_lib toy_disk w1 5 ?m" and ok: "flush_ok Map.empty w1" by (simp_all add: files_inv_def)
  have inv: "fs_inv w1" "seg_inv w1" using ok by (simp_all add: flush_ok_def)
  have p: "ino_ptr w1 5 \<noteq> None" by (rule file_open_ptr [OF op, of 0]) simp
  have fl: "flushable Map.empty w1 5" using op ok p by (simp add: flushable_def file_open_def)
  have h: "unat (di_height (old_di file_world 5)) < 8" by (simp add: z zero_inode_def)
  have dir: "0 < (of_nat I0_BLOCKS :: u64)" by (simp add: abi_sizes)
  obtain ofs where "written_direct (object_bytes file_lib (replicate 266 7) 266 OBJ_DENTRY 5 0) 5 0 file_world ofs w1"
    using file_write_spec [OF file_world_ok(1,2) o _ file_world_ok(3) h _ w1] dir by auto
  then have h1: "di_height (old_di w1 5) = 0"
    by (simp add: written_direct_def Let_def old_di_def [of w1] z grown_def zero_inode_def)
  obtain q where q: "ino_ptr w1 5 = Some q" using p by blast
  obtain x where x: "inode_at (hp w1) q = Some x" "old_di w1 5 = i_di x" using ptr_inode [OF inv(1) q] by blast
  have "logfs_file_flush file_lib 5 w1 = Ok (0, w1)"
    using file_flush_eq [OF _ _ x(1), of 5 file_lib] known_inode [OF inv(1) q] h1 x(2) by simp
  then have run: "file_run file_lib file_world ?m {5} w1"
    using file_run.sync [OF run1 _ _ p] by simp
  obtain err w2 where "flush_segments file_lib w1 = Ok (err, w2)"
    using flush_loop_spec [OF file_lib_ok(1) inv(2), of 0 LOGFS_NO_AREAS] by (auto simp: flush_segments_def)
  then have "flush_segments file_lib w1 = Ok (0, w2)" using file_lib_flush by (auto simp: flush_segments_def)
  then show thesis using that w1 fl h1 run by blast
qed

section \<open>Properties\<close>





end
