(* ===== verification/Format.thy ===== *)
theory Format
  imports Main Files Mkfs
begin

text \<open>
  The files \<open>mkfs\<close> makes: the segment file and the root directory, through the whole write path to the
  device.
\<close>

section \<open>Steps that keep the files\<close>

definition later :: "'w world \<Rightarrow> 'w world \<Rightarrow> bool" where
  "later w w' \<longleftrightarrow> same_geo w w' \<and> (\<forall>i p. ino_ptr w i = Some p \<longrightarrow> ino_ptr w' i = Some p)"

lemma later_refl [simp]: "later w w"
  by (simp add: later_def)

lemma later_trans: "later w w1 \<Longrightarrow> later w1 w2 \<Longrightarrow> later w w2"
  using same_geo_trans [of w w1 w2] by (simp add: later_def)

lemma ran_out_later: "later w w' \<Longrightarrow> ran_out F w' \<Longrightarrow> ran_out F w"
  by (erule ran_out_mono) (simp_all add: later_def same_geo_def)

lemma gives_later: "later w w' \<Longrightarrow> gives (ran_out F w') r P \<Longrightarrow> gives (ran_out F w) r P"
  by (erule gives_mono) (auto intro: ran_out_later)

lemma files_inv_same:
  assumes "files_inv L disk w m fl" "flush_ok Map.empty w'" "\<And>i. file_same disk w i w'"
  shows "files_inv L disk w' m fl"
  using assms(1,2) file_closed_same [OF assms(3)] file_open_same [OF assms(3)] unfolding files_inv_def by meson

lemma same_ptrs_refl [simp]: "same_ptrs d d"
  by (simp add: same_ptrs_def)

lemma malloc_files:
  assumes inv: "files_inv L disk w m fl"
  shows "files_inv L disk (w\<lparr>hp := (hp w)\<lparr>ticks := t\<rparr>\<rparr>) m fl \<and> later w (w\<lparr>hp := (hp w)\<lparr>ticks := t\<rparr>\<rparr>)
     \<and> old_di (w\<lparr>hp := (hp w)\<lparr>ticks := t\<rparr>\<rparr>) = old_di w"
proof -
  let ?w = "w\<lparr>hp := (hp w)\<lparr>ticks := t\<rparr>\<rparr>"
  have ok: "flush_ok Map.empty w" using inv by (simp add: files_inv_def)
  then have fs: "fs_inv w" by (simp add: flush_ok_def)
  have f: "fs_inv ?w" "same_files w ?w" using frame_files [OF fs, of ?w] by (simp_all add: seg_frame_def)
  have "seg_inv ?w" using ok by (simp add: flush_ok_def seg_inv_but_def segs_ok_def)
  then have "flush_ok Map.empty ?w" using ok f(1) by (simp add: flush_ok_def)
  moreover have k: "keeps disk w ?w" by (rule keeps_same) simp_all
  moreover have od: "old_di ?w = old_di w" using f(2) by (simp add: same_files_def old_di_def fun_eq_iff)
  ultimately have "files_inv L disk ?w m fl"
    by (intro files_inv_same [OF inv]) (use f(2) in \<open>simp_all add: file_same_def same_files_def same_blocks_def\<close>)
  then show ?thesis using f(2) od by (simp add: later_def same_geo_def same_files_def)
qed

lemma found_files:
  assumes inv: "files_inv L disk w m fl" and f: "found_inode Map.empty w ino p w'"
  shows "files_inv L disk w' m fl \<and> later w w' \<and> old_di w' = old_di w"
proof -
  have ok: "flush_ok Map.empty w" using inv by (simp add: files_inv_def)
  note ff = found_inode_frame [OF f] and fm = found_inode_misc [OF f]
  have fr: "file_frame Map.empty ino 0 w w'" by (rule found_file_frame [OF f]) (use ok in \<open>simp add: flush_ok_def\<close>)
  have od: "old_di w' i = old_di w i" for i
  proof (cases "i = ino")
    case False
    then show ?thesis using ff(5) by (simp add: old_di_def)
  next
    case True
    then show ?thesis using f di_of_None [of w ino] di_of_None [of w' ino]
      by (auto simp: found_inode_def old_di_def split: option.splits if_splits)
  qed
  have ok': "flush_ok Map.empty w'" using ok fr fm by (simp add: flush_ok_def file_frame_def)
  have "files_inv L disk w' m fl"
    by (rule files_inv_same [OF inv ok'])
      (use fr found_inode_keeps [OF f] od ff(4) in \<open>auto simp: file_same_def file_frame_def same_blocks_def\<close>)
  then show ?thesis using fr od by (auto simp: later_def file_frame_def)
qed

lemma upd_files:
  assumes inv: "files_inv L disk w m fl" and p: "ino_ptr w ino = Some p"
    and f: "\<And>i. i_block_tree (f i) = i_block_tree i" "\<And>i. same_ptrs (i_di i) (i_di (f i))"
  shows "\<exists>w'. upd_inode p f w = Ok w' \<and> files_inv L disk w' m fl \<and> later w w' \<and> (\<forall>i. i \<noteq> ino \<longrightarrow> old_di w' i = old_di w i)"
proof -
  have ok: "flush_ok Map.empty w" using inv by (simp add: files_inv_def)
  then have fs: "fs_inv w" by (simp add: flush_ok_def)
  have dk: "di_ok (i_di i) \<Longrightarrow> di_ok (i_di (f i))" for i using f(2) [of i] by (simp add: same_ptrs_def di_ok_def)
  obtain w' i where u: "upd_inode p f w = Ok w'" "fs_inv w'" "sb w' = sb w" "os w' = os w" "inode_of w ino = Some i"
    "di_of w' = (di_of w)(ino \<mapsto> i_di (f i))" "ino_ptr w' = ino_ptr w" "same_blocks w w'" "strategy (hp w') = strategy (hp w)"
    using upd_inode_spec [OF fs p f(1) dk] by blast
  have r: "rest_same w w'" using u by (simp add: rest_same_def)
  have ok': "flush_ok Map.empty w'" using ok u(2,3) rest_same_frame(1) [OF r] by (simp add: flush_ok_def)
  have od: "same_ptrs (old_di w j) (old_di w' j)" for j
    using u(5,6) f(2) [of i] by (cases "j = ino") (simp_all add: old_di_def di_of_def)
  have "files_inv L disk w' m fl"
    by (rule files_inv_same [OF inv ok'])
      (use rest_same_keeps [OF r] od u(7,8) in \<open>simp add: file_same_def same_blocks_def\<close>)
  moreover have "later w w'" using rest_same_frame(2) [OF r] u(7) by (simp add: later_def)
  ultimately show ?thesis using u(1,6) by (auto simp: old_di_def)
qed

section \<open>Calls that write\<close>

text \<open>
  A call comes back with an error or with 0, and in the second case \<open>Q\<close> holds of the state; in between
  the geometry and the pointers to inodes stay. Such calls are chained by the test of the error.
\<close>

definition runs :: "'w world \<Rightarrow> (int \<times> 'w world) result \<Rightarrow> ('w world \<Rightarrow> bool) \<Rightarrow> bool" where
  "runs w r Q \<longleftrightarrow> gives (ran_out Map.empty w) r (\<lambda>(err, w'). later w w' \<and> (err = 0 \<longrightarrow> Q w'))"

lemma runs_ok [simp]: "runs w (Ok (err, w')) Q \<longleftrightarrow> later w w' \<and> (err = 0 \<longrightarrow> Q w')"
  by (simp add: runs_def)

lemma runs_mono: "runs w r P \<Longrightarrow> (\<And>w'. later w w' \<Longrightarrow> P w' \<Longrightarrow> Q w') \<Longrightarrow> runs w r Q"
  unfolding runs_def by (erule gives_mono) auto

lemma runs_later: "later w w1 \<Longrightarrow> runs w1 r Q \<Longrightarrow> runs w r Q"
  using later_trans [of w w1] ran_out_later [of w w1] by (cases r) (auto simp: runs_def gives_def)

lemma runs_bind:
  assumes "runs w r P" "\<And>w1. P w1 \<Longrightarrow> later w w1 \<Longrightarrow> runs w1 (f w1) Q"
  shows "runs w (and_then r (\<lambda>(err, w). if err \<noteq> 0 then Ok (err, w) else f w)) Q"
proof (cases r)
  case (Ok x)
  obtain err w1 where x: "x = (err, w1)" by (cases x)
  have l: "later w w1" using assms(1) unfolding Ok x by simp
  show ?thesis using assms(1) assms(2) [OF _ l] runs_later [OF l] unfolding Ok x by simp
qed (use assms(1) in \<open>simp_all add: runs_def gives_def\<close>)

lemma runs_find:
  assumes inv: "files_inv L disk w m fl"
    and f: "\<And>p w1. p \<noteq> 0 \<Longrightarrow> files_inv L disk w1 m fl \<Longrightarrow> old_di w1 = old_di w \<Longrightarrow> ino_ptr w1 ino = Some p \<Longrightarrow> later w w1 \<Longrightarrow>
      runs w1 (f p w1) Q"
  shows "runs w (and_then (find_or_create_inode ino w) (\<lambda>(p, w). if p = 0 then Ok (- ENOMEM, w) else f p w)) Q"
proof -
  have fs: "fs_inv w" using inv by (simp add: files_inv_def flush_ok_def)
  note g = find_inode_gives [OF fs, of ino]
  show ?thesis
  proof (cases "find_or_create_inode ino w")
    case (Ok x)
    obtain p w1 where x: "x = (p, w1)" by (cases x)
    have fi: "found_inode Map.empty w ino p w1" using g unfolding Ok x by simp
    note ff = found_files [OF inv fi]
    show ?thesis
    proof (cases "p = 0")
      case False
      have "runs w1 (f p w1) Q" by (rule f [OF False]) (use ff found_inode_frame(6) [OF fi False] in simp_all)
      then show ?thesis using runs_later ff Ok x False by auto
    qed (use ff Ok x in \<open>simp add: ENOMEM_def\<close>)
  qed (use g in \<open>simp_all add: runs_def gives_def\<close>)
qed

lemma runs_upd:
  assumes "files_inv L disk w m fl" "ino_ptr w ino = Some p"
    and "\<And>i. i_block_tree (f i) = i_block_tree i" "\<And>i. same_ptrs (i_di i) (i_di (f i))"
    and "\<And>w1. files_inv L disk w1 m fl \<Longrightarrow> later w w1 \<Longrightarrow> (\<forall>i. i \<noteq> ino \<longrightarrow> old_di w1 i = old_di w i) \<Longrightarrow> runs w1 (k w1) Q"
  shows "runs w (and_then (upd_inode p f w) k) Q"
  using upd_files [OF assms(1,2), of f] assms(3-5) runs_later by fastforce

section \<open>Writing a block and an inode\<close>

lemma file_write_runs:
  assumes L: "posix_pwrite L disk budget" "mtd_erases L disk" and inv: "files_inv L disk w m fl" and ino: "ino \<notin> fl"
    and n: "obj_len (sb w) type = Ok n" "n \<le> length buf" and b: "bix_ok bix"
  shows "runs w (logfs_file_write L ino bix 0 type buf w)
    (\<lambda>w'. (\<forall>i. i \<noteq> ino \<longrightarrow> old_di w' i = old_di w i) \<and> files_inv L disk w' (m((ino, bix) \<mapsto> object_bytes L buf n type ino bix)) fl)"
proof -
  have A: "fs_inv w" "seg_inv w" "geo_4k (sb w)" "erase_ok (sb w)" using inv by (simp_all add: files_inv_def flush_ok_def)
  have f: "file_open L disk w ino m" using inv ino by (auto simp: files_inv_def)
  then have h: "unat (di_height (old_di w ino)) < 8" by (simp add: file_open_def)
  have b63: "unat bix \<le> 2 ^ 63" using b by (simp add: bix_ok_def)
  have "gives (ran_out Map.empty w) (logfs_file_write L ino bix 0 type buf w) (\<lambda>(err, w'). erase_ok (sb w'))"
    by (rule file_write_gives [OF A(1,2) n A(3) h b63 _ L(1) A(4)]) simp
  then show ?thesis unfolding runs_def
  proof (rule gives_mono, simp)
    fix x assume r: "logfs_file_write L ino bix 0 type buf w = Ok x"
    obtain err w' where x: "x = (err, w')" by (cases x)
    have fr: "file_frame Map.empty ino 0 w w'" using file_write_spec [OF A(1,2) n A(3) h b63 r [unfolded x]] by blast
    have "files_inv L disk w' (m((ino, bix) \<mapsto> object_bytes L buf n type ino bix)) fl" if "err = 0"
      using file_write_step [OF L inv ino n b] r x that by blast
    then show "case x of (err, w') \<Rightarrow> later w w' \<and> (err = 0 \<longrightarrow> (\<forall>i. i \<noteq> ino \<longrightarrow> old_di w' i = old_di w i)
     \<and> files_inv L disk w' (m((ino, bix) \<mapsto> object_bytes L buf n type ino bix)) fl)"
      using fr x by (simp add: later_def file_frame_def old_di_def)
  qed
qed

abbreviation inode_object :: "'w lib \<Rightarrow> disk_inode \<Rightarrow> u64 \<Rightarrow> u8 list" where
  "inode_object L d ino \<equiv> object_bytes L (di_bytes d) 200 OBJ_INODE LOGFS_INO_MASTER ino"

lemma write_inode_runs:
  assumes L: "posix_pwrite L disk budget" "mtd_erases L disk" and inv: "files_inv L disk w m fl"
    and ino: "LOGFS_INO_MASTER \<notin> fl" "bix_ok ino"
  shows "runs w (write_inode L ino w) (\<lambda>w'. (\<forall>i. i \<noteq> LOGFS_INO_MASTER \<longrightarrow> old_di w' i = old_di w i)
     \<and> files_inv L disk w' (m((LOGFS_INO_MASTER, ino) \<mapsto> inode_object L (old_di w ino) ino)) fl)"
  unfolding write_inode_def
proof (rule runs_find [OF inv])
  fix p w1 assume f: "p \<noteq> 0" "files_inv L disk w1 m fl" "old_di w1 = old_di w" "ino_ptr w1 ino = Some p"
  have fs: "fs_inv w1" using f(2) by (simp add: files_inv_def flush_ok_def)
  obtain i where i: "inode_at (hp w1) p = Some i" "old_di w1 ino = i_di i" using ptr_inode [OF fs f(4)] by blast
  have "di_ok (i_di i)" using old_di_length [OF fs, of ino] i(2) by (simp add: di_ok_def abi_sizes)
  then have len: "200 \<le> length (di_bytes (i_di i))" by (simp add: length_di_bytes)
  have o: "obj_len (sb w1) OBJ_INODE = Ok 200" by (simp add: obj_len_def OBJ_INODE_def OBJ_DENTRY_def)
  show "runs w1 (and_then (lift (inode_at (hp w1) p)) (\<lambda>i. logfs_file_write L LOGFS_INO_MASTER ino 0 OBJ_INODE (di_bytes (i_di i)) w1))
      (\<lambda>w'. (\<forall>i. i \<noteq> LOGFS_INO_MASTER \<longrightarrow> old_di w' i = old_di w i)
     \<and> files_inv L disk w' (m((LOGFS_INO_MASTER, ino) \<mapsto> inode_object L (old_di w ino) ino)) fl)"
    using file_write_runs [OF L f(2) ino(1) o len ino(2)] i f(3) by simp
qed

section \<open>The segment file\<close>

abbreviation zero_object :: "'w lib \<Rightarrow> u64 \<Rightarrow> u8 list" where
  "zero_object L k \<equiv> object_bytes L (replicate 4096 0) 4096 OBJ_BLOCK LOGFS_INO_SEGFILE k"

lemma segment_file_test:
  assumes "unat ns \<le> 2 ^ 18" "unat ofs \<le> 512"
  shows "ofs * 4096 < ucast (ns :: u32) * 8 \<longleftrightarrow> unat (ofs :: u64) * 4096 < unat ns * 8"
proof -
  have "unat (ofs * 4096) = unat ofs * 4096" using assms(2) by (simp add: unat_word_ariths)
  moreover have "unat (ucast ns :: u64) = unat ns"
    using assms(1) by (simp add: unsigned_ucast_eq take_bit_nat_eq_self)
  then have "unat (ucast ns * 8 :: u64) = unat ns * 8" using assms(1) by (simp add: unat_word_ariths)
  ultimately show ?thesis by (simp add: word_less_nat_alt)
qed

text \<open>The first \<open>n\<close> blocks of the segment file are written.\<close>

definition zeros_upto :: "'w lib \<Rightarrow> nat \<Rightarrow> contents \<Rightarrow> bool" where
  "zeros_upto L n m \<longleftrightarrow> (\<forall>k. unat k < n \<longrightarrow> m (LOGFS_INO_SEGFILE, k) = Some (zero_object L k))"

definition segment_zeros :: "'w lib \<Rightarrow> u32 \<Rightarrow> contents \<Rightarrow> bool" where
  "segment_zeros L ns m \<longleftrightarrow> (\<forall>k. unat k * 4096 < unat ns * 8 \<longrightarrow> m (LOGFS_INO_SEGFILE, k) = Some (zero_object L k))"

lemma zeros_Suc:
  assumes "zeros_upto L (unat ofs) m" "unat (ofs + 1) = Suc (unat ofs)"
  shows "zeros_upto L (unat (ofs + 1)) (m((LOGFS_INO_SEGFILE, ofs) \<mapsto> zero_object L ofs))"
  unfolding zeros_upto_def
proof (intro allI impI)
  fix k :: u64 assume k: "unat k < unat (ofs + 1)"
  show "(m((LOGFS_INO_SEGFILE, ofs) \<mapsto> zero_object L ofs)) (LOGFS_INO_SEGFILE, k) = Some (zero_object L k)"
  proof (cases "k = ofs")
    case False
    then have "unat k \<noteq> unat ofs" by (simp add: word_unat_eq_iff)
    then show ?thesis using assms k False by (simp add: zeros_upto_def)
  qed simp
qed

lemma segment_file_loop_runs:
  assumes L: "posix_pwrite L disk budget" "mtd_erases L disk" and fl: "LOGFS_INO_SEGFILE \<notin> fl" and ns: "unat ns \<le> 2 ^ 18"
  shows "files_inv L disk w m fl \<Longrightarrow> sb_no_segs (sb w) = ns \<Longrightarrow> unat ofs \<le> 512 \<Longrightarrow> zeros_upto L (unat ofs) m \<Longrightarrow>
     \<exists>r. segment_file_loop L (replicate 4096 0) ofs w = Some r
       \<and> runs w r (\<lambda>w'. \<exists>m'. files_inv L disk w' m' fl \<and> segment_zeros L ns m')"
proof (induction "512 - unat ofs" arbitrary: ofs w m rule: less_induct)
  case less
  let ?Q = "\<lambda>w'. \<exists>m'. files_inv L disk w' m' fl \<and> segment_zeros L ns m'"
  have ok: "geo_4k (sb w)" using less.prems(1) by (simp add: files_inv_def flush_ok_def)
  have bs: "sb_blocksize (sb w) = 4096" "obj_len (sb w) OBJ_BLOCK = Ok 4096" using ok obj_len_4k [OF ok] by (simp_all add: geo_4k_def)
  have test: "ofs * ucast (sb_blocksize (sb w)) < ucast (sb_no_segs (sb w)) * 8 \<longleftrightarrow> unat ofs * 4096 < unat ns * 8"
    using segment_file_test [OF ns less.prems(3)] bs(1) less.prems(2) by simp
  show ?case
  proof (cases "unat ofs * 4096 < unat ns * 8")
    case False
    have "segment_file_loop L (replicate 4096 0) ofs w = Some (Ok (0, w))"
      using False test by (subst segment_file_loop.simps) simp
    moreover have "segment_zeros L ns m" using False less.prems(4) by (simp add: segment_zeros_def zeros_upto_def)
    ultimately show ?thesis using less.prems(1) by (intro exI [of _ "Ok (0, w)"]) auto
  next
    case True
    then have o: "unat ofs < 512" using ns by simp
    then have bo: "bix_ok ofs" by (simp add: bix_ok_def)
    let ?m = "m((LOGFS_INO_SEGFILE, ofs) \<mapsto> zero_object L ofs)"
    let ?r = "logfs_file_write L LOGFS_INO_SEGFILE ofs 0 OBJ_BLOCK (replicate 4096 0) w"
    have wr: "runs w ?r (\<lambda>w'. (\<forall>i. i \<noteq> LOGFS_INO_SEGFILE \<longrightarrow> old_di w' i = old_di w i) \<and> files_inv L disk w' ?m fl)"
      by (rule file_write_runs [OF L less.prems(1) fl bs(2) _ bo]) simp
    have run: "segment_file_loop L (replicate 4096 0) ofs w = (case ?r of Exit m \<Rightarrow> Some (Exit m) | Stuck \<Rightarrow> Some Stuck
        | Ok r \<Rightarrow> if fst r \<noteq> 0 then Some (Ok r) else segment_file_loop L (replicate 4096 0) (ofs + 1) (snd r))"
      using True test by (subst segment_file_loop.simps) simp
    show ?thesis
    proof (cases ?r)
      case (Ok x)
      obtain err w1 where x: "x = (err, w1)" by (cases x)
      have s: "later w w1" "err = 0 \<longrightarrow> files_inv L disk w1 ?m fl" using wr unfolding Ok x by simp_all
      show ?thesis
      proof (cases "err = 0")
        case z: True
        have su: "unat (ofs + 1) = Suc (unat ofs)" using o by (simp add: unat_word_ariths)
        have i: "files_inv L disk w1 ?m fl" "512 - unat (ofs + 1) < 512 - unat ofs" "unat (ofs + 1) \<le> 512" "sb_no_segs (sb w1) = ns"
          using s z o su less.prems(2) by (simp_all add: later_def same_geo_def)
        obtain r where "segment_file_loop L (replicate 4096 0) (ofs + 1) w1 = Some r" "runs w1 r ?Q"
          using less.hyps [OF i(2,1,4,3) zeros_Suc [OF less.prems(4) su]] by blast
        then show ?thesis using run Ok x z runs_later [OF s(1)] by auto
      qed (use run Ok x s in auto)
    qed (use run wr in \<open>simp_all add: runs_def gives_def\<close>)
  qed
qed

lemma flush_runs:
  assumes L: "posix_pwrite L disk budget" "mtd_erases L disk" and inv: "files_inv L disk w m fl" and ino: "ino \<notin> fl"
    and p: "ino_ptr w ino \<noteq> None"
  shows "runs w (logfs_file_flush L ino w) (\<lambda>w'. files_inv L disk w' m (insert ino fl))"
proof -
  have ok: "flush_ok Map.empty w" using inv by (simp add: files_inv_def)
  have f: "file_open L disk w ino m" using inv ino by (auto simp: files_inv_def)
  then have fl: "flushable Map.empty w ino" using ok p by (simp add: flushable_def file_open_def)
  show ?thesis unfolding runs_def
    by (rule gives_mono [OF file_flush_gives [OF L fl, unfolded flushes_def]])
      (use file_flush_step [OF L inv ino p] in \<open>auto simp: later_def flush_step_frame_def\<close>)
qed

text \<open>What is known of the files once the segment file is written.\<close>

definition segment_file_done :: "'w lib \<Rightarrow> ('w \<Rightarrow> nat \<Rightarrow> u8) \<Rightarrow> u32 \<Rightarrow> contents \<Rightarrow> 'w world \<Rightarrow> bool" where
  "segment_file_done L disk ns m w \<longleftrightarrow> files_inv L disk w m {LOGFS_INO_SEGFILE} \<and> segment_zeros L ns m
     \<and> m (LOGFS_INO_MASTER, LOGFS_INO_SEGFILE) = Some (inode_object L (old_di w LOGFS_INO_SEGFILE) LOGFS_INO_SEGFILE)"

lemma ino_numbers [simp]: "LOGFS_INO_MASTER \<noteq> LOGFS_INO_SEGFILE" "LOGFS_INO_ROOT \<noteq> LOGFS_INO_SEGFILE"
  "LOGFS_INO_MASTER \<noteq> LOGFS_INO_ROOT" "LOGFS_INO_SEGFILE \<noteq> LOGFS_INO_MASTER" "LOGFS_INO_ROOT \<noteq> LOGFS_INO_MASTER"
  "LOGFS_INO_SEGFILE \<noteq> LOGFS_INO_ROOT" "bix_ok LOGFS_INO_SEGFILE" "bix_ok LOGFS_INO_ROOT"
  by (simp_all add: LOGFS_INO_MASTER_def LOGFS_INO_ROOT_def LOGFS_INO_SEGFILE_def bix_ok_def)

lemma segment_file_end:
  assumes L: "posix_pwrite L disk budget" "mtd_erases L disk" and inv: "files_inv L disk w m {}"
    and p: "ino_ptr w LOGFS_INO_SEGFILE \<noteq> None" and m: "segment_zeros L ns m"
  shows "runs w (and_then (logfs_file_flush L LOGFS_INO_SEGFILE w) (\<lambda>(err, w).
       if err \<noteq> 0 then Ok (err, w) else write_inode L LOGFS_INO_SEGFILE w)) (\<lambda>w'. \<exists>m'. segment_file_done L disk ns m' w')"
proof (rule runs_bind [OF flush_runs [OF L inv _ p]])
  let ?S = LOGFS_INO_SEGFILE
  fix w1 assume f: "files_inv L disk w1 m {?S}"
  let ?m = "m((LOGFS_INO_MASTER, ?S) \<mapsto> inode_object L (old_di w1 ?S) ?S)"
  have "runs w1 (write_inode L ?S w1) (\<lambda>w'. (\<forall>i. i \<noteq> LOGFS_INO_MASTER \<longrightarrow> old_di w' i = old_di w1 i) \<and> files_inv L disk w' ?m {?S})"
    by (rule write_inode_runs [OF L f]) simp_all
  then show "runs w1 (write_inode L ?S w1) (\<lambda>w'. \<exists>m'. segment_file_done L disk ns m' w')"
  proof (rule runs_mono)
    fix w2 assume "(\<forall>i. i \<noteq> LOGFS_INO_MASTER \<longrightarrow> old_di w2 i = old_di w1 i) \<and> files_inv L disk w2 ?m {?S}"
    then have "segment_file_done L disk ns ?m w2" using m by (simp add: segment_file_done_def segment_zeros_def)
    then show "\<exists>m'. segment_file_done L disk ns m' w2" by blast
  qed
qed simp

lemma write_segment_file_runs:
  assumes L: "posix_pwrite L disk budget" "mtd_erases L disk" and inv: "files_inv L disk w Map.empty {}"
    and ns: "unat (sb_no_segs (sb w)) \<le> 2 ^ 18"
  shows "runs w (write_segment_file L w) (\<lambda>w'. \<exists>m. segment_file_done L disk (sb_no_segs (sb w)) m w')"
proof (cases "fst (malloc_buf (hp w))")
  case False
  have "ran_out Map.empty w"
    by (rule ran_outI) (use inv False in \<open>simp_all add: files_inv_def flush_ok_def malloc_null_def malloc_buf_def\<close>)
  then show ?thesis using False by (simp add: write_segment_file_def split_beta runs_def)
next
  case True
  let ?ns = "sb_no_segs (sb w)" and ?Q = "\<lambda>w'. \<exists>m. segment_file_done L disk (sb_no_segs (sb w)) m w'"
  define w0 where "w0 = w\<lparr>hp := (hp w)\<lparr>ticks := Suc (ticks (hp w))\<rparr>\<rparr>"
  have w0: "files_inv L disk w0 Map.empty {}" "later w w0" "sb_blocksize (sb w0) = 4096"
    using malloc_files [OF inv, of "Suc (ticks (hp w))"] inv by (simp_all add: w0_def files_inv_def flush_ok_def geo_4k_def)
  have "runs w0 (and_then (find_or_create_inode LOGFS_INO_SEGFILE w0) (\<lambda>(inode, w).
      if inode = 0 then Ok (- ENOMEM, w)
      else and_then (upd_inode inode (\<lambda>i. i\<lparr>i_di := (i_di i)\<lparr>di_flags := 0,
               di_mode := cpu_to_be16 S_IFREG, di_refcount := cpu_to_be32 1,
               di_size := cpu_to_be64 (ucast (sb_no_segs (sb w)) * 8)\<rparr>\<rparr>) w) (\<lambda>w.
           and_then (case segment_file_loop L (replicate 4096 0) 0 w of None \<Rightarrow> Stuck | Some r \<Rightarrow> r) (\<lambda>(err, w).
             if err \<noteq> 0 then Ok (err, w)
             else and_then (logfs_file_flush L LOGFS_INO_SEGFILE w) (\<lambda>(err, w).
                  if err \<noteq> 0 then Ok (err, w) else write_inode L LOGFS_INO_SEGFILE w))))) ?Q"
  proof (rule runs_find [OF w0(1)], rule runs_upd, assumption, assumption)
    fix p w1 w2 assume "ino_ptr w1 LOGFS_INO_SEGFILE = Some p" "later w0 w1" "later w1 w2" and i: "files_inv L disk w2 Map.empty {}"
    then have n: "sb_no_segs (sb w2) = ?ns" "ino_ptr w2 LOGFS_INO_SEGFILE = Some p"
      using w0(2) by (simp_all add: later_def same_geo_def)
    obtain r where r: "segment_file_loop L (replicate 4096 0) 0 w2 = Some r"
      "runs w2 r (\<lambda>w'. \<exists>m'. files_inv L disk w' m' {} \<and> segment_zeros L ?ns m')"
      using segment_file_loop_runs [OF L _ ns i n(1), of 0] by (auto simp: zeros_upto_def)
    show "runs w2 (and_then (case segment_file_loop L (replicate 4096 0) 0 w2 of None \<Rightarrow> Stuck | Some r \<Rightarrow> r) (\<lambda>(err, w).
             if err \<noteq> 0 then Ok (err, w)
             else and_then (logfs_file_flush L LOGFS_INO_SEGFILE w) (\<lambda>(err, w).
                  if err \<noteq> 0 then Ok (err, w) else write_inode L LOGFS_INO_SEGFILE w))) ?Q"
      unfolding r(1) option.case
    proof (rule runs_bind [OF r(2)])
      fix w3 assume a: "\<exists>m'. files_inv L disk w3 m' {} \<and> segment_zeros L ?ns m'" and l: "later w2 w3"
      obtain m' where m': "files_inv L disk w3 m' {}" "segment_zeros L ?ns m'" using a by blast
      have "ino_ptr w3 LOGFS_INO_SEGFILE \<noteq> None" using l n(2) by (simp add: later_def)
      then show "runs w3 (and_then (logfs_file_flush L LOGFS_INO_SEGFILE w3) (\<lambda>(err, w).
          if err \<noteq> 0 then Ok (err, w) else write_inode L LOGFS_INO_SEGFILE w)) ?Q" by (rule segment_file_end [OF L m'(1) _ m'(2)])
    qed
  qed (simp_all add: same_ptrs_def)
  then have "runs w0 (write_segment_file L w) ?Q" unfolding write_segment_file_def using True w0(3)
    by (simp add: malloc_buf_def Let_def w0_def)
  then show ?thesis by (rule runs_later [OF w0(2)])
qed

section \<open>The root directory\<close>

text \<open>What is known once the root directory is written, too.\<close>

definition root_done :: "'w lib \<Rightarrow> ('w \<Rightarrow> nat \<Rightarrow> u8) \<Rightarrow> u32 \<Rightarrow> contents \<Rightarrow> 'w world \<Rightarrow> bool" where
  "root_done L disk ns m w \<longleftrightarrow> segment_file_done L disk ns m w
     \<and> m (LOGFS_INO_MASTER, LOGFS_INO_ROOT) = Some (inode_object L (old_di w LOGFS_INO_ROOT) LOGFS_INO_ROOT)"

lemma write_rootdir_runs:
  assumes L: "posix_pwrite L disk budget" "mtd_erases L disk" and sf: "segment_file_done L disk ns m w"
  shows "runs w (write_rootdir L g w) (\<lambda>w'. \<exists>m. root_done L disk ns m w')"
  unfolding write_rootdir_def
proof (rule runs_find)
  let ?R = LOGFS_INO_ROOT and ?S = LOGFS_INO_SEGFILE and ?M = LOGFS_INO_MASTER
  show "files_inv L disk w m {?S}" using sf by (simp add: segment_file_done_def)
  fix p w1 assume a: "files_inv L disk w1 m {?S}" "old_di w1 = old_di w" "ino_ptr w1 ?R = Some p"
  show "runs w1 (and_then (upd_inode p (\<lambda>i. i\<lparr>i_di := (i_di i)\<lparr>
                di_flags := (if g_compress_rootdir g then cpu_to_be32 LOGFS_IF_COMPRESSED else 0),
                di_mode := cpu_to_be16 (S_IFDIR OR 0x1ED), di_refcount := cpu_to_be32 1\<rparr>\<rparr>) w1)
        (\<lambda>w. write_inode L ?R w)) (\<lambda>w'. \<exists>m. root_done L disk ns m w')"
  proof (rule runs_upd [OF a(1,3)])
    fix w2 assume u: "files_inv L disk w2 m {?S}" "\<forall>i. i \<noteq> ?R \<longrightarrow> old_di w2 i = old_di w1 i"
    let ?m = "m((?M, ?R) \<mapsto> inode_object L (old_di w2 ?R) ?R)"
    have "runs w2 (write_inode L ?R w2) (\<lambda>w'. (\<forall>i. i \<noteq> ?M \<longrightarrow> old_di w' i = old_di w2 i) \<and> files_inv L disk w' ?m {?S})"
      by (rule write_inode_runs [OF L u(1)]) simp_all
    then show "runs w2 (write_inode L ?R w2) (\<lambda>w'. \<exists>m. root_done L disk ns m w')"
    proof (rule runs_mono)
      fix w3 assume "(\<forall>i. i \<noteq> ?M \<longrightarrow> old_di w3 i = old_di w2 i) \<and> files_inv L disk w3 ?m {?S}"
      then have "root_done L disk ns ?m w3"
        using u(2) a(2) sf by (simp add: root_done_def segment_file_done_def segment_zeros_def)
      then show "\<exists>m. root_done L disk ns m w3" by blast
    qed
  qed (simp_all add: same_ptrs_def)
qed

section \<open>From the segment file to the device\<close>

text \<open>The three calls of \<open>mkfs\<close> behind \<open>prepare_journal\<close>.\<close>

definition write_files :: "'w lib \<Rightarrow> globals \<Rightarrow> 'w world \<Rightarrow> 'w world result" where
  "write_files L g w =
     and_then (check ''could not write segment file'' (write_segment_file L w)) (\<lambda>w.
     and_then (check ''could not create root inode'' (write_rootdir L g w)) (\<lambda>w.
       check ''could not write segments'' (flush_segments L w)))"

lemma and_then_assoc: "and_then (and_then r f) k = and_then r (\<lambda>x. and_then (f x) k)"
  by (cases r) simp_all

lemma write_fs_files:
  "write_fs L g w =
     and_then (check ''could not erase two superblocks'' (prepare_sb L w)) (\<lambda>w.
     and_then (prepare_journal L g w) (\<lambda>w.
     and_then (write_files L g w) (\<lambda>w.
     and_then (check_g ''could not create journal'' (make_journal L g w)) (\<lambda>(g, w).
       check_g ''could not create superblock'' (make_super L g w)))))"
  by (simp add: write_fs_def write_files_def and_then_assoc)

text \<open>The ways such a sequence of calls ends: with a result, with one of the messages \<open>ms\<close>, or not at all.\<close>

definition ends :: "bool \<Rightarrow> string set \<Rightarrow> 'a result \<Rightarrow> ('a \<Rightarrow> bool) \<Rightarrow> bool" where
  "ends B ms r Q \<longleftrightarrow> (case r of Ok x \<Rightarrow> Q x | Exit m \<Rightarrow> m \<in> ms | Stuck \<Rightarrow> B)"

lemma ends_and_then:
  "ends B ms r P \<Longrightarrow> (\<And>x. P x \<Longrightarrow> ends B ms (f x) Q) \<Longrightarrow> ends B ms (and_then r f) Q"
  by (cases r) (simp_all add: ends_def)

lemma ends_check:
  "gives B r (\<lambda>(err, w). err = 0 \<longrightarrow> Q w) \<Longrightarrow> {''no more free segments'', ''out of memory'', msg} \<subseteq> ms \<Longrightarrow>
     ends B ms (check msg r) Q"
  by (cases r) (auto simp: ends_def gives_def check_def fail_def)

lemma ends_runs:
  assumes "runs w r P" "\<And>w1. later w w1 \<Longrightarrow> P w1 \<Longrightarrow> ends (ran_out Map.empty w) ms (f w1) Q"
    "{''no more free segments'', ''out of memory'', msg} \<subseteq> ms"
  shows "ends (ran_out Map.empty w) ms (and_then (check msg r) f) Q"
  by (rule ends_and_then [where P = "\<lambda>w1. later w w1 \<and> P w1", OF ends_check])
    (use assms in \<open>auto simp: runs_def elim: gives_mono\<close>)

text \<open>What a reader of the device finds, from the master inode on.\<close>

definition formatted :: "'w lib \<Rightarrow> (nat \<Rightarrow> u8) \<Rightarrow> u32 \<Rightarrow> (u64 \<Rightarrow> disk_inode) \<Rightarrow> bool" where
  "formatted L d ns di \<longleftrightarrow>
     readable L d (di LOGFS_INO_MASTER) LOGFS_INO_MASTER LOGFS_INO_SEGFILE
       (inode_object L (di LOGFS_INO_SEGFILE) LOGFS_INO_SEGFILE)
   \<and> readable L d (di LOGFS_INO_MASTER) LOGFS_INO_MASTER LOGFS_INO_ROOT
       (inode_object L (di LOGFS_INO_ROOT) LOGFS_INO_ROOT)
   \<and> (\<forall>k. unat k * 4096 < unat ns * 8 \<longrightarrow>
        readable L d (di LOGFS_INO_SEGFILE) LOGFS_INO_SEGFILE k (zero_object L k))"

lemma closed_readable:
  assumes "block_closed L disk w ino bix obj" "obj \<noteq> []" "seg_inv w" "posix_pwrite L disk budget" "below_4g (sb w)"
    "flush_segments L w = Ok (0, w')"
  shows "readable L (disk (os w')) (old_di w ino) ino bix obj"
  using assms(1) reach_device [OF assms(3,4,5,6,2), of ino bix 0] reach_device [OF assms(3,4,5,6,2), of ino bix]
  by (auto simp: block_closed_def readable_def)

lemma object_bytes_ne [simp]: "object_bytes L buf n type ino bix \<noteq> []"
  by (simp add: object_bytes_def oh_bytes_def)

lemma root_done_formatted:
  assumes L: "posix_pwrite L disk budget" and r: "root_done L disk ns m w" and b: "below_4g (sb w)"
    and f: "flush_segments L w = Ok (0, w')"
  shows "formatted L (disk (os w')) ns (old_di w)"
proof -
  have inv: "files_inv L disk w m {LOGFS_INO_SEGFILE}" using r by (simp add: root_done_def segment_file_done_def)
  then have s: "seg_inv w" by (simp add: files_inv_def flush_ok_def)
  have M: "file_open L disk w LOGFS_INO_MASTER m" using inv by (simp add: files_inv_def)
  have S: "file_closed L disk w LOGFS_INO_SEGFILE m" using inv by (simp add: files_inv_def)
  have mc: "block_closed L disk w LOGFS_INO_MASTER ino obj" if "m (LOGFS_INO_MASTER, ino) = Some obj" "unat ino < 16" for ino obj
    using M that by (simp add: file_open_def block_open_def block_closed_def abi_sizes)
  have u: "unat LOGFS_INO_SEGFILE < 16" "unat LOGFS_INO_ROOT < 16" by (simp_all add: LOGFS_INO_SEGFILE_def LOGFS_INO_ROOT_def)
  note rd = closed_readable [OF _ object_bytes_ne s L b f]
  note mm = r [unfolded root_done_def segment_file_done_def segment_zeros_def]
  show ?thesis unfolding formatted_def
  proof (intro conjI allI impI)
    fix k :: u64 assume "unat k * 4096 < unat ns * 8"
    then have "m (LOGFS_INO_SEGFILE, k) = Some (zero_object L k)" using mm by blast
    then show "readable L (disk (os w')) (old_di w LOGFS_INO_SEGFILE) LOGFS_INO_SEGFILE k (zero_object L k)"
      using S by (intro rd) (simp add: file_closed_def)
  qed (use mm in \<open>blast intro: rd mc u\<close>)+
qed

lemma flush_segments_files:
  assumes L: "posix_pwrite L disk budget" and inv: "seg_inv w" "fs_inv w"
  shows "gives False (flush_segments L w) (\<lambda>(err, w'). fs_inv w' \<and> old_di w' = old_di w)"
proof -
  obtain err w' where f: "flush_segments L w = Ok (err, w')" "seg_frame w w'"
    using flush_loop_spec [OF L inv(1), of 0 LOGFS_NO_AREAS] by (auto simp: flush_segments_def flush_frame_def)
  have "fs_inv w'" "same_files w w'" using frame_files [OF inv(2) f(2)] by blast+
  then show ?thesis using f(1) by (simp add: same_files_def old_di_def fun_eq_iff)
qed

lemma flushed_formatted:
  assumes L: "posix_pwrite L disk budget" and r: "later w w2 \<and> (\<exists>m. root_done L disk ns m w2)" and b: "below_4g (sb w)"
    and ms: "{''no more free segments'', ''out of memory'', ''could not write segments''} \<subseteq> ms"
  shows "ends B ms (check ''could not write segments'' (flush_segments L w2)) (\<lambda>w'. fs_inv w' \<and> formatted L (disk (os w')) ns (old_di w'))"
proof (rule ends_check [OF _ ms])
  obtain m where m: "root_done L disk ns m w2" using r by blast
  then have "files_inv L disk w2 m {LOGFS_INO_SEGFILE}" by (simp add: root_done_def segment_file_done_def)
  then have inv: "seg_inv w2" "fs_inv w2" by (simp_all add: files_inv_def flush_ok_def)
  have b2: "below_4g (sb w2)" using r b by (simp add: later_def below_4g_def same_geo_def seg_ofs_def)
  show "gives B (flush_segments L w2) (\<lambda>(err, w'). err = 0 \<longrightarrow> fs_inv w' \<and> formatted L (disk (os w')) ns (old_di w'))"
    by (rule gives_mono [OF flush_segments_files [OF L inv]]) (use root_done_formatted [OF L m b2] in auto)
qed

text \<open>
  The three calls come back, with one of their messages where they fail, unless \<open>malloc\<close> returns NULL.
\<close>

lemma files_are_formatted:
  assumes "posix_pwrite L disk budget" "mtd_erases L disk" "fs_inv w" "seg_inv w" "geo_4k (sb w)" "erase_ok (sb w)"
    "below_4g (sb w)" "\<And>ino. ino_ptr w ino = None" "unat (sb_no_segs (sb w)) \<le> 2 ^ 18"
  shows "case write_files L g w of
      Ok w' \<Rightarrow> fs_inv w' \<and> formatted L (disk (os w')) (sb_no_segs (sb w)) (old_di w')
    | Exit msg \<Rightarrow> msg \<in> {''no more free segments'', ''out of memory'', ''could not write segment file'',
        ''could not create root inode'', ''could not write segments''}
    | Stuck \<Rightarrow> ran_out Map.empty w"
proof -
  let ?ns = "sb_no_segs (sb w)"
  let ?ms = "{''no more free segments'', ''out of memory'', ''could not write segment file'',
        ''could not create root inode'', ''could not write segments''}"
  let ?Q = "\<lambda>w'. fs_inv w' \<and> formatted L (disk (os w')) ?ns (old_di w')"
  have inv: "files_inv L disk w Map.empty {}" by (rule files_inv_fresh [OF assms(3-6,8)])
  have "ends (ran_out Map.empty w) ?ms (write_files L g w) ?Q" unfolding write_files_def
  proof (rule ends_runs [OF write_segment_file_runs [OF assms(1,2) inv assms(9)]])
    fix w1 assume "later w w1" and "\<exists>m. segment_file_done L disk ?ns m w1"
    then obtain m where m: "segment_file_done L disk ?ns m w1" by blast
    show "ends (ran_out Map.empty w) ?ms (and_then (check ''could not create root inode'' (write_rootdir L g w1))
        (\<lambda>w. check ''could not write segments'' (flush_segments L w))) ?Q"
    proof (rule ends_runs [OF runs_later [OF \<open>later w w1\<close> write_rootdir_runs [OF assms(1,2) m]]])
      fix w2 assume "later w w2" "\<exists>m. root_done L disk ?ns m w2"
      then show "ends (ran_out Map.empty w) ?ms (check ''could not write segments'' (flush_segments L w2)) ?Q"
        by (intro flushed_formatted [OF assms(1) _ assms(7)]) simp_all
    qed simp
  qed simp
  then show ?thesis by (simp add: ends_def split: result.splits)
qed

end
