(* ===== verification/Mklogfs.thy ===== *)
theory Mklogfs
  imports Main Mkfs
begin

text \<open>
  mkfs.c: opening the device, the command line and \<open>main\<close>. The rest of the operating system and
  of the C library that is called here is a record of parameters.
\<close>

section \<open>What the program is told by the system\<close>

record stat_result =
  st_mode :: u32
  st_rdev_major :: u32
  st_size :: u64

record mtd_info =
  mtd_size :: u32
  mtd_erasesize :: u32
  mtd_writesize :: u32

text \<open>
  \<open>open\<close>, \<open>fstat\<close>, the two \<open>ioctl\<close>s, \<open>basename\<close>, \<open>strtoul\<close> with base 0, \<open>fsync\<close>. \<open>sys_number\<close> opens a file
  to read a number: \<^term>\<open>None\<close> where it cannot be opened, otherwise what \<open>strtoull\<close> makes of it.
\<close>

record 'w host =
  sys_open :: "string \<Rightarrow> 'w \<Rightarrow> int \<times> 'w"
  sys_fstat :: "int \<Rightarrow> 'w \<Rightarrow> int \<times> stat_result \<times> 'w"
  sys_memgetinfo :: "int \<Rightarrow> 'w \<Rightarrow> int \<times> mtd_info \<times> 'w"
  sys_blkgetsize64 :: "int \<Rightarrow> 'w \<Rightarrow> int \<times> u64 \<times> 'w"
  sys_number :: "string \<Rightarrow> 'w \<Rightarrow> u64 option \<times> 'w"
  sys_fsync :: "int \<Rightarrow> 'w \<Rightarrow> 'w"
  c_basename :: "string \<Rightarrow> string"
  c_strtoul :: "string \<Rightarrow> u64"

section \<open>Opening the device\<close>

definition S_IFMT :: u32 where "S_IFMT = 0xF000"
definition S_IFSOCK :: u32 where "S_IFSOCK = 0xC000"
definition S_IFLNK :: u32 where "S_IFLNK = 0xA000"
definition S_IFBLK :: u32 where "S_IFBLK = 0x6000"
definition S_IFCHR :: u32 where "S_IFCHR = 0x2000"
definition S_IFIFO :: u32 where "S_IFIFO = 0x1000"

text \<open>\<open>ffs\<close>: one more than the index of the lowest bit that is set, 0 if there is none.\<close>

definition ffs :: "u32 \<Rightarrow> nat" where
  "ffs x = (case find (bit x) [0..<32] of None \<Rightarrow> 0 | Some n \<Rightarrow> Suc n)"

text \<open>\<open>shift = ffs(x) - 1\<close> in a \<open>u8\<close>, and the comparison of \<open>x\<close> with \<open>1 << shift\<close>.\<close>

definition shift_of :: "u32 \<Rightarrow> u8" where
  "shift_of x = of_nat (ffs x) - 1"

definition power_of_2 :: "string \<Rightarrow> u32 \<Rightarrow> unit result" where
  "power_of_2 msg x =
     (if shift_of x \<ge> 31 then Stuck
      else if x \<noteq> push_bit (unat (shift_of x)) 1 then fail msg
      else Ok ())"

definition zero_area :: area where
  "zero_area = \<lparr>a_segno = 0, a_used_bytes = 0, a_buf = None\<rparr>"

definition zero_sb :: super_block where
  "zero_sb = \<lparr>sb_fd = 0, sb_fssize = 0, sb_segsize = 0, sb_erasesize = 0, sb_blocksize = 0, sb_blocksize_bits = 0,
     sb_writesize = 0, sb_no_segs = 0, sb_journal_seg = replicate LOGFS_JOURNAL_SEGS 0, sb_used_bytes = 0,
     sb_lastseg = 0, sb_area = replicate LOGFS_NO_AREAS zero_area, sb_segment_entry = [], sb_erase_buf = None,
     sb_ofs1 = 0, sb_ofs2 = 0, sb_ino_tree = btree_init, sb_dev_ops = Bdev_ops\<rparr>"

text \<open>The case of a character device; the size is read from sysfs where that is possible.\<close>

definition open_mtd :: "'w host \<Rightarrow> string \<Rightarrow> stat_result \<Rightarrow> globals \<Rightarrow> 'w world \<Rightarrow> (globals \<times> 'w world) result" where
  "open_mtd H name info g w =
     (if st_rdev_major info \<noteq> 90 then fail ''non-mtd character device''
      else case sys_memgetinfo H (sb_fd (sb w)) (os w) of (err, mtd, s) \<Rightarrow>
        if err \<noteq> 0 then fail ''mtd ioctl failed''
        else and_then (power_of_2 ''device erasesize must be a power of 2'' (mtd_erasesize mtd)) (\<lambda>_.
             and_then (power_of_2 ''device writesize must be a power of 2'' (mtd_writesize mtd)) (\<lambda>_.
               let path = ''/sys/class/mtd/'' @ c_basename H name @ ''/size'' in
               if length path \<ge> 256 then Stuck
               else case sys_number H path s of (num, s) \<Rightarrow>
                 Ok (g\<lparr>g_segshift := shift_of (mtd_erasesize mtd), g_writeshift := shift_of (mtd_writesize mtd)\<rparr>,
                     w\<lparr>os := s, sb := (sb w)\<lparr>sb_erasesize := mtd_erasesize mtd, sb_dev_ops := Mtd_ops,
                       sb_fssize := (case num of None \<Rightarrow> ucast (mtd_size mtd) | Some n \<Rightarrow> n)\<rparr>\<rparr>))))"

definition open_device :: "'w host \<Rightarrow> string \<Rightarrow> globals \<Rightarrow> fsheap \<Rightarrow> 'w \<Rightarrow> (globals \<times> 'w world) result" where
  "open_device H name g h s =
     (let (ok, h) = malloc_buf h in
      if \<not> ok then Stuck
      else case sys_open H name s of (fd, s) \<Rightarrow>
        if fd = - 1 then fail ''could not open device''
        else case sys_fstat H fd s of (err, info, s) \<Rightarrow>
          if err \<noteq> 0 then fail ''could not stat device''
          else let w = \<lparr>sb = zero_sb\<lparr>sb_fd := fd\<rparr>, hp = h, os = s\<rparr>; fmt = st_mode info AND S_IFMT in
            if fmt = S_IFSOCK \<or> fmt = S_IFLNK \<or> fmt = ucast S_IFDIR \<or> fmt = S_IFIFO then fail ''wrong device type''
            else if fmt = S_IFCHR then open_mtd H name info g w
            else if fmt = ucast S_IFREG then Ok (g, w\<lparr>sb := (sb w)\<lparr>sb_fssize := st_size info\<rparr>\<rparr>)
            else if fmt = S_IFBLK then
              (case sys_blkgetsize64 H fd s of (err, n, s) \<Rightarrow>
                 if err \<noteq> 0 then fail ''block ioctl failed''
                 else Ok (g, w\<lparr>os := s, sb := (sb w)\<lparr>sb_fssize := n\<rparr>\<rparr>))
            else Ok (g, w))"

section \<open>The command line\<close>

text \<open>The tables given to \<open>getopt_long\<close>: the characters it can return, beside the question mark.\<close>

definition short_opts :: string where
  "short_opts = ''chs:w:''"

definition long_opts :: "(string \<times> bool \<times> char) list" where
  "long_opts = [(''bad-segment-reserve'', True, CHR ''B''), (''compress'', False, CHR ''c''),
     (''journal-segments'', True, CHR ''j''), (''help'', False, CHR ''h''), (''non-interactive'', False, CHR ''n''),
     (''demo-mode'', False, CHR ''q''), (''segshift'', True, CHR ''s''), (''writeshift'', True, CHR ''w'')]"

text \<open>\<open>usage\<close> and \<open>exit\<close>, with the status.\<close>

definition usage_exit :: "nat \<Rightarrow> 'a result" where
  "usage_exit status = Exit (if status = 0 then ''EXIT_SUCCESS'' else ''EXIT_FAILURE'')"

definition handle_option :: "'w host \<Rightarrow> char \<Rightarrow> string \<Rightarrow> globals \<Rightarrow> globals result" where
  "handle_option H c arg g =
     (let n = ucast (c_strtoul H arg) :: u32 in
      if c = CHR ''b'' then Ok (g\<lparr>g_user_blockshift := n\<rparr>)
      else if c = CHR ''B'' then Ok (g\<lparr>g_bad_seg_reserve := n\<rparr>)
      else if c = CHR ''c'' then Ok (g\<lparr>g_compress_rootdir := True\<rparr>)
      else if c = CHR ''j'' then Ok (g\<lparr>g_no_journal_segs := n\<rparr>)
      else if c = CHR ''h'' then usage_exit 0
      else if c = CHR ''n'' then Ok (g\<lparr>g_interactice_mode := False\<rparr>)
      else if c = CHR ''q'' then Ok (g\<lparr>g_quick_bad_block_scan := True\<rparr>)
      else if c = CHR ''s'' then Ok (g\<lparr>g_user_segshift := n\<rparr>)
      else if c = CHR ''w'' then Ok (g\<lparr>g_user_writeshift := n\<rparr>)
      else usage_exit 1)"

text \<open>What \<open>getopt_long\<close> returns until -1: a character and \<open>optarg\<close> each.\<close>

primrec handle_options :: "'w host \<Rightarrow> (char \<times> string) list \<Rightarrow> globals \<Rightarrow> globals result" where
  "handle_options H [] g = Ok g"
| "handle_options H (x # opts) g = and_then (handle_option H (fst x) (snd x) g) (handle_options H opts)"

text \<open>\<open>args\<close> is what is left of the command line behind the options; \<open>inp\<close> the words typed.\<close>

definition mklogfs :: "'w lib \<Rightarrow> 'w host \<Rightarrow> (char \<times> string) list \<Rightarrow> string list \<Rightarrow> string list \<Rightarrow> fsheap \<Rightarrow> 'w \<Rightarrow>
    (globals \<times> 'w world) result" where
  "mklogfs L H opts args inp h s =
     and_then (check_crc32 L) (\<lambda>_.
     and_then (handle_options H opts initial_globals) (\<lambda>g.
       case args of
         [name] \<Rightarrow> and_then (open_device H name g h s) (\<lambda>(g, w). mkfs L (sys_fsync H) inp g w)
       | _ \<Rightarrow> usage_exit 1))"

end
