(* ===== verification/Geometry.thy ===== *)
theory Geometry
  imports Main Journal_Read Mklogfs
begin

text \<open>The geometry \<open>mkfs\<close> accepts and computes, what \<open>__open_device\<close> finds out, and the command line.\<close>

section \<open>Powers of two\<close>

lemma ffs_Suc: "ffs x = Suc n \<longleftrightarrow> n < 32 \<and> bit x n \<and> (\<forall>j < n. \<not> bit x j)"
proof -
  have "ffs x = Suc n \<longleftrightarrow> find (bit x) [0..<32] = Some n" by (auto simp: ffs_def split: option.splits)
  also have "\<dots> \<longleftrightarrow> n < 32 \<and> bit x n \<and> (\<forall>j < n. \<not> bit x j)"
    unfolding find_Some_iff by (auto intro: exI [of _ n])
  finally show ?thesis .
qed

lemma ffs_0: "ffs x = 0 \<longleftrightarrow> x = 0"
proof
  assume "ffs x = 0"
  then have "find (bit x) [0..<32] = None" by (auto simp: ffs_def split: option.splits)
  then show "x = 0" by (intro bit_word_eqI) (auto simp: find_None_iff)
qed (simp add: ffs_def find_None_iff [THEN iffD2])

lemma ffs_power: "k < 32 \<Longrightarrow> ffs (push_bit k 1) = Suc k"
  by (auto simp: ffs_Suc bit_simps)

lemma shift_of_Suc: "ffs x = Suc n \<Longrightarrow> unat (shift_of x) = n"
proof -
  assume f: "ffs x = Suc n"
  have "n < 32" using f unfolding ffs_Suc by blast
  then have "n < 2 ^ LENGTH(8)" by simp
  then have "unat (of_nat n :: u8) = n" by (rule of_nat_inverse [rotated]) simp
  then show ?thesis by (simp add: shift_of_def f)
qed

lemma power_of_2_cases:
  "case power_of_2 msg x of
      Ok _ \<Rightarrow> \<exists>k \<le> 30. x = push_bit k 1 \<and> unat (shift_of x) = k
    | Exit m \<Rightarrow> m = msg \<and> x \<noteq> 0 \<and> (\<forall>k. x \<noteq> push_bit k 1)
    | Stuck \<Rightarrow> x = 0 \<or> (\<forall>j < 31. \<not> bit x j)"
proof (cases "ffs x")
  case 0
  have f: "ffs (0 :: u32) = 0" by (simp only: ffs_0)
  have x: "x = 0" using 0 by (simp only: ffs_0)
  have "31 \<le> shift_of 0" unfolding shift_of_def f by code_simp
  then show ?thesis unfolding x by (simp add: power_of_2_def)
next
  case (Suc n)
  note u = shift_of_Suc [OF Suc]
  have n: "n < 32" "bit x n" "\<forall>j < n. \<not> bit x j" using Suc unfolding ffs_Suc by blast+
  have nz: "x \<noteq> 0" using Suc ffs_0 [of x] by auto
  have k: "k = n" if "x = push_bit k 1" for k
  proof -
    have "k < 32" using nz that by (cases "k < 32") (auto simp: push_bit_eq_mult)
    then show ?thesis using ffs_power [of k] that Suc by simp
  qed
  show ?thesis
  proof (cases "n < 31")
    case False
    then have "n = 31" using n(1) by simp
    then show ?thesis using n(3) u by (simp add: power_of_2_def word_le_nat_alt)
  next
    case True
    then have lt: "\<not> 31 \<le> shift_of x" using u by (simp add: word_le_nat_alt)
    show ?thesis
    proof (cases "x = push_bit n 1")
      case yes: True
      have "power_of_2 msg x = Ok ()" unfolding power_of_2_def u using lt yes by simp
      moreover have "\<exists>k \<le> 30. x = push_bit k 1 \<and> unat (shift_of x) = k" using yes u True by (intro exI [of _ n]) auto
      ultimately show ?thesis by simp
    next
      case no: False
      have "power_of_2 msg x = Exit msg" unfolding power_of_2_def u fail_def using lt no by simp
      moreover have "x \<noteq> push_bit i 1" for i using k [of i] no by auto
      ultimately show ?thesis using nz by simp
    qed
  qed
qed

section \<open>Properties\<close>

text \<open>
  C36: \<open>mkfs\<close> goes on exactly with a segment shift from 13 to 30, a block shift of 12 and a write shift of
  at most 16 that is not above the segment shift, and stops with a message otherwise. The sizes are then
  the powers of two; the file system is cut to whole segments, and to 2^32 - 1 segments at most by the
  32-bit counter.
\<close>

theorem mkfs_geometry:
  fixes g :: globals and s :: super_block
  defines "s' \<equiv> set_geometry g s" and "k \<equiv> unat (g_segshift g)" and "j \<equiv> unat (g_writeshift g)"
  shows "case check_shifts g of
      Ok _ \<Rightarrow> 13 \<le> k \<and> k \<le> 30 \<and> j \<le> 16 \<and> j \<le> k \<and> g_blockshift g = 12
        \<and> unat (sb_segsize s') = 2 ^ k \<and> sb_blocksize s' = 4096 \<and> sb_blocksize_bits s' = 12
        \<and> sb_writesize s' = push_bit j 1
        \<and> unat (sb_no_segs s') = unat (sb_fssize s) div 2 ^ k mod 2 ^ 32
        \<and> unat (sb_fssize s') = unat (sb_no_segs s') * unat (sb_segsize s') \<and> sb_fssize s' \<le> sb_fssize s
        \<and> (unat (sb_fssize s) div 2 ^ k < 2 ^ 32 \<longrightarrow> unat (sb_fssize s) < unat (sb_fssize s') + unat (sb_segsize s'))
    | Exit m \<Rightarrow> \<not> (13 \<le> k \<and> k \<le> 30 \<and> j \<le> 16 \<and> j \<le> k \<and> g_blockshift g = 12)
    | Stuck \<Rightarrow> False"
proof (cases "13 \<le> k \<and> k \<le> 30 \<and> j \<le> 16 \<and> j \<le> k \<and> g_blockshift g = 12")
  case False
  then have "\<exists>m. check_shifts g = Exit m"
    by (auto simp: check_shifts_def fail_def k_def j_def word_le_nat_alt word_less_nat_alt)
  then show ?thesis using False by auto
next
  case True
  then have ok: "check_shifts g = Ok ()" by (auto simp: check_shifts_def k_def j_def word_le_nat_alt word_less_nat_alt)
  have seg: "unat (sb_segsize s') = 2 ^ k"
    using True unat_2p [of k, where 'a = 32] by (simp add: s'_def set_geometry_def k_def Let_def push_bit_eq_mult)
  let ?n = "ucast (drop_bit k (sb_fssize s)) :: u32"
  have n: "sb_no_segs s' = ?n" by (simp add: s'_def set_geometry_def k_def Let_def)
  have un: "unat ?n = unat (sb_fssize s) div 2 ^ k mod 2 ^ 32"
  proof -
    have "unat (drop_bit k (sb_fssize s)) = unat (sb_fssize s) div 2 ^ k" by (subst unat_drop_bit_eq) (rule drop_bit_eq_div)
    then show ?thesis by (simp add: unsigned_ucast_eq unsigned_take_bit_eq take_bit_eq_mod)
  qed
  let ?f = "unat (sb_fssize s)"
  have le: "?f div 2 ^ k mod 2 ^ 32 * 2 ^ k \<le> ?f"
    by (rule order_trans [OF mult_le_mono1 [OF mod_less_eq_dividend]]) (simp add: div_times_less_eq_dividend)
  have un64: "unat (ucast ?n :: u64) = unat ?n" by (rule unat_u32_u64)
  have p64: "unat (2 ^ k :: u64) = 2 ^ k" by (rule unat_2p) (use True in simp)
  have "?f < 2 ^ LENGTH(64)" by (rule unsigned_less)
  then have small: "unat ?n * 2 ^ k < 2 ^ 64" using le unfolding un by simp
  have "sb_fssize s' = ucast ?n * 2 ^ k" by (simp add: s'_def set_geometry_def k_def Let_def push_bit_eq_mult)
  then have fs: "unat (sb_fssize s') = unat ?n * 2 ^ k" using small by (simp add: unat_word_ariths un64 p64)
  have "?f < ?f div 2 ^ k * 2 ^ k + 2 ^ k" using dividend_less_div_times [of "2 ^ k" ?f] by simp
  then have "?f div 2 ^ k < 2 ^ 32 \<longrightarrow> ?f < unat (sb_fssize s') + unat (sb_segsize s')"
    unfolding fs seg un by simp
  moreover have "sb_blocksize s' = 4096" "sb_blocksize_bits s' = 12" "sb_writesize s' = push_bit j 1"
    using True by (simp_all add: s'_def set_geometry_def j_def Let_def)
  ultimately show ?thesis using ok True seg fs n un le by (simp add: word_le_nat_alt)
qed

lemma mkfs_geometry_witness:
  "unat (sb_no_segs (set_geometry initial_globals (zero_sb\<lparr>sb_fssize := 0x40F000\<rparr>))) = 16
     \<and> unat (sb_fssize (set_geometry initial_globals (zero_sb\<lparr>sb_fssize := 0x40F000\<rparr>))) = 0x400000"
proof -
  have "check_shifts initial_globals = Ok ()" by code_simp
  then show ?thesis using mkfs_geometry [of initial_globals "zero_sb\<lparr>sb_fssize := 0x40F000\<rparr>"]
    by (simp add: initial_globals_def)
qed

text \<open>
  For a size that the flash driver reports, \<open>__open_device\<close> computes the base-2 logarithm exactly for
  the powers of two up to 2^30 and rejects every other size, except that for 0 and 2^31 it shifts by more
  than an \<open>int\<close> allows.
\<close>

theorem power_of_2_correct:
  "case power_of_2 msg x of
      Ok _ \<Rightarrow> \<exists>k \<le> 30. x = push_bit k 1 \<and> unat (shift_of x) = k
    | Exit m \<Rightarrow> m = msg \<and> x \<noteq> 0 \<and> (\<forall>k. x \<noteq> push_bit k 1)
    | Stuck \<Rightarrow> x = 0 \<or> (\<forall>j < 31. \<not> bit x j)"
  by (rule power_of_2_cases)

lemma power_of_2_correct_witness: "power_of_2 ''m'' 131072 = Ok () \<and> power_of_2 ''m'' 12 = Exit ''m''"
proof -
  have "power_of_2 ''m'' 131072 \<noteq> Stuck" "power_of_2 ''m'' 12 \<noteq> Stuck" "power_of_2 ''m'' 131072 \<noteq> Exit ''m''"
    "power_of_2 ''m'' 12 \<noteq> Ok ()" by code_simp+
  then show ?thesis
    using power_of_2_correct [where msg = "''m''" and x = 131072] power_of_2_correct [where msg = "''m''" and x = 12]
    by (cases "power_of_2 ''m'' 131072"; cases "power_of_2 ''m'' 12") auto
qed

text \<open>
  C39: no run of \<open>getopt_long\<close> over the two tables returns a \<open>b\<close>, so the block shift cannot be set: with
  whatever options and device, the block size is 4096.
\<close>

definition getopt_char :: "char \<Rightarrow> bool" where
  "getopt_char c \<longleftrightarrow> c = CHR ''?'' \<or> c \<in> set (filter (\<lambda>c. c \<noteq> CHR '':'') short_opts) \<or> c \<in> (snd \<circ> snd) ` set long_opts"

theorem block_shift_fixed:
  assumes "\<forall>x \<in> set opts. getopt_char (fst x)" "handle_options H opts initial_globals = Ok g"
    "open_device H name g h s = Ok (g', w)"
  shows "g_blockshift (user_shifts g') = 12"
proof -
  have step: "g_user_blockshift g2 = g_user_blockshift g1 \<and> g_blockshift g2 = g_blockshift g1"
    if "getopt_char c" "handle_option H c arg g1 = Ok g2" for c arg g1 g2
    using that by (auto simp: getopt_char_def short_opts_def long_opts_def handle_option_def usage_exit_def Let_def split: if_splits)
  have "g_user_blockshift g = g_user_blockshift g0 \<and> g_blockshift g = g_blockshift g0"
    if "handle_options H os g0 = Ok g" "\<forall>x \<in> set os. getopt_char (fst x)" for os g0
    using that
  proof (induction os arbitrary: g0)
    case (Cons x os)
    obtain g1 where "handle_option H (fst x) (snd x) g0 = Ok g1" "handle_options H os g1 = Ok g"
      using Cons.prems(1) by (auto simp: and_then_Ok)
    then show ?case using Cons.IH [of g1] Cons.prems(2) step [of "fst x" "snd x" g0 g1] by simp
  qed simp
  then have "g_user_blockshift g = - 1 \<and> g_blockshift g = 12" using assms(1,2) by (simp add: initial_globals_def)
  moreover have "g_user_blockshift g' = g_user_blockshift g \<and> g_blockshift g' = g_blockshift g"
    using assms(3) by (auto simp: open_device_def open_mtd_def fail_def and_then_Ok Let_def split: prod.splits if_splits)
  ultimately show ?thesis by (simp add: user_shifts_def)
qed

definition file_host :: "unit host" where
  "file_host = \<lparr>sys_open = (\<lambda>_ w. (3, w)), sys_fstat = (\<lambda>_ w. (0, \<lparr>st_mode = 0x81A4, st_rdev_major = 0, st_size = 0x400000\<rparr>, w)),
     sys_memgetinfo = (\<lambda>_ w. (- 1, \<lparr>mtd_size = 0, mtd_erasesize = 0, mtd_writesize = 0\<rparr>, w)),
     sys_blkgetsize64 = (\<lambda>_ w. (- 1, 0, w)), sys_number = (\<lambda>_ w. (None, w)), sys_fsync = (\<lambda>_ w. w),
     c_basename = (\<lambda>s. s), c_strtoul = (\<lambda>_. 17)\<rparr>"

lemma block_shift_fixed_witness:
  "\<exists>g w. open_device file_host ''image'' (initial_globals\<lparr>g_user_segshift := 17\<rparr>) \<lparr>mem = Map.empty, ticks = 0, strategy = pool\<rparr> () = Ok (g, w)
     \<and> g_blockshift (user_shifts g) = 12"
proof -
  let ?h = "\<lparr>mem = Map.empty, ticks = 0, strategy = pool\<rparr> :: fsheap"
  have o: "handle_options file_host [(CHR ''s'', ''17'')] initial_globals = Ok (initial_globals\<lparr>g_user_segshift := 17\<rparr>)" by code_simp
  have "case open_device file_host ''image'' (initial_globals\<lparr>g_user_segshift := 17\<rparr>) ?h () of Ok _ \<Rightarrow> True | _ \<Rightarrow> False"
    by code_simp
  then obtain g w where "open_device file_host ''image'' (initial_globals\<lparr>g_user_segshift := 17\<rparr>) ?h () = Ok (g, w)"
    by (auto split: result.splits)
  from this block_shift_fixed [OF _ o this] show ?thesis by (auto simp: getopt_char_def short_opts_def)
qed

end
