(* ===== verification/Layout.thy ===== *)
theory Layout
  imports Main Format Prepare Geometry
begin

text \<open>
  \<open>mkfs\<close> from an opened device to the files on it: the geometry, the segments of the super blocks and the
  journal, and the files, as one run.
\<close>

section \<open>Preparing leaves the areas and the heap alone\<close>

definition prepared :: "'w world \<Rightarrow> 'w world \<Rightarrow> bool" where
  "prepared w w' \<longleftrightarrow> seg_frame w w' \<and> sb_area (sb w') = sb_area (sb w) \<and> segs_ok w' \<and> erase_ok (sb w')
     \<and> length (sb_journal_seg (sb w')) = length (sb_journal_seg (sb w))"

lemma prepared_trans: "prepared w w1 \<Longrightarrow> prepared w1 w2 \<Longrightarrow> prepared w w2"
  using seg_frame_trans [of w w1 w2] by (simp add: prepared_def)

lemma second_super_loop_prepared:
  assumes "segs_ok w" "erase_ok (sb w)" "segno < sb_no_segs (sb w)"
  shows "\<exists>r w'. second_super_loop L segno w = Ok (r, w') \<and> prepared w w'"
  using assms
proof (induction "unat segno" arbitrary: segno w rule: less_induct)
  case less
  show ?case
  proof (cases "segno > sb_no_segs (sb w) - 64")
    case False
    then have "second_super_loop L segno w = Ok (segno, w)" by (subst second_super_loop.simps) simp
    then show ?thesis using less.prems by (simp add: prepared_def seg_frame_def)
  next
    case True
    obtain err s where e: "mtd_erase L (segment_ofs segno w) (unat (sb_segsize (sb w))) w = Ok (err, w\<lparr>os := s\<rparr>)"
      using mtd_erase_os [of L "segment_ofs segno w" _ w] by blast
    have ok: "segs_ok (w\<lparr>os := s\<rparr>)" "prepared w (w\<lparr>os := s\<rparr>)"
      using less.prems by (simp_all add: segs_ok_def prepared_def seg_frame_def)
    have n: "unat segno < length (sb_segment_entry (sb w))"
      using less.prems by (simp add: segs_ok_def word_less_nat_alt)
    show ?thesis
    proof (cases "err = 0")
      case z: True
      then show ?thesis using True e n less.prems
        by (subst second_super_loop.simps) (simp add: reserve_segment_def set_entry_def prepared_def seg_frame_def segs_ok_def)
    next
      case nz: False
      have p: "unat (segno - 1) < unat segno" by (rule unat_pred [OF True])
      then have "segno - 1 < sb_no_segs (sb (w\<lparr>os := s\<rparr>))"
        using less.prems(3) by (simp add: word_less_nat_alt)
      then obtain r w' where "second_super_loop L (segno - 1) (w\<lparr>os := s\<rparr>) = Ok (r, w')" "prepared (w\<lparr>os := s\<rparr>) w'"
        using less.hyps [OF p ok(1)] less.prems(2) by auto
      then show ?thesis using True e nz prepared_trans [OF ok(2)]
        by (subst second_super_loop.simps) auto
    qed
  qed
qed

lemma first_super_prepared:
  assumes "segs_ok w" "posix_pwrite L disk budget" "erase_ok (sb w)"
  shows "gives False (first_super L w) (\<lambda>w'. prepared w w' \<and> 0 < unat (sb_no_segs (sb w)))"
proof (cases rule: first_super_outcome [OF assms, case_names got out])
  case (got segno w')
  have "segno < sb_no_segs (sb w)" using got(2) by (simp add: taken_def)
  then have "0 < unat (sb_no_segs (sb w))" by (simp add: word_less_nat_alt)
  then show ?thesis using got assms(3) by (simp add: prepared_def taken_def)
qed (auto simp: gives_def space_message_def)

lemma prepare_sb_prepared:
  assumes "segs_ok w" "posix_pwrite L disk budget" "erase_ok (sb w)"
  shows "gives False (prepare_sb L w) (\<lambda>(err, w'). prepared w w')"
proof (cases "sb_dev_ops (sb w)")
  case Mtd_ops
  have "gives False (mtd_prepare_sb L w) (\<lambda>(err, w'). prepared w w')" unfolding mtd_prepare_sb_def
  proof (rule gives_and_then [OF first_super_prepared [OF assms]])
    fix w1 assume p: "prepared w w1 \<and> 0 < unat (sb_no_segs (sb w))"
    then have w1: "segs_ok w1" "erase_ok (sb w1)" "0 < sb_no_segs (sb w1)"
      by (simp_all add: prepared_def seg_frame_def word_less_nat_alt)
    have "sb_no_segs (sb w1) - 1 < sb_no_segs (sb w1)" unfolding word_less_nat_alt by (rule unat_pred [OF w1(3)])
    then obtain r w2 where "second_super_loop L (sb_no_segs (sb w1) - 1) w1 = Ok (r, w2)" "prepared w1 w2"
      using second_super_loop_prepared [OF w1(1,2)] by blast
    then show "gives False (and_then (second_super_loop L (sb_no_segs (sb w1) - 1) w1) (\<lambda>(segno, w).
       Ok (if segno = sb_no_segs (sb w) - 64 \<or> sb_ofs2 (sb w) \<le> sb_ofs1 (sb w) then - EIO else 0, w))) (\<lambda>(err, w'). prepared w w')"
      using p prepared_trans [of w w1 w2] by simp
  qed
  then show ?thesis using Mtd_ops by (simp add: prepare_sb_def)
next
  case Bdev_ops
  have "gives False (bdev_prepare_sb L w) (\<lambda>(err, w'). prepared w w')"
    by (cases rule: bdev_prepare_outcome [OF assms]) (auto simp: gives_def prepared_def space_message_def)
  then show ?thesis using Bdev_ops by (simp add: prepare_sb_def)
qed

lemma prepare_journal_prepared:
  assumes "segs_ok w" "posix_pwrite L disk budget" "erase_ok (sb w)" "length (sb_journal_seg (sb w)) = LOGFS_JOURNAL_SEGS"
    "unat (g_no_journal_segs g) \<le> LOGFS_JOURNAL_SEGS"
  shows "gives False (prepare_journal L g w) (prepared w)"
  using journal_loop_outcome [OF assms(1-3), of 0 "unat (g_no_journal_segs g)"] assms(4,5)
  by (auto simp: prepare_journal_def gives_def prepared_def space_message_def)

section \<open>What \<open>mkfs\<close> begins with\<close>

text \<open>The super block of a device that was opened and is not yet written to.\<close>

definition opened :: "'w world \<Rightarrow> bool" where
  "opened w \<longleftrightarrow> alloc_ok (hp w) \<and> sb_area (sb w) = replicate LOGFS_NO_AREAS zero_area \<and> sb_ino_tree (sb w) = btree_init
     \<and> sb_lastseg (sb w) = 0 \<and> sb_erase_buf (sb w) = None \<and> length (sb_journal_seg (sb w)) = LOGFS_JOURNAL_SEGS"

lemma open_device_opened:
  assumes "open_device H name g h s = Ok (g', w)" "alloc_ok h"
  shows "opened w"
proof -
  have "alloc_ok (snd (malloc_buf h))" using assms(2) by (simp add: malloc_buf_def alloc_ok_def)
  then show ?thesis using assms(1)
    by (auto simp: open_device_def open_mtd_def zero_sb_def opened_def fail_def and_then_Ok Let_def split: prod.splits if_splits)
qed

text \<open>The state in which \<open>mkfs\<close>, its shifts set, goes over to \<open>prepare_sb\<close>.\<close>

definition mkfs_start :: "globals \<Rightarrow> 'w world \<Rightarrow> 'w world" where
  "mkfs_start g w = w\<lparr>hp := snd (malloc_buf (hp w)), sb := (set_geometry g (sb w))\<lparr>sb_segment_entry :=
     replicate (unat (sb_no_segs (set_geometry g (sb w)))) \<lparr>se_ec_level = 0, se_valid = 0\<rparr>\<rparr>\<rparr>"

lemma mkfs_start_ready:
  assumes o: "opened w" and c: "check_shifts g = Ok ()" and n: "unat (sb_no_segs (sb (mkfs_start g w))) \<le> 2 ^ 18"
  shows "fs_inv (mkfs_start g w)" "seg_inv (mkfs_start g w)" "geo_4k (sb (mkfs_start g w))" "erase_ok (sb (mkfs_start g w))"
    "ino_ptr (mkfs_start g w) ino = None" "length (sb_journal_seg (sb (mkfs_start g w))) = LOGFS_JOURNAL_SEGS"
    "\<forall>i < LOGFS_NO_AREAS. a_buf (sb_area (sb (mkfs_start g w)) ! i) = None"
proof -
  let ?w = "mkfs_start g w"
  have g: "13 \<le> unat (g_segshift g)" "unat (sb_segsize (sb ?w)) = 2 ^ unat (g_segshift g)" "sb_blocksize (sb ?w) = 4096"
    "sb_blocksize_bits (sb ?w) = 12"
    using mkfs_geometry [of g "sb w"] c by (simp_all add: mkfs_start_def)
  have t: "sb_area (sb ?w) = replicate LOGFS_NO_AREAS zero_area" "sb_ino_tree (sb ?w) = btree_init" "sb_lastseg (sb ?w) = 0"
    "sb_erase_buf (sb ?w) = None" "length (sb_journal_seg (sb ?w)) = LOGFS_JOURNAL_SEGS"
    "length (sb_segment_entry (sb ?w)) = unat (sb_no_segs (sb ?w))"
    using o by (simp_all add: opened_def mkfs_start_def set_geometry_def Let_def)
  have al: "alloc_ok (hp ?w)" using o by (simp add: opened_def mkfs_start_def malloc_buf_def alloc_ok_def)
  then have "fs_ok k (hp ?w) (sb_ino_tree (sb ?w)) \<lparr>own = (\<lambda>_. None), ino_tower = [], blk_tower = (\<lambda>_ _. [])\<rparr>" for k
    using t(2) by (simp add: fs_ok_def tree_def)
  then show "fs_inv ?w" by (rule fs_invI)
  have "(2 :: nat) ^ 13 \<le> 2 ^ unat (g_segshift g)" using g(1) by (intro power_increasing) simp_all
  then have "8192 \<le> unat (sb_segsize (sb ?w))" using g(2) by simp
  moreover have "segs_ok ?w" using n t(3,6) by (simp add: segs_ok_def word_less_nat_alt)
  ultimately show "seg_inv ?w" using t(1) g(3)
    by (simp add: seg_inv_but_def area_ok_def zero_area_def abi_sizes abi_levels)
  show "geo_4k (sb ?w)" "erase_ok (sb ?w)" using g(3,4) t(4) by (simp_all add: geo_4k_def erase_ok_def)
  show "ino_ptr ?w ino = None" using t(2) by (simp add: ino_ptr_def seen_def btree_init_def btree_lookup_def)
  show "length (sb_journal_seg (sb ?w)) = LOGFS_JOURNAL_SEGS" by (rule t(5))
  show "\<forall>i < LOGFS_NO_AREAS. a_buf (sb_area (sb ?w) ! i) = None" using t(1) by (simp add: zero_area_def)
qed

lemma prepared_ready:
  assumes p: "prepared w w'" and fs: "fs_inv w" and s: "seg_inv w" and g: "geo_4k (sb w)"
    and a: "\<forall>i < LOGFS_NO_AREAS. a_buf (sb_area (sb w) ! i) = None"
  shows "fs_inv w'" "seg_inv w'" "geo_4k (sb w')" "erase_ok (sb w')" "ino_ptr w' = ino_ptr w" "sb_no_segs (sb w') = sb_no_segs (sb w)"
    "below_4g (sb w') = below_4g (sb w)" "\<forall>i < LOGFS_NO_AREAS. a_buf (sb_area (sb w') ! i) = None"
    "strategy (hp w') = strategy (hp w)"
proof -
  have fr: "seg_frame w w'" using p by (simp add: prepared_def)
  show "fs_inv w'" "ino_ptr w' = ino_ptr w" using frame_files [OF fs fr] by (simp_all add: same_files_def)
  show "geo_4k (sb w')" "erase_ok (sb w')" "sb_no_segs (sb w') = sb_no_segs (sb w)" "below_4g (sb w') = below_4g (sb w)"
    "strategy (hp w') = strategy (hp w)"
    using p fr g by (simp_all add: prepared_def seg_frame_def geo_4k_def below_4g_def seg_ofs_def)
  show "\<forall>i < LOGFS_NO_AREAS. a_buf (sb_area (sb w') ! i) = None" using p a by (simp add: prepared_def)
  then show "seg_inv w'" using p fr s a
    by (simp add: prepared_def seg_frame_def seg_inv_but_def area_ok_def)
qed

section \<open>The run\<close>

text \<open>\<open>mkfs\<close> up to \<open>flush_segments\<close>.\<close>

definition lay_out :: "'w lib \<Rightarrow> globals \<Rightarrow> 'w world \<Rightarrow> 'w world result" where
  "lay_out L g w =
     and_then (check ''could not erase two superblocks'' (prepare_sb L w)) (\<lambda>w.
     and_then (prepare_journal L g w) (write_files L g))"

lemma mkfs_lay_out:
  "mkfs L fsync inp g w = (let g = user_shifts g in
     and_then (check_shifts g) (\<lambda>_. and_then (confirm g inp) (\<lambda>_.
       if \<not> fst (malloc_buf (hp w)) then Stuck
       else and_then (lay_out L g (mkfs_start g w)) (\<lambda>w.
         and_then (check_g ''could not create journal'' (make_journal L g w)) (\<lambda>(g, w).
         and_then (check_g ''could not create superblock'' (make_super L g w)) (\<lambda>(g, w).
           Ok (g, w\<lparr>os := fsync (sb_fd (sb w)) (os w)\<rparr>)))))))"
  by (simp add: mkfs_def write_fs_files lay_out_def and_then_assoc mkfs_start_def case_prod_unfold Let_def cong: if_cong)

abbreviation lay_out_messages :: "string set" where
  "lay_out_messages \<equiv> {''no more free segments'', ''out of memory'', ''could not erase two superblocks'',
     ''could not write segment file'', ''could not create root inode'', ''could not write segments''}"

lemma gives_false: "gives False r P \<Longrightarrow> gives B r P"
  by (erule gives_mono) simp_all

lemma lay_out_ends:
  assumes L: "posix_pwrite L disk budget" "mtd_erases L disk" and r: "fs_inv w" "seg_inv w" "geo_4k (sb w)" "erase_ok (sb w)"
    "\<And>ino. ino_ptr w ino = None" "length (sb_journal_seg (sb w)) = LOGFS_JOURNAL_SEGS"
    "\<forall>i < LOGFS_NO_AREAS. a_buf (sb_area (sb w) ! i) = None"
    and j: "unat (g_no_journal_segs g) \<le> LOGFS_JOURNAL_SEGS" and n: "unat (sb_no_segs (sb w)) \<le> 2 ^ 18" "below_4g (sb w)"
  shows "ends (ran_out Map.empty w) lay_out_messages (lay_out L g w)
     (\<lambda>w'. fs_inv w' \<and> formatted L (disk (os w')) (sb_no_segs (sb w)) (old_di w'))"
  unfolding lay_out_def
proof (rule ends_and_then [where P = "prepared w"])
  let ?Q = "\<lambda>w'. fs_inv w' \<and> formatted L (disk (os w')) (sb_no_segs (sb w)) (old_di w')"
  have so: "segs_ok w" using r(2) by (simp add: seg_inv_but_def)
  show "ends (ran_out Map.empty w) lay_out_messages (check ''could not erase two superblocks'' (prepare_sb L w)) (prepared w)"
    by (rule ends_check [OF gives_mono [OF prepare_sb_prepared [OF so L(1) r(4)]]]) auto
  fix w1 assume p: "prepared w w1"
  note p1 = prepared_ready [OF p r(1-3,7)]
  have s1: "segs_ok w1" "length (sb_journal_seg (sb w1)) = LOGFS_JOURNAL_SEGS" using p r(6) by (simp_all add: prepared_def)
  show "ends (ran_out Map.empty w) lay_out_messages (and_then (prepare_journal L g w1) (write_files L g)) ?Q"
  proof (rule ends_and_then [where P = "prepared w1"])
    show "ends (ran_out Map.empty w) lay_out_messages (prepare_journal L g w1) (prepared w1)"
      using prepare_journal_prepared [OF s1(1) L(1) p1(4) s1(2) j] by (auto simp: ends_def gives_def split: result.splits)
    fix w2 assume q: "prepared w1 w2"
    note p2 = prepared_ready [OF q p1(1-3,8)]
    have i: "ino_ptr w2 ino = None" for ino using p2(5) p1(5) r(5) by simp
    have ns: "sb_no_segs (sb w2) = sb_no_segs (sb w)" and b: "below_4g (sb w2)" using p2(6,7) p1(6,7) n(2) by simp_all
    have ro: "ran_out Map.empty w2 \<Longrightarrow> ran_out Map.empty w"
      by (erule ran_out_mono) (use p2(9) p1(9) r(5) in simp_all)
    have "case write_files L g w2 of Ok w' \<Rightarrow> ?Q w'
      | Exit msg \<Rightarrow> msg \<in> {''no more free segments'', ''out of memory'', ''could not write segment file'',
          ''could not create root inode'', ''could not write segments''}
      | Stuck \<Rightarrow> ran_out Map.empty w2"
      using files_are_formatted [OF L p2(1-4) b i] n(1) unfolding ns by blast
    then show "ends (ran_out Map.empty w) lay_out_messages (write_files L g w2) ?Q"
      using ro by (cases "write_files L g w2") (auto simp: ends_def)
  qed
qed

section \<open>Properties\<close>


definition blank_world :: "toy world" where
  "blank_world = \<lparr>sb = zero_sb\<lparr>sb_fd := 3, sb_fssize := 0x1000000\<rparr>, hp = \<lparr>mem = Map.empty, ticks = 0, strategy = pool\<rparr>,
     os = \<lparr>toy_disk = (\<lambda>_. 0), toy_signals = 2\<rparr>\<rparr>"


end
