(* ===== verification/Fsck.thy ===== *)
theory Fsck
  imports Main Mklogfs
begin

text \<open>
  fsck.c: the command line of \<open>logfsck\<close>. The program is a stub: it never opens the device it is given.
\<close>

section \<open>The command line\<close>

definition fsck_short_opts :: string where
  "fsck_short_opts = ''h''"

definition fsck_long_opts :: "(string \<times> bool \<times> char) list" where
  "fsck_long_opts = [(''help'', False, CHR ''h'')]"

definition fsck_option :: "char \<Rightarrow> unit result" where
  "fsck_option c = (if c = CHR ''h'' then usage_exit 0 else fail ''unknown option'')"

text \<open>What \<open>getopt_long\<close> returns until -1, one character each.\<close>

primrec fsck_options :: "char list \<Rightarrow> unit result" where
  "fsck_options [] = Ok ()"
| "fsck_options (c # opts) = and_then (fsck_option c) (\<lambda>_. fsck_options opts)"

text \<open>\<open>args\<close> is what is left of the command line behind the options; the result is what is printed.\<close>

definition logfsck :: "'w lib \<Rightarrow> char list \<Rightarrow> string list \<Rightarrow> string result" where
  "logfsck L opts args =
     and_then (check_crc32 L) (\<lambda>_.
     and_then (fsck_options opts) (\<lambda>_.
       if length args \<noteq> 1 then usage_exit 1 else Ok ''foo''))"

section \<open>What it tells\<close>

lemma fsck_options_stop: "fsck_options opts = Ok () \<longleftrightarrow> opts = []"
  by (cases opts) (auto simp: fsck_option_def usage_exit_def fail_def)

text \<open>
  With a zlib that works, exactly the command lines of one operand and no option end well, whatever the
  operand is.
\<close>

lemma logfsck_outcome:
  assumes "check_crc32 L = Ok ()"
  shows "logfsck L opts args = Ok out \<longleftrightarrow> opts = [] \<and> length args = 1 \<and> out = ''foo''"
proof (cases "fsck_options opts")
  case (Ok u)
  then show ?thesis using assms fsck_options_stop [of opts] by (auto simp: logfsck_def usage_exit_def)
next
  case (Exit m)
  then show ?thesis using assms by (auto simp: logfsck_def)
next
  case Stuck
  then show ?thesis using assms by (auto simp: logfsck_def)
qed

end
