(* ===== verification/Spec2Isabelle.thy ===== *)
theory Spec2Isabelle
  imports Main Btree_Typed Super Layout Fsck
begin

text \<open>
  A verification library for logfsprogs: \<open>mklogfs\<close>, which makes a LogFS file system on a flash device or
  a block device, and \<open>logfsck\<close>, the beginning of a checker.

  \<^bold>\<open>The program.\<close> \<open>main\<close> (mkfs.c) reads the options, opens the device (\<open>__open_device\<close>) and calls \<open>mkfs\<close>.
  \<open>mkfs\<close> checks the geometry, reserves the segments of the two super blocks (\<open>prepare_sb\<close>, one version for
  each kind of device) and of the journal (\<open>prepare_journal\<close>), writes the segment file and the root
  directory as files (readwrite.c), which turns them into objects in segments (segment.c), flushes the
  open segments, and writes the journal (\<open>make_journal\<close>) and the super blocks (\<open>make_super\<close>). Inodes and
  indirect blocks wait in B+trees in memory (btree.c, through the wrappers of btree.h). logfs_abi.h has the
  format of what lies on the device, kerncompat.h what the code borrowed from the kernel needs.

  \<^bold>\<open>How it is modelled.\<close> The program runs on a 64-bit little-endian machine; an integer of the code is a
  word of its width. A function that returns is \<open>Ok\<close> of its result and the new state (in the tree:
  \<open>Some\<close>); \<open>Exit\<close> is the end of the program by \<open>fail\<close>; \<open>Stuck\<close> (in the tree: \<open>None\<close>) is everything the
  program does not survive: a \<open>BUG\<close>, an access outside an object, an undefined shift, a loop that does not
  end. Error codes are returned values, as in the code. The state is \<open>world\<close>: the super block
  (\<open>super_block\<close>, the C structure of that name), the heap (tree nodes, inodes, indirect blocks, with
  \<open>malloc\<close> as a parameter of the heap), and the state of the operating system, of any type. The system
  calls and zlib are the fields of \<open>lib\<close>.

  \<^bold>\<open>Theories\<close>, in the order of the code.
  \<^item> Prelude: names of the C types, lemma collections, generic lemmas.
  \<^item> Btree_Node, Btree_Slots, Btree: btree.c. The heap of nodes, the accessors of a node's slots
    (\<open>bkey\<close>, \<open>bval\<close>, \<open>setkey\<close>, \<open>keycmp\<close>, ...), then \<open>btree_lookup\<close>, \<open>btree_last\<close>, \<open>btree_insert\<close> (with
    \<open>btree_split\<close>, \<open>find_level\<close>, \<open>btree_grow\<close>), \<open>btree_remove\<close> (with \<open>rebalance\<close>, \<open>merge\<close>, \<open>steal_l\<close>,
    \<open>steal_r\<close>, \<open>btree_shrink\<close>), \<open>btree_merge\<close> and the visitors. Insertion runs on fuel, \<open>3 * height + 3\<close>
    calls; \<open>insert_correct\<close> shows that it never runs out. Removal ends because levels go up to the height.
  \<^item> Btree_Loops, Btree_Tower, Btree_Insert, Btree_Lookup, Btree_Remove, Btree_Walk: the invariant. A tree
    is a \<open>tower\<close>, the list of its levels from the leaves up, each a list of nodes with their entries;
    \<open>tree g h head T\<close> says that the heap holds it, with order, separators and fill. Each operation is
    shown to change the tower as it should and to touch nothing else in the heap (\<open>changes\<close>).
  \<^item> Btree_Api: what a caller relies on: the tree as a finite map (\<open>dict\<close>). Btree_Typed: the wrappers of
    btree.h, their interface as locales (\<open>word_map\<close>, \<open>ordered_word_map\<close>, \<open>key_code\<close>), proved for the
    wrappers for 64-bit and 128-bit keys, and a simulation of a client of the interface.
  \<^item> Kerncompat, Abi, Logfs: kerncompat.h; the constants and structures of logfs_abi.h with their bytes;
    logfs.h and lib.c (\<open>zalloc\<close>, \<open>logfs_crc32\<close>, \<open>check_crc32\<close>, \<open>ec_level\<close>).
  \<^item> Device: \<open>safe_pwrite\<close> and the two tables of device operations, with the laws of \<open>pwrite\<close>
    (\<open>posix_pwrite\<close>).
  \<^item> Inode: \<open>find_or_create_inode\<close> and \<open>find_or_create_block\<close>. \<open>fs_inv\<close>: every object of the heap has one
    owner; the trees own their nodes, their entries the inodes and the blocks. The lemmas say what the
    program can see: pointers, inodes and blocks by number, level and index.
  \<^item> Segment, Segment_Write: segment.c. \<open>seg_inv\<close>: open areas write to segments that were handed out, no
    two to the same one, within their buffers. Handing out segments, opening and closing areas, writing an
    object, flushing. Store: the segments as a log, in which what was written stays.
  \<^item> Readwrite: the indices of indirect blocks, \<open>logfs_file_write\<close> and \<open>logfs_file_flush\<close>, with what a
    write does. Flush: what a flush does. \<open>moved_up\<close> is one round of its inner loop, \<open>level_moved\<close> a
    level, \<open>levels_moved\<close> all levels below the top, \<open>top_written\<close> the last block. \<open>held\<close> and \<open>reach\<close>
    follow the path of a block from the heap or from an offset down to its object. The loops are
    \<open>partial_function\<close>s; they end because a round leaves one block less at its level, and there are at most
    three levels (\<open>bixmask\<close> of a fourth is an undefined shift).
  \<^item> Files: a run of writes and flushes over any number of files (\<open>file_run\<close>) and the files as a reader
    finds them on the device (\<open>readable\<close>). The blocks are below \<open>512^3\<close> and not among those for which
    \<open>grow_inode\<close> stops too early, and a file is not written to after its flush, which \<open>mkfs\<close> never does:
    a new indirect block would then take the place of the one on the device.
  \<^item> Journal, Journal_Read: the journal and the super blocks as bytes; a reader of the journal, as the
    kernel reads it, gets back what \<open>make_journal\<close> put into it.
  \<^item> Mkfs, Mklogfs: \<open>prepare_sb\<close>, \<open>prepare_journal\<close>, the segment file, the root directory, \<open>mkfs\<close>; opening
    the device, the options and \<open>main\<close>. Prepare, Super, Geometry: what they guarantee.
  \<^item> Format, Layout: \<open>mkfs\<close> as a whole up to the journal (\<open>lay_out\<close>, and \<open>mkfs_lay_out\<close> for what is around
    it). The calls are chained by \<open>runs\<close>: a call comes back with an error or keeps the invariant of the
    files. The segment file and the root directory are then on the device, reachable from the master
    inode, which the journal holds. At most \<open>2^18\<close> segments: with up to 512 more, the last block of the
    segment file is one for which \<open>grow_inode\<close> stops too early. The journal and the super blocks are
    written behind \<open>lay_out\<close>, to segments that were handed out before it; that the second super block
    can lie over an object is shown in Prepare.
  \<^item> Fsck: fsck.c, a stub that only reads its command line.

  \<^bold>\<open>Parameters and their laws.\<close> \<open>alloc_ok\<close>: \<open>malloc\<close> returns fresh memory or NULL. \<open>posix_pwrite\<close>: \<open>pwrite\<close>
  writes a prefix of the buffer or fails, and signals interrupt it only finitely often (\<open>budget\<close>).
  \<open>mtd_erases\<close>: erasing changes nothing outside its range. \<open>inflates\<close> and \<open>deflate_bounded\<close>: zlib's
  compression can be undone and keeps to its output buffer. Where \<open>malloc\<close> fails the program crashes
  (\<open>zalloc\<close> clears the memory first), and the theorems name this case (\<open>ran_out\<close>, \<open>malloc_null\<close>).

  \<^bold>\<open>Not modelled.\<close> What \<open>mkfs\<close> and \<open>usage\<close> print. \<open>hexdump\<close>, the dump functions under \<open>#if 0\<close> and the code under \<open>AGGRESSIVE_COMPACTION\<close>,
  which are not called or not compiled. The parts of logfs_abi.h that only the kernel uses. Attributes and
  type names of kerncompat.h that carry no behaviour.
\<close>

end
